(* ===== verification/Prelude.thy ===== *)
theory Prelude
  imports Main "HOL-Library.Word"
begin

text \<open>
  Shared vocabulary of the development: the result type of kernel code that may panic, the
  log of calls to the spin locks (code outside the repository), list lemmas the components
  share, and the named collections the component proofs use.
\<close>

unbundle bit_operations_syntax

section \<open>Collections of facts\<close>

named_theorems riscv_defs \<open>the constants and macros of riscv.h\<close>
named_theorems frame \<open>what an operation leaves unchanged\<close>
named_theorems wf_pres \<open>preservation of well-formedness invariants\<close>

section \<open>Results of code that may panic\<close>

text \<open>
  \<^verbatim>\<open>panic(msg)\<close> stops the kernel. A function that may panic returns a \<open>res\<close>: \<open>Ok\<close> of its
  result, or \<open>Panic\<close> with the message of the call of \<^verbatim>\<open>panic\<close> that was reached.
\<close>

datatype 'a res = Ok 'a | Panic string

fun rbind :: "'a res \<Rightarrow> ('a \<Rightarrow> 'b res) \<Rightarrow> 'b res" where
  "rbind (Ok x) f = f x"
| "rbind (Panic e) f = Panic e"

lemma rbind_eq_Ok [simp]: "rbind m f = Ok y \<longleftrightarrow> (\<exists>x. m = Ok x \<and> f x = Ok y)"
  by (cases m) auto

lemma rbind_eq_Panic: "rbind m f = Panic e \<longleftrightarrow> m = Panic e \<or> (\<exists>x. m = Ok x \<and> f x = Panic e)"
  by (cases m) auto

lemma rbind_assoc: "rbind (rbind m f) g = rbind m (\<lambda>x. rbind (f x) g)"
  by (cases m) auto

lemma rbind_cong [fundef_cong]:
  "m = m' \<Longrightarrow> (\<And>x. m' = Ok x \<Longrightarrow> f x = g x) \<Longrightarrow> rbind m f = rbind m' g"
  by (cases m') auto

section \<open>Calls to the spin locks\<close>

text \<open>
  \<^verbatim>\<open>spinlock.c\<close> is not part of the repository. A component that uses locks logs the calls it
  makes, oldest first; \<open>lock_run\<close> replays a log from a set of held locks and is \<open>None\<close> as
  soon as a held lock is acquired again or a lock that is not held is released.
\<close>

datatype 'l lock_call = Push_off | Pop_off | Acquire 'l | Release 'l

fun lock_run :: "'l set \<Rightarrow> 'l lock_call list \<Rightarrow> 'l set option" where
  "lock_run H [] = Some H"
| "lock_run H (Push_off # cs) = lock_run H cs"
| "lock_run H (Pop_off # cs) = lock_run H cs"
| "lock_run H (Acquire l # cs) = (if l \<in> H then None else lock_run (insert l H) cs)"
| "lock_run H (Release l # cs) = (if l \<in> H then lock_run (H - {l}) cs else None)"

lemma lock_run_append:
  "lock_run H (xs @ ys) = (case lock_run H xs of None \<Rightarrow> None | Some H' \<Rightarrow> lock_run H' ys)"
  by (induction H xs rule: lock_run.induct) auto

lemma lock_run_append_Some [simp]:
  "lock_run H xs = Some H' \<Longrightarrow> lock_run H (xs @ ys) = lock_run H' ys"
  by (simp add: lock_run_append)

section \<open>Words\<close>

lemma word_less_exp_bit: "(w :: 'a :: len word) < 2 ^ n \<Longrightarrow> bit w k \<Longrightarrow> k < n"
  by (metis bit_and_iff bit_mask_iff less_mask_eq)

section \<open>Lists\<close>

lemma in_concat_nth: "x \<in> set (concat xss) \<longleftrightarrow> (\<exists>i<length xss. x \<in> set (xss ! i))"
  by (simp, metis in_set_conv_nth)

lemma set_concat_update_Cons:
  assumes "i < length xss"
  shows "set (concat (xss[i := x # xss ! i])) = insert x (set (concat xss))"
  using assms
proof (induction xss arbitrary: i)
  case Nil
  then show ?case by simp
next
  case (Cons ys xss)
  then show ?case by (cases i) auto
qed

lemma distinct_concat_update_Cons:
  assumes "distinct (concat xss)" "i < length xss" "x \<notin> set (concat xss)"
  shows "distinct (concat (xss[i := x # xss ! i]))"
  using assms
proof (induction xss arbitrary: i)
  case Nil
  then show ?case by simp
next
  case (Cons ys xss)
  show ?case
  proof (cases i)
    case 0
    with Cons.prems show ?thesis by auto
  next
    case (Suc j)
    with Cons.prems have j: "j < length xss" by simp
    have "distinct (concat (xss[j := x # xss ! j]))"
      using Cons.prems j by (intro Cons.IH) auto
    moreover have "set ys \<inter> set (concat (xss[j := x # xss ! j])) = {}"
      using Cons.prems unfolding set_concat_update_Cons [OF j] by auto
    ultimately show ?thesis using Suc Cons.prems by simp
  qed
qed

lemma concat_update_tl:
  assumes "distinct (concat xss)" "i < length xss" "xss ! i = x # ys"
  shows "distinct (concat (xss[i := ys])) \<and>
    set (concat (xss[i := ys])) = set (concat xss) - {x} \<and> x \<in> set (concat xss)"
  using assms
proof (induction xss arbitrary: i)
  case Nil
  then show ?case by simp
next
  case (Cons zs xss)
  show ?case
  proof (cases i)
    case 0
    with Cons.prems show ?thesis by auto
  next
    case (Suc j)
    with Cons.prems have "x \<notin> set zs" by (fastforce dest: nth_mem)
    with Cons Suc show ?thesis by auto
  qed
qed

end
