(* ===== verification/Riscv.thy ===== *)
theory Riscv
  imports Prelude
begin

text \<open>
  The page and page-table macros of \<^verbatim>\<open>kernel/riscv.h\<close> (lab 4) on 64-bit words, and the
  physical memory the kernel works on. Memory is organised in pages of 512 cells of 64 bits:
  \<open>ram m p i\<close> is the 64-bit cell \<open>i\<close> of the page whose (page-aligned) base address is \<open>p\<close>.
  Every 64-bit access of the modelled code is to an aligned cell of a page; bytes are read
  and written through the cell that holds them, in the machine's little-endian order.
\<close>

section \<open>Constants and macros\<close>

type_synonym u64 = "64 word"
type_synonym u32 = "32 word"
type_synonym u8 = "8 word"

definition PGSIZE :: u64 where
  "PGSIZE = 4096"

definition PGROUNDUP :: "u64 \<Rightarrow> u64" where
  "PGROUNDUP sz = (sz + PGSIZE - 1) AND NOT (PGSIZE - 1)"

definition PGROUNDDOWN :: "u64 \<Rightarrow> u64" where
  "PGROUNDDOWN a = a AND NOT (PGSIZE - 1)"

definition PTE_V :: u64 where "PTE_V = push_bit 0 1"
definition PTE_R :: u64 where "PTE_R = push_bit 1 1"
definition PTE_W :: u64 where "PTE_W = push_bit 2 1"
definition PTE_X :: u64 where "PTE_X = push_bit 3 1"
definition PTE_U :: u64 where "PTE_U = push_bit 4 1"

definition PA2PTE :: "u64 \<Rightarrow> u64" where
  "PA2PTE pa = push_bit 10 (drop_bit 12 pa)"

definition PTE2PA :: "u64 \<Rightarrow> u64" where
  "PTE2PA pte = push_bit 12 (drop_bit 10 pte)"

definition PTE_FLAGS :: "u64 \<Rightarrow> u64" where
  "PTE_FLAGS pte = pte AND 0x3FF"

definition PXMASK :: u64 where
  "PXMASK = 0x1FF"

definition PXSHIFT :: "nat \<Rightarrow> nat" where
  "PXSHIFT level = 12 + 9 * level"

definition PX :: "nat \<Rightarrow> u64 \<Rightarrow> nat" where
  "PX level va = unat (drop_bit (PXSHIFT level) va AND PXMASK)"

definition MAXVA :: u64 where
  "MAXVA = push_bit (9 + 9 + 9 + 12 - 1) 1"

definition MAKE_SATP :: "u64 \<Rightarrow> u64" where
  "MAKE_SATP pagetable = push_bit 60 8 OR drop_bit 12 pagetable"

lemmas pte_flag_defs = PTE_V_def PTE_R_def PTE_W_def PTE_X_def PTE_U_def

declare PGSIZE_def [riscv_defs] PTE_V_def [riscv_defs] PTE_R_def [riscv_defs]
  PTE_W_def [riscv_defs] PTE_X_def [riscv_defs] PTE_U_def [riscv_defs]
  PXMASK_def [riscv_defs] PXSHIFT_def [riscv_defs] MAXVA_def [riscv_defs]

section \<open>Rounding to pages\<close>

lemma PGROUNDDOWN_alt: "PGROUNDDOWN a = push_bit 12 (drop_bit 12 a)"
proof (rule bit_word_eqI)
  fix n assume "n < LENGTH(64)"
  have m: "PGSIZE - 1 = (mask 12 :: u64)"
    by (simp add: PGSIZE_def mask_eq_exp_minus_1)
  show "bit (PGROUNDDOWN a) n = bit (push_bit 12 (drop_bit 12 a)) n"
    using \<open>n < LENGTH(64)\<close>
    by (auto simp: PGROUNDDOWN_def m bit_simps)
qed

lemma unat_PGROUNDDOWN: "unat (PGROUNDDOWN a) = 4096 * (unat a div 4096)"
proof -
  have lt: "unat a < 2 ^ 64" using unsigned_less [of a] by simp
  have "unat (drop_bit 12 a) = unat a div 2 ^ 12"
    by (subst unat_drop_bit_eq) (simp add: drop_bit_eq_div)
  moreover have "(unat a div 2 ^ 12) * 2 ^ 12 < 2 ^ 64"
    using lt by (simp add: div_times_less_eq_dividend order.strict_trans1)
  ultimately have "unat (push_bit 12 (drop_bit 12 a)) = (unat a div 2 ^ 12) * 2 ^ 12"
    by (simp add: push_bit_eq_mult unat_word_ariths)
  then show ?thesis by (simp add: PGROUNDDOWN_alt)
qed

lemma PGROUNDDOWN_bit: "bit (PGROUNDDOWN a) n \<longleftrightarrow> 12 \<le> n \<and> bit a n"
  by (auto simp: PGROUNDDOWN_alt bit_simps dest: bit_imp_le_length)

lemma PGROUNDDOWN_idem [simp]: "PGROUNDDOWN (PGROUNDDOWN a) = PGROUNDDOWN a"
  by (rule bit_word_eqI) (simp add: PGROUNDDOWN_bit)

lemma PGROUNDDOWN_le: "PGROUNDDOWN a \<le> a"
  by (simp add: word_le_nat_alt unat_PGROUNDDOWN)

definition page_aligned :: "u64 \<Rightarrow> bool" where
  "page_aligned p \<longleftrightarrow> p mod PGSIZE = 0"

lemma page_aligned_unat: "page_aligned p \<longleftrightarrow> 4096 dvd unat p"
proof -
  have "p mod PGSIZE = 0 \<longleftrightarrow> unat (p mod PGSIZE) = 0"
    by (simp add: unat_eq_0)
  also have "\<dots> \<longleftrightarrow> unat p mod 4096 = 0"
    by (simp add: unat_mod_distrib PGSIZE_def)
  finally show ?thesis by (simp add: page_aligned_def dvd_eq_mod_eq_0)
qed

lemma page_aligned_iff_round: "page_aligned p \<longleftrightarrow> PGROUNDDOWN p = p"
  by (simp add: page_aligned_unat word_unat_eq_iff unat_PGROUNDDOWN dvd_eq_mod_eq_0)
    (metis minus_mult_div_eq_mod diff_is_0_eq div_mult_mod_eq mult.commute order_refl add_0_right)

lemma page_aligned_bit: "page_aligned p \<Longrightarrow> bit p n \<Longrightarrow> 12 \<le> n"
  by (metis page_aligned_iff_round PGROUNDDOWN_bit)

lemma page_aligned_PGROUNDDOWN [simp]: "page_aligned (PGROUNDDOWN a)"
  by (simp add: page_aligned_iff_round)

lemma unat_PGROUNDUP:
  assumes "unat a + 4095 < 2 ^ 64"
  shows "unat (PGROUNDUP a) = 4096 * ((unat a + 4095) div 4096)"
proof -
  have "PGROUNDUP a = PGROUNDDOWN (a + 4095)"
    by (simp add: PGROUNDUP_def PGROUNDDOWN_def PGSIZE_def add.commute)
  moreover have "unat (a + 4095) = unat a + 4095"
    using assms by (simp add: unat_word_ariths)
  ultimately show ?thesis by (simp add: unat_PGROUNDDOWN)
qed

lemma page_aligned_PGROUNDUP [simp]: "page_aligned (PGROUNDUP a)"
proof -
  have "PGROUNDUP a = PGROUNDDOWN (a + PGSIZE - 1)"
    by (simp add: PGROUNDUP_def PGROUNDDOWN_def)
  then show ?thesis by simp
qed

section \<open>Page-table entries\<close>

lemma PTE2PA_aligned [simp]: "page_aligned (PTE2PA x)"
  by (auto simp: page_aligned_iff_round PTE2PA_def PGROUNDDOWN_bit bit_simps intro!: bit_word_eqI)

text \<open>
  A page-aligned physical address below \<open>2\<close> to the power 56 and ten flag bits are recovered
  from the entry built out of them.
\<close>

lemma PTE2PA_PA2PTE_flags:
  assumes "page_aligned pa" "pa < 2 ^ 56" "flags < 2 ^ 10"
  shows "PTE2PA (PA2PTE pa OR flags) = pa"
proof (rule bit_word_eqI)
  fix n assume n: "n < LENGTH(64)"
  have hi: "bit pa n \<Longrightarrow> n < 56" for n
    using assms(2) by (rule word_less_exp_bit)
  have fl: "bit flags n \<Longrightarrow> n < 10" for n
    using assms(3) by (rule word_less_exp_bit)
  show "bit (PTE2PA (PA2PTE pa OR flags)) n = bit pa n"
    using n hi [of n] fl [of "n - 2"] page_aligned_bit [OF assms(1), of n]
    by (auto simp: PTE2PA_def PA2PTE_def bit_simps)
qed

lemma PTE_FLAGS_PA2PTE_flags:
  assumes "flags < 2 ^ 10"
  shows "PTE_FLAGS (PA2PTE pa OR flags) = flags"
proof (rule bit_word_eqI)
  fix n assume n: "n < LENGTH(64)"
  have fl: "bit flags n \<Longrightarrow> n < 10" for n
    using assms by (rule word_less_exp_bit)
  have m: "(0x3FF :: u64) = mask 10"
    by (simp add: mask_eq_exp_minus_1)
  show "bit (PTE_FLAGS (PA2PTE pa OR flags)) n = bit flags n"
    using n fl [of n]
    by (auto simp: PTE_FLAGS_def PA2PTE_def m bit_simps)
qed

definition pte_valid :: "u64 \<Rightarrow> bool" where
  "pte_valid pte \<longleftrightarrow> pte AND PTE_V \<noteq> 0"

lemma pte_valid_bit: "pte_valid pte \<longleftrightarrow> bit pte 0"
proof -
  have "pte AND 1 = of_bool (bit pte 0)"
    by (simp add: and_one_eq mod_2_eq_odd bit_0)
  then show ?thesis by (simp add: pte_valid_def PTE_V_def)
qed

lemma pte_valid_or_V [simp]: "pte_valid (x OR PTE_V)"
  by (simp add: pte_valid_bit PTE_V_def bit_simps)

lemma pte_valid_0 [simp]: "\<not> pte_valid 0"
  by (simp add: pte_valid_def)

section \<open>Page-table indices\<close>

lemma PX_less [simp]: "PX l va < 512"
proof -
  have "unat (drop_bit (PXSHIFT l) va AND PXMASK) \<le> unat PXMASK"
    by (simp add: word_and_le1 flip: word_le_nat_alt)
  then show ?thesis by (simp add: PX_def PXMASK_def)
qed

lemma PX_eq_iff:
  "PX l va = PX l va' \<longleftrightarrow> (\<forall>k<9. bit va (12 + 9 * l + k) = bit va' (12 + 9 * l + k))"
proof -
  have m: "(0x1FF :: u64) = mask 9"
    by (simp add: mask_eq_exp_minus_1)
  have "PX l va = PX l va' \<longleftrightarrow>
      drop_bit (PXSHIFT l) va AND mask 9 = drop_bit (PXSHIFT l) va' AND mask 9"
    by (simp add: PX_def PXMASK_def m word_unat_eq_iff)
  also have "\<dots> \<longleftrightarrow> (\<forall>k<9. bit va (12 + 9 * l + k) = bit va' (12 + 9 * l + k))"
    (is "?w = ?w' \<longleftrightarrow> _")
  proof -
    have b: "bit (drop_bit (PXSHIFT l) v AND mask 9) k \<longleftrightarrow> k < 9 \<and> bit v (12 + 9 * l + k)"
      for v :: u64 and k
      by (auto simp: bit_simps PXSHIFT_def)
    have "?w = ?w' \<longleftrightarrow> (\<forall>k. bit ?w k = bit ?w' k)"
      by (metis bit_word_eqI)
    then show ?thesis unfolding b by blast
  qed
  finally show ?thesis .
qed

lemma MAXVA_eq: "MAXVA = 2 ^ 38"
  by (simp add: MAXVA_def push_bit_eq_mult)

text \<open>
  The three indices cover the lower 39 bits of an address, one bit more than \<^verbatim>\<open>MAXVA\<close> allows; below
  \<open>SV39\<close> they determine the virtual page.
\<close>

definition SV39 :: u64 where
  "SV39 = 2 ^ 39"

lemma MAXVA_SV39: "va < MAXVA \<Longrightarrow> va < SV39"
  by (simp add: MAXVA_eq SV39_def word_less_nat_alt)

lemma PX_all_eq_iff:
  assumes "va < SV39" "va' < SV39"
  shows "(\<forall>l<3. PX l va = PX l va') \<longleftrightarrow> PGROUNDDOWN va = PGROUNDDOWN va'"
proof
  assume px: "\<forall>l<3. PX l va = PX l va'"
  have hi: "bit w n \<Longrightarrow> n < 39" if "w < SV39" for w :: u64 and n
    using that unfolding SV39_def by (rule word_less_exp_bit)
  have "bit va n = bit va' n" if n: "12 \<le> n" for n
  proof (cases "n < 39")
    case True
    define l k where "l = (n - 12) div 9" and "k = (n - 12) mod 9"
    have lk: "l < 3" "k < 9" "n = 12 + 9 * l + k"
      using n True by (auto simp: l_def k_def)
    with px show ?thesis by (auto simp: PX_eq_iff)
  next
    case False
    with hi [OF assms(1)] hi [OF assms(2)] show ?thesis by blast
  qed
  then show "PGROUNDDOWN va = PGROUNDDOWN va'"
    by (auto simp: bit_eq_iff PGROUNDDOWN_bit)
next
  assume "PGROUNDDOWN va = PGROUNDDOWN va'"
  then have "bit va n = bit va' n" if "12 \<le> n" for n
    using that by (metis PGROUNDDOWN_bit)
  then show "\<forall>l<3. PX l va = PX l va'"
    by (simp add: PX_eq_iff)
qed

section \<open>Physical memory\<close>

record mach =
  ram :: "u64 \<Rightarrow> nat \<Rightarrow> u64"

definition wr_cell :: "u64 \<Rightarrow> nat \<Rightarrow> u64 \<Rightarrow> 'a mach_scheme \<Rightarrow> 'a mach_scheme" where
  "wr_cell p i v s = s\<lparr>ram := (ram s)(p := (ram s p)(i := v))\<rparr>"

definition rep_byte :: "u8 \<Rightarrow> u64" where
  "rep_byte b = ucast b * 0x0101010101010101"

text \<open>\<^verbatim>\<open>memset(p, b, PGSIZE)\<close> and \<^verbatim>\<open>memmove(dst, src, PGSIZE)\<close> on whole pages.\<close>

definition memset_page :: "u64 \<Rightarrow> u8 \<Rightarrow> 'a mach_scheme \<Rightarrow> 'a mach_scheme" where
  "memset_page p b s = s\<lparr>ram := (ram s)(p := (\<lambda>_. rep_byte b))\<rparr>"

definition memmove_page :: "u64 \<Rightarrow> u64 \<Rightarrow> 'a mach_scheme \<Rightarrow> 'a mach_scheme" where
  "memmove_page dst src s = s\<lparr>ram := (ram s)(dst := ram s src)\<rparr>"

definition get_byte :: "nat \<Rightarrow> u64 \<Rightarrow> u8" where
  "get_byte k w = ucast (drop_bit (8 * k) w)"

definition put_byte :: "nat \<Rightarrow> u8 \<Rightarrow> u64 \<Rightarrow> u64" where
  "put_byte k b w = (w AND NOT (push_bit (8 * k) 0xFF)) OR push_bit (8 * k) (ucast b)"

definition rd_byte :: "u64 \<Rightarrow> 'a mach_scheme \<Rightarrow> u8" where
  "rd_byte a s = get_byte (unat a mod 8) (ram s (PGROUNDDOWN a) (unat a mod 4096 div 8))"

definition wr_byte :: "u64 \<Rightarrow> u8 \<Rightarrow> 'a mach_scheme \<Rightarrow> 'a mach_scheme" where
  "wr_byte a b s =
     (let p = PGROUNDDOWN a; i = unat a mod 4096 div 8
      in wr_cell p i (put_byte (unat a mod 8) b (ram s p i)) s)"

lemma get_put_byte:
  assumes "j < 8" "k < 8"
  shows "get_byte j (put_byte k b w) = (if j = k then b else get_byte j w)"
proof (rule bit_word_eqI)
  fix n assume n: "n < LENGTH(8)"
  have m: "(0xFF :: u64) = mask 8"
    by (simp add: mask_eq_exp_minus_1)
  show "bit (get_byte j (put_byte k b w)) n = bit (if j = k then b else get_byte j w) n"
    using n assms
    by (auto simp: get_byte_def put_byte_def m bit_simps dest: bit_imp_le_length)
qed

lemma byte_position:
  "PGROUNDDOWN a = PGROUNDDOWN b \<Longrightarrow> unat a mod 4096 div 8 = unat b mod 4096 div 8 \<Longrightarrow>
   unat a mod 8 = unat b mod 8 \<Longrightarrow> a = b"
proof -
  assume pg: "PGROUNDDOWN a = PGROUNDDOWN b"
    and c: "unat a mod 4096 div 8 = unat b mod 4096 div 8"
    and o8: "unat a mod 8 = unat b mod 8"
  from pg have d: "unat a div 4096 = unat b div 4096"
    by (metis unat_PGROUNDDOWN nonzero_mult_div_cancel_left zero_neq_numeral)
  have "unat x mod 4096 mod 8 = unat x mod 8" for x :: u64
    by (simp add: mod_mod_cancel)
  with c o8 have "unat a mod 4096 = unat b mod 4096"
    by (metis div_mult_mod_eq)
  with d have "unat a = unat b"
    by (metis div_mult_mod_eq)
  then show "a = b" by (simp add: word_unat_eq_iff)
qed

lemma rd_wr_byte: "rd_byte a (wr_byte b v s) = (if a = b then v else rd_byte a s)"
  by (auto simp: rd_byte_def wr_byte_def wr_cell_def Let_def get_put_byte dest: byte_position)

lemma ram_wr_cell [simp]: "ram (wr_cell p i v s) = (ram s)(p := (ram s p)(i := v))"
  by (simp add: wr_cell_def)

lemma ram_memset_page [simp]: "ram (memset_page p b s) = (ram s)(p := (\<lambda>_. rep_byte b))"
  by (simp add: memset_page_def)

lemma ram_memmove_page [simp]: "ram (memmove_page d q s) = (ram s)(d := ram s q)"
  by (simp add: memmove_page_def)

lemma ram_wr_byte_other: "p \<noteq> PGROUNDDOWN a \<Longrightarrow> ram (wr_byte a b s) p = ram s p"
  by (simp add: wr_byte_def Let_def)

lemma rep_byte_0 [simp]: "rep_byte 0 = 0"
  by (simp add: rep_byte_def)

end
