(* ===== verification/Page_Alloc.thy ===== *)
theory Page_Alloc
  imports Riscv
begin

text \<open>
  The interface between the physical page allocators (\<^verbatim>\<open>kernel/kalloc.c\<close> of labs 2 and 3)
  and the code that uses them (\<^verbatim>\<open>kernel/vm.c\<close> of lab 4). A free page starts with a
  \<^verbatim>\<open>struct run\<close> whose only field \<^verbatim>\<open>next\<close> is the page's first cell; \<open>runs\<close> relates the head of
  such a list to the list of its pages. The locale \<open>page_allocator\<close> states what an allocator
  promises.
\<close>

section \<open>The physical address range\<close>

text \<open>
  \<^verbatim>\<open>end\<close> comes from the linker script and \<^verbatim>\<open>PHYSTOP\<close> from \<^verbatim>\<open>memlayout.h\<close>; both are outside
  the repository and are parameters.
\<close>

record memlayout =
  kend :: u64
  PHYSTOP :: u64

definition good_page :: "memlayout \<Rightarrow> u64 \<Rightarrow> bool" where
  "good_page L pa \<longleftrightarrow> \<not> (pa mod PGSIZE \<noteq> 0 \<or> pa < kend L \<or> pa \<ge> PHYSTOP L)"

definition layout_ok :: "memlayout \<Rightarrow> bool" where
  "layout_ok L \<longleftrightarrow> 0 < kend L \<and> kend L \<le> PHYSTOP L \<and> PHYSTOP L \<le> 2 ^ 56"

lemma good_page_aligned: "good_page L p \<Longrightarrow> page_aligned p"
  by (simp add: good_page_def page_aligned_def)

lemma good_page_not_null: "layout_ok L \<Longrightarrow> good_page L p \<Longrightarrow> p \<noteq> 0"
  by (auto simp: good_page_def layout_ok_def)

lemma good_page_less: "layout_ok L \<Longrightarrow> good_page L p \<Longrightarrow> p < 2 ^ 56"
  by (auto simp: good_page_def layout_ok_def)

section \<open>Lists of free pages in memory\<close>

primrec runs :: "(u64 \<Rightarrow> nat \<Rightarrow> u64) \<Rightarrow> u64 \<Rightarrow> u64 list \<Rightarrow> bool" where
  "runs m r [] \<longleftrightarrow> r = 0"
| "runs m r (p # ps) \<longleftrightarrow> r = p \<and> r \<noteq> 0 \<and> runs m (m p 0) ps"

lemma runs_null [simp]: "runs m 0 ps \<longleftrightarrow> ps = []"
  by (cases ps) auto

lemma runs_page: "r \<noteq> 0 \<Longrightarrow> runs m r ps \<longleftrightarrow> (\<exists>qs. ps = r # qs \<and> runs m (m r 0) qs)"
  by (cases ps) auto

lemma runs_unique: "runs m r ps \<Longrightarrow> runs m r qs \<Longrightarrow> ps = qs"
proof (induction ps arbitrary: r qs)
  case Nil
  then show ?case by simp
next
  case (Cons p ps)
  then show ?case by (auto simp: runs_page)
qed

lemma runs_update [simp]: "p \<notin> set ps \<Longrightarrow> runs (m(p := c)) r ps = runs m r ps"
  by (induction ps arbitrary: r) auto

lemma runs_not_null: "runs m r ps \<Longrightarrow> 0 \<notin> set ps"
  by (induction ps arbitrary: r) auto

section \<open>Freeing a range of pages\<close>

text \<open>
  The loop of \<^verbatim>\<open>freerange\<close> over the \<^verbatim>\<open>kfree\<close> of an allocator; \<open>None\<close> is a loop that does not end
  (possible only where \<^verbatim>\<open>p + PGSIZE\<close> wraps around).
\<close>

partial_function (option) freerange_loop ::
    "(u64 \<Rightarrow> 's \<Rightarrow> 's res) \<Rightarrow> u64 \<Rightarrow> u64 \<Rightarrow> 's \<Rightarrow> 's res option" where
  "freerange_loop kf p pa_end s =
     (if p + PGSIZE \<le> pa_end then
        (case kf p s of
           Panic e \<Rightarrow> Some (Panic e)
         | Ok s' \<Rightarrow> freerange_loop kf (p + PGSIZE) pa_end s')
      else Some (Ok s))"

text \<open>The pages of a range, as \<^verbatim>\<open>freerange\<close> visits them.\<close>

definition pages_from :: "u64 \<Rightarrow> nat \<Rightarrow> u64 list" where
  "pages_from p n = map (\<lambda>k. p + PGSIZE * of_nat k) [0..<n]"

lemma pages_from_Suc: "pages_from p (Suc n) = p # pages_from (p + PGSIZE) n"
  unfolding pages_from_def map_upt_Suc by (simp add: algebra_simps)

lemma unat_PGSIZE [simp]: "unat PGSIZE = 4096"
  by (simp add: PGSIZE_def)

lemma unat_plus_PGSIZE: "unat p + 4096 < 2 ^ 64 \<Longrightarrow> unat (p + PGSIZE) = unat p + 4096"
  by (simp add: unat_word_ariths)

lemma unat_page_from:
  assumes "unat p + 4096 * k < 2 ^ 64"
  shows "unat (p + PGSIZE * of_nat k) = unat p + 4096 * k"
proof -
  have "unat (of_nat k :: u64) = k" using assms by (simp add: unat_of_nat take_bit_nat_eq_self)
  then show ?thesis using assms by (simp add: unat_word_ariths)
qed

lemma distinct_pages_from: "unat p + 4096 * n < 2 ^ 64 \<Longrightarrow> distinct (pages_from p n)"
proof (induction n arbitrary: p)
  case 0
  then show ?case by (simp add: pages_from_def)
next
  case (Suc n)
  then have p': "unat (p + PGSIZE) = unat p + 4096"
    by (intro unat_plus_PGSIZE) simp
  have "p \<notin> set (pages_from (p + PGSIZE) n)"
  proof
    assume "p \<in> set (pages_from (p + PGSIZE) n)"
    then obtain k where k: "k < n" "p = p + PGSIZE + PGSIZE * of_nat k"
      by (auto simp: pages_from_def)
    have "unat (p + PGSIZE + PGSIZE * of_nat k) = unat p + 4096 + 4096 * k"
      using Suc.prems k(1) p' by (subst unat_page_from) auto
    with arg_cong [OF k(2), of unat] show False by linarith
  qed
  moreover have "distinct (pages_from (p + PGSIZE) n)"
    using Suc.prems p' by (intro Suc.IH) simp
  ultimately show ?case by (simp add: pages_from_Suc)
qed

lemma kend_PGROUNDUP:
  assumes "layout_ok L"
  shows "kend L \<le> PGROUNDUP (kend L)" "unat (PGROUNDUP (kend L)) < 2 ^ 57"
    "page_aligned p \<Longrightarrow> kend L \<le> p \<Longrightarrow> PGROUNDUP (kend L) \<le> p"
proof -
  have le: "unat (kend L) \<le> 2 ^ 56"
    using assms by (simp add: layout_ok_def word_le_nat_alt)
  then have u: "unat (PGROUNDUP (kend L)) = 4096 * ((unat (kend L) + 4095) div 4096)"
    by (intro unat_PGROUNDUP) simp
  show "kend L \<le> PGROUNDUP (kend L)" unfolding word_le_nat_alt u by linarith
  show "unat (PGROUNDUP (kend L)) < 2 ^ 57" unfolding u using le by simp
  show "PGROUNDUP (kend L) \<le> p" if "page_aligned p" "kend L \<le> p"
  proof -
    from that(1) obtain k where k: "unat p = 4096 * k" by (auto simp: page_aligned_unat)
    with that(2) have "unat (kend L) \<le> 4096 * k" by (simp add: word_le_nat_alt)
    then have "(unat (kend L) + 4095) div 4096 \<le> k" by linarith
    then show ?thesis unfolding word_le_nat_alt u k by simp
  qed
qed

lemma set_pages_from_good:
  assumes "layout_ok L" and n: "n = (unat (PHYSTOP L) - unat (PGROUNDUP (kend L))) div 4096"
  shows "set (pages_from (PGROUNDUP (kend L)) n) =
    {p. good_page L p \<and> unat p + 4096 \<le> unat (PHYSTOP L)}" (is "?P = ?G")
proof (intro set_eqI iffI)
  let ?b = "PGROUNDUP (kend L)"
  have top: "unat (PHYSTOP L) \<le> 2 ^ 56"
    using assms(1) by (simp add: layout_ok_def word_le_nat_alt)
  fix p
  {
    assume "p \<in> ?P"
    then obtain k where k: "k < n" "p = ?b + PGSIZE * of_nat k"
      by (auto simp: pages_from_def)
    have lt: "4096 * k + 4096 \<le> unat (PHYSTOP L) - unat ?b" using k(1) n by simp
    then have u: "unat p = unat ?b + 4096 * k"
      unfolding k(2) using top by (intro unat_page_from) simp
    have "page_aligned p" "kend L \<le> p"
      using u kend_PGROUNDUP(1) [OF assms(1)] page_aligned_PGROUNDUP [of "kend L"]
      by (auto simp: page_aligned_unat word_le_nat_alt)
    then show "p \<in> ?G" using lt u
      by (auto simp: good_page_def page_aligned_def word_le_nat_alt word_less_nat_alt)
  next
    assume "p \<in> ?G"
    then have p: "page_aligned p" "kend L \<le> p" "unat p + 4096 \<le> unat (PHYSTOP L)"
      by (auto simp: good_page_def page_aligned_def)
    then have "unat ?b \<le> unat p"
      using kend_PGROUNDUP(3) [OF assms(1)] by (simp add: word_le_nat_alt)
    moreover obtain i j where ij: "unat p = 4096 * i" "unat ?b = 4096 * j"
      using p(1) page_aligned_PGROUNDUP [of "kend L"] unfolding page_aligned_unat by (metis dvd_def)
    ultimately have k: "unat p = unat ?b + 4096 * (i - j)" "i - j < n"
      using p(3) n by auto
    then have "p = ?b + PGSIZE * of_nat (i - j)"
      using top p(3) by (simp add: word_unat_eq_iff unat_page_from del: of_nat_diff)
    with k(2) show "p \<in> ?P" by (auto simp: pages_from_def)
  }
qed

section \<open>What an allocator promises\<close>

locale page_allocator =
  fixes kalloc :: "'a mach_scheme \<Rightarrow> u64 \<times> 'a mach_scheme"
    and kfree :: "u64 \<Rightarrow> 'a mach_scheme \<Rightarrow> 'a mach_scheme res"
    and free :: "'a mach_scheme \<Rightarrow> u64 set"
    and inv :: "'a mach_scheme \<Rightarrow> bool"
    and good :: "u64 \<Rightarrow> bool"
  assumes good_aligned: "good p \<Longrightarrow> page_aligned p"
    and good_not_null: "good p \<Longrightarrow> p \<noteq> 0"
    and good_less: "good p \<Longrightarrow> p < 2 ^ 56"
    and free_good: "inv s \<Longrightarrow> p \<in> free s \<Longrightarrow> good p"
    and kalloc_null: "inv s \<Longrightarrow> kalloc s = (0, s') \<Longrightarrow>
      free s = {} \<and> inv s' \<and> free s' = {} \<and> ram s' = ram s"
    and kalloc_page: "inv s \<Longrightarrow> kalloc s = (p, s') \<Longrightarrow> p \<noteq> 0 \<Longrightarrow>
      p \<in> free s \<and> inv s' \<and> free s' = free s - {p} \<and> (\<forall>q. q \<noteq> p \<longrightarrow> ram s' q = ram s q)"
    and kfree_good: "inv s \<Longrightarrow> good p \<Longrightarrow> p \<notin> free s \<Longrightarrow>
      \<exists>s'. kfree p s = Ok s' \<and> inv s' \<and> free s' = insert p (free s) \<and>
        (\<forall>q. q \<noteq> p \<longrightarrow> ram s' q = ram s q)"
    and kfree_bad: "inv s \<Longrightarrow> \<not> good p \<Longrightarrow> kfree p s = Panic ''kfree''"
    and inv_ram: "inv s \<Longrightarrow> p \<notin> free s \<Longrightarrow>
      inv (s\<lparr>ram := (ram s)(p := c)\<rparr>) \<and> free (s\<lparr>ram := (ram s)(p := c)\<rparr>) = free s"
begin

lemma inv_wr_cell [simp]: "inv s \<Longrightarrow> p \<notin> free s \<Longrightarrow> inv (wr_cell p i v s)"
  by (simp add: wr_cell_def inv_ram)

lemma free_wr_cell [simp]: "inv s \<Longrightarrow> p \<notin> free s \<Longrightarrow> free (wr_cell p i v s) = free s"
  by (simp add: wr_cell_def inv_ram)

lemma inv_memset_page [simp]: "inv s \<Longrightarrow> p \<notin> free s \<Longrightarrow> inv (memset_page p b s)"
  by (simp add: memset_page_def inv_ram)

lemma free_memset_page [simp]: "inv s \<Longrightarrow> p \<notin> free s \<Longrightarrow> free (memset_page p b s) = free s"
  by (simp add: memset_page_def inv_ram)

lemma inv_memmove_page [simp]: "inv s \<Longrightarrow> p \<notin> free s \<Longrightarrow> inv (memmove_page p q s)"
  by (simp add: memmove_page_def inv_ram)

lemma free_memmove_page [simp]:
  "inv s \<Longrightarrow> p \<notin> free s \<Longrightarrow> free (memmove_page p q s) = free s"
  by (simp add: memmove_page_def inv_ram)

text \<open>A page that was just allocated is not free any more and can be freed again.\<close>

lemma kalloc_kfree:
  assumes "inv s" "kalloc s = (p, s')" "p \<noteq> 0"
  shows "\<exists>s''. kfree p s' = Ok s'' \<and> inv s'' \<and> free s'' = free s"
proof -
  have p: "p \<in> free s" "inv s'" "free s' = free s - {p}"
    using kalloc_page [OF assms] by auto
  then have "good p" "p \<notin> free s'"
    using free_good [OF assms(1)] by auto
  from kfree_good [OF p(2) this] p show ?thesis by auto
qed

text \<open>
  \<^verbatim>\<open>freerange\<close> from a page-aligned address with \<open>n\<close> whole pages below \<open>pa_end\<close>, all of them good
  and none of them free yet, ends without a panic and frees exactly these pages.
\<close>

lemma freerange_loop_pages:
  assumes "inv s" "unat p + 4096 * n \<le> unat pa_end" "unat pa_end < unat p + 4096 * Suc n"
    and "unat p + 4096 * Suc n < 2 ^ 64"
    and "\<forall>q\<in>set (pages_from p n). good q \<and> q \<notin> free s"
  shows "\<exists>s'. freerange_loop kfree p pa_end s = Some (Ok s') \<and> inv s' \<and>
    free s' = set (pages_from p n) \<union> free s"
  using assms
proof (induction n arbitrary: p s)
  case 0
  have "unat (p + PGSIZE) = unat p + 4096"
    using "0.prems"(4) by (intro unat_plus_PGSIZE) simp
  with "0.prems"(3) have "\<not> p + PGSIZE \<le> pa_end"
    by (simp add: word_le_nat_alt)
  with "0.prems" show ?case
    by (simp add: freerange_loop.simps pages_from_def)
next
  case (Suc n)
  have p1: "unat (p + PGSIZE) = unat p + 4096"
    using Suc.prems(4) by (intro unat_plus_PGSIZE) simp
  have p: "good p" "p \<notin> free s" using Suc.prems(5) by (auto simp: pages_from_Suc)
  obtain s1 where s1: "kfree p s = Ok s1" "inv s1" "free s1 = insert p (free s)"
    using kfree_good [OF Suc.prems(1) p] by blast
  have "unat p + 4096 * Suc n < 2 ^ 64" using Suc.prems(4) by simp
  from distinct_pages_from [OF this] have "p \<notin> set (pages_from (p + PGSIZE) n)"
    by (simp add: pages_from_Suc)
  then have "\<forall>q\<in>set (pages_from (p + PGSIZE) n). good q \<and> q \<notin> free s1"
    using Suc.prems(5) s1(3) by (auto simp: pages_from_Suc)
  then obtain s' where "freerange_loop kfree (p + PGSIZE) pa_end s1 = Some (Ok s')" "inv s'"
      "free s' = set (pages_from (p + PGSIZE) n) \<union> free s1"
    using Suc.IH [of s1 "p + PGSIZE"] s1(2) Suc.prems(2,3,4) p1 by auto
  then show ?case
    using s1 p1 Suc.prems(2)
    by (auto simp: freerange_loop.simps [of kfree p] word_le_nat_alt pages_from_Suc)
qed

text \<open>Freeing the range from \<^verbatim>\<open>end\<close> to \<^verbatim>\<open>PHYSTOP\<close>, as \<^verbatim>\<open>kinit\<close> does.\<close>

lemma freerange_all:
  assumes "inv s" "free s = {}" "layout_ok L" "\<forall>p. good_page L p \<longrightarrow> good p"
  shows "\<exists>s'. freerange_loop kfree (PGROUNDUP (kend L)) (PHYSTOP L) s = Some (Ok s') \<and> inv s' \<and>
    free s' = {p. good_page L p \<and> unat p + 4096 \<le> unat (PHYSTOP L)}"
proof -
  let ?b = "PGROUNDUP (kend L)"
  let ?n = "(unat (PHYSTOP L) - unat ?b) div 4096"
  note pages = set_pages_from_good [OF assms(3) refl]
  have b: "unat ?b < 2 ^ 57" using kend_PGROUNDUP(2) [OF assms(3)] .
  have top: "unat (PHYSTOP L) \<le> 2 ^ 56" using assms(3) by (simp add: layout_ok_def word_le_nat_alt)
  show ?thesis
  proof (cases "?b \<le> PHYSTOP L")
    case True
    then have "unat ?b \<le> unat (PHYSTOP L)" by (simp add: word_le_nat_alt)
    then have "unat ?b + 4096 * ?n \<le> unat (PHYSTOP L)"
        "unat (PHYSTOP L) < unat ?b + 4096 * Suc ?n" "unat ?b + 4096 * Suc ?n < 2 ^ 64"
      using b top by auto
    then show ?thesis
      using freerange_loop_pages [OF assms(1), of ?b ?n "PHYSTOP L"] assms pages by auto
  next
    case False
    then have lt: "unat (PHYSTOP L) < unat ?b" by (simp add: word_le_nat_alt)
    have "unat (?b + PGSIZE) = unat ?b + 4096" using b by (intro unat_plus_PGSIZE) simp
    with lt have "\<not> ?b + PGSIZE \<le> PHYSTOP L" by (simp add: word_le_nat_alt)
    moreover have "{p. good_page L p \<and> unat p + 4096 \<le> unat (PHYSTOP L)} = {}"
      using pages lt by (simp add: pages_from_def)
    ultimately show ?thesis using assms by (simp add: freerange_loop.simps)
  qed
qed

end

end
