(* ===== verification/Kalloc_Single.thy ===== *)
theory Kalloc_Single
  imports Page_Alloc
begin

text \<open>
  The physical page allocator of lab 2 (\<^verbatim>\<open>kernel/kalloc.c\<close>): one free list under one lock, and
  \<^verbatim>\<open>infofreemem\<close>, which counts the free bytes for \<^verbatim>\<open>sysinfo\<close>.
\<close>

section \<open>State and operations\<close>

record kmem = mach +
  freelist :: u64
  kmem_log :: "unit lock_call list"

definition kmem_call :: "unit lock_call \<Rightarrow> kmem \<Rightarrow> kmem" where
  "kmem_call c s = s\<lparr>kmem_log := kmem_log s @ [c]\<rparr>"

text \<open>\<^verbatim>\<open>kfree\<close>: check the address, fill the page with 1s, push it on the list.\<close>

definition kfree :: "memlayout \<Rightarrow> u64 \<Rightarrow> kmem \<Rightarrow> kmem res" where
  "kfree L pa s =
     (if pa mod PGSIZE \<noteq> 0 \<or> pa < kend L \<or> pa \<ge> PHYSTOP L then Panic ''kfree''
      else
        let s1 = memset_page pa 1 s;
            s2 = kmem_call (Acquire ()) s1;
            s3 = wr_cell pa 0 (freelist s2) s2;
            s4 = s3\<lparr>freelist := pa\<rparr>
        in Ok (kmem_call (Release ()) s4))"

text \<open>\<^verbatim>\<open>kalloc\<close>: pop the head of the list, fill it with 5s; 0 when the list is empty.\<close>

definition kalloc :: "kmem \<Rightarrow> u64 \<times> kmem" where
  "kalloc s =
     (let s1 = kmem_call (Acquire ()) s;
          r = freelist s1;
          s2 = (if r \<noteq> 0 then s1\<lparr>freelist := ram s1 r 0\<rparr> else s1);
          s3 = kmem_call (Release ()) s2
      in (r, if r \<noteq> 0 then memset_page r 5 s3 else s3))"

definition freerange :: "memlayout \<Rightarrow> u64 \<Rightarrow> u64 \<Rightarrow> kmem \<Rightarrow> kmem res option" where
  "freerange L pa_start pa_end s = freerange_loop (kfree L) (PGROUNDUP pa_start) pa_end s"

text \<open>\<^verbatim>\<open>kinit\<close>: the lock is initialised (outside the repository) and the list is filled.\<close>

definition kinit :: "memlayout \<Rightarrow> kmem \<Rightarrow> kmem res option" where
  "kinit L s = freerange L (kend L) (PHYSTOP L) s"

text \<open>\<^verbatim>\<open>infofreemem\<close>: walk the list and add \<^verbatim>\<open>PGSIZE\<close> per page (64-bit arithmetic).\<close>

partial_function (option) infofreemem_loop :: "kmem \<Rightarrow> u64 \<Rightarrow> u64 \<Rightarrow> u64 option" where
  "infofreemem_loop s r freemem =
     (if r \<noteq> 0 then infofreemem_loop s (ram s r 0) (freemem + PGSIZE) else Some freemem)"

definition infofreemem :: "kmem \<Rightarrow> (u64 \<times> kmem) option" where
  "infofreemem s =
     (let s1 = kmem_call (Acquire ()) s
      in case infofreemem_loop s1 (freelist s1) 0 of
           None \<Rightarrow> None
         | Some n \<Rightarrow> Some (n, kmem_call (Release ()) s1))"

section \<open>Invariant\<close>

definition free_list :: "kmem \<Rightarrow> u64 list \<Rightarrow> bool" where
  "free_list s ps \<longleftrightarrow> runs (ram s) (freelist s) ps \<and> distinct ps"

definition kmem_free :: "kmem \<Rightarrow> u64 set" where
  "kmem_free s = {p. \<exists>ps. runs (ram s) (freelist s) ps \<and> p \<in> set ps}"

definition kmem_inv :: "memlayout \<Rightarrow> kmem \<Rightarrow> bool" where
  "kmem_inv L s \<longleftrightarrow> layout_ok L \<and> (\<exists>ps. free_list s ps \<and> (\<forall>p\<in>set ps. good_page L p))"

lemma kmem_free_eq: "free_list s ps \<Longrightarrow> kmem_free s = set ps"
  by (auto simp: kmem_free_def free_list_def dest: runs_unique)

lemma kmem_call_simps [simp]:
  "ram (kmem_call c s) = ram s" "freelist (kmem_call c s) = freelist s"
  "kmem_log (kmem_call c s) = kmem_log s @ [c]"
  by (simp_all add: kmem_call_def)

lemma freelist_mem_ops [simp]:
  "freelist (memset_page p b s) = freelist s" "freelist (wr_cell p i v s) = freelist s"
  "kmem_log (memset_page p b s) = kmem_log s" "kmem_log (wr_cell p i v s) = kmem_log s"
  by (simp_all add: memset_page_def wr_cell_def)

lemma kfree_Ok_iff: "(\<exists>s'. kfree L pa s = Ok s') \<longleftrightarrow> good_page L pa"
  by (auto simp: kfree_def good_page_def Let_def)

lemma kfree_free_list:
  assumes "kfree L pa s = Ok s'" "free_list s ps" "pa \<notin> set ps" "layout_ok L"
  shows "free_list s' (pa # ps) \<and> (\<forall>q. q \<noteq> pa \<longrightarrow> ram s' q = ram s q)"
proof -
  have "good_page L pa" using assms(1) kfree_Ok_iff by blast
  then have "pa \<noteq> 0" using assms(4) good_page_not_null by blast
  then show ?thesis
    using assms by (auto simp: kfree_def free_list_def Let_def split: if_splits)
qed

lemma kalloc_free_list:
  assumes "free_list s (p # ps)"
  shows "\<exists>s'. kalloc s = (p, s') \<and> free_list s' ps \<and> (\<forall>q. q \<noteq> p \<longrightarrow> ram s' q = ram s q) \<and>
    ram s' p = (\<lambda>_. rep_byte 5)"
  using assms by (auto simp: kalloc_def free_list_def Let_def)

lemma kalloc_empty: "free_list s [] \<Longrightarrow> kalloc s = (0, s') \<Longrightarrow> free_list s' [] \<and> ram s' = ram s"
  by (auto simp: kalloc_def free_list_def Let_def)

lemma kalloc_null_iff: "free_list s ps \<Longrightarrow> fst (kalloc s) = 0 \<longleftrightarrow> ps = []"
  by (cases ps) (auto simp: kalloc_def free_list_def Let_def)

lemma kmem_inv_cases:
  assumes "kmem_inv L s"
  obtains ps where "free_list s ps" "\<forall>p\<in>set ps. good_page L p" "kmem_free s = set ps" "layout_ok L"
  using assms kmem_free_eq by (auto simp: kmem_inv_def)

interpretation single: page_allocator kalloc "kfree L" kmem_free "kmem_inv L"
    "\<lambda>p. layout_ok L \<and> good_page L p" for L
proof (unfold_locales, goal_cases)
  case (4 s p)
  then show ?case by (auto elim: kmem_inv_cases)
next
  case (5 s s')
  then obtain ps where ps: "free_list s ps" "kmem_free s = set ps" "layout_ok L"
    by (auto elim: kmem_inv_cases)
  with 5 have "ps = []" using kalloc_null_iff by fastforce
  with ps 5 have "free_list s' []" "ram s' = ram s"
    using kalloc_empty by blast+
  then show ?case using ps \<open>ps = []\<close> kmem_free_eq by (auto simp: kmem_inv_def)
next
  case (6 s p s')
  then obtain ps where ps: "free_list s ps" "\<forall>p\<in>set ps. good_page L p" "kmem_free s = set ps" "layout_ok L"
    by (auto elim: kmem_inv_cases)
  with 6 obtain qs where qs: "ps = p # qs"
    using kalloc_free_list kalloc_null_iff by (cases ps) fastforce+
  with ps 6 have s': "free_list s' qs" "\<forall>q. q \<noteq> p \<longrightarrow> ram s' q = ram s q"
    using kalloc_free_list by fastforce+
  moreover have "p \<notin> set qs" using ps qs by (simp add: free_list_def)
  ultimately show ?case using ps qs kmem_free_eq by (auto simp: kmem_inv_def)
next
  case (7 s p)
  then obtain ps where ps: "free_list s ps" "\<forall>p\<in>set ps. good_page L p" "kmem_free s = set ps" "layout_ok L"
    by (auto elim: kmem_inv_cases)
  from 7 obtain s' where s': "kfree L p s = Ok s'" using kfree_Ok_iff by blast
  have "p \<notin> set ps" using 7 ps by simp
  from kfree_free_list [OF s' ps(1) this ps(4)] s' ps 7 show ?case
    using kmem_free_eq by (auto simp: kmem_inv_def intro!: exI [of _ "p # ps"])
next
  case (8 s p)
  then show ?case using kfree_Ok_iff by (auto simp: kmem_inv_def kfree_def good_page_def)
next
  case (9 s p c)
  then obtain ps where ps: "free_list s ps" "\<forall>p\<in>set ps. good_page L p" "kmem_free s = set ps" "layout_ok L"
    by (auto elim: kmem_inv_cases)
  with 9 have "free_list (s\<lparr>ram := (ram s)(p := c)\<rparr>) ps"
    by (simp add: free_list_def)
  then show ?case using ps kmem_free_eq by (auto simp: kmem_inv_def)
qed (auto simp: good_page_aligned, auto simp: good_page_def layout_ok_def)

section \<open>Counting the free memory\<close>

lemma infofreemem_loop_runs:
  "runs (ram s) r ps \<Longrightarrow>
   infofreemem_loop s r n = Some (n + PGSIZE * of_nat (length ps))"
proof (induction ps arbitrary: r n)
  case Nil
  then show ?case by (simp add: infofreemem_loop.simps)
next
  case (Cons p ps)
  then have r: "r = p" "r \<noteq> 0" "runs (ram s) (ram s p 0) ps" by auto
  have "infofreemem_loop s r n = infofreemem_loop s (ram s p 0) (n + PGSIZE)"
    by (subst infofreemem_loop.simps) (simp add: r flip: r(1))
  also have "\<dots> = Some (n + PGSIZE + PGSIZE * of_nat (length ps))"
    by (rule Cons.IH [OF r(3)])
  finally show ?case by (simp add: algebra_simps)
qed

section \<open>Properties\<close>

text \<open>
  \<^verbatim>\<open>kinit\<close> terminates without a panic and leaves on the free list exactly the pages that
  lie wholly between \<^verbatim>\<open>end\<close> and \<^verbatim>\<open>PHYSTOP\<close>, each once.
\<close>

theorem kinit_frees_all_pages:
  assumes "layout_ok L" "freelist s = 0"
  shows "\<exists>s'. kinit L s = Some (Ok s') \<and> kmem_inv L s' \<and>
    kmem_free s' = {p. good_page L p \<and> unat p + 4096 \<le> unat (PHYSTOP L)}"
proof -
  have "free_list s []" using assms(2) by (simp add: free_list_def)
  then have s: "kmem_inv L s" "kmem_free s = {}"
    using assms(1) kmem_free_eq by (auto simp: kmem_inv_def)
  then show ?thesis
    using single.freerange_all [OF s assms(1)] by (simp add: kinit_def freerange_def assms(1))
qed

text \<open>
  on a well-formed list \<^verbatim>\<open>infofreemem\<close> terminates and returns the page size times the number
  of free pages; the 64-bit sum does not wrap around.
\<close>

theorem infofreemem_counts:
  assumes "kmem_inv L s"
  shows "\<exists>n s'. infofreemem s = Some (n, s') \<and> unat n = 4096 * card (kmem_free s) \<and>
    ram s' = ram s \<and> freelist s' = freelist s"
proof -
  obtain ps where ps: "free_list s ps" "\<forall>p\<in>set ps. good_page L p" "kmem_free s = set ps" "layout_ok L"
    using assms by (rule kmem_inv_cases)
  let ?num = "\<lambda>p :: u64. unat p div 4096"
  have "card (set ps) \<le> 2 ^ 44"
  proof -
    have "inj_on ?num (set ps)"
    proof (rule inj_onI)
      fix p q assume pq: "p \<in> set ps" "q \<in> set ps" "?num p = ?num q"
      then have "page_aligned p" "page_aligned q" using ps(2) good_page_aligned by blast+
      with pq(3) show "p = q" by (metis page_aligned_unat dvd_div_mult_self word_unat_eq_iff)
    qed
    moreover have "?num ` set ps \<subseteq> {..<2 ^ 44}"
    proof
      fix k assume "k \<in> ?num ` set ps"
      then obtain p where p: "p \<in> set ps" "k = ?num p" by blast
      have "p < 2 ^ 56" using good_page_less [OF ps(4)] ps(2) p(1) by blast
      then show "k \<in> {..<2 ^ 44}" using p(2) by (simp add: word_less_nat_alt)
    qed
    ultimately show ?thesis
      by (metis card_image card_lessThan card_mono finite_lessThan)
  qed
  then have len: "length ps \<le> 2 ^ 44"
    using ps(1) by (simp add: free_list_def distinct_card)
  have "infofreemem_loop (kmem_call (Acquire ()) s) (freelist s) 0 = Some (PGSIZE * of_nat (length ps))"
    using infofreemem_loop_runs [of "kmem_call (Acquire ()) s" "freelist s" ps 0] ps(1)
    by (simp add: free_list_def)
  moreover have "unat (PGSIZE * of_nat (length ps) :: u64) = 4096 * length ps"
    using unat_page_from [of 0 "length ps"] len by simp
  moreover have "length ps = card (kmem_free s)"
    using ps(1,3) by (simp add: free_list_def distinct_card)
  ultimately show ?thesis by (simp add: infofreemem_def Let_def)
qed

text \<open>
  C25: \<^verbatim>\<open>kalloc\<close> returns 0 only when no page is free; otherwise it returns a free page filled with
  5s, takes only that page off the list and changes no other page; a following \<^verbatim>\<open>kfree\<close> of the
  page succeeds and the next \<^verbatim>\<open>kalloc\<close> returns it again.
\<close>

theorem kalloc_takes_one_page:
  assumes "kmem_inv L s" "kalloc s = (p, s')"
  shows "kmem_inv L s' \<and>
    (if kmem_free s = {} then p = 0 \<and> kmem_free s' = {}
     else p \<in> kmem_free s \<and> kmem_free s' = kmem_free s - {p} \<and>
       ram s' p = (\<lambda>_. rep_byte 5) \<and> (\<forall>q. q \<noteq> p \<longrightarrow> ram s' q = ram s q) \<and>
       (\<exists>s''. kfree L p s' = Ok s'' \<and> kmem_free s'' = kmem_free s \<and> fst (kalloc s'') = p))"
proof -
  obtain ps where ps: "free_list s ps" "\<forall>p\<in>set ps. good_page L p" "kmem_free s = set ps" "layout_ok L"
    using assms(1) by (rule kmem_inv_cases)
  show ?thesis
  proof (cases ps)
    case Nil
    with ps assms(2) have "p = 0" using kalloc_null_iff by fastforce
    with Nil ps assms show ?thesis using single.kalloc_null [of L s s'] by auto
  next
    case (Cons q qs)
    have p: "p = q" "free_list s' qs" "ram s' p = (\<lambda>_. rep_byte 5)"
        "\<forall>q. q \<noteq> p \<longrightarrow> ram s' q = ram s q"
      using kalloc_free_list [of s q qs] ps(1) Cons assms(2) by auto
    have good: "good_page L p" "p \<notin> set qs" using ps Cons p(1) by (auto simp: free_list_def)
    then obtain s'' where s'': "kfree L p s' = Ok s''" using kfree_Ok_iff by blast
    have fl: "free_list s'' (p # qs)"
      using kfree_free_list [OF s'' p(2) good(2) ps(4)] by simp
    have "fst (kalloc s'') = p" using kalloc_free_list [OF fl] by auto
    moreover have "kmem_free s' = kmem_free s - {p}" "kmem_inv L s'"
      using kmem_free_eq [OF p(2)] ps Cons p good by (auto simp: kmem_inv_def)
    ultimately show ?thesis
      using ps(3) Cons p s'' kmem_free_eq [OF fl] by simp
  qed
qed

text \<open>A small machine for the witnesses: two pages of memory, one of them on the free list.\<close>

definition ex_layout :: memlayout where
  "ex_layout = \<lparr>kend = 0x80001000, PHYSTOP = 0x80003000\<rparr>"

definition ex_kmem :: "u64 \<Rightarrow> kmem" where
  "ex_kmem r = \<lparr>ram = (\<lambda>_ _. 0), freelist = r, kmem_log = []\<rparr>"

lemma ex_layout_ok: "layout_ok ex_layout"
  by (simp add: layout_ok_def ex_layout_def)

lemma ex_kmem_free_list: "free_list (ex_kmem 0x80001000) [0x80001000]"
  by (simp add: free_list_def ex_kmem_def)

lemma ex_kmem_inv: "kmem_inv ex_layout (ex_kmem 0x80001000)"
  using ex_kmem_free_list ex_layout_ok
  by (auto simp: kmem_inv_def good_page_def ex_layout_def PGSIZE_def)

theorem kinit_frees_all_pages_witness:
  "\<exists>s'. kinit ex_layout (ex_kmem 0) = Some (Ok s') \<and> kmem_inv ex_layout s' \<and>
    kmem_free s' = {p. good_page ex_layout p \<and> unat p + 4096 \<le> unat (PHYSTOP ex_layout)}"
  by (rule kinit_frees_all_pages [OF ex_layout_ok]) (simp add: ex_kmem_def)

theorem infofreemem_counts_witness:
  "\<exists>n s'. infofreemem (ex_kmem 0x80001000) = Some (n, s') \<and> unat n = 4096"
  using infofreemem_counts [OF ex_kmem_inv] kmem_free_eq [OF ex_kmem_free_list] by auto

theorem kalloc_takes_one_page_witness:
  "\<exists>s'. kalloc (ex_kmem 0x80001000) = (0x80001000, s') \<and> kmem_free s' = {}"
proof -
  obtain p s' where k: "kalloc (ex_kmem 0x80001000) = (p, s')" by fastforce
  from kalloc_takes_one_page [OF ex_kmem_inv k] k show ?thesis
    by (auto simp: kmem_free_eq [OF ex_kmem_free_list])
qed

end
