(* ===== verification/Kalloc_Percpu.thy ===== *)
theory Kalloc_Percpu
  imports Page_Alloc
begin

text \<open>
  The physical page allocator of lab 3 (\<^verbatim>\<open>kernel/kalloc.c\<close>): one free list and one lock per
  CPU, and stealing from the other CPUs' lists when a CPU's own list is empty. The first part
  models the functions run by one CPU at a time; the second interleaves the critical sections
  of any number of threads.
\<close>

section \<open>State and operations\<close>

text \<open>\<^verbatim>\<open>kmems[NCPU]\<close>: the list heads; \<^verbatim>\<open>NCPU\<close> (of \<^verbatim>\<open>param.h\<close>) is the length of the list.\<close>

record kmems = mach +
  freelists :: "u64 list"
  kmems_log :: "nat lock_call list"

definition kmems_calls :: "nat lock_call list \<Rightarrow> kmems \<Rightarrow> kmems" where
  "kmems_calls cs s = s\<lparr>kmems_log := kmems_log s @ cs\<rparr>"

text \<open>The critical section of \<^verbatim>\<open>kfree\<close>: push the page on the list of CPU \<open>cpu_id\<close>.\<close>

definition push_run :: "nat \<Rightarrow> u64 \<Rightarrow> kmems \<Rightarrow> kmems" where
  "push_run cpu_id r s =
     (let s1 = kmems_calls [Acquire cpu_id] s;
          s2 = wr_cell r 0 (freelists s1 ! cpu_id) s1;
          s3 = s2\<lparr>freelists := (freelists s2)[cpu_id := r]\<rparr>
      in kmems_calls [Release cpu_id] s3)"

definition kfree3 :: "memlayout \<Rightarrow> nat \<Rightarrow> u64 \<Rightarrow> kmems \<Rightarrow> kmems res" where
  "kfree3 L cpu_id pa s =
     (if pa mod PGSIZE \<noteq> 0 \<or> pa < kend L \<or> pa \<ge> PHYSTOP L then Panic ''kfree''
      else
        let s1 = memset_page pa 1 s;
            s2 = kmems_calls [Push_off, Pop_off] s1
        in Ok (push_run cpu_id pa s2))"

text \<open>A critical section of \<^verbatim>\<open>kalloc\<close>: pop the list of CPU \<open>i\<close>; 0 when it is empty.\<close>

definition pop_run :: "nat \<Rightarrow> kmems \<Rightarrow> u64 \<times> kmems" where
  "pop_run i s =
     (let s1 = kmems_calls [Acquire i] s;
          r = freelists s1 ! i;
          s2 = (if r \<noteq> 0 then s1\<lparr>freelists := (freelists s1)[i := ram s1 r 0]\<rparr> else s1)
      in (r, kmems_calls [Release i] s2))"

text \<open>The loop of \<^verbatim>\<open>kalloc\<close> over the other CPUs' lists.\<close>

fun kalloc_steal :: "nat \<Rightarrow> nat list \<Rightarrow> kmems \<Rightarrow> u64 \<times> kmems" where
  "kalloc_steal cpu_id [] s = (0, s)"
| "kalloc_steal cpu_id (i # is) s =
     (if i = cpu_id then kalloc_steal cpu_id is s
      else
        let (r, s1) = pop_run i s
        in if r \<noteq> 0 then (r, memset_page r 5 s1) else kalloc_steal cpu_id is s1)"

definition kalloc3 :: "nat \<Rightarrow> kmems \<Rightarrow> u64 \<times> kmems" where
  "kalloc3 cpu_id s =
     (let s1 = kmems_calls [Push_off, Pop_off] s;
          (r, s2) = pop_run cpu_id s1
      in if r \<noteq> 0 then (r, memset_page r 5 s2)
         else kalloc_steal cpu_id [0..<length (freelists s2)] s2)"

text \<open>
  \<^verbatim>\<open>freerange\<close> and \<^verbatim>\<open>kinit\<close> run on one CPU at boot; \<^verbatim>\<open>initlock\<close> is outside the repository.
\<close>

definition freerange3 :: "memlayout \<Rightarrow> nat \<Rightarrow> u64 \<Rightarrow> u64 \<Rightarrow> kmems \<Rightarrow> kmems res option" where
  "freerange3 L cpu_id pa_start pa_end s =
     freerange_loop (kfree3 L cpu_id) (PGROUNDUP pa_start) pa_end s"

definition kinit3 :: "memlayout \<Rightarrow> nat \<Rightarrow> kmems \<Rightarrow> kmems res option" where
  "kinit3 L cpu_id s = freerange3 L cpu_id (kend L) (PHYSTOP L) s"

section \<open>Invariant\<close>

definition lists_ok :: "kmems \<Rightarrow> u64 list list \<Rightarrow> bool" where
  "lists_ok s xss \<longleftrightarrow> length xss = length (freelists s) \<and>
     (\<forall>i<length xss. runs (ram s) (freelists s ! i) (xss ! i)) \<and> distinct (concat xss)"

definition kmems_free :: "kmems \<Rightarrow> u64 set" where
  "kmems_free s =
     {p. \<exists>i<length (freelists s). \<exists>ps. runs (ram s) (freelists s ! i) ps \<and> p \<in> set ps}"

definition kmems_inv :: "memlayout \<Rightarrow> kmems \<Rightarrow> bool" where
  "kmems_inv L s \<longleftrightarrow>
     layout_ok L \<and> (\<exists>xss. lists_ok s xss \<and> (\<forall>p\<in>set (concat xss). good_page L p))"

lemma kmems_calls_simps [simp]:
  "ram (kmems_calls cs s) = ram s" "freelists (kmems_calls cs s) = freelists s"
  "kmems_log (kmems_calls cs s) = kmems_log s @ cs"
  by (simp_all add: kmems_calls_def)

lemma kmems_mem_ops [simp]:
  "freelists (memset_page p b s) = freelists s" "freelists (wr_cell p i v s) = freelists s"
  "kmems_log (memset_page p b s) = kmems_log s" "kmems_log (wr_cell p i v s) = kmems_log s"
  by (simp_all add: memset_page_def wr_cell_def)

lemma lists_ok_cong:
  "lists_ok s xss \<Longrightarrow> freelists s' = freelists s \<Longrightarrow>
   (\<And>p. p \<in> set (concat xss) \<Longrightarrow> ram s' p = ram s p) \<Longrightarrow> lists_ok s' xss"
proof -
  assume ok: "lists_ok s xss" and fl: "freelists s' = freelists s"
    and m: "\<And>p. p \<in> set (concat xss) \<Longrightarrow> ram s' p = ram s p"
  have r: "runs (ram s') r ps" if "runs (ram s) r ps" "\<forall>p\<in>set ps. ram s' p = ram s p" for r ps
    using that by (induction ps arbitrary: r) auto
  show "lists_ok s' xss"
    using ok fl m unfolding lists_ok_def in_concat_nth by (auto intro!: r)
qed

lemma lists_ok_calls [simp]: "lists_ok (kmems_calls cs s) xss = lists_ok s xss"
  by (simp add: lists_ok_def)

lemma lists_ok_memset [simp]:
  "p \<notin> set (concat xss) \<Longrightarrow> lists_ok s xss \<Longrightarrow> lists_ok (memset_page p b s) xss"
  by (rule lists_ok_cong) auto

lemma kmems_free_eq:
  assumes "lists_ok s xss"
  shows "kmems_free s = set (concat xss)"
proof -
  have "runs (ram s) (freelists s ! i) ps \<longleftrightarrow> ps = xss ! i" if "i < length xss" for i ps
    using assms that unfolding lists_ok_def by (auto dest: runs_unique)
  then have "p \<in> kmems_free s \<longleftrightarrow> (\<exists>i<length xss. p \<in> set (xss ! i))" for p
    using assms by (auto simp: kmems_free_def lists_ok_def)
  then show ?thesis unfolding set_eq_iff in_concat_nth by blast
qed

lemma lists_ok_not_null: "lists_ok s xss \<Longrightarrow> 0 \<notin> set (concat xss)"
  unfolding lists_ok_def in_concat_nth by (metis runs_not_null)

section \<open>The critical sections\<close>

lemma pop_run_empty:
  assumes "lists_ok s xss" "i < length xss" "xss ! i = []"
  shows "pop_run i s = (0, kmems_calls [Acquire i, Release i] s)"
proof -
  have "freelists s ! i = 0" using assms by (auto simp: lists_ok_def)
  then show ?thesis by (simp add: pop_run_def Let_def kmems_calls_def)
qed

lemma pop_run_page:
  assumes "lists_ok s xss" "i < length xss" "xss ! i = p # ps"
  obtains s' where "pop_run i s = (p, s')" "p \<noteq> 0" "lists_ok s' (xss[i := ps])"
    "ram s' = ram s" "kmems_log s' = kmems_log s @ [Acquire i, Release i]"
    "length (freelists s') = length (freelists s)"
proof -
  have p: "freelists s ! i = p" "p \<noteq> 0" "runs (ram s) (ram s p 0) ps"
    using assms by (auto simp: lists_ok_def)
  have d: "distinct (concat (xss[i := ps]))"
    using concat_update_tl [OF _ assms(2,3)] assms(1) by (simp add: lists_ok_def)
  let ?s = "snd (pop_run i s)"
  show thesis
  proof (rule that [of ?s])
    show "pop_run i s = (p, ?s)" "p \<noteq> 0" "ram ?s = ram s"
        "kmems_log ?s = kmems_log s @ [Acquire i, Release i]"
        "length (freelists ?s) = length (freelists s)"
      using p by (simp_all add: pop_run_def Let_def)
    show "lists_ok ?s (xss[i := ps])"
      using p d assms(1,2)
      by (auto simp: pop_run_def Let_def lists_ok_def nth_list_update)
  qed
qed

lemma push_run_page:
  assumes "lists_ok s xss" "i < length xss" "p \<notin> set (concat xss)" "p \<noteq> 0"
  shows "lists_ok (push_run i p s) (xss[i := p # xss ! i])"
proof -
  have "p \<notin> set (xss ! j)" if "j < length xss" for j
    using assms(3) that unfolding in_concat_nth by blast
  then show ?thesis
    using assms distinct_concat_update_Cons [OF _ assms(2,3)]
    by (auto simp: push_run_def Let_def lists_ok_def nth_list_update)
qed

section \<open>Sequential behaviour\<close>

text \<open>
  The lists in the order \<^verbatim>\<open>kalloc\<close> looks at them: the CPU's own, then the others by number.
\<close>

definition search_order :: "nat \<Rightarrow> nat \<Rightarrow> nat list" where
  "search_order cpu_id n = cpu_id # filter (\<lambda>i. i \<noteq> cpu_id) [0..<n]"

definition visits :: "nat list \<Rightarrow> nat lock_call list" where
  "visits is = concat (map (\<lambda>i. [Acquire i, Release i]) is)"

lemma lock_run_visits: "lock_run {} (visits is) = Some {}"
  by (induction "is") (simp_all add: visits_def)

text \<open>
  \<open>took s xss is r s'\<close>: the lists were tried in the order \<open>is\<close>, the first non-empty one lost
  its head \<open>r\<close>, which is filled with 5s, or all were empty and \<open>r\<close> is 0.
\<close>

inductive took :: "kmems \<Rightarrow> u64 list list \<Rightarrow> nat list \<Rightarrow> u64 \<Rightarrow> kmems \<Rightarrow> bool" where
  took_page:
    "\<forall>j\<in>set js. xss ! j = [] \<Longrightarrow> xss ! i = r # ps \<Longrightarrow> r \<noteq> 0 \<Longrightarrow> lists_ok s' (xss[i := ps]) \<Longrightarrow>
     ram s' = (ram s)(r := (\<lambda>_. rep_byte 5)) \<Longrightarrow>
     kmems_log s' = kmems_log s @ visits (js @ [i]) \<Longrightarrow> took s xss (js @ i # ks) r s'"
| took_none:
    "\<forall>i\<in>set is. xss ! i = [] \<Longrightarrow> lists_ok s' xss \<Longrightarrow> ram s' = ram s \<Longrightarrow>
     kmems_log s' = kmems_log s @ visits is \<Longrightarrow> took s xss is 0 s'"

lemma took_skip:
  assumes "took (kmems_calls [Acquire i, Release i] s) xss is r s'" "xss ! i = []"
  shows "took s xss (i # is) r s'"
  using assms(1)
proof cases
  case (took_page js j ps ks)
  with assms(2) show ?thesis
    using took.took_page [of "i # js" xss j r ps s' s ks] by (simp add: visits_def)
next
  case took_none
  with assms(2) show ?thesis
    using took.took_none [of "i # is" xss s' s] by (simp add: visits_def)
qed

lemma took_first:
  assumes "lists_ok s xss" "i < length xss" "xss ! i = q # qs"
  obtains s1 where "pop_run i s = (q, s1)" "q \<noteq> 0" "took s xss (i # ks) q (memset_page q 5 s1)"
proof -
  obtain s1 where s1: "pop_run i s = (q, s1)" "q \<noteq> 0" "lists_ok s1 (xss[i := qs])"
      "ram s1 = ram s" "kmems_log s1 = kmems_log s @ [Acquire i, Release i]"
    using pop_run_page [OF assms] by metis
  have "q \<notin> set (concat (xss[i := qs]))"
    using concat_update_tl [OF _ assms(2,3)] assms(1) by (simp add: lists_ok_def)
  then have "took s xss ([] @ i # ks) q (memset_page q 5 s1)"
    using s1 assms by (intro took.took_page) (auto simp: visits_def)
  with s1 that show thesis by simp
qed

lemma kalloc_steal_took:
  assumes "lists_ok s xss" "\<forall>i\<in>set is. i < length xss" "kalloc_steal c is s = (r, s')"
  shows "took s xss (filter (\<lambda>i. i \<noteq> c) is) r s'"
  using assms
proof (induction "is" arbitrary: s)
  case Nil
  then show ?case by (auto simp: visits_def intro: took_none)
next
  case (Cons i "is")
  consider "i = c" | "i \<noteq> c" "xss ! i = []" | q qs where "i \<noteq> c" "xss ! i = q # qs"
    by (cases "xss ! i") auto
  then show ?case
  proof cases
    case 1
    with Cons show ?thesis by simp
  next
    case 2
    have "took (kmems_calls [Acquire i, Release i] s) xss (filter (\<lambda>i. i \<noteq> c) is) r s'"
      using Cons.prems pop_run_empty [of s xss i] 2 by (intro Cons.IH) simp_all
    with 2 show ?thesis by (simp add: took_skip)
  next
    case 3
    obtain s1 where "pop_run i s = (q, s1)" "q \<noteq> 0"
        "took s xss (i # filter (\<lambda>i. i \<noteq> c) is) q (memset_page q 5 s1)"
      using Cons.prems 3 by (elim took_first [where ks = "filter (\<lambda>i. i \<noteq> c) is"]) auto
    with 3 Cons.prems show ?thesis by auto
  qed
qed

lemma kalloc3_took:
  assumes "lists_ok s xss" "c < length xss" "kalloc3 c s = (r, s')"
  shows "took (kmems_calls [Push_off, Pop_off] s) xss (search_order c (length xss)) r s'"
proof -
  let ?s = "kmems_calls [Push_off, Pop_off] s"
  have ok: "lists_ok ?s xss" using assms(1) by simp
  show ?thesis
  proof (cases "xss ! c")
    case Nil
    let ?s' = "kmems_calls [Acquire c, Release c] ?s"
    have "pop_run c ?s = (0, ?s')"
      using pop_run_empty [OF ok assms(2) Nil] by simp
    then have "kalloc_steal c [0..<length xss] ?s' = (r, s')"
      using assms by (simp add: kalloc3_def Let_def lists_ok_def)
    then have "took ?s' xss (filter (\<lambda>i. i \<noteq> c) [0..<length xss]) r s'"
      using ok by (intro kalloc_steal_took) auto
    then show ?thesis using Nil by (simp add: search_order_def took_skip)
  next
    case (Cons q qs)
    obtain s1 where "pop_run c ?s = (q, s1)" "q \<noteq> 0"
        "took ?s xss (search_order c (length xss)) q (memset_page q 5 s1)"
      unfolding search_order_def by (rule took_first [OF ok assms(2) Cons])
    then show ?thesis using assms(3) by (auto simp: kalloc3_def Let_def)
  qed
qed

lemma kfree3_push:
  assumes "lists_ok s xss" "c < length xss" "pa \<notin> set (concat xss)" "pa \<noteq> 0"
    and "kfree3 L c pa s = Ok s'"
  shows "lists_ok s' (xss[c := pa # xss ! c]) \<and> (\<forall>q. q \<noteq> pa \<longrightarrow> ram s' q = ram s q)"
proof -
  let ?s = "kmems_calls [Push_off, Pop_off] (memset_page pa 1 s)"
  have s': "s' = push_run c pa ?s"
    using assms(5) by (simp add: kfree3_def Let_def split: if_splits)
  have "lists_ok ?s xss" using assms(1,3) by simp
  from push_run_page [OF this assms(2,3,4)] show ?thesis
    by (simp add: s' push_run_def Let_def)
qed

lemma kfree3_Ok_iff: "(\<exists>s'. kfree3 L c pa s = Ok s') \<longleftrightarrow> good_page L pa"
  by (auto simp: kfree3_def good_page_def Let_def)

lemma kmems_inv_cases:
  assumes "kmems_inv L s"
  obtains xss where "lists_ok s xss" "\<forall>p\<in>set (concat xss). good_page L p"
    "kmems_free s = set (concat xss)" "length xss = length (freelists s)" "layout_ok L"
proof -
  obtain xss where "lists_ok s xss" "\<forall>p\<in>set (concat xss). good_page L p" "layout_ok L"
    using assms by (auto simp: kmems_inv_def)
  with that show thesis by (metis kmems_free_eq lists_ok_def)
qed

lemma kmems_invI:
  "lists_ok s xss \<Longrightarrow> \<forall>p\<in>set (concat xss). good_page L p \<Longrightarrow> layout_ok L \<Longrightarrow> kmems_inv L s"
  by (auto simp: kmems_inv_def)

lemma set_search_order: "c < n \<Longrightarrow> set (search_order c n) = {..<n}"
  by (auto simp: search_order_def)

lemma concat_eq_empty: "(\<forall>i\<in>{..<length xss}. xss ! i = []) \<longleftrightarrow> set (concat xss) = {}"
proof -
  have "set (concat xss) = {} \<longleftrightarrow> (\<forall>i<length xss. set (xss ! i) = {})"
    unfolding set_eq_iff in_concat_nth by blast
  then show ?thesis by auto
qed

text \<open>What \<^verbatim>\<open>kalloc\<close> does to the set of free pages.\<close>

lemma kalloc3_free:
  assumes "kmems_inv L s" "c < length (freelists s)" "kalloc3 c s = (r, s')"
  shows "kmems_inv L s' \<and> length (freelists s') = length (freelists s) \<and>
    (if kmems_free s = {} then r = 0 \<and> kmems_free s' = {} \<and> ram s' = ram s
     else r \<noteq> 0 \<and> r \<in> kmems_free s \<and> kmems_free s' = kmems_free s - {r} \<and>
       ram s' = (ram s)(r := (\<lambda>_. rep_byte 5)))"
proof -
  obtain xss where xss: "lists_ok s xss" "\<forall>p\<in>set (concat xss). good_page L p"
      "kmems_free s = set (concat xss)" "length xss = length (freelists s)" "layout_ok L"
    using assms(1) by (rule kmems_inv_cases)
  have c: "c < length xss" using xss(4) assms(2) by simp
  from kalloc3_took [OF xss(1) c assms(3)] show ?thesis
  proof cases
    case (took_page js i ps ks)
    have "set (js @ i # ks) = {..<length xss}"
      using took_page(1) set_search_order [OF c] by simp
    then have i: "i < length xss" by auto
    have cc: "set (concat (xss[i := ps])) = set (concat xss) - {r}" "r \<in> set (concat xss)"
      using concat_update_tl [OF _ i took_page(3)] xss(1) by (auto simp: lists_ok_def)
    have inv': "kmems_inv L s'"
      by (rule kmems_invI [OF took_page(5) _ xss(5)]) (use cc xss(2) in blast)
    have len: "length (freelists s') = length xss"
      using took_page(5) by (simp add: lists_ok_def)
    have ne: "set (concat xss) \<noteq> {}" 
      using concat_eq_empty [of xss] i took_page(3) by fastforce
    have ram': "ram s' = (ram s)(r := (\<lambda>_. rep_byte 5))" using took_page(6) by simp
    show ?thesis
      using inv' len cc took_page(4) ram' kmems_free_eq [OF took_page(5)]
      unfolding xss(3) by (simp only: ne if_False simp_thms xss(4))
  next
    case took_none
    then have "\<forall>i\<in>{..<length xss}. xss ! i = []" using set_search_order [OF c] by simp
    then have e: "set (concat xss) = {}" by (simp only: concat_eq_empty)
    have inv': "kmems_inv L s'"
      by (rule kmems_invI [OF took_none(3) xss(2,5)])
    have len: "length (freelists s') = length xss"
      using took_none(3) by (simp add: lists_ok_def)
    show ?thesis
      using inv' len e took_none kmems_free_eq [OF took_none(3)]
      unfolding xss(3) xss(4) by simp
  qed
qed

definition percpu_inv :: "memlayout \<Rightarrow> nat \<Rightarrow> kmems \<Rightarrow> bool" where
  "percpu_inv L c s \<longleftrightarrow> kmems_inv L s \<and> c < length (freelists s)"

interpretation percpu: page_allocator "kalloc3 c" "kfree3 L c" kmems_free "percpu_inv L c"
    "\<lambda>p. layout_ok L \<and> good_page L p" for L c
proof (unfold_locales, goal_cases)
  case (4 s p)
  then show ?case by (auto simp: percpu_inv_def elim: kmems_inv_cases)
next
  case (5 s s')
  then show ?case
    using kalloc3_free [of L s c 0 s'] by (auto simp: percpu_inv_def split: if_splits)
next
  case (6 s p s')
  then show ?case
    using kalloc3_free [of L s c p s'] by (auto simp: percpu_inv_def split: if_splits)
next
  case (7 s p)
  then obtain xss where xss: "lists_ok s xss" "\<forall>p\<in>set (concat xss). good_page L p"
      "kmems_free s = set (concat xss)" "length xss = length (freelists s)"
    by (auto simp: percpu_inv_def elim: kmems_inv_cases)
  have c: "c < length xss" using xss(4) 7 by (simp add: percpu_inv_def)
  obtain s' where s': "kfree3 L c p s = Ok s'" using 7 kfree3_Ok_iff by blast
  have ok: "lists_ok s' (xss[c := p # xss ! c])" "\<forall>q. q \<noteq> p \<longrightarrow> ram s' q = ram s q"
    using kfree3_push [OF xss(1) c _ _ s'] 7 xss(3) good_page_not_null by auto
  note cc = set_concat_update_Cons [OF c, of p]
  have "kmems_inv L s'"
    by (rule kmems_invI [OF ok(1)]) (use cc 7 xss(2) in auto)
  moreover have "length (freelists s') = length (freelists s)"
    using ok(1) xss(4) by (simp add: lists_ok_def)
  ultimately show ?case
    using s' ok kmems_free_eq [OF ok(1)] cc 7(1) xss(3) by (simp add: percpu_inv_def)
next
  case (8 s p)
  then show ?case by (auto simp: percpu_inv_def kmems_inv_def kfree3_def good_page_def)
next
  case (9 s p d)
  let ?s = "s\<lparr>ram := (ram s)(p := d)\<rparr>"
  obtain xss where xss: "lists_ok s xss" "\<forall>p\<in>set (concat xss). good_page L p"
      "kmems_free s = set (concat xss)" "layout_ok L"
    using 9 by (auto simp: percpu_inv_def elim: kmems_inv_cases)
  have "lists_ok ?s xss"
    by (rule lists_ok_cong [OF xss(1)]) (use 9 xss(3) in auto)
  then show ?case using xss 9(1) kmems_free_eq kmems_invI by (simp add: percpu_inv_def)
qed (auto simp: good_page_aligned, auto simp: good_page_def layout_ok_def)

section \<open>Interleaving: threads on several CPUs\<close>

text \<open>
  Each thread is at one of the points between the critical sections of \<^verbatim>\<open>kalloc\<close> and \<^verbatim>\<open>kfree\<close>; a
  step runs one critical section of one thread. A thread may run on any CPU and may have been
  moved to another CPU after it read \<^verbatim>\<open>cpuid()\<close>, so the number it read is arbitrary.
\<close>

datatype kpc =
    KIdle
  | KOwn nat                \<comment> \<open>in \<^verbatim>\<open>kalloc\<close>, about to try the list of the CPU it read\<close>
  | KScan nat "nat list"    \<comment> \<open>in the loop of \<^verbatim>\<open>kalloc\<close>, with the lists still to try\<close>
  | KGot u64                \<comment> \<open>in \<^verbatim>\<open>kalloc\<close>, with a page taken, about to fill and return it\<close>
  | KPush nat u64           \<comment> \<open>in \<^verbatim>\<open>kfree\<close>, page filled, about to push it\<close>

record ksys =
  kst :: kmems
  kpcs :: "nat \<Rightarrow> kpc"
  inuse :: "u64 set"

inductive kstep :: "memlayout \<Rightarrow> ksys \<Rightarrow> ksys \<Rightarrow> bool" for L :: memlayout where
  alloc_call:
    "kpcs S t = KIdle \<Longrightarrow> c < length (freelists (kst S)) \<Longrightarrow>
     kstep L S (S\<lparr>kst := kmems_calls [Push_off, Pop_off] (kst S), kpcs := (kpcs S)(t := KOwn c)\<rparr>)"
| own_hit:
    "kpcs S t = KOwn c \<Longrightarrow> pop_run c (kst S) = (r, s') \<Longrightarrow> r \<noteq> 0 \<Longrightarrow>
     kstep L S (S\<lparr>kst := s', kpcs := (kpcs S)(t := KGot r)\<rparr>)"
| own_miss:
    "kpcs S t = KOwn c \<Longrightarrow> pop_run c (kst S) = (0, s') \<Longrightarrow>
     kstep L S (S\<lparr>kst := s', kpcs := (kpcs S)(t := KScan c [0..<length (freelists s')])\<rparr>)"
| scan_skip:
    "kpcs S t = KScan c (c # is) \<Longrightarrow> kstep L S (S\<lparr>kpcs := (kpcs S)(t := KScan c is)\<rparr>)"
| scan_hit:
    "kpcs S t = KScan c (i # is) \<Longrightarrow> i \<noteq> c \<Longrightarrow> pop_run i (kst S) = (r, s') \<Longrightarrow> r \<noteq> 0 \<Longrightarrow>
     kstep L S (S\<lparr>kst := s', kpcs := (kpcs S)(t := KGot r)\<rparr>)"
| scan_miss:
    "kpcs S t = KScan c (i # is) \<Longrightarrow> i \<noteq> c \<Longrightarrow> pop_run i (kst S) = (0, s') \<Longrightarrow>
     kstep L S (S\<lparr>kst := s', kpcs := (kpcs S)(t := KScan c is)\<rparr>)"
| scan_end:
    "kpcs S t = KScan c [] \<Longrightarrow> kstep L S (S\<lparr>kpcs := (kpcs S)(t := KIdle)\<rparr>)"
| alloc_return:
    "kpcs S t = KGot r \<Longrightarrow>
     kstep L S (S\<lparr>kst := memset_page r 5 (kst S), kpcs := (kpcs S)(t := KIdle),
       inuse := insert r (inuse S)\<rparr>)"
| free_call:
    "kpcs S t = KIdle \<Longrightarrow> r \<in> inuse S \<Longrightarrow> good_page L r \<Longrightarrow> c < length (freelists (kst S)) \<Longrightarrow>
     kstep L S (S\<lparr>kst := kmems_calls [Push_off, Pop_off] (memset_page r 1 (kst S)),
       kpcs := (kpcs S)(t := KPush c r), inuse := inuse S - {r}\<rparr>)"
| free_push:
    "kpcs S t = KPush c r \<Longrightarrow>
     kstep L S (S\<lparr>kst := push_run c r (kst S), kpcs := (kpcs S)(t := KIdle)\<rparr>)"

text \<open>The pages a thread has taken off a list or is about to push.\<close>

fun pages_of :: "kpc \<Rightarrow> u64 set" where
  "pages_of (KGot r) = {r}"
| "pages_of (KPush c r) = {r}"
| "pages_of pc = {}"

fun pc_ok :: "nat \<Rightarrow> kpc \<Rightarrow> bool" where
  "pc_ok n (KOwn c) \<longleftrightarrow> c < n"
| "pc_ok n (KScan c is) \<longleftrightarrow> (\<forall>i\<in>set is. i < n)"
| "pc_ok n (KPush c r) \<longleftrightarrow> c < n"
| "pc_ok n pc \<longleftrightarrow> True"

definition ksys_ok :: "u64 set \<Rightarrow> ksys \<Rightarrow> u64 list list \<Rightarrow> bool" where
  "ksys_ok A S xss \<longleftrightarrow>
     lists_ok (kst S) xss \<and> 0 \<notin> A \<and> (\<forall>t. pc_ok (length xss) (kpcs S t)) \<and>
     (\<forall>t u. t \<noteq> u \<longrightarrow> pages_of (kpcs S t) \<inter> pages_of (kpcs S u) = {}) \<and>
     (\<forall>t. pages_of (kpcs S t) \<inter> (set (concat xss) \<union> inuse S) = {}) \<and>
     inuse S \<inter> set (concat xss) = {} \<and>
     A = set (concat xss) \<union> inuse S \<union> (\<Union>t. pages_of (kpcs S t))"

text \<open>A step that only moves pages between a list, one thread and the clients.\<close>

lemma ksys_ok_move:
  assumes ok: "ksys_ok A S xss"
    and s': "lists_ok s' xss'" "length xss' = length xss" "pc_ok (length xss) pc"
    and same: "set (concat xss') \<union> U \<union> pages_of pc =
      set (concat xss) \<union> inuse S \<union> pages_of (kpcs S t)"
    and disj: "set (concat xss') \<inter> U = {}" "pages_of pc \<inter> (set (concat xss') \<union> U) = {}"
  shows "ksys_ok A (S\<lparr>kst := s', kpcs := (kpcs S)(t := pc), inuse := U\<rparr>) xss'"
proof -
  let ?C = "set (concat xss)" and ?C' = "set (concat xss')"
  let ?P = "\<lambda>u. pages_of (kpcs S u)"
  have others: "?P u \<inter> (?C' \<union> U \<union> pages_of pc) = {}" if "u \<noteq> t" for u
  proof -
    have "?P u \<inter> ?P t = {}" "?P u \<inter> (?C \<union> inuse S) = {}"
      using ok that unfolding ksys_ok_def by metis+
    then show ?thesis unfolding same by (simp only: Int_Un_distrib Un_empty)
  qed
  let ?R = "\<Union>u\<in>-{t}. ?P u"
  have "A = ?C \<union> inuse S \<union> (\<Union>u. ?P u)" using ok by (simp only: ksys_ok_def)
  also have "(\<Union>u. ?P u) = ?P t \<union> ?R" by auto
  also have "?C \<union> inuse S \<union> (?P t \<union> ?R) = (?C \<union> inuse S \<union> ?P t) \<union> ?R" by (simp only: Un_assoc)
  also have "\<dots> = (?C' \<union> U \<union> pages_of pc) \<union> ?R" unfolding same ..
  also have "\<dots> = ?C' \<union> U \<union> (pages_of pc \<union> ?R)" by (simp only: Un_assoc)
  also have "pages_of pc \<union> ?R = (\<Union>u. pages_of (((kpcs S)(t := pc)) u))"
    by (auto split: if_splits)
  finally have A: "A = ?C' \<union> U \<union> (\<Union>u. pages_of (((kpcs S)(t := pc)) u))" .
  have pcs: "pages_of (((kpcs S)(t := pc)) u) \<inter> pages_of (((kpcs S)(t := pc)) v) = {}"
    if "u \<noteq> v" for u v
    using that others [of u] others [of v] ok by (auto simp: ksys_ok_def)
  have pcs': "pages_of (((kpcs S)(t := pc)) u) \<inter> (?C' \<union> U) = {}" for u
    using others [of u] disj(2) by (cases "u = t") auto
  show ?thesis
    unfolding ksys_ok_def
  proof (intro conjI allI impI)
    show "A = set (concat xss') \<union> inuse (S\<lparr>kst := s', kpcs := (kpcs S)(t := pc), inuse := U\<rparr>) \<union>
        (\<Union>u. pages_of (kpcs (S\<lparr>kst := s', kpcs := (kpcs S)(t := pc), inuse := U\<rparr>) u))"
      using A by simp
    show "0 \<notin> A" using ok unfolding ksys_ok_def by (elim conjE)
  qed (use s' disj(1) pcs pcs' ok in \<open>simp_all add: ksys_ok_def Int_commute\<close>)
qed

lemma ksys_ok_index: "ksys_ok A S xss \<Longrightarrow> pc_ok (length xss) (kpcs S t)"
  by (simp add: ksys_ok_def)

lemma ksys_ok_lists: "ksys_ok A S xss \<Longrightarrow> lists_ok (kst S) xss"
  by (simp add: ksys_ok_def)

lemma ksys_ok_not_null: "ksys_ok A S xss \<Longrightarrow> r \<in> pages_of (kpcs S t) \<Longrightarrow> r \<noteq> 0"
  by (auto simp: ksys_ok_def)

lemma ksys_ok_disjoint:
  "ksys_ok A S xss \<Longrightarrow> set (concat xss) \<inter> inuse S = {}"
  "ksys_ok A S xss \<Longrightarrow> pages_of (kpcs S t) \<inter> (set (concat xss) \<union> inuse S) = {}"
  unfolding ksys_ok_def by (simp_all only: Int_commute)

lemma ksys_ok_pc:
  assumes "ksys_ok A S xss" "pc_ok (length xss) pc" "pages_of pc = pages_of (kpcs S t)"
    "lists_ok s' xss"
  shows "ksys_ok A (S\<lparr>kst := s', kpcs := (kpcs S)(t := pc)\<rparr>) xss"
  using ksys_ok_move [OF assms(1,4) refl assms(2), of "inuse S" t] assms(3)
    ksys_ok_disjoint(1) [OF assms(1)] ksys_ok_disjoint(2) [OF assms(1), of t] by simp

text \<open>A thread takes a page off list \<open>i\<close>.\<close>

lemma ksys_ok_pop:
  assumes ok: "ksys_ok A S xss" and i: "i < length xss" and none: "pages_of (kpcs S t) = {}"
    and pop: "pop_run i (kst S) = (r, s')"
  shows "r \<noteq> 0 \<Longrightarrow> \<exists>xss'. ksys_ok A (S\<lparr>kst := s', kpcs := (kpcs S)(t := KGot r)\<rparr>) xss'"
    and "r = 0 \<Longrightarrow> lists_ok s' xss"
proof -
  note lists = ksys_ok_lists [OF ok]
  assume "r \<noteq> 0"
  then obtain ps where ps: "xss ! i = r # ps"
    using pop pop_run_empty [OF lists i] pop_run_page [OF lists i] by (cases "xss ! i") fastforce+
  have s': "lists_ok s' (xss[i := ps])"
    using pop_run_page [OF lists i ps] pop by (metis prod.inject)
  have cc: "set (concat (xss[i := ps])) = set (concat xss) - {r}" "r \<in> set (concat xss)"
    using concat_update_tl [OF _ i ps] lists by (auto simp: lists_ok_def)
  have "ksys_ok A (S\<lparr>kst := s', kpcs := (kpcs S)(t := KGot r), inuse := inuse S\<rparr>) (xss[i := ps])"
    by (rule ksys_ok_move [OF ok s']) (use cc none ksys_ok_disjoint(1) [OF ok] in \<open>auto simp del: set_concat\<close>)
  then show "\<exists>xss'. ksys_ok A (S\<lparr>kst := s', kpcs := (kpcs S)(t := KGot r)\<rparr>) xss'" by auto
next
  note lists = ksys_ok_lists [OF ok]
  assume "r = 0"
  show "lists_ok s' xss"
  proof (cases "xss ! i")
    case Nil
    then show ?thesis using pop pop_run_empty [OF lists i] lists by auto
  next
    case (Cons q qs)
    then show ?thesis using pop pop_run_page [OF lists i] \<open>r = 0\<close> by fastforce
  qed
qed

lemma kstep_ok:
  assumes "kstep L S S'" "ksys_ok A S xss"
  shows "\<exists>xss'. ksys_ok A S' xss'"
  using assms
proof (induction rule: kstep.induct)
  case (alloc_call S t c)
  then show ?case
    using ksys_ok_pc [OF alloc_call.prems, of "KOwn c" t "kmems_calls [Push_off, Pop_off] (kst S)"]
      ksys_ok_lists [OF alloc_call.prems] by (auto simp: lists_ok_def)
next
  case (own_hit S t c r s')
  then show ?case using ksys_ok_pop(1) [OF own_hit.prems, of c t r s'] ksys_ok_index [of A S xss t] by auto
next
  case (own_miss S t c s')
  have ok: "lists_ok s' xss"
    using ksys_ok_pop(2) [OF own_miss.prems, of c t 0 s'] own_miss ksys_ok_index [of A S xss t] by auto
  then show ?case
    using ksys_ok_pc [OF own_miss.prems, of "KScan c [0..<length (freelists s')]" t s'] own_miss
    by (auto simp: lists_ok_def)
next
  case (scan_skip S t c "is")
  then show ?case
    using ksys_ok_pc [OF scan_skip.prems, of "KScan c is" t "kst S"] ksys_ok_index [of A S xss t]
      ksys_ok_lists [OF scan_skip.prems] by auto
next
  case (scan_hit S t c i "is" r s')
  then show ?case using ksys_ok_pop(1) [OF scan_hit.prems, of i t r s'] ksys_ok_index [of A S xss t] by auto
next
  case (scan_miss S t c i "is" s')
  have "lists_ok s' xss"
    using ksys_ok_pop(2) [OF scan_miss.prems, of i t 0 s'] scan_miss ksys_ok_index [of A S xss t] by auto
  then show ?case
    using ksys_ok_pc [OF scan_miss.prems, of "KScan c is" t s'] scan_miss ksys_ok_index [of A S xss t]
    by auto
next
  case (scan_end S t c)
  then show ?case
    using ksys_ok_pc [OF scan_end.prems, of KIdle t "kst S"] ksys_ok_lists [OF scan_end.prems] by auto
next
  case (alloc_return S t r)
  note d = ksys_ok_disjoint(1) [OF alloc_return.prems] ksys_ok_disjoint(2) [OF alloc_return.prems, of t]
  have "lists_ok (memset_page r 5 (kst S)) xss"
    using ksys_ok_lists [OF alloc_return.prems] d(2) alloc_return(1) by (intro lists_ok_memset) auto
  from ksys_ok_move [OF alloc_return.prems this, of KIdle "insert r (inuse S)" t]
  show ?case using d alloc_return(1) by (auto simp del: set_concat)
next
  case (free_call S t r c)
  note d = ksys_ok_disjoint(1) [OF free_call.prems] ksys_ok_disjoint(2) [OF free_call.prems, of t]
  let ?s = "kmems_calls [Push_off, Pop_off] (memset_page r 1 (kst S))"
  have len: "length xss = length (freelists (kst S))"
    using ksys_ok_lists [OF free_call.prems] by (simp add: lists_ok_def)
  have "r \<notin> set (concat xss)" using d(1) free_call(2) by (auto simp del: set_concat)
  then have "lists_ok ?s xss" using ksys_ok_lists [OF free_call.prems] by simp
  from ksys_ok_move [OF free_call.prems this, of "KPush c r" "inuse S - {r}" t]
  show ?case using d free_call(1,2,4) len by (auto simp del: set_concat)
next
  case (free_push S t c r)
  note d = ksys_ok_disjoint(1) [OF free_push.prems] ksys_ok_disjoint(2) [OF free_push.prems, of t]
  have c: "c < length xss" using ksys_ok_index [OF free_push.prems, of t] free_push(1) by simp
  have r: "r \<notin> set (concat xss)" using d(2) free_push(1) by (auto simp del: set_concat)
  have "r \<noteq> 0" using ksys_ok_not_null [OF free_push.prems, of r t] free_push(1) by simp
  from push_run_page [OF ksys_ok_lists [OF free_push.prems] c r this]
  have "lists_ok (push_run c r (kst S)) (xss[c := r # xss ! c])" .
  from ksys_ok_move [OF free_push.prems this, of KIdle "inuse S" t]
  show ?case using d free_push(1) set_concat_update_Cons [OF c, of r] by (auto simp del: set_concat)
qed

inductive kreach :: "memlayout \<Rightarrow> ksys \<Rightarrow> ksys \<Rightarrow> bool" for L S0 where
  kreach_refl: "kreach L S0 S0"
| kreach_step: "kreach L S0 S \<Longrightarrow> kstep L S S' \<Longrightarrow> kreach L S0 S'"

lemma kreach_ok: "kreach L S0 S \<Longrightarrow> ksys_ok A S0 xss \<Longrightarrow> \<exists>xss'. ksys_ok A S xss'"
  by (induction rule: kreach.induct) (blast intro: kstep_ok)+

section \<open>Properties\<close>

text \<open>
  C24: run by one CPU, \<^verbatim>\<open>kalloc\<close> takes the head of the first non-empty list in the order own list,
  then the other CPUs' lists by number, fills that page with 5s and changes no other page; it
  returns 0 only when every list is empty. It holds one list's lock at a time and releases
  every lock it takes.
\<close>

theorem kalloc3_first_nonempty:
  assumes "lists_ok s xss" "cpu_id < length xss" "kalloc3 cpu_id s = (r, s')"
  shows "(case find (\<lambda>i. xss ! i \<noteq> []) (search_order cpu_id (length xss)) of
       Some i \<Rightarrow> r = hd (xss ! i) \<and> r \<noteq> 0 \<and> lists_ok s' (xss[i := tl (xss ! i)]) \<and>
         ram s' = (ram s)(r := (\<lambda>_. rep_byte 5))
     | None \<Rightarrow> r = 0 \<and> lists_ok s' xss \<and> ram s' = ram s) \<and>
    (\<exists>is. kmems_log s' = kmems_log s @ [Push_off, Pop_off] @ visits is) \<and>
    (\<exists>cs. kmems_log s' = kmems_log s @ cs \<and> lock_run {} cs = Some {})"
proof -
  have find_app: "find P (js @ i # ks) = Some i" if "\<forall>j\<in>set js. \<not> P j" "P i"
    for P :: "nat \<Rightarrow> bool" and js i ks
    using that by (induction js) auto
  let ?P = "\<lambda>i. xss ! i \<noteq> []"
  from kalloc3_took [OF assms] show ?thesis
  proof cases
    case (took_page js i ps ks)
    have "find ?P (search_order cpu_id (length xss)) = Some i"
      unfolding took_page(1) by (rule find_app) (use took_page in auto)
    moreover have "kmems_log s' = kmems_log s @ [Push_off, Pop_off] @ visits (js @ [i])"
      using took_page by simp
    moreover have "lock_run {} ([Push_off, Pop_off] @ visits (js @ [i])) = Some {}"
      by (simp add: lock_run_visits)
    ultimately show ?thesis using took_page by auto
  next
    case took_none
    have "find ?P (search_order cpu_id (length xss)) = None"
      using took_none by (simp add: find_None_iff)
    moreover have "kmems_log s' = kmems_log s @ [Push_off, Pop_off] @ visits (search_order cpu_id (length xss))"
      using took_none by simp
    moreover have "lock_run {} ([Push_off, Pop_off] @ visits (search_order cpu_id (length xss))) = Some {}"
      by (simp add: lock_run_visits)
    ultimately show ?thesis using took_none by auto
  qed
qed

text \<open>
  C3: with any number of threads in \<^verbatim>\<open>kalloc\<close> and \<^verbatim>\<open>kfree\<close> on any CPUs, and their critical
  sections interleaved in any order, a page is never handed out twice: a page in use is neither
  on a free list nor taken by another thread, two threads never hold the same page, and no page
  is lost.
\<close>

theorem kalloc3_no_double_allocation:
  assumes "lists_ok (kst S0) xss" "\<forall>t. kpcs S0 t = KIdle" "inuse S0 = {}" "kreach L S0 S"
  shows "inuse S \<inter> kmems_free (kst S) = {} \<and>
    (\<forall>t. pages_of (kpcs S t) \<inter> (inuse S \<union> kmems_free (kst S)) = {}) \<and>
    (\<forall>t u. t \<noteq> u \<longrightarrow> pages_of (kpcs S t) \<inter> pages_of (kpcs S u) = {}) \<and>
    kmems_free (kst S) \<union> inuse S \<union> (\<Union>t. pages_of (kpcs S t)) = kmems_free (kst S0)"
proof -
  have "ksys_ok (kmems_free (kst S0)) S0 xss"
    using assms(1-3) lists_ok_not_null [OF assms(1)] kmems_free_eq [OF assms(1)]
    by (simp add: ksys_ok_def)
  from kreach_ok [OF assms(4) this] obtain xss' where ok: "ksys_ok (kmems_free (kst S0)) S xss'" ..
  then have free: "kmems_free (kst S) = set (concat xss')"
    using kmems_free_eq ksys_ok_lists by blast
  show ?thesis
    using ok unfolding free ksys_ok_def by (elim conjE) (simp only: Un_commute simp_thms)
qed

text \<open>
  \<^verbatim>\<open>kinit\<close> ends without a panic and gives every whole page between \<^verbatim>\<open>end\<close> and \<^verbatim>\<open>PHYSTOP\<close> to
  the lists of the allocator.
\<close>

theorem kinit3_frees_all_pages:
  assumes "layout_ok L" "cpu_id < length (freelists s)" "\<forall>i<length (freelists s). freelists s ! i = 0"
  shows "\<exists>s'. kinit3 L cpu_id s = Some (Ok s') \<and> kmems_inv L s' \<and>
    kmems_free s' = {p. good_page L p \<and> unat p + 4096 \<le> unat (PHYSTOP L)}"
proof -
  have ok: "lists_ok s (replicate (length (freelists s)) [])"
    using assms(3) by (auto simp: lists_ok_def)
  have s: "percpu_inv L cpu_id s" "kmems_free s = {}"
    using ok assms(1,2) kmems_free_eq [OF ok]
    by (auto simp: percpu_inv_def intro!: kmems_invI [OF ok])
  from percpu.freerange_all [OF s assms(1)] show ?thesis
    by (auto simp: kinit3_def freerange3_def percpu_inv_def assms(1))
qed

text \<open>A machine with two CPUs for the witnesses; the second CPU has one free page.\<close>

definition ex_kmems :: kmems where
  "ex_kmems = \<lparr>ram = (\<lambda>_ _. 0), freelists = [0, 0x80001000], kmems_log = []\<rparr>"

lemma ex_kmems_ok: "lists_ok ex_kmems [[], [0x80001000]]"
  by (auto simp: lists_ok_def ex_kmems_def nth_Cons split: nat.splits)

theorem kalloc3_first_nonempty_witness:
  "\<exists>s'. kalloc3 0 ex_kmems = (0x80001000, s') \<and> lists_ok s' [[], []]"
proof -
  obtain r s' where k: "kalloc3 0 ex_kmems = (r, s')" by fastforce
  from kalloc3_first_nonempty [OF ex_kmems_ok _ k] k show ?thesis
    by (simp add: search_order_def upt_rec)
qed

definition ex_ksys :: ksys where
  "ex_ksys = \<lparr>kst = ex_kmems, kpcs = (\<lambda>_. KIdle), inuse = {}\<rparr>"

definition ex_layout3 :: memlayout where
  "ex_layout3 = \<lparr>kend = 0x80001000, PHYSTOP = 0x80003000\<rparr>"

theorem kalloc3_no_double_allocation_witness:
  "\<exists>S. kreach ex_layout3 ex_ksys S \<and> inuse S = {0x80001000} \<and> 0x80001000 \<notin> kmems_free (kst S)"
proof -
  let ?r = "0x80001000 :: u64"
  let ?s1 = "kmems_calls [Push_off, Pop_off] ex_kmems"
  let ?S1 = "ex_ksys\<lparr>kst := ?s1, kpcs := (kpcs ex_ksys)(0 := KOwn 1)\<rparr>"
  obtain s2 where pop: "pop_run 1 ?s1 = (?r, s2)"
    by (simp add: pop_run_def Let_def ex_kmems_def)
  let ?S2 = "?S1\<lparr>kst := s2, kpcs := (kpcs ?S1)(0 := KGot ?r)\<rparr>"
  let ?S3 = "?S2\<lparr>kst := memset_page ?r 5 (kst ?S2), kpcs := (kpcs ?S2)(0 := KIdle),
    inuse := insert ?r (inuse ?S2)\<rparr>"
  have "kreach ex_layout3 ex_ksys ?S1"
    using kstep.alloc_call [of ex_ksys 0 1 ex_layout3]
    by (intro kreach_step [OF kreach_refl]) (simp add: ex_ksys_def ex_kmems_def)
  moreover have "kstep ex_layout3 ?S1 ?S2"
    by (rule kstep.own_hit) (use pop in simp_all)
  moreover have "kstep ex_layout3 ?S2 ?S3"
    by (rule kstep.alloc_return) simp
  ultimately have reach: "kreach ex_layout3 ex_ksys ?S3"
    by (blast intro: kreach_step)
  have start: "lists_ok (kst ex_ksys) [[], [?r]]" "\<forall>t. kpcs ex_ksys t = KIdle" "inuse ex_ksys = {}"
    using ex_kmems_ok by (simp_all add: ex_ksys_def)
  have "inuse ?S3 \<inter> kmems_free (kst ?S3) = {}"
    using kalloc3_no_double_allocation [OF start reach] by (rule conjunct1)
  moreover have "inuse ?S3 = {?r}" by (simp add: ex_ksys_def)
  ultimately show ?thesis using reach by (intro exI [of _ ?S3]) auto
qed

theorem kinit3_frees_all_pages_witness:
  "\<exists>s'. kinit3 ex_layout3 1 \<lparr>ram = (\<lambda>_ _. 0), freelists = [0, 0], kmems_log = []\<rparr> = Some (Ok s') \<and>
    kmems_inv ex_layout3 s'"
  using kinit3_frees_all_pages [of ex_layout3 1
      "\<lparr>ram = (\<lambda>_ _. 0), freelists = [0, 0], kmems_log = []\<rparr>"]
  by (auto simp: layout_ok_def ex_layout3_def less_Suc_eq)

end
