(* ===== verification/Vm_Walk.thy ===== *)
theory Vm_Walk
  imports Page_Alloc
begin

text \<open>
  Sv39 page tables of lab 4 (\<^verbatim>\<open>kernel/vm.c\<close>): \<^verbatim>\<open>walk\<close>, \<^verbatim>\<open>walkaddr\<close>, \<^verbatim>\<open>kvmpa\<close> and \<^verbatim>\<open>mappages\<close>. The
  allocator of lab 4 is not part of the repository, so the functions take it as an argument and
  the lemmas are proved for every allocator that meets the contract \<open>page_allocator\<close>. A
  \<^verbatim>\<open>pte_t *\<close> is a pair of a page-table page and an index into it.
\<close>

section \<open>Operations\<close>

type_synonym 'a kalloc_fn = "'a mach_scheme \<Rightarrow> u64 \<times> 'a mach_scheme"
type_synonym 'a kfree_fn = "u64 \<Rightarrow> 'a mach_scheme \<Rightarrow> 'a mach_scheme res"

text \<open>The loop of \<^verbatim>\<open>walk\<close> from \<open>level\<close> down to 0.\<close>

fun walk_from :: "'a kalloc_fn \<Rightarrow> bool \<Rightarrow> u64 \<Rightarrow> nat \<Rightarrow> u64 \<Rightarrow> 'a mach_scheme \<Rightarrow>
    (u64 \<times> nat) option \<times> 'a mach_scheme" where
  "walk_from kalloc alloc va 0 pagetable s = (Some (pagetable, PX 0 va), s)"
| "walk_from kalloc alloc va (Suc l) pagetable s =
     (let pte = ram s pagetable (PX (Suc l) va)
      in if pte AND PTE_V \<noteq> 0 then walk_from kalloc alloc va l (PTE2PA pte) s
         else if \<not> alloc then (None, s)
         else
           let (p, s1) = kalloc s
           in if p = 0 then (None, s1)
              else
                let s2 = memset_page p 0 s1;
                    s3 = wr_cell pagetable (PX (Suc l) va) (PA2PTE p OR PTE_V) s2
                in walk_from kalloc alloc va l p s3)"

definition walk :: "'a kalloc_fn \<Rightarrow> u64 \<Rightarrow> u64 \<Rightarrow> bool \<Rightarrow> 'a mach_scheme \<Rightarrow>
    ((u64 \<times> nat) option \<times> 'a mach_scheme) res" where
  "walk kalloc pagetable va alloc s =
     (if va \<ge> MAXVA then Panic ''walk'' else Ok (walk_from kalloc alloc va 2 pagetable s))"

definition walkaddr :: "'a kalloc_fn \<Rightarrow> u64 \<Rightarrow> u64 \<Rightarrow> 'a mach_scheme \<Rightarrow> u64 res" where
  "walkaddr kalloc pagetable va s =
     (if va \<ge> MAXVA then Ok 0
      else rbind (walk kalloc pagetable va False s)
        (\<lambda>(pte, s1). case pte of
           None \<Rightarrow> Ok 0
         | Some (q, i) \<Rightarrow>
             if ram s1 q i AND PTE_V = 0 then Ok 0
             else if ram s1 q i AND PTE_U = 0 then Ok 0
             else Ok (PTE2PA (ram s1 q i))))"

definition kvmpa :: "'a kalloc_fn \<Rightarrow> u64 \<Rightarrow> u64 \<Rightarrow> 'a mach_scheme \<Rightarrow> u64 res" where
  "kvmpa kalloc kernel_pagetable va s =
     (let off = va mod PGSIZE
      in rbind (walk kalloc kernel_pagetable va False s)
        (\<lambda>(pte, s1). case pte of
           None \<Rightarrow> Panic ''kvmpa''
         | Some (q, i) \<Rightarrow>
             if ram s1 q i AND PTE_V = 0 then Panic ''kvmpa''
             else Ok (PTE2PA (ram s1 q i) + off)))"

lemma walk_Ok_MAXVA: "walk kalloc pt va alloc s = Ok r \<Longrightarrow> va < MAXVA"
  by (simp add: walk_def split: if_splits)

lemma next_page_measure:
  assumes "a < MAXVA"
  shows "unat MAXVA + 4096 - unat (a + PGSIZE) < unat MAXVA + 4096 - unat a"
proof -
  have "unat a < 2 ^ 38" using assms unfolding MAXVA_eq by (simp add: word_less_nat_alt)
  then have "unat (a + PGSIZE) = unat a + 4096" by (intro unat_plus_PGSIZE) simp
  moreover have "unat a < unat MAXVA" using assms by (simp add: word_less_nat_alt)
  ultimately show ?thesis by linarith
qed

text \<open>
  The loop of \<^verbatim>\<open>mappages\<close>: it ends because \<^verbatim>\<open>walk\<close> panics at the first address that is not below
  \<^verbatim>\<open>MAXVA\<close>. The result is 0, or -1 when a page-table page cannot be allocated.
\<close>

function mappages_loop :: "'a kalloc_fn \<Rightarrow> u64 \<Rightarrow> u64 \<Rightarrow> u64 \<Rightarrow> u64 \<Rightarrow> u64 \<Rightarrow> 'a mach_scheme \<Rightarrow>
    (int \<times> 'a mach_scheme) res" where
  "mappages_loop kalloc pagetable a lasta pa perm s =
     rbind (walk kalloc pagetable a True s)
       (\<lambda>(pte, s1). case pte of
          None \<Rightarrow> Ok (-1, s1)
        | Some (q, i) \<Rightarrow>
            if ram s1 q i AND PTE_V \<noteq> 0 then Panic ''remap''
            else
              let s2 = wr_cell q i (PA2PTE pa OR perm OR PTE_V) s1
              in if a = lasta then Ok (0, s2)
                 else mappages_loop kalloc pagetable (a + PGSIZE) lasta (pa + PGSIZE) perm s2)"
  by pat_completeness auto
termination
  by (relation "measure (\<lambda>(kalloc, pt, a, lasta, pa, perm, s). unat MAXVA + 4096 - unat a)")
    (auto dest!: walk_Ok_MAXVA intro: next_page_measure)

declare mappages_loop.simps [simp del]

definition mappages :: "'a kalloc_fn \<Rightarrow> u64 \<Rightarrow> u64 \<Rightarrow> u64 \<Rightarrow> u64 \<Rightarrow> u64 \<Rightarrow> 'a mach_scheme \<Rightarrow>
    (int \<times> 'a mach_scheme) res" where
  "mappages kalloc pagetable va sz pa perm s =
     mappages_loop kalloc pagetable (PGROUNDDOWN va) (PGROUNDDOWN (va + sz - 1)) pa perm s"

section \<open>Page-table trees\<close>

text \<open>
  The page-table pages below a table of a given level, the well-formedness of the tree they
  form (entries above level 0 carry no permission bits, no page occurs twice), the level-0 table that holds the entry of an address, and that
  entry (0 when a table is missing).
\<close>

primrec tables :: "nat \<Rightarrow> (u64 \<Rightarrow> nat \<Rightarrow> u64) \<Rightarrow> u64 \<Rightarrow> u64 set" where
  "tables 0 m pt = {pt}"
| "tables (Suc l) m pt =
     insert pt (\<Union>i\<in>{i. i < 512 \<and> pte_valid (m pt i)}. tables l m (PTE2PA (m pt i)))"

definition is_pointer :: "u64 \<Rightarrow> bool" where
  "is_pointer e \<longleftrightarrow> e AND (PTE_R OR PTE_W OR PTE_X) = 0"

primrec pt_wf :: "nat \<Rightarrow> (u64 \<Rightarrow> nat \<Rightarrow> u64) \<Rightarrow> u64 \<Rightarrow> bool" where
  "pt_wf 0 m pt \<longleftrightarrow> True"
| "pt_wf (Suc l) m pt \<longleftrightarrow>
     (\<forall>i<512. pte_valid (m pt i) \<longrightarrow>
        is_pointer (m pt i) \<and> pt_wf l m (PTE2PA (m pt i)) \<and> pt \<notin> tables l m (PTE2PA (m pt i)) \<and>
        (\<forall>j<512. j \<noteq> i \<and> pte_valid (m pt j) \<longrightarrow>
           tables l m (PTE2PA (m pt i)) \<inter> tables l m (PTE2PA (m pt j)) = {}))"

primrec leaf_table :: "nat \<Rightarrow> (u64 \<Rightarrow> nat \<Rightarrow> u64) \<Rightarrow> u64 \<Rightarrow> u64 \<Rightarrow> u64 option" where
  "leaf_table 0 m pt va = Some pt"
| "leaf_table (Suc l) m pt va =
     (let pte = m pt (PX (Suc l) va)
      in if pte_valid pte then leaf_table l m (PTE2PA pte) va else None)"

definition pte_of :: "nat \<Rightarrow> (u64 \<Rightarrow> nat \<Rightarrow> u64) \<Rightarrow> u64 \<Rightarrow> u64 \<Rightarrow> u64" where
  "pte_of l m pt va = (case leaf_table l m pt va of None \<Rightarrow> 0 | Some q \<Rightarrow> m q (PX 0 va))"

lemma tables_self [simp]: "pt \<in> tables l m pt"
  by (cases l) auto

lemma tables_child:
  "i < 512 \<Longrightarrow> pte_valid (m pt i) \<Longrightarrow> tables l m (PTE2PA (m pt i)) \<subseteq> tables (Suc l) m pt"
  by auto

lemma tables_cong: "\<forall>p\<in>tables l m pt. m' p = m p \<Longrightarrow> tables l m' pt = tables l m pt"
proof (induction l arbitrary: pt)
  case 0
  then show ?case by simp
next
  case (Suc l)
  have "tables l m' (PTE2PA (m pt i)) = tables l m (PTE2PA (m pt i))"
    if "i < 512" "pte_valid (m pt i)" for i
    using Suc.prems tables_child [of i m pt l] that by (intro Suc.IH) blast
  moreover have "m' pt = m pt" using Suc.prems by simp
  ultimately show ?case by auto
qed

lemma leaf_table_cong:
  "\<forall>p\<in>tables l m pt. m' p = m p \<Longrightarrow> leaf_table l m' pt va = leaf_table l m pt va"
proof (induction l arbitrary: pt)
  case 0
  then show ?case by simp
next
  case (Suc l)
  have pt: "m' pt = m pt" using Suc.prems by simp
  show ?case
  proof (cases "pte_valid (m pt (PX (Suc l) va))")
    case True
    then have "\<forall>p\<in>tables l m (PTE2PA (m pt (PX (Suc l) va))). m' p = m p"
      using Suc.prems tables_child [of "PX (Suc l) va" m pt l] by auto
    from Suc.IH [OF this] True pt show ?thesis by (simp add: Let_def)
  next
    case False
    with pt show ?thesis by (simp add: Let_def)
  qed
qed

lemma leaf_table_tables: "leaf_table l m pt va = Some q \<Longrightarrow> q \<in> tables l m pt"
proof (induction l arbitrary: pt)
  case 0
  then show ?case by simp
next
  case (Suc l)
  then have v: "pte_valid (m pt (PX (Suc l) va))"
      "leaf_table l m (PTE2PA (m pt (PX (Suc l) va))) va = Some q"
    by (auto simp: Let_def split: if_splits)
  with Suc.IH [OF v(2)] show ?case by auto
qed

lemma pte_of_cong:
  assumes "\<forall>p\<in>tables l m pt. m' p = m p"
  shows "pte_of l m' pt va = pte_of l m pt va"
  using assms leaf_table_tables [of l m pt va]
  by (auto simp: pte_of_def leaf_table_cong [OF assms] split: option.splits)

lemma pt_wf_cong: "\<forall>p\<in>tables l m pt. m' p = m p \<Longrightarrow> pt_wf l m' pt = pt_wf l m pt"
proof (induction l arbitrary: pt)
  case 0
  then show ?case by simp
next
  case (Suc l)
  have pt: "m' pt = m pt" using Suc.prems by simp
  have c: "pt_wf l m' (PTE2PA (m pt i)) = pt_wf l m (PTE2PA (m pt i))"
      "tables l m' (PTE2PA (m pt i)) = tables l m (PTE2PA (m pt i))"
    if "i < 512" "pte_valid (m pt i)" for i
    using Suc.prems tables_child [of i m pt l] that
    by (auto intro!: Suc.IH tables_cong)
  show ?case unfolding pt_wf.simps pt using c by (metis (no_types, lifting))
qed

lemma pte_of_Suc:
  "pte_of (Suc l) m pt va =
     (if pte_valid (m pt (PX (Suc l) va)) then pte_of l m (PTE2PA (m pt (PX (Suc l) va))) va else 0)"
  by (simp add: pte_of_def Let_def)

lemma pte_of_0: "pte_of 0 m pt va = m pt (PX 0 va)"
  by (simp add: pte_of_def)

text \<open>A page full of zeros is a table with no entries.\<close>

lemma zero_table:
  assumes "m p = (\<lambda>_. 0)"
  shows "tables l m p = {p}" "pt_wf l m p" "pte_of l m p va = 0"
  using assms by (cases l; simp add: pte_of_Suc pte_of_0)+

section \<open>Changing one entry\<close>

lemma pt_wf_child:
  assumes "pt_wf (Suc l) m pt" "i < 512" "pte_valid (m pt i)"
  shows "pt_wf l m (PTE2PA (m pt i))" "pt \<notin> tables l m (PTE2PA (m pt i))"
    "\<And>j. j < 512 \<Longrightarrow> j \<noteq> i \<Longrightarrow> pte_valid (m pt j) \<Longrightarrow>
      tables l m (PTE2PA (m pt i)) \<inter> tables l m (PTE2PA (m pt j)) = {}"
    "is_pointer (m pt i)"
  using assms by auto

text \<open>
  A change that stays below the child \<open>c\<close> at index \<open>i\<close> of a table: the table and the other
  children see nothing of it.
\<close>

lemma below_child:
  assumes wf: "pt_wf (Suc l) m pt" and i: "i < 512" "pte_valid (m pt i)"
    and c: "c = PTE2PA (m pt i)"
    and frame: "\<forall>p. p \<notin> tables l m c \<union> F \<longrightarrow> m' p = m p"
    and F: "F \<inter> tables (Suc l) m pt = {}"
    and sub: "tables l m' c \<subseteq> tables l m c \<union> F" and wf': "pt_wf l m' c"
  shows "m' pt = m pt" "pt_wf (Suc l) m' pt"
    "tables (Suc l) m' pt \<subseteq> tables (Suc l) m pt \<union> F"
    "\<And>j. j < 512 \<Longrightarrow> j \<noteq> i \<Longrightarrow> pte_valid (m pt j) \<Longrightarrow>
       \<forall>p\<in>tables l m (PTE2PA (m pt j)). m' p = m p"
    "tables l m' c \<subseteq> tables (Suc l) m' pt"
proof -
  note ch = pt_wf_child [OF wf i, folded c]
  show pt: "m' pt = m pt" using frame ch(2) F by auto
  show others: "\<forall>p\<in>tables l m (PTE2PA (m pt j)). m' p = m p"
    if "j < 512" "j \<noteq> i" "pte_valid (m pt j)" for j
    using that ch(3) [OF that] F frame tables_child [of j m pt l] by blast
  have tj: "tables l m' (PTE2PA (m pt j)) = tables l m (PTE2PA (m pt j))"
    if "j < 512" "j \<noteq> i" "pte_valid (m pt j)" for j
    by (rule tables_cong [OF others [OF that]])
  show "tables (Suc l) m' pt \<subseteq> tables (Suc l) m pt \<union> F"
  proof
    fix p assume "p \<in> tables (Suc l) m' pt"
    then consider "p = pt" | j where "j < 512" "pte_valid (m pt j)" "p \<in> tables l m' (PTE2PA (m pt j))"
      by (auto simp: pt)
    then show "p \<in> tables (Suc l) m pt \<union> F"
    proof cases
      case 1
      then show ?thesis by simp
    next
      case (2 j)
      then show ?thesis
        using tj [of j] sub c tables_child [of j m pt l] by (cases "j = i") auto
    qed
  qed
  show "tables l m' c \<subseteq> tables (Suc l) m' pt"
    using tables_child [of i m' pt l] i c pt by simp
  have disj: "pt \<notin> tables l m' c"
    using sub ch(2) F by auto
  have disj': "tables l m' c \<inter> tables l m (PTE2PA (m pt j)) = {}"
    if "j < 512" "j \<noteq> i" "pte_valid (m pt j)" for j
    using sub ch(3) [OF that] F tables_child [of j m pt l] that by blast
  have old: "pt_wf l m' (PTE2PA (m pt j)) \<and> pt \<notin> tables l m (PTE2PA (m pt j))"
    if "j < 512" "j \<noteq> i" "pte_valid (m pt j)" for j
    using pt_wf_child(1,2) [OF wf that(1,3)] pt_wf_cong [OF others [OF that]] by simp
  have oldd: "tables l m (PTE2PA (m pt j)) \<inter> tables l m (PTE2PA (m pt k)) = {}"
    if "j < 512" "k < 512" "k \<noteq> j" "pte_valid (m pt j)" "pte_valid (m pt k)" for j k
    using pt_wf_child(3) [OF wf that(1,4) that(2,3,5)] .
  show "pt_wf (Suc l) m' pt"
    unfolding pt_wf.simps pt
  proof (intro allI impI conjI; (elim conjE)?)
    fix j assume j: "j < 512" "pte_valid (m pt j)"
    show "is_pointer (m pt j)" by (rule pt_wf_child(4) [OF wf j])
    show "pt_wf l m' (PTE2PA (m pt j))" using old [of j] wf' c j by (cases "j = i") auto
    show "pt \<notin> tables l m' (PTE2PA (m pt j))"
      using old [of j] tj [of j] disj c j by (cases "j = i") auto
    fix k assume k: "k < 512" "k \<noteq> j" "pte_valid (m pt k)"
    show "tables l m' (PTE2PA (m pt j)) \<inter> tables l m' (PTE2PA (m pt k)) = {}"
      using disj' [of j] disj' [of k] tj [of j] tj [of k] oldd [of j k] j k c
      by (cases "j = i"; cases "k = i") (auto simp: Int_commute)
  qed
qed

definition same_index :: "nat \<Rightarrow> u64 \<Rightarrow> u64 \<Rightarrow> bool" where
  "same_index l va va' \<longleftrightarrow> (\<forall>k\<le>l. PX k va = PX k va')"

lemma same_index_Suc: "same_index (Suc l) va va' \<longleftrightarrow> PX (Suc l) va = PX (Suc l) va' \<and> same_index l va va'"
  by (auto simp: same_index_def le_Suc_eq)

text \<open>Writing the entry of \<open>va\<close> changes the entry of \<open>va\<close>'s page and no other.\<close>

lemma write_leaf:
  assumes "pt_wf l m pt" "leaf_table l m pt va = Some q" "m' = m(q := (m q)(PX 0 va := v))"
  shows "tables l m' pt = tables l m pt \<and> pt_wf l m' pt \<and>
    (\<forall>va'. leaf_table l m' pt va' = leaf_table l m pt va') \<and>
    (\<forall>va'. pte_of l m' pt va' = (if same_index l va va' then v else pte_of l m pt va'))"
  using assms
proof (induction l arbitrary: pt)
  case 0
  then show ?case by (simp add: pte_of_0 same_index_def)
next
  case (Suc l)
  define i where "i = PX (Suc l) va"
  define c where "c = PTE2PA (m pt i)"
  have i: "i < 512" "pte_valid (m pt i)" and leaf: "leaf_table l m c va = Some q"
    using Suc.prems(2) by (auto simp: i_def c_def Let_def split: if_splits)
  note ch = pt_wf_child [OF Suc.prems(1) i, folded c_def]
  have IH: "tables l m' c = tables l m c" "pt_wf l m' c"
      "\<And>va'. leaf_table l m' c va' = leaf_table l m c va'"
      "\<And>va'. pte_of l m' c va' = (if same_index l va va' then v else pte_of l m c va')"
    using Suc.IH [OF ch(1) leaf Suc.prems(3)] by auto
  have q: "q \<in> tables l m c" using leaf_table_tables [OF leaf] .
  have frame: "\<forall>p. p \<notin> tables l m c \<union> {} \<longrightarrow> m' p = m p" using q Suc.prems(3) by auto
  note bc = below_child [OF Suc.prems(1) i c_def frame _ _ IH(2)]
  have pt: "m' pt = m pt" and wf: "pt_wf (Suc l) m' pt"
    and other: "\<And>j. j < 512 \<Longrightarrow> j \<noteq> i \<Longrightarrow> pte_valid (m pt j) \<Longrightarrow>
       \<forall>p\<in>tables l m (PTE2PA (m pt j)). m' p = m p"
    using bc(1,2,4) IH(1) by simp_all
  have child: "tables l m' (PTE2PA (m pt j)) = tables l m (PTE2PA (m pt j))"
    if "j < 512" "pte_valid (m pt j)" for j
    using tables_cong [OF other [OF that(1) _ that(2)]] IH(1) c_def by (cases "j = i") auto
  have "tables (Suc l) m' pt = tables (Suc l) m pt"
    using child by (auto simp: pt)
  moreover have "leaf_table (Suc l) m' pt va' = leaf_table (Suc l) m pt va'" for va'
    using leaf_table_cong [OF other [of "PX (Suc l) va'"]] IH(3) c_def
    by (cases "PX (Suc l) va' = i") (auto simp: Let_def pt)
  moreover have "pte_of (Suc l) m' pt va' =
      (if same_index (Suc l) va va' then v else pte_of (Suc l) m pt va')" for va'
    using pte_of_cong [OF other [of "PX (Suc l) va'"], of va'] IH(4) [of va'] c_def i(2)
    by (cases "PX (Suc l) va' = i") (auto simp: pte_of_Suc pt same_index_Suc i_def)
  ultimately show ?case using wf by simp
qed

text \<open>Linking an empty table into an unused entry changes no translation.\<close>

lemma link_table:
  assumes wf: "pt_wf (Suc l) m pt" and i: "i < 512" "\<not> pte_valid (m pt i)"
    and p: "p \<notin> tables (Suc l) m pt" "PTE2PA e = p" "pte_valid e" "is_pointer e"
    and m': "m' p = (\<lambda>_. 0)" "m' pt = (m pt)(i := e)" "\<forall>q. q \<noteq> p \<and> q \<noteq> pt \<longrightarrow> m' q = m q"
  shows "pt_wf (Suc l) m' pt" "tables (Suc l) m' pt = insert p (tables (Suc l) m pt)"
    "pte_of (Suc l) m' pt va = pte_of (Suc l) m pt va"
proof -
  have same: "\<forall>q\<in>tables l m (PTE2PA (m pt j)). m' q = m q"
    if "j < 512" "pte_valid (m pt j)" for j
  proof
    fix q assume q: "q \<in> tables l m (PTE2PA (m pt j))"
    then have "q \<in> tables (Suc l) m pt" using tables_child [of j m pt l, OF that] by blast
    then show "m' q = m q" using q pt_wf_child(2) [OF wf that] p(1) by (intro m'(3) [rule_format]) blast
  qed
  have tj: "tables l m' (PTE2PA (m pt j)) = tables l m (PTE2PA (m pt j))"
      "pt_wf l m' (PTE2PA (m pt j))"
    if "j < 512" "pte_valid (m pt j)" for j
    using tables_cong [OF same [OF that]] pt_wf_cong [OF same [OF that]] pt_wf_child(1) [OF wf that]
    by auto
  note z = zero_table [of m' p, OF m'(1)]
  have pn: "p \<noteq> pt" "\<And>j. j < 512 \<Longrightarrow> pte_valid (m pt j) \<Longrightarrow> p \<notin> tables l m (PTE2PA (m pt j))"
    using p(1) by auto
  show "tables (Suc l) m' pt = insert p (tables (Suc l) m pt)"
  proof -
    have "{j. j < 512 \<and> pte_valid (m' pt j)} = insert i {j. j < 512 \<and> pte_valid (m pt j)}"
      using i p(3) by (auto simp: m'(2))
    moreover have "tables l m' (PTE2PA (m' pt i)) = {p}" using z(1) p(2) by (simp add: m'(2))
    moreover have "tables l m' (PTE2PA (m' pt j)) = tables l m (PTE2PA (m pt j))"
      if "j \<in> {j. j < 512 \<and> pte_valid (m pt j)}" for j
      using that i(2) tj(1) by (auto simp: m'(2))
    ultimately show ?thesis by (simp add: insert_commute)
  qed
  show "pt_wf (Suc l) m' pt"
    unfolding pt_wf.simps
  proof (intro allI impI conjI; (elim conjE)?)
    fix j assume j: "j < 512" "pte_valid (m' pt j)"
    have old: "pte_valid (m pt j)" "m' pt j = m pt j" if "j \<noteq> i" using j that by (simp_all add: m'(2))
    show "is_pointer (m' pt j)"
      using old p(4) pt_wf_child(4) [OF wf j(1)] by (cases "j = i") (auto simp: m'(2))
    show "pt_wf l m' (PTE2PA (m' pt j))"
      using old tj(2) [of j] z(2) p(2) j by (cases "j = i") (auto simp: m'(2))
    show "pt \<notin> tables l m' (PTE2PA (m' pt j))"
      using old tj(1) [of j] z(1) p(2) pn(1) pt_wf_child(2) [OF wf j(1)] j
      by (cases "j = i") (auto simp: m'(2))
    fix k assume k: "k < 512" "k \<noteq> j" "pte_valid (m' pt k)"
    have oldk: "pte_valid (m pt k)" "m' pt k = m pt k" if "k \<noteq> i" using k that by (simp_all add: m'(2))
    have e: "m' pt i = e" by (simp add: m'(2))
    consider "j = i" "k \<noteq> i" | "k = i" "j \<noteq> i" | "j \<noteq> i" "k \<noteq> i" using k(2) by blast
    then show "tables l m' (PTE2PA (m' pt j)) \<inter> tables l m' (PTE2PA (m' pt k)) = {}"
    proof cases
      case 1
      then show ?thesis using oldk tj(1) [of k] z(1) p(2) pn(2) [of k] k e by simp
    next
      case 2
      then show ?thesis using old tj(1) [of j] z(1) p(2) pn(2) [of j] j e by simp
    next
      case 3
      then show ?thesis
        using old oldk tj(1) [of j] tj(1) [of k] j k pt_wf_child(3) [OF wf j(1) old(1) k(1,2)] by simp
    qed
  qed
  show "pte_of (Suc l) m' pt va = pte_of (Suc l) m pt va"
  proof (cases "PX (Suc l) va = i")
    case True
    then show ?thesis using z(3) p i(2) by (simp add: pte_of_Suc m'(2))
  next
    case False
    then show ?thesis
      using pte_of_cong [OF same [of "PX (Suc l) va"]] by (auto simp: pte_of_Suc m'(2))
  qed
qed

section \<open>What walk does\<close>

lemma is_pointer_new: "is_pointer (PA2PTE p OR PTE_V)"
  using word_less_exp_bit [of "14 :: u64" 10]
  by (fastforce simp: is_pointer_def PA2PTE_def pte_flag_defs bit_simps intro!: bit_word_eqI)

lemma walk_from_lookup:
  "walk_from kalloc False va l pt s = (map_option (\<lambda>q. (q, PX 0 va)) (leaf_table l (ram s) pt va), s)"
  by (induction l arbitrary: pt) (simp_all add: Let_def pte_valid_def)

text \<open>
  \<open>walked\<close>: the outcome of a walk that may allocate. Only pages of the table and pages taken
  from the allocator change; the tree stays well formed and no translation changes; on success
  the entry found is the one of \<open>va\<close>; on failure memory has run out.
\<close>

definition walked :: "('a mach_scheme \<Rightarrow> bool) \<Rightarrow> ('a mach_scheme \<Rightarrow> u64 set) \<Rightarrow> u64 \<Rightarrow> nat \<Rightarrow> u64 \<Rightarrow>
    'a mach_scheme \<Rightarrow> (u64 \<times> nat) option \<Rightarrow> 'a mach_scheme \<Rightarrow> bool" where
  "walked ok free va l pt s r s' \<longleftrightarrow>
     ok s' \<and> free s' \<subseteq> free s \<and> pt_wf l (ram s') pt \<and>
     tables l (ram s') pt = tables l (ram s) pt \<union> (free s - free s') \<and>
     (\<forall>p. p \<notin> tables l (ram s) pt \<union> (free s - free s') \<longrightarrow> ram s' p = ram s p) \<and>
     (\<forall>va'. pte_of l (ram s') pt va' = pte_of l (ram s) pt va') \<and>
     (case r of None \<Rightarrow> free s' = {} \<and> leaf_table l (ram s') pt va = None
      | Some (q, i) \<Rightarrow> i = PX 0 va \<and> leaf_table l (ram s') pt va = Some q)"

lemma walkedD:
  assumes "walked ok free va l pt s r s'"
  shows "ok s'" "free s' \<subseteq> free s" "pt_wf l (ram s') pt"
    "tables l (ram s') pt = tables l (ram s) pt \<union> (free s - free s')"
    "\<And>p. p \<notin> tables l (ram s) pt \<Longrightarrow> p \<notin> free s - free s' \<Longrightarrow> ram s' p = ram s p"
    "pte_of l (ram s') pt va' = pte_of l (ram s) pt va'"
    "r = None \<Longrightarrow> free s' = {} \<and> leaf_table l (ram s') pt va = None"
    "r = Some (q, i) \<Longrightarrow> i = PX 0 va \<and> leaf_table l (ram s') pt va = Some q"
  using assms by (simp_all add: walked_def)

lemma walked_child:
  assumes wf: "pt_wf (Suc l) (ram s) pt" and disj: "tables (Suc l) (ram s) pt \<inter> free s = {}"
    and v: "pte_valid (ram s pt (PX (Suc l) va))"
    and w: "walked ok free va l (PTE2PA (ram s pt (PX (Suc l) va))) s r s'"
  shows "walked ok free va (Suc l) pt s r s'"
proof -
  let ?i = "PX (Suc l) va"
  define c where "c = PTE2PA (ram s pt ?i)"
  note w' = w [folded c_def, unfolded walked_def]
  let ?F = "free s - free s'"
  have F: "?F \<inter> tables (Suc l) (ram s) pt = {}" using disj by blast
  have frame: "\<forall>p. p \<notin> tables l (ram s) c \<union> ?F \<longrightarrow> ram s' p = ram s p"
    and sub: "tables l (ram s') c \<subseteq> tables l (ram s) c \<union> ?F" and wf': "pt_wf l (ram s') c"
    and sup: "tables l (ram s) c \<union> ?F \<subseteq> tables l (ram s') c"
    using w' by auto
  note bc = below_child [OF wf PX_less v c_def frame F sub wf']
  have child: "tables l (ram s) c \<subseteq> tables (Suc l) (ram s) pt"
    using tables_child [of ?i "ram s" pt l] v c_def by simp
  have "tables (Suc l) (ram s) pt \<subseteq> tables (Suc l) (ram s') pt"
  proof
    fix p assume "p \<in> tables (Suc l) (ram s) pt"
    then consider "p = pt" | j where "j < 512" "pte_valid (ram s pt j)" "p \<in> tables l (ram s) (PTE2PA (ram s pt j))"
      by auto
    then show "p \<in> tables (Suc l) (ram s') pt"
    proof cases
      case (2 j)
      then show ?thesis
        using sup c_def bc(1) tables_cong [OF bc(4) [of j]] tables_child [of j "ram s'" pt l]
        by (cases "j = ?i") auto
    qed simp
  qed
  then have "tables (Suc l) (ram s') pt = tables (Suc l) (ram s) pt \<union> ?F"
    using bc(3,5) sup by blast
  moreover have "pte_of (Suc l) (ram s') pt va' = pte_of (Suc l) (ram s) pt va'" for va'
  proof (cases "PX (Suc l) va' = ?i")
    case True
    then show ?thesis using w' bc(1) v by (simp add: pte_of_Suc c_def)
  next
    case False
    then show ?thesis
      using pte_of_cong [OF bc(4) [of "PX (Suc l) va'"]] bc(1) by (simp add: pte_of_Suc)
  qed
  moreover have "leaf_table (Suc l) (ram s') pt va = leaf_table l (ram s') c va"
    using bc(1) v by (simp add: Let_def c_def)
  then have "case r of None \<Rightarrow> free s' = {} \<and> leaf_table (Suc l) (ram s') pt va = None
      | Some (q, i) \<Rightarrow> i = PX 0 va \<and> leaf_table (Suc l) (ram s') pt va = Some q"
    using w' by (simp only: split: option.splits)
  moreover have "\<forall>p. p \<notin> tables (Suc l) (ram s) pt \<union> ?F \<longrightarrow> ram s' p = ram s p"
    using frame child by blast
  ultimately show ?thesis
    unfolding walked_def using w' bc(2) by blast
qed

text \<open>
  The states in which the root \<open>pt\<close> is a good page table, and what an operation that only adds
  to a table may change.
\<close>

definition pt_ok :: "('a mach_scheme \<Rightarrow> bool) \<Rightarrow> ('a mach_scheme \<Rightarrow> u64 set) \<Rightarrow> u64 \<Rightarrow> 'a mach_scheme \<Rightarrow> bool" where
  "pt_ok ok free pt s \<longleftrightarrow> ok s \<and> pt_wf 2 (ram s) pt \<and> tables 2 (ram s) pt \<inter> free s = {}"

definition pt_grows :: "('a mach_scheme \<Rightarrow> u64 set) \<Rightarrow> u64 \<Rightarrow> 'a mach_scheme \<Rightarrow> 'a mach_scheme \<Rightarrow> bool" where
  "pt_grows free pt s s' \<longleftrightarrow>
     free s' \<subseteq> free s \<and> tables 2 (ram s') pt = tables 2 (ram s) pt \<union> (free s - free s') \<and>
     (\<forall>p. p \<notin> tables 2 (ram s) pt \<union> (free s - free s') \<longrightarrow> ram s' p = ram s p)"

lemma pt_grows_refl [simp]: "pt_grows free pt s s"
  by (simp add: pt_grows_def)

lemma pt_grows_trans:
  assumes "pt_grows free pt s s'" "pt_grows free pt s' s''"
  shows "pt_grows free pt s s''"
proof -
  have sub: "free s'' \<subseteq> free s"
      "tables 2 (ram s'') pt = tables 2 (ram s) pt \<union> (free s - free s'')"
    using assms unfolding pt_grows_def by blast+
  have "ram s'' p = ram s p" if "p \<notin> tables 2 (ram s) pt \<union> (free s - free s'')" for p
  proof -
    have "p \<notin> tables 2 (ram s) pt \<union> (free s - free s')"
      "p \<notin> tables 2 (ram s') pt \<union> (free s' - free s'')"
      using that assms unfolding pt_grows_def by blast+
    with assms show ?thesis by (simp add: pt_grows_def)
  qed
  with sub show ?thesis by (simp add: pt_grows_def)
qed

text \<open>The entries after \<open>k\<close> consecutive pages from \<open>a\<close> have been mapped to \<open>pa\<close> onwards.\<close>

definition map_range :: "u64 \<Rightarrow> nat \<Rightarrow> u64 \<Rightarrow> u64 \<Rightarrow> (u64 \<Rightarrow> u64) \<Rightarrow> u64 \<Rightarrow> u64" where
  "map_range a k pa perm f va =
     (let d = (unat va - unat a) div 4096
      in if a \<le> va \<and> d < k then PA2PTE (pa + PGSIZE * of_nat d) OR perm OR PTE_V else f va)"

lemma map_range_0 [simp]: "map_range a 0 pa perm f = f"
  by (simp add: map_range_def fun_eq_iff)

lemma same_index_2_iff:
  "va < SV39 \<Longrightarrow> va' < SV39 \<Longrightarrow> same_index 2 va va' \<longleftrightarrow> PGROUNDDOWN va = PGROUNDDOWN va'"
  using PX_all_eq_iff [of va va'] by (auto simp: same_index_def numeral_2_eq_2 less_Suc_eq_le numeral_3_eq_3)

lemma PGROUNDDOWN_eq_aligned:
  assumes "page_aligned a"
  shows "PGROUNDDOWN va = a \<longleftrightarrow> a \<le> va \<and> (unat va - unat a) div 4096 = 0"
proof -
  obtain k where k: "unat a = 4096 * k" using assms by (auto simp: page_aligned_unat)
  have "PGROUNDDOWN va = a \<longleftrightarrow> 4096 * (unat va div 4096) = 4096 * k"
    by (simp add: word_unat_eq_iff unat_PGROUNDDOWN k)
  also have "\<dots> \<longleftrightarrow> a \<le> va \<and> (unat va - unat a) div 4096 = 0"
    unfolding word_le_nat_alt k by auto
  finally show ?thesis .
qed

text \<open>Mapping the first page and then the others is mapping all of them.\<close>

lemma map_range_Suc:
  assumes "page_aligned a" "unat a + 4096 * Suc k \<le> 2 ^ 38"
  shows "map_range (a + PGSIZE) k (pa + PGSIZE) perm
      (\<lambda>va. if PGROUNDDOWN va = a then PA2PTE pa OR perm OR PTE_V else f va) va =
    map_range a (Suc k) pa perm f va"
proof -
  have u: "unat (a + PGSIZE) = unat a + 4096" using assms(2) by (intro unat_plus_PGSIZE) simp
  define d where "d = (unat va - unat a) div 4096"
  consider "\<not> a \<le> va" | "a \<le> va" "d = 0" | "a \<le> va" "d > 0" by auto
  then show ?thesis
  proof cases
    case 1
    then have "\<not> a + PGSIZE \<le> va" using u by (simp add: word_le_nat_alt)
    with 1 show ?thesis by (simp add: map_range_def PGROUNDDOWN_eq_aligned [OF assms(1)])
  next
    case 2
    then have "unat va < unat a + 4096" unfolding d_def by linarith
    then have "\<not> a + PGSIZE \<le> va" using u by (simp add: word_le_nat_alt)
    with 2 show ?thesis
      by (simp add: map_range_def PGROUNDDOWN_eq_aligned [OF assms(1)] d_def)
  next
    case 3
    then have le: "a + PGSIZE \<le> va" and d: "(unat va - unat (a + PGSIZE)) div 4096 = d - 1"
      unfolding word_le_nat_alt u d_def by auto
    obtain e where e: "d = Suc e" using 3 by (cases d) auto
    have "pa + PGSIZE + PGSIZE * of_nat e = pa + PGSIZE * of_nat (Suc e)" by (simp add: algebra_simps)
    then show ?thesis
      using 3 le d e
      by (simp add: map_range_def PGROUNDDOWN_eq_aligned [OF assms(1)] d_def [symmetric] add.assoc)
  qed
qed

context page_allocator
begin

lemma walk_from_walked:
  assumes "inv s" "pt_wf l (ram s) pt" "tables l (ram s) pt \<inter> free s = {}"
    and "walk_from kalloc True va l pt s = (r, s')"
  shows "walked inv free va l pt s r s'"
  using assms
proof (induction l arbitrary: pt s)
  case 0
  then show ?case by (auto simp: walked_def)
next
  case (Suc l)
  let ?i = "PX (Suc l) va"
  show ?case
  proof (cases "pte_valid (ram s pt ?i)")
    case True
    then have "walk_from kalloc True va l (PTE2PA (ram s pt ?i)) s = (r, s')"
      using Suc.prems(4) by (simp add: Let_def pte_valid_def)
    moreover have "tables l (ram s) (PTE2PA (ram s pt ?i)) \<inter> free s = {}"
      using Suc.prems(3) tables_child [of ?i "ram s" pt l] True by auto
    ultimately show ?thesis
      using Suc.IH [OF Suc.prems(1) pt_wf_child(1) [OF Suc.prems(2) PX_less True]]
        walked_child [where ok = inv and free = free, OF Suc.prems(2,3) True] by blast
  next
    case False
    obtain p s1 where k: "kalloc s = (p, s1)" by fastforce
    show ?thesis
    proof (cases "p = 0")
      case True
      then have "r = None" "s' = s1"
        using Suc.prems(4) k False by (simp_all add: Let_def pte_valid_def)
      then show ?thesis
        using kalloc_null [OF Suc.prems(1), of s1] k True False Suc.prems(2)
        by (simp add: walked_def Let_def)
    next
      case p0: False
      define s3 where "s3 = wr_cell pt ?i (PA2PTE p OR PTE_V) (memset_page p 0 s1)"
      have rest: "walk_from kalloc True va l p s3 = (r, s')"
        using Suc.prems(4) k False p0 by (simp add: Let_def pte_valid_def s3_def)
      have al: "p \<in> free s" "inv s1" "free s1 = free s - {p}" "\<And>q. q \<noteq> p \<Longrightarrow> ram s1 q = ram s q"
        using kalloc_page [OF Suc.prems(1) k p0] by auto
      have pn: "p \<notin> tables (Suc l) (ram s) pt" using al(1) Suc.prems(3) by blast
      then have "p \<noteq> pt" by auto
      have ptn: "pt \<notin> free s" using Suc.prems(3) by auto
      have s3: "inv s3" "free s3 = free s - {p}"
        using al ptn \<open>p \<noteq> pt\<close> by (simp_all add: s3_def)
      have "good p" using free_good [OF Suc.prems(1) al(1)] .
      then have pa: "PTE2PA (PA2PTE p OR PTE_V) = p"
        by (intro PTE2PA_PA2PTE_flags good_aligned good_less) (simp_all add: PTE_V_def)
      have mem: "ram s3 p = (\<lambda>_. 0)" "ram s3 pt = (ram s pt)(?i := PA2PTE p OR PTE_V)"
          "\<forall>q. q \<noteq> p \<and> q \<noteq> pt \<longrightarrow> ram s3 q = ram s q"
        using \<open>p \<noteq> pt\<close> al(4) by (simp_all add: s3_def)
      note link = link_table [where m' = "ram s3", OF Suc.prems(2) PX_less False pn pa pte_valid_or_V is_pointer_new mem]
      have disj3: "tables (Suc l) (ram s3) pt \<inter> free s3 = {}"
        using link(2) Suc.prems(3) s3(2) by auto
      have z: "tables l (ram s3) p = {p}" "pt_wf l (ram s3) p"
        using zero_table [of "ram s3" p l, OF mem(1)] by auto
      have "walked inv free va l p s3 r s'"
        using Suc.IH [OF s3(1) z(2) _ rest] z(1) s3(2) by simp
      then have w: "walked inv free va (Suc l) pt s3 r s'"
        using walked_child [where ok = inv and free = free, OF link(1) disj3, of va r s'] mem(2) pa
        by (simp del: tables.simps pt_wf.simps)
      note wd = walkedD [OF w, unfolded s3(2), unfolded link(2) link(3)]
      have fr: "free s' \<subseteq> free s - {p}" by (rule wd(2))
      have "ram s' q = ram s q" if "q \<notin> tables (Suc l) (ram s) pt \<union> (free s - free s')" for q
      proof -
        have "q \<noteq> p" "q \<noteq> pt" using that fr al(1) by auto
        moreover have "q \<notin> tables (Suc l) (ram s3) pt" unfolding link(2) using that \<open>q \<noteq> p\<close> by blast
        ultimately show ?thesis using wd(5) [of q] that mem(3) by simp
      qed
      moreover have "tables (Suc l) (ram s') pt = tables (Suc l) (ram s) pt \<union> (free s - free s')"
        unfolding wd(4) using fr al(1) by blast
      moreover have "free s' \<subseteq> free s" using fr by blast
      moreover have "case r of None \<Rightarrow> free s' = {} \<and> leaf_table (Suc l) (ram s') pt va = None
           | Some (q, i) \<Rightarrow> i = PX 0 va \<and> leaf_table (Suc l) (ram s') pt va = Some q"
        using wd(7,8) by (simp only: split: option.splits prod.splits) blast
      ultimately show ?thesis unfolding walked_def using wd(1,3,6) by blast
    qed
  qed
qed

lemma walk_alloc:
  assumes "pt_ok inv free pt s" "va < MAXVA"
  obtains r s' where "walk kalloc pt va True s = Ok (r, s')" "walked inv free va 2 pt s r s'"
    "pt_ok inv free pt s'" "pt_grows free pt s s'"
proof -
  obtain r s' where w: "walk_from kalloc True va 2 pt s = (r, s')" by fastforce
  have "walked inv free va 2 pt s r s'"
    using assms(1) w by (intro walk_from_walked) (auto simp: pt_ok_def)
  moreover from walkedD [OF this] assms(1) have "pt_ok inv free pt s'" "pt_grows free pt s s'"
    unfolding pt_ok_def pt_grows_def by blast+
  moreover have "walk kalloc pt va True s = Ok (r, s')"
    using w assms(2) by (simp add: walk_def not_le [symmetric])
  ultimately show thesis using that by blast
qed

text \<open>Storing an entry through the pointer \<^verbatim>\<open>walk\<close> returned.\<close>

lemma store_pte:
  assumes "pt_ok inv free pt s" "leaf_table 2 (ram s) pt va = Some q" "va < MAXVA"
    and "s' = wr_cell q (PX 0 va) v s"
  shows "pt_ok inv free pt s'" "free s' = free s" "pt_grows free pt s s'"
    "\<And>va'. va' < SV39 \<Longrightarrow> pte_of 2 (ram s') pt va' =
      (if PGROUNDDOWN va' = PGROUNDDOWN va then v else pte_of 2 (ram s) pt va')"
proof -
  have wf: "pt_wf 2 (ram s) pt" and disj: "tables 2 (ram s) pt \<inter> free s = {}" and s: "inv s"
    using assms(1) by (auto simp: pt_ok_def)
  have m': "ram s' = (ram s)(q := (ram s q)(PX 0 va := v))" using assms(4) by (simp add: wr_cell_def)
  note wl = write_leaf [OF wf assms(2) m']
  have q: "q \<in> tables 2 (ram s) pt" by (rule leaf_table_tables [OF assms(2)])
  then have qf: "q \<notin> free s" using disj by blast
  show f: "free s' = free s" using s qf assms(4) by simp
  show "pt_ok inv free pt s'" using wl disj f s qf assms(4) by (simp add: pt_ok_def)
  show "pt_grows free pt s s'" using wl f q m' by (auto simp: pt_grows_def)
  show "pte_of 2 (ram s') pt va' =
      (if PGROUNDDOWN va' = PGROUNDDOWN va then v else pte_of 2 (ram s) pt va')" if "va' < SV39" for va'
    using wl same_index_2_iff [OF MAXVA_SV39 [OF assms(3)] that] by auto
qed

lemma mappages_loop_step:
  assumes "pt_ok inv free pt s" "page_aligned a" "a < MAXVA" "\<not> pte_valid (pte_of 2 (ram s) pt a)"
  shows "(\<exists>s1. mappages_loop kalloc pt a lasta pa perm s = Ok (-1, s1) \<and>
      pt_ok inv free pt s1 \<and> pt_grows free pt s s1 \<and> free s1 = {} \<and>
      (\<forall>va. pte_of 2 (ram s1) pt va = pte_of 2 (ram s) pt va)) \<or>
    (\<exists>s2. mappages_loop kalloc pt a lasta pa perm s =
        (if a = lasta then Ok (0, s2)
         else mappages_loop kalloc pt (a + PGSIZE) lasta (pa + PGSIZE) perm s2) \<and>
      pt_ok inv free pt s2 \<and> pt_grows free pt s s2 \<and>
      (\<forall>va<SV39. pte_of 2 (ram s2) pt va =
        (if PGROUNDDOWN va = a then PA2PTE pa OR perm OR PTE_V else pte_of 2 (ram s) pt va)))"
proof -
  obtain r s1 where w: "walk kalloc pt a True s = Ok (r, s1)" "walked inv free a 2 pt s r s1"
      "pt_ok inv free pt s1" "pt_grows free pt s s1"
    using walk_alloc [OF assms(1,3)] .
  have a: "PGROUNDDOWN a = a" using assms(2) by (simp add: page_aligned_iff_round)
  show ?thesis
  proof (cases r)
    case None
    then have "mappages_loop kalloc pt a lasta pa perm s = Ok (-1, s1)"
      using w(1) by (simp add: mappages_loop.simps [of kalloc pt a])
    moreover have "free s1 = {}" using walkedD(7) [OF w(2) None] by simp
    ultimately show ?thesis using w(3,4) walkedD(6) [OF w(2)] by blast
  next
    case (Some qi)
    obtain q i where qi: "qi = (q, i)" by fastforce
    have leaf: "i = PX 0 a" "leaf_table 2 (ram s1) pt a = Some q"
      using walkedD(8) [OF w(2), of q i] Some qi by auto
    have pte: "ram s1 q i = pte_of 2 (ram s1) pt a" using leaf by (simp add: pte_of_def)
    define s2 where "s2 = wr_cell q (PX 0 a) (PA2PTE pa OR perm OR PTE_V) s1"
    note st = store_pte [OF w(3) leaf(2) assms(3) s2_def, unfolded a walkedD(6) [OF w(2)]]
    have "mappages_loop kalloc pt a lasta pa perm s =
        (if a = lasta then Ok (0, s2)
         else mappages_loop kalloc pt (a + PGSIZE) lasta (pa + PGSIZE) perm s2)"
      using w(1) assms(4) Some qi leaf(1) pte walkedD(6) [OF w(2), of a]
      by (simp add: mappages_loop.simps [of kalloc pt a] s2_def pte_valid_def)
    then show ?thesis using st(1,4) pt_grows_trans [OF w(4) st(3)] by blast
  qed
qed

text \<open>
  \<^verbatim>\<open>mappages\<close> over \<open>Suc n\<close> unmapped pages: it returns 0 with all of them mapped, or -1 with the
  first \<open>k\<close> of them mapped and no free memory left; nothing else changes in the address space.
\<close>

lemma mappages_loop_maps:
  assumes "pt_ok inv free pt s" "page_aligned a" "unat a + 4096 * Suc n \<le> 2 ^ 38"
    and "\<forall>k\<le>n. \<not> pte_valid (pte_of 2 (ram s) pt (a + PGSIZE * of_nat k))"
  shows "\<exists>r k s'. mappages_loop kalloc pt a (a + PGSIZE * of_nat n) pa perm s = Ok (r, s') \<and>
    pt_ok inv free pt s' \<and> pt_grows free pt s s' \<and>
    (\<forall>va<SV39. pte_of 2 (ram s') pt va = map_range a k pa perm (pte_of 2 (ram s) pt) va) \<and>
    (r = 0 \<and> k = Suc n \<or> r = -1 \<and> k \<le> n \<and> free s' = {})"
  using assms
proof (induction n arbitrary: a pa s)
  case 0
  have lt: "a < MAXVA" using "0.prems"(3) by (simp add: MAXVA_eq word_less_nat_alt)
  have "\<not> pte_valid (pte_of 2 (ram s) pt a)" using "0.prems"(4) by simp
  moreover have "(if PGROUNDDOWN va = a then PA2PTE pa OR perm OR PTE_V else pte_of 2 (ram s) pt va) =
      map_range a 1 pa perm (pte_of 2 (ram s) pt) va" for va
    using map_range_Suc [OF "0.prems"(2), of 0 pa perm _ va] "0.prems"(3) by simp
  ultimately consider
      s1 where "mappages_loop kalloc pt a a pa perm s = Ok (-1, s1)" "pt_ok inv free pt s1"
        "pt_grows free pt s s1" "free s1 = {}" "\<forall>va. pte_of 2 (ram s1) pt va = pte_of 2 (ram s) pt va"
    | s2 where "mappages_loop kalloc pt a a pa perm s = Ok (0, s2)" "pt_ok inv free pt s2"
        "pt_grows free pt s s2"
        "\<forall>va<SV39. pte_of 2 (ram s2) pt va = map_range a 1 pa perm (pte_of 2 (ram s) pt) va"
    using mappages_loop_step [OF "0.prems"(1,2) lt, of a pa perm] by auto
  then show ?case
  proof cases
    case 1
    then show ?thesis by (intro exI [of _ "-1"] exI [of _ 0] exI [of _ s1]) simp
  next
    case 2
    then show ?thesis by (intro exI [of _ 0] exI [of _ 1] exI [of _ s2]) simp
  qed
next
  case (Suc n)
  let ?last = "a + PGSIZE * of_nat (Suc n)"
  let ?f = "\<lambda>va. if PGROUNDDOWN va = a then PA2PTE pa OR perm OR PTE_V else pte_of 2 (ram s) pt va"
  have lt: "a < MAXVA" using Suc.prems(3) by (simp add: MAXVA_eq word_less_nat_alt)
  have nv: "\<not> pte_valid (pte_of 2 (ram s) pt a)" using Suc.prems(4) [rule_format, of 0] by simp
  have u: "unat (a + PGSIZE) = unat a + 4096" using Suc.prems(3) by (intro unat_plus_PGSIZE) simp
  have pk: "a + PGSIZE + PGSIZE * of_nat k = a + PGSIZE * of_nat (Suc k)" for k
    by (simp add: algebra_simps)
  have uk: "unat (a + PGSIZE * of_nat k) = unat a + 4096 * k" if "k \<le> Suc n" for k
    using that Suc.prems(3) by (intro unat_page_from) simp
  have ne: "a \<noteq> ?last" using uk [of "Suc n"] by auto
  from mappages_loop_step [OF Suc.prems(1,2) lt nv, of ?last pa perm] show ?case
  proof (elim disjE exE conjE)
    fix s1 assume "mappages_loop kalloc pt a ?last pa perm s = Ok (-1, s1)" "pt_ok inv free pt s1"
      "pt_grows free pt s s1" "free s1 = {}" "\<forall>va. pte_of 2 (ram s1) pt va = pte_of 2 (ram s) pt va"
    then show ?thesis by (intro exI [of _ "-1"] exI [of _ 0] exI [of _ s1]) simp
  next
    fix s2 assume s2: "mappages_loop kalloc pt a ?last pa perm s =
        (if a = ?last then Ok (0, s2) else mappages_loop kalloc pt (a + PGSIZE) ?last (pa + PGSIZE) perm s2)"
      "pt_ok inv free pt s2" "pt_grows free pt s s2" "\<forall>va<SV39. pte_of 2 (ram s2) pt va = ?f va"
    have "\<not> pte_valid (pte_of 2 (ram s2) pt (a + PGSIZE + PGSIZE * of_nat k))" if "k \<le> n" for k
    proof -
      have lt': "a + PGSIZE * of_nat (Suc k) < SV39"
        using that uk [of "Suc k"] Suc.prems(3) by (simp add: SV39_def word_less_nat_alt)
      have "unat (PGROUNDDOWN (a + PGSIZE * of_nat (Suc k))) \<noteq> unat a"
        using uk [of "Suc k"] that Suc.prems(2) unfolding unat_PGROUNDDOWN page_aligned_unat by auto
      then have "PGROUNDDOWN (a + PGSIZE * of_nat (Suc k)) \<noteq> a" by metis
      then show ?thesis
        using s2(4) lt' Suc.prems(4) [rule_format, of "Suc k"] that unfolding pk by simp
    qed
    moreover have "page_aligned (a + PGSIZE)" using Suc.prems(2) u by (simp add: page_aligned_unat)
    ultimately obtain r k s' where r: "mappages_loop kalloc pt (a + PGSIZE) ?last (pa + PGSIZE) perm s2 = Ok (r, s')"
        "pt_ok inv free pt s'" "pt_grows free pt s2 s'"
        "\<forall>va<SV39. pte_of 2 (ram s') pt va =
           map_range (a + PGSIZE) k (pa + PGSIZE) perm (pte_of 2 (ram s2) pt) va"
        "r = 0 \<and> k = Suc n \<or> r = -1 \<and> k \<le> n \<and> free s' = {}"
      using Suc.IH [OF s2(2), of "a + PGSIZE" "pa + PGSIZE"] Suc.prems(3) u unfolding pk by auto
    have "pte_of 2 (ram s') pt va = map_range a (Suc k) pa perm (pte_of 2 (ram s) pt) va"
      if "va < SV39" for va
    proof -
      have "pte_of 2 (ram s') pt va = map_range (a + PGSIZE) k (pa + PGSIZE) perm ?f va"
        using r(4) s2(4) that by (simp add: map_range_def Let_def)
      also have "\<dots> = map_range a (Suc k) pa perm (pte_of 2 (ram s) pt) va"
        using Suc.prems(3) r(5) by (intro map_range_Suc [OF Suc.prems(2)]) auto
      finally show ?thesis .
    qed
    then show ?thesis
      using r(1,2,5) s2(1) ne pt_grows_trans [OF s2(3) r(3)] by (intro exI [of _ r] exI [of _ "Suc k"]) auto
  qed
qed

end

end
