(* ===== verification/Vm_User.thy ===== *)
theory Vm_User
  imports Vm_Walk
begin

text \<open>
  User address spaces of lab 4 (\<^verbatim>\<open>kernel/vm.c\<close>): removing mappings, growing and shrinking a
  process, copying an address space, sharing its pages with a kernel page table, and freeing
  page-table pages. \<^verbatim>\<open>kalloc\<close> and \<^verbatim>\<open>kfree\<close> are arguments, as in \<^verbatim>\<open>walk\<close>. The permission
  arguments, which the code passes as \<^verbatim>\<open>int\<close> or \<^verbatim>\<open>uint\<close>, are words of 64 bits here.
\<close>

section \<open>Removing mappings\<close>

text \<open>
  The loop of \<^verbatim>\<open>uvmunmap\<close>, from the page at \<open>a\<close> up to \<open>e\<close>, the address \<^verbatim>\<open>va + npages*PGSIZE\<close>. It ends
  because \<^verbatim>\<open>walk\<close> panics at the first address that is not below \<^verbatim>\<open>MAXVA\<close>.
\<close>

function uvmunmap_loop :: "'a kalloc_fn \<Rightarrow> 'a kfree_fn \<Rightarrow> u64 \<Rightarrow> u64 \<Rightarrow> u64 \<Rightarrow> bool \<Rightarrow>
    'a mach_scheme \<Rightarrow> 'a mach_scheme res" where
  "uvmunmap_loop kalloc kfree pagetable a e do_free s =
     (if a < e then
        rbind (walk kalloc pagetable a False s)
          (\<lambda>(pte, s1). case pte of
             None \<Rightarrow> Panic ''uvmunmap: walk''
           | Some (q, i) \<Rightarrow>
               if ram s1 q i AND PTE_V = 0 then Panic ''uvmunmap: not mapped''
               else if PTE_FLAGS (ram s1 q i) = PTE_V then Panic ''uvmunmap: not a leaf''
               else rbind (if do_free then kfree (PTE2PA (ram s1 q i)) s1 else Ok s1)
                 (\<lambda>s2. uvmunmap_loop kalloc kfree pagetable (a + PGSIZE) e do_free (wr_cell q i 0 s2)))
      else Ok s)"
  by pat_completeness auto
termination
  by (relation "measure (\<lambda>(kalloc, kfree, pt, a, e, do_free, s). unat MAXVA + 4096 - unat a)")
    (auto dest!: walk_Ok_MAXVA intro: next_page_measure)

declare uvmunmap_loop.simps [simp del]

definition uvmunmap :: "'a kalloc_fn \<Rightarrow> 'a kfree_fn \<Rightarrow> u64 \<Rightarrow> u64 \<Rightarrow> u64 \<Rightarrow> bool \<Rightarrow>
    'a mach_scheme \<Rightarrow> 'a mach_scheme res" where
  "uvmunmap kalloc kfree pagetable va npages do_free s =
     (if va mod PGSIZE \<noteq> 0 then Panic ''uvmunmap: not aligned''
      else uvmunmap_loop kalloc kfree pagetable va (va + npages * PGSIZE) do_free s)"

section \<open>Creating and growing an address space\<close>

definition uvmcreate :: "'a kalloc_fn \<Rightarrow> 'a mach_scheme \<Rightarrow> u64 \<times> 'a mach_scheme" where
  "uvmcreate kalloc s =
     (let (pagetable, s1) = kalloc s
      in if pagetable = 0 then (0, s1) else (pagetable, memset_page pagetable 0 s1))"

text \<open>\<^verbatim>\<open>memmove(dst, src, n)\<close> from a buffer outside the modelled pages.\<close>

fun store_bytes :: "u64 \<Rightarrow> u8 list \<Rightarrow> 'a mach_scheme \<Rightarrow> 'a mach_scheme" where
  "store_bytes a [] s = s"
| "store_bytes a (b # bs) s = store_bytes (a + 1) bs (wr_byte a b s)"

text \<open>\<open>src\<close> holds at least \<open>sz\<close> bytes, the size of the array \<^verbatim>\<open>initcode\<close>.\<close>

definition uvminit :: "'a kalloc_fn \<Rightarrow> u64 \<Rightarrow> u8 list \<Rightarrow> u32 \<Rightarrow> 'a mach_scheme \<Rightarrow> 'a mach_scheme res" where
  "uvminit kalloc pagetable src sz s =
     (if ucast sz \<ge> PGSIZE then Panic ''inituvm: more than a page''
      else
        let (mem, s1) = kalloc s;
            s2 = memset_page mem 0 s1
        in rbind (mappages kalloc pagetable 0 PGSIZE mem (PTE_W OR PTE_R OR PTE_X OR PTE_U) s2)
             (\<lambda>(_, s3). Ok (store_bytes mem (take (unat sz) src) s3)))"

text \<open>\<^verbatim>\<open>int npages = x\<close> of a 64-bit value, passed on as \<^verbatim>\<open>uint64\<close>: the low 32 bits, sign-extended.\<close>

definition as_int :: "u64 \<Rightarrow> u64" where
  "as_int x = scast (ucast x :: u32)"

definition uvmdealloc :: "'a kalloc_fn \<Rightarrow> 'a kfree_fn \<Rightarrow> u64 \<Rightarrow> u64 \<Rightarrow> u64 \<Rightarrow>
    'a mach_scheme \<Rightarrow> (u64 \<times> 'a mach_scheme) res" where
  "uvmdealloc kalloc kfree pagetable oldsz newsz s =
     (if newsz \<ge> oldsz then Ok (oldsz, s)
      else if PGROUNDUP newsz < PGROUNDUP oldsz then
        let npages = as_int ((PGROUNDUP oldsz - PGROUNDUP newsz) div PGSIZE)
        in rbind (uvmunmap kalloc kfree pagetable (PGROUNDUP newsz) npages True s) (\<lambda>s1. Ok (newsz, s1))
      else Ok (newsz, s))"

definition kvmdealloc :: "'a kalloc_fn \<Rightarrow> 'a kfree_fn \<Rightarrow> u64 \<Rightarrow> u64 \<Rightarrow> u64 \<Rightarrow>
    'a mach_scheme \<Rightarrow> (u64 \<times> 'a mach_scheme) res" where
  "kvmdealloc kalloc kfree k_pagetable oldsz newsz s =
     (if newsz \<ge> oldsz then Ok (oldsz, s)
      else if PGROUNDUP newsz < PGROUNDUP oldsz then
        let npages = as_int ((PGROUNDUP oldsz - PGROUNDUP newsz) div PGSIZE)
        in rbind (uvmunmap kalloc kfree k_pagetable (PGROUNDUP newsz) npages False s) (\<lambda>s1. Ok (newsz, s1))
      else Ok (newsz, s))"

lemma mappages_loop_Ok_MAXVA: "mappages_loop kalloc pt a lasta pa perm s = Ok r \<Longrightarrow> a < MAXVA"
  by (subst (asm) mappages_loop.simps) (auto dest: walk_Ok_MAXVA)

lemma page_measure:
  assumes "mappages kalloc pt a PGSIZE pa perm s = Ok r"
  shows "unat MAXVA + 8192 - unat (a + PGSIZE) < unat MAXVA + 8192 - unat a"
proof -
  have "unat (PGROUNDDOWN a) < 2 ^ 38"
    using mappages_loop_Ok_MAXVA assms unfolding mappages_def MAXVA_eq by (fastforce simp: word_less_nat_alt)
  then have lt: "unat a < 2 ^ 38" unfolding unat_PGROUNDDOWN by simp
  then have "unat (a + PGSIZE) = unat a + 4096" by (intro unat_plus_PGSIZE) simp
  moreover have "unat MAXVA = 2 ^ 38" by (simp add: MAXVA_eq)
  ultimately show ?thesis using lt by linarith
qed

text \<open>
  The loop of \<^verbatim>\<open>uvmalloc\<close> (\<open>oldsz\<close> is already rounded up). It ends because \<^verbatim>\<open>mappages\<close> panics
  outside the address space.
\<close>

function uvmalloc_loop :: "'a kalloc_fn \<Rightarrow> 'a kfree_fn \<Rightarrow> u64 \<Rightarrow> u64 \<Rightarrow> u64 \<Rightarrow> u64 \<Rightarrow>
    'a mach_scheme \<Rightarrow> (u64 \<times> 'a mach_scheme) res" where
  "uvmalloc_loop kalloc kfree pagetable a oldsz newsz s =
     (if a < newsz then
        let (mem, s1) = kalloc s
        in if mem = 0 then
             rbind (uvmdealloc kalloc kfree pagetable a oldsz s1) (\<lambda>(_, s2). Ok (0, s2))
           else
             rbind (mappages kalloc pagetable a PGSIZE mem (PTE_W OR PTE_X OR PTE_R OR PTE_U)
                      (memset_page mem 0 s1))
               (\<lambda>(r, s2). if r \<noteq> 0 then
                    rbind (kfree mem s2)
                      (\<lambda>s3. rbind (uvmdealloc kalloc kfree pagetable a oldsz s3) (\<lambda>(_, s4). Ok (0, s4)))
                  else uvmalloc_loop kalloc kfree pagetable (a + PGSIZE) oldsz newsz s2)
      else Ok (newsz, s))"
  by pat_completeness auto
termination
  by (relation "measure (\<lambda>(kalloc, kfree, pt, a, oldsz, newsz, s). unat MAXVA + 8192 - unat a)")
    (auto intro: page_measure)

declare uvmalloc_loop.simps [simp del]

definition uvmalloc :: "'a kalloc_fn \<Rightarrow> 'a kfree_fn \<Rightarrow> u64 \<Rightarrow> u64 \<Rightarrow> u64 \<Rightarrow>
    'a mach_scheme \<Rightarrow> (u64 \<times> 'a mach_scheme) res" where
  "uvmalloc kalloc kfree pagetable oldsz newsz s =
     (if newsz < oldsz then Ok (oldsz, s)
      else uvmalloc_loop kalloc kfree pagetable (PGROUNDUP oldsz) (PGROUNDUP oldsz) newsz s)"

section \<open>Freeing page-table pages\<close>

text \<open>
  \<^verbatim>\<open>freewalk\<close> from entry \<open>i\<close> on. The recursion follows the entries it finds in memory; \<open>None\<close> is a
  recursion that does not end, which only a table that contains itself gives.
\<close>

partial_function (option) freewalk_from ::
    "'a kfree_fn \<Rightarrow> nat \<Rightarrow> u64 \<Rightarrow> 'a mach_scheme \<Rightarrow> 'a mach_scheme res option" where
  "freewalk_from kfree i pagetable s =
     (if i < 512 then
        let pte = ram s pagetable i
        in if pte AND PTE_V \<noteq> 0 \<and> pte AND (PTE_R OR PTE_W OR PTE_X) = 0 then
             Option.bind (freewalk_from kfree 0 (PTE2PA pte) s)
               (\<lambda>r. case r of
                  Panic e \<Rightarrow> Some (Panic e)
                | Ok s1 \<Rightarrow> freewalk_from kfree (Suc i) pagetable (wr_cell pagetable i 0 s1))
           else if pte AND PTE_V \<noteq> 0 then Some (Panic ''freewalk: leaf'')
           else freewalk_from kfree (Suc i) pagetable s
      else Some (kfree pagetable s))"

definition freewalk :: "'a kfree_fn \<Rightarrow> u64 \<Rightarrow> 'a mach_scheme \<Rightarrow> 'a mach_scheme res option" where
  "freewalk kfree pagetable s = freewalk_from kfree 0 pagetable s"

partial_function (option) freeallocatewalk_from ::
    "'a kfree_fn \<Rightarrow> nat \<Rightarrow> u64 \<Rightarrow> 'a mach_scheme \<Rightarrow> 'a mach_scheme res option" where
  "freeallocatewalk_from kfree i k_pagetable s =
     (if i < 512 then
        let pte = ram s k_pagetable i
        in if pte AND PTE_V \<noteq> 0 \<and> pte AND (PTE_R OR PTE_W OR PTE_X) = 0 then
             Option.bind (freeallocatewalk_from kfree 0 (PTE2PA pte) s)
               (\<lambda>r. case r of
                  Panic e \<Rightarrow> Some (Panic e)
                | Ok s1 \<Rightarrow> freeallocatewalk_from kfree (Suc i) k_pagetable (wr_cell k_pagetable i 0 s1))
           else freeallocatewalk_from kfree (Suc i) k_pagetable s
      else Some (kfree k_pagetable s))"

definition freeallocatewalk :: "'a kfree_fn \<Rightarrow> u64 \<Rightarrow> 'a mach_scheme \<Rightarrow> 'a mach_scheme res option" where
  "freeallocatewalk kfree k_pagetable s = freeallocatewalk_from kfree 0 k_pagetable s"

definition kvmfree :: "'a kfree_fn \<Rightarrow> u64 \<Rightarrow> 'a mach_scheme \<Rightarrow> 'a mach_scheme res option" where
  "kvmfree kfree k_pagetable s = freeallocatewalk kfree k_pagetable s"

definition uvmfree :: "'a kalloc_fn \<Rightarrow> 'a kfree_fn \<Rightarrow> u64 \<Rightarrow> u64 \<Rightarrow> 'a mach_scheme \<Rightarrow>
    'a mach_scheme res option" where
  "uvmfree kalloc kfree pagetable sz s =
     (case (if sz > 0 then uvmunmap kalloc kfree pagetable 0 (PGROUNDUP sz div PGSIZE) True s else Ok s) of
        Panic e \<Rightarrow> Some (Panic e)
      | Ok s1 \<Rightarrow> freewalk kfree pagetable s1)"

section \<open>Copying an address space\<close>

function uvmcopy_loop :: "'a kalloc_fn \<Rightarrow> 'a kfree_fn \<Rightarrow> u64 \<Rightarrow> u64 \<Rightarrow> u64 \<Rightarrow> u64 \<Rightarrow>
    'a mach_scheme \<Rightarrow> (int \<times> 'a mach_scheme) res" where
  "uvmcopy_loop kalloc kfree old new i sz s =
     (if i < sz then
        rbind (walk kalloc old i False s)
          (\<lambda>(pte, s1). case pte of
             None \<Rightarrow> Panic ''uvmcopy: pte should exist''
           | Some (q, j) \<Rightarrow>
               let e = ram s1 q j in
               if e AND PTE_V = 0 then Panic ''uvmcopy: page not present''
               else
                 let pa = PTE2PA e; flags = PTE_FLAGS e; (mem, s2) = kalloc s1
                 in if mem = 0 then
                      rbind (uvmunmap kalloc kfree new 0 (i div PGSIZE) True s2) (\<lambda>s3. Ok (-1, s3))
                    else
                      rbind (mappages kalloc new i PGSIZE mem flags (memmove_page mem pa s2))
                        (\<lambda>(r, s3). if r \<noteq> 0 then
                             rbind (kfree mem s3)
                               (\<lambda>s4. rbind (uvmunmap kalloc kfree new 0 (i div PGSIZE) True s4)
                                  (\<lambda>s5. Ok (-1, s5)))
                           else uvmcopy_loop kalloc kfree old new (i + PGSIZE) sz s3))
      else Ok (0, s))"
  by pat_completeness auto
termination
  by (relation "measure (\<lambda>(kalloc, kfree, old, new, i, sz, s). unat MAXVA + 8192 - unat i)")
    (auto intro: page_measure)

declare uvmcopy_loop.simps [simp del]

definition uvmcopy :: "'a kalloc_fn \<Rightarrow> 'a kfree_fn \<Rightarrow> u64 \<Rightarrow> u64 \<Rightarrow> u64 \<Rightarrow>
    'a mach_scheme \<Rightarrow> (int \<times> 'a mach_scheme) res" where
  "uvmcopy kalloc kfree old new sz s = uvmcopy_loop kalloc kfree old new 0 sz s"

function kvmcopy_loop :: "'a kalloc_fn \<Rightarrow> 'a kfree_fn \<Rightarrow> u64 \<Rightarrow> u64 \<Rightarrow> u64 \<Rightarrow> u64 \<Rightarrow>
    'a mach_scheme \<Rightarrow> (int \<times> 'a mach_scheme) res" where
  "kvmcopy_loop kalloc kfree old new i sz s =
     (if i < sz then
        rbind (walk kalloc old i False s)
          (\<lambda>(pte, s1). case pte of
             None \<Rightarrow> Panic ''kvmcopy: pte should exist''
           | Some (q, j) \<Rightarrow>
               let e = ram s1 q j in
               if e AND PTE_V = 0 then Panic ''kvmcopy: page not present''
               else
                 rbind (mappages kalloc new i PGSIZE (PTE2PA e) (PTE_FLAGS e AND NOT PTE_U) s1)
                   (\<lambda>(r, s2). if r \<noteq> 0 then
                        rbind (uvmunmap kalloc kfree new 0 (i div PGSIZE) False s2) (\<lambda>s3. Ok (-1, s3))
                      else kvmcopy_loop kalloc kfree old new (i + PGSIZE) sz s2))
      else Ok (0, s))"
  by pat_completeness auto
termination
  by (relation "measure (\<lambda>(kalloc, kfree, old, new, i, sz, s). unat MAXVA + 8192 - unat i)")
    (auto intro: page_measure)

declare kvmcopy_loop.simps [simp del]

text \<open>\<open>PLIC\<close> is a constant of \<^verbatim>\<open>memlayout.h\<close>, a parameter here.\<close>

definition kvmcopy :: "'a kalloc_fn \<Rightarrow> 'a kfree_fn \<Rightarrow> u64 \<Rightarrow> u64 \<Rightarrow> u64 \<Rightarrow> u64 \<Rightarrow> u64 \<Rightarrow>
    'a mach_scheme \<Rightarrow> (int \<times> 'a mach_scheme) res" where
  "kvmcopy kalloc kfree PLIC old new st sz s =
     (if sz > PLIC then Ok (-1, s)
      else kvmcopy_loop kalloc kfree old new (PGROUNDUP st) sz s)"

definition uvmclear :: "'a kalloc_fn \<Rightarrow> u64 \<Rightarrow> u64 \<Rightarrow> 'a mach_scheme \<Rightarrow> 'a mach_scheme res" where
  "uvmclear kalloc pagetable va s =
     rbind (walk kalloc pagetable va False s)
       (\<lambda>(pte, s1). case pte of
          None \<Rightarrow> Panic ''uvmclear''
        | Some (q, i) \<Rightarrow> Ok (wr_cell q i (ram s1 q i AND NOT PTE_U) s1))"

end
