(* ===== verification/Vm_Space.thy ===== *)
theory Vm_Space
  imports Vm_User
begin

text \<open>
  What the operations of \<^verbatim>\<open>Vm_User\<close> do to an address space, for every page allocator: the pages a
  process owns, unmapping them, growing and shrinking the space, and copying it.
\<close>

section \<open>Pages of an address space\<close>

definition page_va :: "nat \<Rightarrow> u64" where
  "page_va k = PGSIZE * of_nat k"

lemma unat_page_va: "k \<le> 2 ^ 26 \<Longrightarrow> unat (page_va k) = 4096 * k"
  using unat_page_from [of 0 k] by (simp add: page_va_def)

lemma page_va_Suc: "page_va k + PGSIZE = page_va (Suc k)"
  by (simp add: page_va_def algebra_simps)

lemma page_va_0 [simp]: "page_va 0 = 0"
  by (simp add: page_va_def)

lemma page_va_MAXVA: "k < 2 ^ 26 \<Longrightarrow> page_va k < MAXVA"
  using unat_page_va [of k] by (simp add: MAXVA_eq word_less_nat_alt)

lemma page_va_SV39: "k < 2 ^ 26 \<Longrightarrow> page_va k < SV39"
  by (rule MAXVA_SV39 [OF page_va_MAXVA])

lemma page_va_less: "i \<le> 2 ^ 26 \<Longrightarrow> j \<le> 2 ^ 26 \<Longrightarrow> page_va i < page_va j \<longleftrightarrow> i < j"
  using unat_page_va [of i] unat_page_va [of j] by (simp add: word_less_nat_alt)

lemma page_va_aligned: "k \<le> 2 ^ 26 \<Longrightarrow> page_aligned (page_va k)"
  using unat_page_va [of k] by (simp add: page_aligned_unat)

lemma PGROUNDDOWN_page_va: "k \<le> 2 ^ 26 \<Longrightarrow> PGROUNDDOWN (page_va k) = page_va k"
  using page_va_aligned page_aligned_iff_round by blast

lemma PGROUNDDOWN_eq_page_va: "k \<le> 2 ^ 26 \<Longrightarrow> PGROUNDDOWN va = page_va k \<longleftrightarrow> unat va div 4096 = k"
  using unat_page_va [of k] by (simp add: word_unat_eq_iff unat_PGROUNDDOWN)

text \<open>
  The entry of page \<open>k\<close> and the physical page it names. A page is \<open>mapped\<close> when its entry is a
  valid leaf; if it is owned (\<open>d\<close>), its physical page is one the allocator handed out and not
  part of the table. \<open>urange\<close>: a range of such pages, no physical page twice.
\<close>

definition upte :: "(u64 \<Rightarrow> nat \<Rightarrow> u64) \<Rightarrow> u64 \<Rightarrow> nat \<Rightarrow> u64" where
  "upte m pt k = pte_of 2 m pt (page_va k)"

definition upa :: "(u64 \<Rightarrow> nat \<Rightarrow> u64) \<Rightarrow> u64 \<Rightarrow> nat \<Rightarrow> u64" where
  "upa m pt k = PTE2PA (upte m pt k)"

definition mapped :: "bool \<Rightarrow> ('a mach_scheme \<Rightarrow> u64 set) \<Rightarrow> (u64 \<Rightarrow> bool) \<Rightarrow> u64 \<Rightarrow> 'a mach_scheme \<Rightarrow>
    nat \<Rightarrow> bool" where
  "mapped d free good pt s k \<longleftrightarrow>
     pte_valid (upte (ram s) pt k) \<and> PTE_FLAGS (upte (ram s) pt k) \<noteq> PTE_V \<and>
     (d \<longrightarrow> good (upa (ram s) pt k) \<and> upa (ram s) pt k \<notin> free s \<and> upa (ram s) pt k \<notin> tables 2 (ram s) pt)"

definition urange :: "bool \<Rightarrow> ('a mach_scheme \<Rightarrow> u64 set) \<Rightarrow> (u64 \<Rightarrow> bool) \<Rightarrow> u64 \<Rightarrow> nat set \<Rightarrow>
    'a mach_scheme \<Rightarrow> bool" where
  "urange d free good pt K s \<longleftrightarrow>
     (\<forall>k\<in>K. mapped d free good pt s k) \<and> (d \<longrightarrow> inj_on (upa (ram s) pt) K)"

definition unmapped :: "bool \<Rightarrow> ('a mach_scheme \<Rightarrow> bool) \<Rightarrow> ('a mach_scheme \<Rightarrow> u64 set) \<Rightarrow> u64 \<Rightarrow> nat set \<Rightarrow>
    'a mach_scheme \<Rightarrow> 'a mach_scheme \<Rightarrow> bool" where
  "unmapped d ok free pt K s s' \<longleftrightarrow>
     pt_ok ok free pt s' \<and> free s' = free s \<union> (if d then upa (ram s) pt ` K else {}) \<and>
     tables 2 (ram s') pt = tables 2 (ram s) pt \<and>
     (\<forall>va<SV39. pte_of 2 (ram s') pt va = (if unat va div 4096 \<in> K then 0 else pte_of 2 (ram s) pt va)) \<and>
     (\<forall>p. p \<notin> tables 2 (ram s) pt \<and> (d \<longrightarrow> p \<notin> upa (ram s) pt ` K) \<longrightarrow> ram s' p = ram s p)"

lemma unmapped_refl: "pt_ok ok free pt s \<Longrightarrow> unmapped d ok free pt {} s s"
  by (simp add: unmapped_def)

lemma unmapped_upte:
  assumes "unmapped d ok free pt K s s'" "k < 2 ^ 26"
  shows "upte (ram s') pt k = (if k \<in> K then 0 else upte (ram s) pt k)"
  using assms page_va_SV39 [of k] unat_page_va [of k] by (simp add: unmapped_def upte_def)

lemma unmapped_other:
  assumes "unmapped d ok free pt K s s'" "k \<in> K'" "K \<inter> K' = {}" "K' \<subseteq> {..<2 ^ 26}"
  shows "upte (ram s') pt k = upte (ram s) pt k" "upa (ram s') pt k = upa (ram s) pt k"
proof -
  have "k < 2 ^ 26" "k \<notin> K" using assms(2-4) by auto
  then show "upte (ram s') pt k = upte (ram s) pt k" using unmapped_upte [OF assms(1)] by simp
  then show "upa (ram s') pt k = upa (ram s) pt k" by (simp add: upa_def)
qed

lemma unmapped_trans:
  assumes "unmapped d ok free pt K s s'" "unmapped d ok free pt K' s' s''"
    and "K \<inter> K' = {}" "K' \<subseteq> {..<2 ^ 26}"
  shows "unmapped d ok free pt (K \<union> K') s s''"
proof -
  have im: "upa (ram s') pt ` K' = upa (ram s) pt ` K'"
    using unmapped_other(2) [OF assms(1) _ assms(3,4)] by (rule image_cong [OF refl])
  show ?thesis
    using assms(1,2) unfolding unmapped_def im by (auto simp: image_Un)
qed

lemma urange_after_unmap:
  assumes "urange d free good pt (K \<union> K') s" "unmapped d ok free pt K s s'"
    and "K \<inter> K' = {}" "K' \<subseteq> {..<2 ^ 26}"
  shows "urange d free good pt K' s'"
proof -
  note e = unmapped_other [OF assms(2) _ assms(3,4)]
  have t: "tables 2 (ram s') pt = tables 2 (ram s) pt"
    and f: "free s' = free s \<union> (if d then upa (ram s) pt ` K else {})"
    using assms(2) by (auto simp: unmapped_def)
  have nf: "upa (ram s) pt k \<notin> free s'" if "k \<in> K'" d for k
    using assms(1,3) that unfolding f urange_def mapped_def inj_on_def by auto
  have "mapped d free good pt s' k" if "k \<in> K'" for k
    using assms(1) e [OF that] nf [OF that] that t by (auto simp: urange_def mapped_def)
  moreover have "inj_on (upa (ram s') pt) K'" if d
    using assms(1) that e(2) by (auto simp: urange_def inj_on_def)
  ultimately show ?thesis by (simp add: urange_def)
qed

lemma pte_of_same_index: "same_index l va va' \<Longrightarrow> pte_of l m pt va = pte_of l m pt va'"
  by (induction l arbitrary: pt) (auto simp: same_index_Suc pte_of_Suc pte_of_0, simp add: same_index_def)

lemma pte_of_page:
  assumes "va < SV39"
  shows "pte_of 2 m pt va = upte m pt (unat va div 4096)"
proof -
  define k where "k = unat va div 4096"
  have "k < 2 ^ 27" using assms by (simp add: SV39_def word_less_nat_alt k_def)
  then have u: "unat (page_va k) = 4096 * k" and lt: "page_va k < SV39"
    using unat_page_from [of 0 k] by (simp_all add: page_va_def SV39_def word_less_nat_alt)
  have "unat (PGROUNDDOWN va) = unat (PGROUNDDOWN (page_va k))" unfolding unat_PGROUNDDOWN u by (simp add: k_def)
  then have "same_index 2 va (page_va k)"
    using same_index_2_iff [OF assms lt] by (simp add: word_unat_eq_iff)
  then show ?thesis unfolding upte_def k_def [symmetric] by (rule pte_of_same_index)
qed

text \<open>Every leaf entry of a tree is the entry of an address below \<open>SV39\<close>.\<close>

lemma PX_unat: "PX l va = unat va div 2 ^ (12 + 9 * l) mod 512"
proof -
  have "(PXMASK :: u64) = mask 9" by (simp add: PXMASK_def mask_eq_exp_minus_1)
  then have "PX l va = take_bit 9 (unat (drop_bit (PXSHIFT l) va))"
    unfolding PX_def take_bit_eq_mask [of 9 "drop_bit (PXSHIFT l) va", symmetric] unsigned_take_bit_eq [symmetric]
    by (simp add: take_bit_eq_mask)
  also have "\<dots> = take_bit 9 (drop_bit (PXSHIFT l) (unat va))" by (simp only: unat_drop_bit_eq)
  finally show ?thesis by (simp only: drop_bit_eq_div take_bit_eq_mod PXSHIFT_def) simp
qed

lemma va_of_indices:
  assumes "i < 512" "j < 512" "k < 512"
  obtains va where "va < SV39" "PX 2 va = i" "PX 1 va = j" "PX 0 va = k"
proof -
  define n where "n = i * 2 ^ 30 + j * 2 ^ 21 + k * 2 ^ 12"
  have n: "n < 2 ^ 39" using assms by (simp add: n_def)
  then have u: "unat (of_nat n :: u64) = n" by (simp add: unat_of_nat take_bit_nat_eq_self)
  have "n div 2 ^ 30 = i" "n div 2 ^ 21 = i * 512 + j" "n div 2 ^ 12 = (i * 512 + j) * 512 + k"
    using assms by (auto simp: n_def)
  then have "PX 2 (of_nat n) = i" "PX 1 (of_nat n) = j" "PX 0 (of_nat n) = k"
    using assms mod_mult_self3 [of "i * 512 + j" 512 k] by (simp_all add: PX_unat u)
  moreover have "(of_nat n :: u64) < SV39" using n u by (simp add: SV39_def word_less_nat_alt)
  ultimately show thesis using that by blast
qed

section \<open>Adding pages\<close>

text \<open>
  \<open>extends\<close>: the page table may have gained table pages taken from the allocator, and nothing
  else happened. \<open>grown\<close>: in addition the pages \<open>K\<close> have been mapped, page \<open>k\<close> to a page of its own
  taken from the allocator with contents \<open>c k\<close> and permissions \<open>w k\<close>. In both, the memory outside
  the table and the allocator's pages is as before, and no allocated page is lost.
\<close>

definition extends :: "('a mach_scheme \<Rightarrow> bool) \<Rightarrow> ('a mach_scheme \<Rightarrow> u64 set) \<Rightarrow> u64 \<Rightarrow>
    'a mach_scheme \<Rightarrow> 'a mach_scheme \<Rightarrow> bool" where
  "extends ok free pt s s' \<longleftrightarrow>
     pt_ok ok free pt s' \<and> free s' \<subseteq> free s \<and>
     tables 2 (ram s') pt = tables 2 (ram s) pt \<union> (free s - free s') \<and>
     (\<forall>va<SV39. pte_of 2 (ram s') pt va = pte_of 2 (ram s) pt va) \<and>
     (\<forall>p. p \<notin> tables 2 (ram s) pt \<union> free s \<longrightarrow> ram s' p = ram s p)"

definition grown :: "('a mach_scheme \<Rightarrow> bool) \<Rightarrow> ('a mach_scheme \<Rightarrow> u64 set) \<Rightarrow> (u64 \<Rightarrow> bool) \<Rightarrow>
    (nat \<Rightarrow> nat \<Rightarrow> u64) \<Rightarrow> (nat \<Rightarrow> u64) \<Rightarrow> u64 \<Rightarrow> nat set \<Rightarrow> 'a mach_scheme \<Rightarrow> 'a mach_scheme \<Rightarrow> bool" where
  "grown ok free good c w pt K s s' \<longleftrightarrow>
     pt_ok ok free pt s' \<and> urange True free good pt K s' \<and>
     (\<forall>k\<in>K. ram s' (upa (ram s') pt k) = c k \<and>
        upte (ram s') pt k = PA2PTE (upa (ram s') pt k) OR w k OR PTE_V) \<and>
     free s' \<union> upa (ram s') pt ` K \<subseteq> free s \<and>
     tables 2 (ram s') pt = tables 2 (ram s) pt \<union> (free s - free s' - upa (ram s') pt ` K) \<and>
     (\<forall>va<SV39. unat va div 4096 \<notin> K \<longrightarrow> pte_of 2 (ram s') pt va = pte_of 2 (ram s) pt va) \<and>
     (\<forall>p. p \<notin> tables 2 (ram s) pt \<union> free s \<longrightarrow> ram s' p = ram s p)"

lemma pt_grows_extends:
  assumes "pt_ok ok free pt s'" "pt_grows free pt s s'"
    and "\<forall>va<SV39. pte_of 2 (ram s') pt va = pte_of 2 (ram s) pt va"
  shows "extends ok free pt s s'"
  using assms by (auto simp: extends_def pt_grows_def)

lemma grown_refl: "pt_ok ok free pt s \<Longrightarrow> grown ok free good c w pt {} s s"
  by (simp add: grown_def urange_def)

lemma upte_cong:
  assumes "\<forall>va<SV39. unat va div 4096 \<notin> K \<longrightarrow> pte_of 2 m' pt va = pte_of 2 m pt va" "k \<notin> K" "k < 2 ^ 26"
  shows "upte m' pt k = upte m pt k"
  using assms page_va_SV39 [of k] unat_page_va [of k] by (simp add: upte_def)

lemma grown_extends:
  assumes g: "grown ok free good c w pt K s s'" and e: "extends ok free pt s' s''" and K: "K \<subseteq> {..<2 ^ 26}"
  shows "grown ok free good c w pt K s s''"
proof -
  have pte: "\<forall>va<SV39. pte_of 2 (ram s'') pt va = pte_of 2 (ram s') pt va" using e by (simp add: extends_def)
  have up: "upte (ram s'') pt k = upte (ram s') pt k" "upa (ram s'') pt k = upa (ram s') pt k" if "k \<in> K" for k
    using upte_cong [of "{}" "ram s''" pt "ram s'" k] pte that K by (auto simp: upa_def)
  have im: "upa (ram s'') pt ` K = upa (ram s') pt ` K" using up(2) by (rule image_cong [OF refl])
  have t'': "tables 2 (ram s'') pt = tables 2 (ram s') pt \<union> (free s' - free s'')" and f'': "free s'' \<subseteq> free s'"
    using e by (auto simp: extends_def)
  have t': "tables 2 (ram s') pt = tables 2 (ram s) pt \<union> (free s - free s' - upa (ram s') pt ` K)"
    and f': "free s' \<union> upa (ram s') pt ` K \<subseteq> free s" and u': "urange True free good pt K s'"
    using g by (auto simp: grown_def)
  have out: "upa (ram s') pt k \<notin> tables 2 (ram s') pt \<union> free s'" if "k \<in> K" for k
    using u' that by (auto simp: urange_def mapped_def)
  have m: "mapped True free good pt s'' k" if "k \<in> K" for k
    using u' that out [OF that] up [OF that] t'' f'' by (auto simp: urange_def mapped_def)
  have "inj_on (upa (ram s'') pt) K" using u' up(2) by (auto simp: urange_def inj_on_def)
  then have u'': "urange True free good pt K s''" using m by (simp add: urange_def)
  have cont: "ram s'' (upa (ram s') pt k) = ram s' (upa (ram s') pt k)" if "k \<in> K" for k
    using e out [OF that] by (simp add: extends_def)
  have "tables 2 (ram s'') pt = tables 2 (ram s) pt \<union> (free s - free s'' - upa (ram s') pt ` K)"
    unfolding t'' t' using f'' f' out by auto
  moreover have "ram s'' p = ram s p" if "p \<notin> tables 2 (ram s) pt \<union> free s" for p
  proof -
    have "p \<notin> tables 2 (ram s') pt \<union> free s'" using that t' f' by auto
    then show ?thesis using e g that by (simp add: extends_def grown_def)
  qed
  ultimately show ?thesis
    unfolding grown_def im using e g u'' cont up f'' f' pte
    by (auto simp: extends_def grown_def)
qed

lemma grown_unmap:
  assumes g: "grown ok free good c w pt K s s'" and u: "unmapped True ok free pt K s' s''"
    and z: "\<forall>k\<in>K. upte (ram s) pt k = 0" and K: "K \<subseteq> {..<2 ^ 26}"
  shows "extends ok free pt s s''"
proof -
  have t: "tables 2 (ram s'') pt = tables 2 (ram s) pt \<union> (free s - free s' - upa (ram s') pt ` K)"
      "free s'' = free s' \<union> upa (ram s') pt ` K" "free s' \<union> upa (ram s') pt ` K \<subseteq> free s"
    using g u by (auto simp: grown_def unmapped_def)
  have t': "tables 2 (ram s') pt = tables 2 (ram s) pt \<union> (free s - free s' - upa (ram s') pt ` K)"
    using g by (simp add: grown_def)
  have "pte_of 2 (ram s'') pt va = pte_of 2 (ram s) pt va" if "va < SV39" for va
  proof (cases "unat va div 4096 \<in> K")
    case True
    then show ?thesis using that u z pte_of_page [OF that, of "ram s" pt] by (simp add: unmapped_def)
  next
    case False
    then show ?thesis using that u g by (simp add: grown_def unmapped_def)
  qed
  moreover have "ram s'' p = ram s p" if "p \<notin> tables 2 (ram s) pt \<union> free s" for p
  proof -
    have "p \<notin> tables 2 (ram s') pt" "p \<notin> upa (ram s') pt ` K" using that t' t(3) by auto
    then show ?thesis using u g that by (simp add: unmapped_def grown_def)
  qed
  ultimately show ?thesis using t u by (auto simp: extends_def unmapped_def)
qed

lemma PTE_V_less [simp]: "PTE_V < 2 ^ 10"
  by (simp add: PTE_V_def)

lemma or_less_1024: "(x :: u64) < 2 ^ 10 \<Longrightarrow> y < 2 ^ 10 \<Longrightarrow> x OR y < 2 ^ 10"
proof -
  assume "x < 2 ^ 10" "y < 2 ^ 10"
  then have "x AND mask 10 = x" "y AND mask 10 = y" by (simp_all only: less_mask_eq)
  then have "(x OR y) AND mask 10 = x OR y" by (metis bit.conj_disj_distrib2)
  then show ?thesis using and_mask_less_size [of 10 "x OR y"] by (simp add: word_size)
qed

lemma as_int_small:
  assumes "unat x < 2 ^ 31"
  shows "as_int x = x"
proof -
  have "int (unat x) < int (2 ^ 31)" using assms by (simp only: of_nat_less_iff)
  then have x: "uint x < 2 ^ 31" by simp
  have u: "uint (ucast x :: u32) = uint x"
    using x by (simp add: unsigned_ucast_eq take_bit_int_eq_self)
  have "sint (ucast x :: u32) = signed_take_bit 31 (uint (ucast x :: u32))"
    by (subst sint_uint) simp
  also have "\<dots> = uint x"
    unfolding u using x order.trans [OF _ uint_ge_0 [of x], of "- (2 ^ 31)"]
    by (intro signed_take_bit_int_eq_self) simp_all
  finally show ?thesis unfolding as_int_def scast_eq by simp
qed

lemma npages_eq:
  assumes "n \<le> m" "m \<le> 2 ^ 26"
  shows "as_int ((page_va m - page_va n) div PGSIZE) = of_nat (m - n)"
proof -
  have u: "unat (page_va m) = 4096 * m" "unat (page_va n) = 4096 * n" using assms by (simp_all add: unat_page_va)
  then have "unat (page_va m - page_va n) = 4096 * m - 4096 * n"
    using assms by (simp add: unat_sub word_le_nat_alt)
  then have d: "unat ((page_va m - page_va n) div PGSIZE) = m - n" by (simp add: unat_div)
  then have "as_int ((page_va m - page_va n) div PGSIZE) = (page_va m - page_va n) div PGSIZE"
    using assms by (intro as_int_small) simp
  then show ?thesis
    using d assms by (simp add: word_unat_eq_iff unat_of_nat take_bit_nat_eq_self del: of_nat_diff)
qed

lemma page_va_add: "n \<le> m \<Longrightarrow> page_va n + of_nat (m - n) * PGSIZE = page_va m"
  by (simp add: page_va_def of_nat_diff algebra_simps)

lemma PGROUNDUP_page_va:
  assumes "k \<le> 2 ^ 26"
  shows "PGROUNDUP (page_va k) = page_va k"
proof -
  have u: "unat (page_va k) = 4096 * k" using assms by (rule unat_page_va)
  then have "unat (PGROUNDUP (page_va k)) = 4096 * k" using assms by (subst unat_PGROUNDUP) auto
  with u show ?thesis by (simp add: word_unat_eq_iff)
qed

text \<open>The number of pages of a process of size \<open>sz\<close>.\<close>

definition npages :: "u64 \<Rightarrow> nat" where
  "npages sz = (unat sz + 4095) div 4096"

lemma PGROUNDUP_npages: "sz \<le> MAXVA \<Longrightarrow> PGROUNDUP sz = page_va (npages sz) \<and> npages sz \<le> 2 ^ 26"
proof -
  assume "sz \<le> MAXVA"
  then have sz: "unat sz \<le> 2 ^ 38" by (simp add: MAXVA_eq word_le_nat_alt)
  then have n: "npages sz \<le> 2 ^ 26" by (simp add: npages_def)
  moreover have "unat (PGROUNDUP sz) = 4096 * npages sz" using sz by (simp add: unat_PGROUNDUP npages_def)
  ultimately show ?thesis using unat_page_va [OF n] by (simp add: word_unat_eq_iff)
qed

lemma page_va_less_npages: "sz \<le> MAXVA \<Longrightarrow> i \<le> 2 ^ 26 \<Longrightarrow> page_va i < sz \<longleftrightarrow> i < npages sz"
  using unat_page_va [of i] by (auto simp: word_less_nat_alt npages_def)

lemma npages_mono: "sz \<le> sz' \<Longrightarrow> npages sz \<le> npages sz'"
  by (auto simp: npages_def word_le_nat_alt intro: div_le_mono)

lemma page_va_div:
  assumes "i \<le> 2 ^ 26"
  shows "page_va i div PGSIZE = of_nat i"
proof -
  have "unat (page_va i div PGSIZE) = i" using assms by (simp add: unat_div unat_page_va)
  then show ?thesis using assms by (simp add: word_unat_eq_iff unat_of_nat take_bit_nat_eq_self)
qed

lemma PTE_FLAGS_less: "PTE_FLAGS e < 2 ^ 10"
proof -
  have "PTE_FLAGS e = e AND mask 10" by (simp add: PTE_FLAGS_def mask_eq_exp_minus_1)
  then show ?thesis using and_mask_less_size [of 10 e] by (simp add: word_size)
qed

lemma PTE_FLAGS_or_V: "pte_valid e \<Longrightarrow> PTE_FLAGS e OR PTE_V = PTE_FLAGS e"
proof (rule bit_word_eqI)
  fix n assume "pte_valid e" "n < LENGTH(64)"
  moreover have "(0x3FF :: u64) = mask 10" by (simp add: mask_eq_exp_minus_1)
  ultimately show "bit (PTE_FLAGS e OR PTE_V) n = bit (PTE_FLAGS e) n"
    by (auto simp: PTE_FLAGS_def PTE_V_def pte_valid_bit bit_simps)
qed

text \<open>One more page: \<open>mem\<close>, taken from the allocator, as page \<open>i\<close>.\<close>

lemma grown_insert:
  assumes g: "grown ok free good c w pt K s s'" and K: "K \<subseteq> {..<2 ^ 26}" and i: "i < 2 ^ 26" "i \<notin> K"
    and ok3: "pt_ok ok free pt s3" and mem: "mem \<in> free s'" "good mem" "page_aligned mem" "mem < 2 ^ 56"
    and t3: "free s3 \<subseteq> free s' - {mem}" "tables 2 (ram s3) pt = tables 2 (ram s') pt \<union> (free s' - {mem} - free s3)"
    and mt: "mem \<notin> tables 2 (ram s') pt" and c: "ram s3 mem = c i"
    and fr: "\<forall>p. p \<notin> tables 2 (ram s') pt \<union> free s' \<longrightarrow> ram s3 p = ram s' p"
    and pte: "\<forall>va<SV39. pte_of 2 (ram s3) pt va =
       (if unat va div 4096 = i then PA2PTE mem OR w i OR PTE_V else pte_of 2 (ram s') pt va)"
    and w: "w i < 2 ^ 10" "w i OR PTE_V \<noteq> PTE_V"
  shows "grown ok free good c w pt (insert i K) s s3"
proof -
  have pi: "upte (ram s3) pt i = PA2PTE mem OR w i OR PTE_V"
    using pte page_va_SV39 [OF i(1)] unat_page_va [of i] i(1) by (simp add: upte_def)
  have fl: "w i OR PTE_V < 2 ^ 10" using or_less_1024 [OF w(1) PTE_V_less] .
  have ai: "upa (ram s3) pt i = mem"
    unfolding upa_def pi using PTE2PA_PA2PTE_flags [OF mem(3,4) fl] by (simp add: or.assoc)
  have "upte (ram s3) pt k = upte (ram s') pt k" if "k \<in> K" for k
    using that K i(2) by (intro upte_cong [of "{i}"]) (auto simp: pte)
  then have up: "upte (ram s3) pt k = upte (ram s') pt k" "upa (ram s3) pt k = upa (ram s') pt k" if "k \<in> K" for k
    using that by (simp_all add: upa_def)
  have im: "upa (ram s3) pt ` insert i K = insert mem (upa (ram s') pt ` K)"
    using ai image_cong [OF refl up(2), of K] by simp
  have u': "urange True free good pt K s'"
    and t': "tables 2 (ram s') pt = tables 2 (ram s) pt \<union> (free s - free s' - upa (ram s') pt ` K)"
    and f': "free s' \<union> upa (ram s') pt ` K \<subseteq> free s"
    using g by (auto simp: grown_def)
  have out: "upa (ram s') pt k \<notin> tables 2 (ram s') pt \<union> free s'" if "k \<in> K" for k
    using u' that by (auto simp: urange_def mapped_def)
  have "mapped True free good pt s3 k" if "k \<in> K" for k
    using u' that out [OF that] up [OF that] t3 by (auto simp: urange_def mapped_def)
  moreover have "mapped True free good pt s3 i"
    unfolding mapped_def ai pi using PTE_FLAGS_PA2PTE_flags [OF fl, of mem] w(2) mem t3 mt
    by (auto simp: or.assoc simp flip: or.assoc)
  moreover have "inj_on (upa (ram s3) pt) (insert i K)"
    using u' up(2) ai out mem(1) by (fastforce simp: urange_def inj_on_def)
  ultimately have u3: "urange True free good pt (insert i K) s3" by (simp add: urange_def)
  have cont: "ram s3 (upa (ram s3) pt k) = c k \<and>
      upte (ram s3) pt k = PA2PTE (upa (ram s3) pt k) OR w k OR PTE_V" if "k \<in> insert i K" for k
    using that ai pi c up [of k] out [of k] fr g by (auto simp: grown_def)
  have "tables 2 (ram s3) pt = tables 2 (ram s) pt \<union> (free s - free s3 - insert mem (upa (ram s') pt ` K))"
    unfolding t3(2) t' using f' t3(1) mem(1) out by auto
  moreover have "\<forall>p. p \<notin> tables 2 (ram s) pt \<union> free s \<longrightarrow> ram s3 p = ram s p"
  proof (intro allI impI)
    fix p assume p: "p \<notin> tables 2 (ram s) pt \<union> free s"
    then have "p \<notin> tables 2 (ram s') pt \<union> free s'" using t' f' by auto
    then show "ram s3 p = ram s p" using fr g p by (simp add: grown_def)
  qed
  moreover have "free s3 \<union> insert mem (upa (ram s') pt ` K) \<subseteq> free s" using f' t3(1) mem(1) by auto
  moreover have "\<forall>va<SV39. unat va div 4096 \<notin> insert i K \<longrightarrow> pte_of 2 (ram s3) pt va = pte_of 2 (ram s) pt va"
    using pte g by (simp add: grown_def)
  ultimately show ?thesis unfolding grown_def im using ok3 u3 cont by (intro conjI) simp_all
qed

context page_allocator
begin

lemma walk_lookup:
  assumes "va < MAXVA" "pte_valid (pte_of 2 (ram s) pt va)"
  obtains q where "walk kalloc pt va False s = Ok (Some (q, PX 0 va), s)"
    "leaf_table 2 (ram s) pt va = Some q" "ram s q (PX 0 va) = pte_of 2 (ram s) pt va"
proof -
  obtain q where "leaf_table 2 (ram s) pt va = Some q"
    using assms(2) by (auto simp: pte_of_def split: option.splits)
  then show thesis
    using that assms(1) by (simp add: walk_def walk_from_lookup pte_of_def not_le [symmetric])
qed

lemma kfree_page:
  assumes "pt_ok inv free pt s" "good p" "p \<notin> free s" "p \<notin> tables 2 (ram s) pt"
  obtains s' where "kfree p s = Ok s'" "pt_ok inv free pt s'" "free s' = insert p (free s)"
    "tables 2 (ram s') pt = tables 2 (ram s) pt"
    "\<forall>va. pte_of 2 (ram s') pt va = pte_of 2 (ram s) pt va"
    "\<forall>va. leaf_table 2 (ram s') pt va = leaf_table 2 (ram s) pt va"
    "\<forall>q. q \<noteq> p \<longrightarrow> ram s' q = ram s q"
proof -
  obtain s' where s': "kfree p s = Ok s'" "inv s'" "free s' = insert p (free s)"
      "\<forall>q. q \<noteq> p \<longrightarrow> ram s' q = ram s q"
    using kfree_good [OF _ assms(2,3)] assms(1) by (auto simp: pt_ok_def)
  have same: "\<forall>q\<in>tables 2 (ram s) pt. ram s' q = ram s q" using s'(4) assms(4) by auto
  have "pt_ok inv free pt s'"
    using assms(1,4) s'(2,3) tables_cong [OF same] pt_wf_cong [OF same] by (simp add: pt_ok_def)
  then show thesis
    using that s' tables_cong [OF same] pte_of_cong [OF same] leaf_table_cong [OF same] by blast
qed

lemma uvmunmap_step:
  assumes pt: "pt_ok inv free pt s" and i: "i < 2 ^ 26" "page_va i < e"
    and m: "mapped d free good pt s i"
  obtains s' where "uvmunmap_loop kalloc kfree pt (page_va i) e d s =
      uvmunmap_loop kalloc kfree pt (page_va (Suc i)) e d s'"
    "unmapped d inv free pt {i} s s'"
proof -
  have mx: "page_va i < MAXVA" using page_va_MAXVA i(1) .
  have v: "pte_valid (pte_of 2 (ram s) pt (page_va i))" and fl: "PTE_FLAGS (upte (ram s) pt i) \<noteq> PTE_V"
    using m by (auto simp: mapped_def upte_def)
  obtain q where q: "walk kalloc pt (page_va i) False s = Ok (Some (q, PX 0 (page_va i)), s)"
      "leaf_table 2 (ram s) pt (page_va i) = Some q" "ram s q (PX 0 (page_va i)) = upte (ram s) pt i"
    using walk_lookup [OF mx v] unfolding upte_def .
  let ?pa = "upa (ram s) pt i"
  obtain s1 where s1: "(if d then kfree ?pa s else Ok s) = Ok s1" "pt_ok inv free pt s1"
      "free s1 = free s \<union> (if d then {?pa} else {})" "tables 2 (ram s1) pt = tables 2 (ram s) pt"
      "\<forall>va. pte_of 2 (ram s1) pt va = pte_of 2 (ram s) pt va"
      "leaf_table 2 (ram s1) pt (page_va i) = Some q"
      "\<forall>p. (d \<longrightarrow> p \<noteq> ?pa) \<longrightarrow> ram s1 p = ram s p"
  proof (cases d)
    case True
    with m have "good ?pa" "?pa \<notin> free s" "?pa \<notin> tables 2 (ram s) pt" by (auto simp: mapped_def)
    then obtain s' where "kfree ?pa s = Ok s'" "pt_ok inv free pt s'" "free s' = insert ?pa (free s)"
        "tables 2 (ram s') pt = tables 2 (ram s) pt"
        "\<forall>va. pte_of 2 (ram s') pt va = pte_of 2 (ram s) pt va"
        "\<forall>va. leaf_table 2 (ram s') pt va = leaf_table 2 (ram s) pt va"
        "\<forall>q. q \<noteq> ?pa \<longrightarrow> ram s' q = ram s q"
      using kfree_page [OF pt] by metis
    then show thesis using that [of s'] True q(2) by simp
  next
    case False
    then show thesis using that [of s] pt q(2) by simp
  qed
  define s2 where "s2 = wr_cell q (PX 0 (page_va i)) 0 s1"
  note st = store_pte [OF s1(2,6) mx s2_def]
  have qt: "q \<in> tables 2 (ram s) pt" using leaf_table_tables [OF q(2)] .
  have t2: "tables 2 (ram s2) pt = tables 2 (ram s) pt"
    using st(2,3) s1(4) by (auto simp: pt_grows_def)
  have i': "i \<le> 2 ^ 26" using i(1) by simp
  have "unmapped d inv free pt {i} s s2"
    unfolding unmapped_def
  proof (intro conjI allI impI)
    fix va assume "va < SV39"
    then show "pte_of 2 (ram s2) pt va = (if unat va div 4096 \<in> {i} then 0 else pte_of 2 (ram s) pt va)"
      using st(4) [of va] s1(5) PGROUNDDOWN_eq_page_va [OF i', of va] PGROUNDDOWN_page_va [OF i'] by simp
  next
    fix p assume "p \<notin> tables 2 (ram s) pt \<and> (d \<longrightarrow> p \<notin> upa (ram s) pt ` {i})"
    then show "ram s2 p = ram s p" using qt s1(7) by (auto simp: s2_def)
  qed (use st(1,2) s1(3) t2 in auto)
  moreover have "uvmunmap_loop kalloc kfree pt (page_va i) e d s =
      uvmunmap_loop kalloc kfree pt (page_va (Suc i)) e d s2"
    using i(2) q(1,3) v fl s1(1) [unfolded upa_def upte_def]
    by (subst uvmunmap_loop.simps) (auto simp: upte_def pte_valid_def page_va_Suc s2_def)
  ultimately show thesis using that by blast
qed

lemma uvmunmap_loop_unmaps:
  assumes "pt_ok inv free pt s" "urange d free good pt {i..<j} s" "i \<le> j" "j \<le> 2 ^ 26"
  shows "\<exists>s'. uvmunmap_loop kalloc kfree pt (page_va i) (page_va j) d s = Ok s' \<and>
    unmapped d inv free pt {i..<j} s s'"
  using assms
proof (induction "j - i" arbitrary: i s)
  case 0
  then have "i = j" by simp
  then show ?case using "0.prems"(1) unmapped_refl by (subst uvmunmap_loop.simps) fastforce
next
  case (Suc n)
  then have ij: "i < j" "i < 2 ^ 26" "page_va i < page_va j" by (auto simp: page_va_less)
  have m: "mapped d free good pt s i" using Suc.prems(2) ij(1) by (simp add: urange_def)
  obtain s1 where s1: "uvmunmap_loop kalloc kfree pt (page_va i) (page_va j) d s =
      uvmunmap_loop kalloc kfree pt (page_va (Suc i)) (page_va j) d s1"
    and u1: "unmapped d inv free pt {i} s s1"
    using uvmunmap_step [OF Suc.prems(1) ij(2,3) m] .
  have split: "{i} \<union> {Suc i..<j} = {i..<j}" using ij(1) by auto
  have lt: "{Suc i..<j} \<subseteq> {..<2 ^ 26}" using Suc.prems(4) by auto
  have "urange d free good pt {Suc i..<j} s1"
    using urange_after_unmap [OF _ u1, of good "{Suc i..<j}"] Suc.prems(2) split lt by simp
  moreover have "pt_ok inv free pt s1" using u1 by (simp add: unmapped_def)
  ultimately obtain s' where s': "uvmunmap_loop kalloc kfree pt (page_va (Suc i)) (page_va j) d s1 = Ok s'"
      "unmapped d inv free pt {Suc i..<j} s1 s'"
    using Suc.hyps(1) [of "Suc i" s1] Suc.hyps(2) ij(1) Suc.prems(4) by fastforce
  then show ?case using s1 unmapped_trans [OF u1 s'(2)] split lt by auto
qed

lemma page_end:
  assumes "i < 2 ^ 26"
  shows "PGROUNDDOWN (page_va i + PGSIZE - 1) = page_va i"
proof -
  have u: "unat (page_va i) = 4096 * i" using assms by (intro unat_page_va) simp
  have "page_va i + PGSIZE - 1 = page_va i + 4095" by (simp add: PGSIZE_def algebra_simps)
  moreover have "unat (page_va i + 4095) = 4096 * i + 4095" using assms u by (simp add: unat_word_ariths)
  ultimately have "unat (page_va i + PGSIZE - 1) = 4096 * i + 4095" by metis
  then have "unat (page_va i + PGSIZE - 1) div 4096 = i" by simp
  then show ?thesis using assms by (simp add: PGROUNDDOWN_eq_page_va)
qed

lemma mappages_page:
  assumes "pt_ok inv free pt s" "i < 2 ^ 26" "\<not> pte_valid (upte (ram s) pt i)"
  obtains r s' where "mappages kalloc pt (page_va i) PGSIZE pa perm s = Ok (r, s')"
    "pt_ok inv free pt s'" "pt_grows free pt s s'"
    "r \<noteq> 0 \<longrightarrow> r = -1 \<and> free s' = {} \<and> (\<forall>va<SV39. pte_of 2 (ram s') pt va = pte_of 2 (ram s) pt va)"
    "r = 0 \<longrightarrow> (\<forall>va<SV39. pte_of 2 (ram s') pt va =
       (if unat va div 4096 = i then PA2PTE pa OR perm OR PTE_V else pte_of 2 (ram s) pt va))"
proof -
  have i: "i \<le> 2 ^ 26" using assms(2) by simp
  have "mappages kalloc pt (page_va i) PGSIZE pa perm s =
      mappages_loop kalloc pt (page_va i) (page_va i) pa perm s"
    by (simp add: mappages_def page_end [OF assms(2)] PGROUNDDOWN_page_va [OF i])
  then show thesis
    using mappages_loop_step [OF assms(1) page_va_aligned [OF i] page_va_MAXVA [OF assms(2)], of "page_va i" pa perm]
      assms(3) that PGROUNDDOWN_eq_page_va [OF i]
    unfolding upte_def by fastforce
qed

text \<open>A page from the allocator, filled with \<open>c i\<close>, is mapped as the next page of the space.\<close>

lemma map_fresh:
  assumes g: "grown inv free good c w pt K s s'" and K: "K \<subseteq> {..<2 ^ 26}"
    and i: "i < 2 ^ 26" "i \<notin> K" "\<not> pte_valid (upte (ram s') pt i)"
    and k: "kalloc s' = (mem, s1)" "mem \<noteq> 0" and s2: "s2 = s1\<lparr>ram := (ram s1)(mem := c i)\<rparr>"
    and w: "w i < 2 ^ 10" "w i OR PTE_V \<noteq> PTE_V"
  shows "\<exists>r s3. mappages kalloc pt (page_va i) PGSIZE mem (w i) s2 = Ok (r, s3) \<and>
    (if r = 0 then grown inv free good c w pt (insert i K) s s3
     else \<exists>s4. kfree mem s3 = Ok s4 \<and> grown inv free good c w pt K s s4)"
proof -
  have ok: "pt_ok inv free pt s'" "inv s'" using g by (auto simp: grown_def pt_ok_def)
  have al: "mem \<in> free s'" "inv s1" "free s1 = free s' - {mem}" "\<forall>q. q \<noteq> mem \<longrightarrow> ram s1 q = ram s' q"
    using kalloc_page [OF ok(2) k] by auto
  have mt: "mem \<notin> tables 2 (ram s') pt" using ok(1) al(1) by (auto simp: pt_ok_def)
  have gd: "good mem" using free_good [OF ok(2) al(1)] .
  have f2: "inv s2" "free s2 = free s' - {mem}" using inv_ram [OF al(2), of mem] al(3) s2 by auto
  have m2: "ram s2 mem = c i" "\<forall>q. q \<noteq> mem \<longrightarrow> ram s2 q = ram s' q" using s2 al(4) by auto
  have same: "\<forall>q\<in>tables 2 (ram s') pt. ram s2 q = ram s' q" using m2(2) mt by auto
  note cong = tables_cong [OF same] pte_of_cong [OF same] pt_wf_cong [OF same]
  have ok2: "pt_ok inv free pt s2" using ok(1) f2 cong by (auto simp: pt_ok_def)
  have nv: "\<not> pte_valid (upte (ram s2) pt i)" using i(3) cong by (simp add: upte_def)
  obtain r s3 where s3: "mappages kalloc pt (page_va i) PGSIZE mem (w i) s2 = Ok (r, s3)"
      "pt_ok inv free pt s3" "pt_grows free pt s2 s3"
      "r \<noteq> 0 \<longrightarrow> r = -1 \<and> free s3 = {} \<and> (\<forall>va<SV39. pte_of 2 (ram s3) pt va = pte_of 2 (ram s2) pt va)"
      "r = 0 \<longrightarrow> (\<forall>va<SV39. pte_of 2 (ram s3) pt va =
         (if unat va div 4096 = i then PA2PTE mem OR w i OR PTE_V else pte_of 2 (ram s2) pt va))"
    by (rule mappages_page [OF ok2 i(1) nv])
  have t3: "free s3 \<subseteq> free s' - {mem}" "tables 2 (ram s3) pt = tables 2 (ram s') pt \<union> (free s' - {mem} - free s3)"
    and fr3: "\<forall>p. p \<notin> tables 2 (ram s') pt \<union> (free s' - {mem} - free s3) \<longrightarrow> ram s3 p = ram s2 p"
    using s3(3) f2(2) cong by (auto simp: pt_grows_def)
  have mem3: "mem \<notin> free s3" "mem \<notin> tables 2 (ram s3) pt" "ram s3 mem = c i"
    using t3 mt fr3 m2(1) by auto
  show ?thesis
  proof (cases "r = 0")
    case False
    obtain s4 where s4: "kfree mem s3 = Ok s4" "pt_ok inv free pt s4" "free s4 = insert mem (free s3)"
        "tables 2 (ram s4) pt = tables 2 (ram s3) pt"
        "\<forall>va. pte_of 2 (ram s4) pt va = pte_of 2 (ram s3) pt va" "\<forall>q. q \<noteq> mem \<longrightarrow> ram s4 q = ram s3 q"
      using kfree_page [OF s3(2) gd mem3(1,2)] by metis
    have "\<forall>p. p \<notin> tables 2 (ram s') pt \<union> free s' \<longrightarrow> ram s4 p = ram s' p"
      using s4(6) fr3 m2(2) al(1) by (metis DiffD1 UnCI UnE)
    then have "extends inv free pt s' s4"
      unfolding extends_def using s4(2-5) t3 al(1) s3(4) False cong(2) by auto
    then show ?thesis using s3(1) s4(1) False grown_extends [OF g _ K] by auto
  next
    case True
    have pte: "\<forall>va<SV39. pte_of 2 (ram s3) pt va =
         (if unat va div 4096 = i then PA2PTE mem OR w i OR PTE_V else pte_of 2 (ram s') pt va)"
      using s3(5) True cong(2) by simp
    have "\<forall>p. p \<notin> tables 2 (ram s') pt \<union> free s' \<longrightarrow> ram s3 p = ram s' p" using fr3 m2(2) al(1) by auto
    then have "grown inv free good c w pt (insert i K) s s3"
      using grown_insert [where c = c, OF g K i(1,2) s3(2) al(1) gd good_aligned [OF gd] good_less [OF gd] t3 mt mem3(3) _ pte w]
      by blast
    then show ?thesis using s3(1) True by simp
  qed
qed

text \<open>Shrinking: the pages above the new size are unmapped and freed.\<close>

lemma uvmdealloc_unmaps:
  assumes "pt_ok inv free pt s" "newsz \<le> oldsz" "oldsz \<le> MAXVA"
    and "urange True free good pt {npages newsz..<npages oldsz} s"
  shows "\<exists>s'. uvmdealloc kalloc kfree pt oldsz newsz s = Ok (newsz, s') \<and>
    unmapped True inv free pt {npages newsz..<npages oldsz} s s'"
proof -
  have new: "newsz \<le> MAXVA" using assms(2,3) by simp
  note ru = PGROUNDUP_npages [OF assms(3)] PGROUNDUP_npages [OF new]
  have le: "npages newsz \<le> npages oldsz" using npages_mono [OF assms(2)] .
  consider "newsz = oldsz" | "newsz < oldsz" "npages newsz = npages oldsz" | "newsz < oldsz" "npages newsz < npages oldsz"
    using assms(2) le by fastforce
  then show ?thesis
  proof cases
    case 3
    obtain s' where "uvmunmap_loop kalloc kfree pt (page_va (npages newsz)) (page_va (npages oldsz)) True s = Ok s'"
        "unmapped True inv free pt {npages newsz..<npages oldsz} s s'"
      using uvmunmap_loop_unmaps [OF assms(1,4) le] ru by blast
    moreover have "page_va (npages newsz) mod PGSIZE = 0"
      using page_va_aligned ru by (simp add: page_aligned_def)
    moreover have "page_va (npages newsz) < page_va (npages oldsz)" "\<not> newsz \<ge> oldsz"
      using 3 ru page_va_less by auto
    ultimately show ?thesis
      using ru npages_eq [OF le] page_va_add [OF le]
      by (simp add: uvmdealloc_def uvmunmap_def Let_def del: of_nat_diff not_le)
  qed (use assms(1) ru in \<open>auto simp: uvmdealloc_def intro: unmapped_refl\<close>)
qed

lemma uvmalloc_loop_grows:
  assumes g: "grown inv free good (\<lambda>_ _. 0) (\<lambda>_. PTE_W OR PTE_X OR PTE_R OR PTE_U) pt {n..<i} s s'"
    and i: "n \<le> i" "i \<le> max n (npages newsz)" "newsz \<le> MAXVA" "n \<le> 2 ^ 26"
    and z: "\<forall>k\<in>{n..<npages newsz}. upte (ram s) pt k = 0"
  shows "\<exists>r s''. uvmalloc_loop kalloc kfree pt (page_va i) (page_va n) newsz s' = Ok (r, s'') \<and>
    (r = newsz \<and> grown inv free good (\<lambda>_ _. 0) (\<lambda>_. PTE_W OR PTE_X OR PTE_R OR PTE_U) pt
        {n..<npages newsz} s s'' \<or>
     r = 0 \<and> extends inv free pt s s'')"
  using g i(1,2)
proof (induction "npages newsz - i" arbitrary: i s')
  case 0
  let ?N = "npages newsz"
  have lt: "\<not> page_va i < newsz"
    using 0 page_va_less_npages [OF i(3), of i] i(4) PGROUNDUP_npages [OF i(3)] by (auto simp: max_def split: if_splits)
  have "{n..<i} = {n..<?N}" using 0 by auto
  then show ?case using lt "0.prems"(1) by (subst uvmalloc_loop.simps) simp
next
  case (Suc d)
  let ?N = "npages newsz"
  let ?w = "\<lambda>_. PTE_W OR PTE_X OR PTE_R OR PTE_U"
  have N: "?N \<le> 2 ^ 26" using PGROUNDUP_npages [OF i(3)] by simp
  have iN: "i < ?N" "i < 2 ^ 26" using Suc.hyps(2) N by auto
  have lt: "page_va i < newsz" using page_va_less_npages [OF i(3), of i] iN by simp
  have K: "{n..<i} \<subseteq> {..<2 ^ 26}" "i \<notin> {n..<i}" using iN(2) by auto
  have z': "\<forall>k\<in>{n..<i}. upte (ram s) pt k = 0" using z iN(1) by auto
  have nv: "\<not> pte_valid (upte (ram s') pt i)"
  proof -
    have "upte (ram s') pt i = upte (ram s) pt i"
      using Suc.prems(1) by (intro upte_cong [of "{n..<i}"]) (use iN(2) in \<open>auto simp: grown_def\<close>)
    then show ?thesis using z iN(1) Suc.prems(2) by simp
  qed
  have ok: "pt_ok inv free pt s'" "inv s'" using Suc.prems(1) by (auto simp: grown_def pt_ok_def)
  have roll: "\<exists>s3. uvmdealloc kalloc kfree pt (page_va i) (page_va n) s2 = Ok (page_va n, s3) \<and>
      extends inv free pt s s3" if "grown inv free good (\<lambda>_ _. 0) ?w pt {n..<i} s s2" for s2
  proof -
    have np: "npages (page_va n) = n" "npages (page_va i) = i"
      using unat_page_va [of n] unat_page_va [of i] i(4) iN(2) by (auto simp: npages_def)
    have "page_va n \<le> page_va i" "page_va i \<le> MAXVA"
      using Suc.prems(2) iN(2) i(4) unat_page_va [of n] unat_page_va [of i] page_va_MAXVA [OF iN(2)]
      by (auto simp: word_le_nat_alt word_less_nat_alt)
    then show ?thesis
      using uvmdealloc_unmaps [of pt s2 "page_va n" "page_va i", unfolded np] grown_unmap [OF that _ z' K(1)] that
      by (fastforce simp: grown_def)
  qed
  obtain mem s1 where k: "kalloc s' = (mem, s1)" by fastforce
  show ?case
  proof (cases "mem = 0")
    case True
    have "extends inv free pt s' s1"
    proof -
      have "free s' = {}" "inv s1" "free s1 = {}" "ram s1 = ram s'"
        using kalloc_null [OF ok(2), of s1] k True by auto
      then show ?thesis using ok(1) by (simp add: extends_def pt_ok_def)
    qed
    from roll [OF grown_extends [OF Suc.prems(1) this K(1)]]
    show ?thesis using k True lt by (subst uvmalloc_loop.simps) auto
  next
    case False
    have w: "?w i < 2 ^ 10" "?w i OR PTE_V \<noteq> PTE_V" by (simp_all add: pte_flag_defs)
    have s2: "memset_page mem 0 s1 = s1\<lparr>ram := (ram s1)(mem := (\<lambda>_. 0))\<rparr>" by (simp add: memset_page_def)
    obtain r s3 where r: "mappages kalloc pt (page_va i) PGSIZE mem (?w i) (memset_page mem 0 s1) = Ok (r, s3)"
        "if r = 0 then grown inv free good (\<lambda>_ _. 0) ?w pt (insert i {n..<i}) s s3
         else \<exists>s4. kfree mem s3 = Ok s4 \<and> grown inv free good (\<lambda>_ _. 0) ?w pt {n..<i} s s4"
      using map_fresh [OF Suc.prems(1) K(1) iN(2) K(2) nv k False s2 w] by blast
    have step: "uvmalloc_loop kalloc kfree pt (page_va i) (page_va n) newsz s' =
        (if r \<noteq> 0 then rbind (kfree mem s3)
            (\<lambda>s3. rbind (uvmdealloc kalloc kfree pt (page_va i) (page_va n) s3) (\<lambda>(_, s4). Ok (0, s4)))
         else uvmalloc_loop kalloc kfree pt (page_va (Suc i)) (page_va n) newsz s3)"
      using k False lt r(1) by (subst uvmalloc_loop.simps) (simp add: page_va_Suc)
    show ?thesis
    proof (cases "r = 0")
      case True
      have "insert i {n..<i} = {n..<Suc i}" using Suc.prems(2) by auto
      then show ?thesis using Suc.hyps(1) [of "Suc i" s3] r(2) True step Suc.hyps(2) iN(1) Suc.prems(2) by auto
    next
      case False
      then obtain s4 where s4: "kfree mem s3 = Ok s4" "grown inv free good (\<lambda>_ _. 0) ?w pt {n..<i} s s4"
        using r(2) by auto
      then show ?thesis using roll [OF s4(2)] step False by auto
    qed
  qed
qed

text \<open>
  Copying: \<open>old\<close> is a page table whose pages and whose user pages the allocator does not have, and
  that shares none of them with the table \<open>new\<close>.
\<close>

lemma uvmcopy_loop_copies:
  assumes g: "grown inv free good (\<lambda>k. ram s (upa (ram s) old k)) (\<lambda>k. PTE_FLAGS (upte (ram s) old k))
      new {0..<i} s s'"
    and i: "i \<le> npages sz" "sz \<le> MAXVA"
    and old: "tables 2 (ram s) old \<inter> (tables 2 (ram s) new \<union> free s) = {}"
    and pages: "\<forall>k<npages sz. pte_valid (upte (ram s) old k) \<and> PTE_FLAGS (upte (ram s) old k) \<noteq> PTE_V \<and>
      upa (ram s) old k \<notin> tables 2 (ram s) new \<union> free s"
    and z: "\<forall>k<npages sz. upte (ram s) new k = 0"
  shows "\<exists>r s''. uvmcopy_loop kalloc kfree old new (page_va i) sz s' = Ok (r, s'') \<and>
    (r = 0 \<and> grown inv free good (\<lambda>k. ram s (upa (ram s) old k)) (\<lambda>k. PTE_FLAGS (upte (ram s) old k))
        new {0..<npages sz} s s'' \<or>
     r = -1 \<and> extends inv free new s s'')"
  using g i(1)
proof (induction "npages sz - i" arbitrary: i s')
  case 0
  then have "\<not> page_va i < sz" "i = npages sz"
    using page_va_less_npages [OF i(2), of i] PGROUNDUP_npages [OF i(2)] by auto
  then show ?case using "0.prems"(1) by (subst uvmcopy_loop.simps) simp
next
  case (Suc d)
  let ?N = "npages sz"
  let ?c = "\<lambda>k. ram s (upa (ram s) old k)"
  let ?w = "\<lambda>k. PTE_FLAGS (upte (ram s) old k)"
  have iN: "i < ?N" "i < 2 ^ 26" using Suc.hyps(2) PGROUNDUP_npages [OF i(2)] by auto
  have lt: "page_va i < sz" using page_va_less_npages [OF i(2), of i] iN by simp
  have K: "{0..<i} \<subseteq> {..<2 ^ 26}" "i \<notin> {0..<i}" using iN(2) by auto
  have z': "\<forall>k\<in>{0..<i}. upte (ram s) new k = 0" using z iN(1) by auto
  have frame: "ram s' p = ram s p" if "p \<notin> tables 2 (ram s) new \<union> free s" for p
    using Suc.prems(1) that by (simp add: grown_def)
  have "upte (ram s') new i = upte (ram s) new i"
    using Suc.prems(1) by (intro upte_cong [of "{0..<i}"]) (use iN(2) in \<open>auto simp: grown_def\<close>)
  then have nv: "\<not> pte_valid (upte (ram s') new i)" using z iN(1) by simp
  have ok: "pt_ok inv free new s'" "inv s'" using Suc.prems(1) by (auto simp: grown_def pt_ok_def)
  have same: "\<forall>p\<in>tables 2 (ram s) old. ram s' p = ram s p" using frame old by blast
  have e: "pte_of 2 (ram s') old (page_va i) = upte (ram s) old i"
    using pte_of_cong [OF same] by (simp add: upte_def)
  have v: "pte_valid (upte (ram s) old i)" "?w i \<noteq> PTE_V"
    and pa: "upa (ram s) old i \<notin> tables 2 (ram s) new \<union> free s" using pages iN(1) by auto
  obtain q where q: "walk kalloc old (page_va i) False s' = Ok (Some (q, PX 0 (page_va i)), s')"
      "ram s' q (PX 0 (page_va i)) = upte (ram s) old i"
    using walk_lookup [OF page_va_MAXVA [OF iN(2)], of s' old] v(1) e by metis
  have roll: "\<exists>s3. uvmunmap kalloc kfree new 0 (page_va i div PGSIZE) True s2 = Ok s3 \<and>
      extends inv free new s s3" if "grown inv free good ?c ?w new {0..<i} s s2" for s2
  proof -
    have i': "i \<le> 2 ^ 26" using iN(2) by simp
    have "of_nat i * PGSIZE = page_va i" by (simp add: page_va_def)
    then show ?thesis
      using uvmunmap_loop_unmaps [of new s2 True 0 i] grown_unmap [OF that _ z' K(1)] that i'
      by (auto simp: grown_def uvmunmap_def page_va_div)
  qed
  obtain mem s1 where k: "kalloc s' = (mem, s1)" by fastforce
  show ?case
  proof (cases "mem = 0")
    case True
    have "extends inv free new s' s1"
      using kalloc_null [OF ok(2), of s1] k True ok(1) by (simp add: extends_def pt_ok_def)
    from roll [OF grown_extends [OF Suc.prems(1) this K(1)]]
    show ?thesis using k True lt q v(1) by (subst uvmcopy_loop.simps) (auto simp: pte_valid_def Let_def)
  next
    case False
    have w: "?w i < 2 ^ 10" "?w i OR PTE_V \<noteq> PTE_V"
      using PTE_FLAGS_less v by (simp_all add: PTE_FLAGS_or_V)
    have al: "mem \<in> free s'" "\<forall>q. q \<noteq> mem \<longrightarrow> ram s1 q = ram s' q" using kalloc_page [OF ok(2) k False] by auto
    then have "upa (ram s) old i \<noteq> mem" using pa Suc.prems(1) by (auto simp: grown_def)
    then have "ram s1 (upa (ram s) old i) = ?c i" using al(2) frame pa by simp
    then have s2: "memmove_page mem (upa (ram s) old i) s1 = s1\<lparr>ram := (ram s1)(mem := ?c i)\<rparr>"
      by (simp add: memmove_page_def)
    obtain r s3 where r: "mappages kalloc new (page_va i) PGSIZE mem (?w i) (memmove_page mem (upa (ram s) old i) s1) = Ok (r, s3)"
        "if r = 0 then grown inv free good ?c ?w new (insert i {0..<i}) s s3
         else \<exists>s4. kfree mem s3 = Ok s4 \<and> grown inv free good ?c ?w new {0..<i} s s4"
      using map_fresh [OF Suc.prems(1) K(1) iN(2) K(2) nv k False s2 w] by blast
    have step: "uvmcopy_loop kalloc kfree old new (page_va i) sz s' =
        (if r \<noteq> 0 then rbind (kfree mem s3)
            (\<lambda>s4. rbind (uvmunmap kalloc kfree new 0 (page_va i div PGSIZE) True s4) (\<lambda>s5. Ok (-1, s5)))
         else uvmcopy_loop kalloc kfree old new (page_va (Suc i)) sz s3)"
      using k False lt q v(1) r(1)
      by (subst uvmcopy_loop.simps) (simp add: page_va_Suc pte_valid_def Let_def upa_def)
    show ?thesis
    proof (cases "r = 0")
      case True
      have "insert i {0..<i} = {0..<Suc i}" by auto
      then show ?thesis using Suc.hyps(1) [of "Suc i" s3] r(2) True step Suc.hyps(2) iN(1) by auto
    next
      case False
      then obtain s4 where s4: "kfree mem s3 = Ok s4" "grown inv free good ?c ?w new {0..<i} s s4"
        using r(2) by auto
      then show ?thesis using roll [OF s4(2)] step False by auto
    qed
  qed
qed

end

end
