(* ===== verification/Vm_Free.thy ===== *)
theory Vm_Free
  imports Vm_Space
begin

text \<open>
  Freeing the page-table pages of an address space (\<^verbatim>\<open>freewalk\<close>, \<^verbatim>\<open>freeallocatewalk\<close>, \<^verbatim>\<open>kvmfree\<close>,
  \<^verbatim>\<open>uvmfree\<close> of lab 4): the recursion ends and gives back every page of the tree, each once.
\<close>

section \<open>Trees ready to be freed\<close>

text \<open>
  \<open>leaves_ok\<close>: the valid entries of level 0 satisfy \<open>P\<close>. \<^verbatim>\<open>freewalk\<close> wants no valid leaf at all, \<^verbatim>\<open>freeallocatewalk\<close>
  wants leaves to have a permission bit.
\<close>

primrec leaves_ok :: "(u64 \<Rightarrow> bool) \<Rightarrow> nat \<Rightarrow> (u64 \<Rightarrow> nat \<Rightarrow> u64) \<Rightarrow> u64 \<Rightarrow> bool" where
  "leaves_ok P 0 m pt \<longleftrightarrow> (\<forall>i<512. pte_valid (m pt i) \<longrightarrow> P (m pt i))"
| "leaves_ok P (Suc l) m pt \<longleftrightarrow>
     (\<forall>i<512. pte_valid (m pt i) \<longrightarrow> leaves_ok P l m (PTE2PA (m pt i)))"

lemma leaves_ok_cong: "\<forall>p\<in>tables l m pt. m' p = m p \<Longrightarrow> leaves_ok P l m' pt = leaves_ok P l m pt"
proof (induction l arbitrary: pt)
  case 0
  then show ?case by simp
next
  case (Suc l)
  have pt: "m' pt = m pt" using Suc.prems by simp
  have "leaves_ok P l m' (PTE2PA (m pt i)) = leaves_ok P l m (PTE2PA (m pt i))"
    if "i < 512" "pte_valid (m pt i)" for i
    using Suc.prems tables_child [of i m pt l] that by (intro Suc.IH) blast
  with pt show ?case by auto
qed

text \<open>Cutting off a child whose pages are the only ones that changed.\<close>

lemma unlink_table:
  assumes wf: "pt_wf (Suc l) m pt" and ok: "leaves_ok P (Suc l) m pt"
    and i: "i < 512" "pte_valid (m pt i)"
    and m': "m' pt = (m pt)(i := 0)" "\<forall>p. p \<noteq> pt \<and> p \<notin> tables l m (PTE2PA (m pt i)) \<longrightarrow> m' p = m p"
  shows "pt_wf (Suc l) m' pt" "leaves_ok P (Suc l) m' pt"
    "tables (Suc l) m' pt = tables (Suc l) m pt - tables l m (PTE2PA (m pt i))"
proof -
  note ch = pt_wf_child [OF wf]
  have val: "pte_valid (m' pt j) \<longleftrightarrow> j \<noteq> i \<and> pte_valid (m pt j)" "j \<noteq> i \<Longrightarrow> m' pt j = m pt j" for j
    by (auto simp: m'(1))
  have same: "\<forall>p\<in>tables l m (PTE2PA (m pt j)). m' p = m p" if "j < 512" "j \<noteq> i" "pte_valid (m pt j)" for j
  proof
    fix p assume p: "p \<in> tables l m (PTE2PA (m pt j))"
    have "p \<noteq> pt" using p ch(2) [OF that(1,3)] by auto
    moreover have "p \<notin> tables l m (PTE2PA (m pt i))" using p ch(3) [OF i that] by auto
    ultimately show "m' p = m p" using m'(2) by simp
  qed
  have tj: "tables l m' (PTE2PA (m' pt j)) = tables l m (PTE2PA (m pt j))"
      "pt_wf l m' (PTE2PA (m' pt j))" "leaves_ok P l m' (PTE2PA (m' pt j))"
    if "j < 512" "j \<noteq> i" "pte_valid (m pt j)" for j
    using tables_cong [OF same [OF that]] pt_wf_cong [OF same [OF that]] leaves_ok_cong [OF same [OF that]]
      ch(1) [OF that(1,3)] ok that val(2) [OF that(2)] by auto
  show "leaves_ok P (Suc l) m' pt"
    using tj(3) ok val by auto
  show "pt_wf (Suc l) m' pt"
    unfolding pt_wf.simps
  proof (intro allI impI conjI; (elim conjE)?)
    fix j assume j: "j < 512" "pte_valid (m' pt j)"
    then have j': "j \<noteq> i" "pte_valid (m pt j)" using val by auto
    show "is_pointer (m' pt j)" using val(2) [OF j'(1)] ch(4) [OF j(1) j'(2)] by simp
    show "pt_wf l m' (PTE2PA (m' pt j))" using tj(2) j j' by simp
    show "pt \<notin> tables l m' (PTE2PA (m' pt j))" using tj(1) [OF j(1) j'] ch(2) [OF j(1) j'(2)] by simp
    fix k assume k: "k < 512" "k \<noteq> j" "pte_valid (m' pt k)"
    then have k': "k \<noteq> i" "pte_valid (m pt k)" using val by auto
    show "tables l m' (PTE2PA (m' pt j)) \<inter> tables l m' (PTE2PA (m' pt k)) = {}"
      unfolding tj(1) [OF j(1) j'] tj(1) [OF k(1) k'] by (rule ch(3) [OF j(1) j'(2) k(1,2) k'(2)])
  qed
  show "tables (Suc l) m' pt = tables (Suc l) m pt - tables l m (PTE2PA (m pt i))"
  proof -
    let ?V = "{j. j < 512 \<and> pte_valid (m pt j)}"
    have "{j. j < 512 \<and> pte_valid (m' pt j)} = ?V - {i}" using val by auto
    then have "tables (Suc l) m' pt = insert pt (\<Union>j\<in>?V - {i}. tables l m (PTE2PA (m pt j)))"
      using tj(1) by auto
    also have "\<dots> = insert pt (\<Union>j\<in>?V. tables l m (PTE2PA (m pt j))) - tables l m (PTE2PA (m pt i))"
      using ch(2) [OF i] ch(3) [OF i] by auto
    finally show ?thesis by simp
  qed
qed

lemma leaves_ok_entries:
  assumes "\<forall>va<SV39. pte_valid (pte_of 2 m pt va) \<longrightarrow> P (pte_of 2 m pt va)"
  shows "leaves_ok P 2 m pt"
proof -
  have "P (m (PTE2PA (m (PTE2PA (m pt i)) j)) k)"
    if ijk: "i < 512" "pte_valid (m pt i)" "j < 512" "pte_valid (m (PTE2PA (m pt i)) j)" "k < 512"
      "pte_valid (m (PTE2PA (m (PTE2PA (m pt i)) j)) k)" for i j k
  proof -
    obtain va where "va < SV39" "PX 2 va = i" "PX 1 va = j" "PX 0 va = k"
      using va_of_indices ijk by blast
    then show ?thesis
      using assms ijk by (auto simp: numeral_2_eq_2 pte_of_Suc pte_of_0 dest!: spec [of _ va])
  qed
  then show ?thesis by (simp add: numeral_2_eq_2)
qed

text \<open>
  \<open>freed\<close>: the allocator has got back the pages \<open>T\<close>, and no other page changed.
\<close>

definition freed :: "('a mach_scheme \<Rightarrow> bool) \<Rightarrow> ('a mach_scheme \<Rightarrow> u64 set) \<Rightarrow> u64 set \<Rightarrow>
    'a mach_scheme \<Rightarrow> 'a mach_scheme \<Rightarrow> bool" where
  "freed ok free T s s' \<longleftrightarrow> ok s' \<and> free s' = free s \<union> T \<and> (\<forall>p. p \<notin> T \<longrightarrow> ram s' p = ram s p)"

context page_allocator
begin

lemma kfree_freed:
  assumes "inv s" "good p" "p \<notin> free s"
  obtains s' where "kfree p s = Ok s'" "freed inv free {p} s s'"
  using kfree_good [OF assms] by (auto simp: freed_def)

lemma freewalk_steps:
  "512 \<le> i \<Longrightarrow> freewalk_from kfree i pt s = Some (kfree pt s)"
  "i < 512 \<Longrightarrow> \<not> pte_valid (ram s pt i) \<or> False \<Longrightarrow> freewalk_from kfree i pt s = freewalk_from kfree (Suc i) pt s"
  "i < 512 \<Longrightarrow> pte_valid (ram s pt i) \<Longrightarrow> is_pointer (ram s pt i) \<Longrightarrow>
    freewalk_from kfree i pt s = Option.bind (freewalk_from kfree 0 (PTE2PA (ram s pt i)) s)
      (\<lambda>r. case r of Panic e \<Rightarrow> Some (Panic e)
         | Ok s1 \<Rightarrow> freewalk_from kfree (Suc i) pt (wr_cell pt i 0 s1))"
  by (subst freewalk_from.simps, simp add: Let_def pte_valid_def is_pointer_def)+

lemma freeallocatewalk_steps:
  "512 \<le> i \<Longrightarrow> freeallocatewalk_from kfree i pt s = Some (kfree pt s)"
  "i < 512 \<Longrightarrow> \<not> pte_valid (ram s pt i) \<or> \<not> is_pointer (ram s pt i) \<Longrightarrow>
    freeallocatewalk_from kfree i pt s = freeallocatewalk_from kfree (Suc i) pt s"
  "i < 512 \<Longrightarrow> pte_valid (ram s pt i) \<Longrightarrow> is_pointer (ram s pt i) \<Longrightarrow>
    freeallocatewalk_from kfree i pt s = Option.bind (freeallocatewalk_from kfree 0 (PTE2PA (ram s pt i)) s)
      (\<lambda>r. case r of Panic e \<Rightarrow> Some (Panic e)
         | Ok s1 \<Rightarrow> freeallocatewalk_from kfree (Suc i) pt (wr_cell pt i 0 s1))"
  by (subst freeallocatewalk_from.simps, auto simp: Let_def pte_valid_def is_pointer_def)+

text \<open>
  The two walks differ only in what they do with a leaf. \<open>F\<close> is either of them: it moves past
  an entry that is not to be followed (\<open>skip\<close>), and recurses into a pointer.
\<close>

lemma walk_frees_tables:
  fixes F :: "nat \<Rightarrow> u64 \<Rightarrow> 'a mach_scheme \<Rightarrow> 'a mach_scheme res option"
  assumes last: "\<And>i pt s. 512 \<le> i \<Longrightarrow> F i pt s = Some (kfree pt s)"
    and skip: "\<And>i pt s. i < 512 \<Longrightarrow> \<not> pte_valid (ram s pt i) \<or> P (ram s pt i) \<Longrightarrow> F i pt s = F (Suc i) pt s"
    and rec: "\<And>i pt s. i < 512 \<Longrightarrow> pte_valid (ram s pt i) \<Longrightarrow> is_pointer (ram s pt i) \<Longrightarrow>
      F i pt s = Option.bind (F 0 (PTE2PA (ram s pt i)) s)
         (\<lambda>r. case r of Panic e \<Rightarrow> Some (Panic e) | Ok s1 \<Rightarrow> F (Suc i) pt (wr_cell pt i 0 s1))"
  shows "inv s \<Longrightarrow> pt_wf l (ram s) pt \<Longrightarrow> leaves_ok P l (ram s) pt \<Longrightarrow>
    \<forall>p\<in>tables l (ram s) pt. good p \<and> p \<notin> free s \<Longrightarrow> \<forall>j<i. j < 512 \<longrightarrow> 0 < l \<longrightarrow> \<not> pte_valid (ram s pt j) \<Longrightarrow>
    \<exists>s'. F i pt s = Some (Ok s') \<and> freed inv free (tables l (ram s) pt) s s'"
proof (induction l arbitrary: i pt s)
  case 0
  have "good pt" "pt \<notin> free s" using 0(4) by auto
  then obtain s' where s': "kfree pt s = Ok s'" "freed inv free {pt} s s'"
    using kfree_freed [OF 0(1)] by blast
  have "F i pt s = Some (kfree pt s)" for i
  proof (induction "512 - i" arbitrary: i)
    case 0
    then show ?case using last by simp
  next
    case (Suc n)
    then have "i < 512" by simp
    moreover have "F (Suc i) pt s = Some (kfree pt s)" using Suc.hyps by simp
    ultimately show ?case using skip [of i s pt] \<open>leaves_ok P 0 (ram s) pt\<close> by auto
  qed
  with s' show ?case by simp
next
  case (Suc l)
  note outer = Suc.IH
  from Suc.prems show ?case
  proof (induction "512 - i" arbitrary: i s)
    case 0
    have "\<not> pte_valid (ram s pt j)" if "j < 512" for j using 0(1,6) that by auto
    then have t: "tables (Suc l) (ram s) pt = {pt}" by auto
    then have "good pt" "pt \<notin> free s" using 0(5) by auto
    then obtain s' where "kfree pt s = Ok s'" "freed inv free {pt} s s'"
      using kfree_freed [OF 0(2)] by blast
    then show ?case using last [of i pt s] 0(1) t by (simp del: tables.simps)
  next
    case (Suc n)
    then have i: "i < 512" by simp
    show ?case
    proof (cases "pte_valid (ram s pt i)")
      case False
      then have "F i pt s = F (Suc i) pt s" using skip i by simp
      moreover have "\<forall>j<Suc i. j < 512 \<longrightarrow> 0 < Suc l \<longrightarrow> \<not> pte_valid (ram s pt j)"
        using Suc.prems(5) False by (auto simp: less_Suc_eq)
      ultimately show ?thesis using Suc.hyps(1) [of "Suc i" s] Suc.hyps(2) Suc.prems(1-4) by auto
    next
      case True
      let ?c = "PTE2PA (ram s pt i)" let ?T = "tables l (ram s) ?c"
      have sub: "?T \<subseteq> tables (Suc l) (ram s) pt" using tables_child [of i "ram s" pt l] i True by blast
      note ch = pt_wf_child [OF Suc.prems(2) i True]
      have lo: "is_pointer (ram s pt i)" "leaves_ok P l (ram s) ?c" using ch(4) Suc.prems(3) i True by auto
      obtain s1 where s1: "F 0 ?c s = Some (Ok s1)" "freed inv free ?T s s1"
        using outer [OF Suc.prems(1) ch(1) lo(2), of 0] Suc.prems(4) sub by blast
      define s2 where "s2 = wr_cell pt i 0 s1"
      have ptf: "pt \<notin> free s1" using s1(2) ch(2) Suc.prems(4) by (auto simp: freed_def)
      have m2: "ram s2 pt = (ram s pt)(i := 0)" "\<forall>p. p \<noteq> pt \<and> p \<notin> ?T \<longrightarrow> ram s2 p = ram s p"
        using s1(2) ch(2) by (auto simp: freed_def s2_def)
      have i2: "inv s2" "free s2 = free s \<union> ?T" using s1(2) ptf by (simp_all add: freed_def s2_def)
      note un = unlink_table [OF Suc.prems(2,3) i True m2]
      have "\<forall>p\<in>tables (Suc l) (ram s2) pt. good p \<and> p \<notin> free s2"
        unfolding un(3) i2(2) using Suc.prems(4) by blast
      moreover have "\<forall>j<Suc i. j < 512 \<longrightarrow> 0 < Suc l \<longrightarrow> \<not> pte_valid (ram s2 pt j)"
        using Suc.prems(5) by (auto simp: less_Suc_eq m2(1))
      ultimately obtain s' where s': "F (Suc i) pt s2 = Some (Ok s')"
          "freed inv free (tables (Suc l) (ram s2) pt) s2 s'"
        using Suc.hyps(1) [of "Suc i" s2, OF _ i2(1) un(1,2)] Suc.hyps(2) by fastforce
      have f': "inv s'" "free s' = free s \<union> ?T \<union> (tables (Suc l) (ram s) pt - ?T)"
          "\<forall>p. p \<notin> tables (Suc l) (ram s) pt - ?T \<longrightarrow> ram s' p = ram s2 p"
        using s'(2) unfolding un(3) freed_def i2(2) by simp_all
      have "free s' = free s \<union> tables (Suc l) (ram s) pt" unfolding f'(2) using sub by blast
      moreover have "ram s' p = ram s p" if "p \<notin> tables (Suc l) (ram s) pt" for p
      proof -
        have "p \<noteq> pt" "p \<notin> ?T" using that sub by auto
        then show ?thesis using that f'(3) m2(2) by simp
      qed
      ultimately have "freed inv free (tables (Suc l) (ram s) pt) s s'"
        using f'(1) by (simp add: freed_def del: tables.simps)
      then show ?thesis using rec [OF i True lo(1)] s1(1) s'(1) by (simp add: s2_def)
    qed
  qed
qed

lemma freewalk_frees:
  assumes "inv s" "pt_wf l (ram s) pt" "leaves_ok (\<lambda>_. False) l (ram s) pt"
    and "\<forall>p\<in>tables l (ram s) pt. good p \<and> p \<notin> free s"
  shows "\<exists>s'. freewalk kfree pt s = Some (Ok s') \<and> freed inv free (tables l (ram s) pt) s s'"
  unfolding freewalk_def
  by (rule walk_frees_tables [where F = "freewalk_from kfree", OF freewalk_steps assms]) simp_all

lemma freeallocatewalk_frees:
  assumes "inv s" "pt_wf l (ram s) pt" "leaves_ok (\<lambda>e. \<not> is_pointer e) l (ram s) pt"
    and "\<forall>p\<in>tables l (ram s) pt. good p \<and> p \<notin> free s"
  shows "\<exists>s'. freeallocatewalk kfree pt s = Some (Ok s') \<and> freed inv free (tables l (ram s) pt) s s'"
  unfolding freeallocatewalk_def
  by (rule walk_frees_tables [where F = "freeallocatewalk_from kfree", OF freeallocatewalk_steps assms]) simp_all

text \<open>
  \<^verbatim>\<open>uvmfree\<close> on an address space that owns its pages below \<open>sz\<close> and maps nothing else gives back the
  user pages and the table pages.
\<close>

lemma uvmfree_frees:
  assumes ok: "pt_ok inv free pt s" and sz: "sz \<le> MAXVA"
    and own: "urange True free good pt {0..<npages sz} s"
    and rest: "\<forall>va<SV39. unat va div 4096 \<ge> npages sz \<longrightarrow> \<not> pte_valid (pte_of 2 (ram s) pt va)"
    and good: "\<forall>p\<in>tables 2 (ram s) pt. good p"
  shows "\<exists>s'. uvmfree kalloc kfree pt sz s = Some (Ok s') \<and>
    freed inv free (tables 2 (ram s) pt \<union> upa (ram s) pt ` {0..<npages sz}) s s'"
proof -
  let ?U = "upa (ram s) pt ` {0..<npages sz}" and ?T = "tables 2 (ram s) pt"
  have N: "npages sz \<le> 2 ^ 26" "PGROUNDUP sz = page_va (npages sz)" using PGROUNDUP_npages [OF sz] by auto
  obtain s1 where s1: "uvmunmap_loop kalloc kfree pt 0 (page_va (npages sz)) True s = Ok s1"
      "unmapped True inv free pt {0..<npages sz} s s1"
    using uvmunmap_loop_unmaps [OF ok own] N(1) by auto
  have u1: "(if sz > 0 then uvmunmap kalloc kfree pt 0 (PGROUNDUP sz div PGSIZE) True s else Ok s) = Ok s1"
  proof (cases "sz = 0")
    case True
    then show ?thesis using s1(1) by (subst (asm) uvmunmap_loop.simps) (simp add: npages_def)
  next
    case False
    have "of_nat (npages sz) * PGSIZE = page_va (npages sz)" by (simp add: page_va_def)
    then show ?thesis using False s1(1) N by (simp add: uvmunmap_def page_va_div word_neq_0_conv)
  qed
  have ok1: "pt_ok inv free pt s1" "tables 2 (ram s1) pt = ?T" "free s1 = free s \<union> ?U"
    using s1(2) by (auto simp: unmapped_def)
  have "\<forall>va<SV39. \<not> pte_valid (pte_of 2 (ram s1) pt va)"
    using s1(2) rest by (auto simp: unmapped_def)
  then have "leaves_ok (\<lambda>_. False) 2 (ram s1) pt" by (intro leaves_ok_entries) blast
  moreover have "\<forall>p\<in>?T. good p \<and> p \<notin> free s1"
    using good ok1 unfolding pt_ok_def by blast
  ultimately obtain s' where s': "freewalk kfree pt s1 = Some (Ok s')" "freed inv free ?T s1 s'"
    using freewalk_frees [of s1 2 pt] ok1 unfolding pt_ok_def by auto
  have "freed inv free (?T \<union> ?U) s s'"
    using s'(2) s1(2) ok1(3) by (auto simp: freed_def unmapped_def)
  then show ?thesis using s'(1) u1 by (simp add: uvmfree_def)
qed

text \<open>\<^verbatim>\<open>kvmfree\<close> gives back the table pages only: the mapped pages belong to others.\<close>

lemma kvmfree_frees:
  assumes "pt_ok inv free pt s" "\<forall>p\<in>tables 2 (ram s) pt. good p"
    and "\<forall>va<SV39. pte_valid (pte_of 2 (ram s) pt va) \<longrightarrow> \<not> is_pointer (pte_of 2 (ram s) pt va)"
  shows "\<exists>s'. kvmfree kfree pt s = Some (Ok s') \<and> freed inv free (tables 2 (ram s) pt) s s'"
  unfolding kvmfree_def
proof (rule freeallocatewalk_frees)
  show "leaves_ok (\<lambda>e. \<not> is_pointer e) 2 (ram s) pt" using assms(3) by (rule leaves_ok_entries)
qed (use assms(1,2) in \<open>auto simp: pt_ok_def\<close>)

end

end
