(* ===== verification/Vm_Copy.thy ===== *)
theory Vm_Copy
  imports Vm_Space
begin

text \<open>
  Copying between user and kernel memory (\<^verbatim>\<open>copyout\<close>, \<^verbatim>\<open>copyin\<close>, \<^verbatim>\<open>copyinstr\<close> of lab 4). User memory
  is reached through the page table; the kernel buffer is a list of bytes: the bytes still to be
  written for \<^verbatim>\<open>copyout\<close>, the bytes stored through \<^verbatim>\<open>dst\<close> so far for the other two.
\<close>

section \<open>Operations\<close>

text \<open>The part of a transfer of \<open>len\<close> bytes that lies in the page of \<open>va\<close>.\<close>

definition chunk :: "u64 \<Rightarrow> u64 \<Rightarrow> u64" where
  "chunk va len =
     (let n = PGSIZE - (va - PGROUNDDOWN va) in if n > len then len else n)"

definition load_bytes :: "u64 \<Rightarrow> nat \<Rightarrow> 'a mach_scheme \<Rightarrow> u8 list" where
  "load_bytes a n s = map (\<lambda>k. rd_byte (a + of_nat k) s) [0..<n]"

lemma unat_offset: "unat (va - PGROUNDDOWN va) = unat va mod 4096"
proof -
  have "unat (va - PGROUNDDOWN va) = unat va - unat (PGROUNDDOWN va)"
    by (rule unat_sub [OF PGROUNDDOWN_le])
  then show ?thesis by (simp add: unat_PGROUNDDOWN minus_mult_div_eq_mod)
qed

lemma unat_chunk: "unat (chunk va len) = min (4096 - unat va mod 4096) (unat len)"
proof -
  have le: "va - PGROUNDDOWN va \<le> PGSIZE"
    unfolding word_le_nat_alt unat_offset by (simp add: less_imp_le)
  have "unat (PGSIZE - (va - PGROUNDDOWN va)) = 4096 - unat va mod 4096"
    unfolding unat_sub [OF le] unat_offset by simp
  then show ?thesis by (auto simp: chunk_def Let_def word_less_nat_alt)
qed

lemma chunk_decreases: "len > 0 \<Longrightarrow> unat (len - chunk va len) < unat len"
proof -
  assume len: "len > 0"
  then have "0 < unat len" by (simp add: word_less_nat_alt)
  moreover have "unat (len - chunk va len) = unat len - unat (chunk va len)"
    by (rule unat_sub) (simp add: word_le_nat_alt unat_chunk)
  moreover have "0 < 4096 - unat va mod 4096" by (simp add: less_imp_le)
  ultimately show ?thesis by (simp add: unat_chunk)
qed

function copyout :: "'a kalloc_fn \<Rightarrow> u64 \<Rightarrow> u64 \<Rightarrow> u8 list \<Rightarrow> u64 \<Rightarrow> 'a mach_scheme \<Rightarrow>
    (int \<times> 'a mach_scheme) res" where
  "copyout kalloc pagetable dstva src len s =
     (if len > 0 then
        let va0 = PGROUNDDOWN dstva
        in rbind (walkaddr kalloc pagetable va0 s)
          (\<lambda>pa0. if pa0 = 0 then Ok (-1, s)
             else
               let n = chunk dstva len;
                   s1 = store_bytes (pa0 + (dstva - va0)) (take (unat n) src) s
               in copyout kalloc pagetable (va0 + PGSIZE) (drop (unat n) src) (len - n) s1)
      else Ok (0, s))"
  by pat_completeness auto
termination
  by (relation "measure (\<lambda>(kalloc, pt, dstva, src, len, s). unat len)") (auto intro: chunk_decreases)

declare copyout.simps [simp del]

function copyin :: "'a kalloc_fn \<Rightarrow> u64 \<Rightarrow> u8 list \<Rightarrow> u64 \<Rightarrow> u64 \<Rightarrow> 'a mach_scheme \<Rightarrow>
    (int \<times> u8 list) res" where
  "copyin kalloc pagetable dst srcva len s =
     (if len > 0 then
        let va0 = PGROUNDDOWN srcva
        in rbind (walkaddr kalloc pagetable va0 s)
          (\<lambda>pa0. if pa0 = 0 then Ok (-1, dst)
             else
               let n = chunk srcva len
               in copyin kalloc pagetable (dst @ load_bytes (pa0 + (srcva - va0)) (unat n) s)
                    (va0 + PGSIZE) (len - n) s)
      else Ok (0, dst))"
  by pat_completeness auto
termination
  by (relation "measure (\<lambda>(kalloc, pt, dst, srcva, len, s). unat len)") (auto intro: chunk_decreases)

declare copyin.simps [simp del]

text \<open>
  The inner loop of \<^verbatim>\<open>copyinstr\<close> over the \<open>n\<close> bytes from \<open>p\<close>: whether a NUL was found, and the bytes
  stored through \<^verbatim>\<open>dst\<close>.
\<close>

fun copyinstr_page :: "nat \<Rightarrow> u64 \<Rightarrow> u8 list \<Rightarrow> 'a mach_scheme \<Rightarrow> bool \<times> u8 list" where
  "copyinstr_page 0 p dst s = (False, dst)"
| "copyinstr_page (Suc n) p dst s =
     (if rd_byte p s = 0 then (True, dst @ [0])
      else copyinstr_page n (p + 1) (dst @ [rd_byte p s]) s)"

function copyinstr :: "'a kalloc_fn \<Rightarrow> u64 \<Rightarrow> u8 list \<Rightarrow> u64 \<Rightarrow> u64 \<Rightarrow> 'a mach_scheme \<Rightarrow>
    (int \<times> u8 list) res" where
  "copyinstr kalloc pagetable dst srcva maxlen s =
     (if maxlen > 0 then
        let va0 = PGROUNDDOWN srcva
        in rbind (walkaddr kalloc pagetable va0 s)
          (\<lambda>pa0. if pa0 = 0 then Ok (-1, dst)
             else
               let n = chunk srcva maxlen;
                   (got_null, dst1) = copyinstr_page (unat n) (pa0 + (srcva - va0)) dst s
               in if got_null then Ok (0, dst1)
                  else copyinstr kalloc pagetable dst1 (va0 + PGSIZE) (maxlen - n) s)
      else Ok (-1, dst))"
  by pat_completeness auto
termination
  by (relation "measure (\<lambda>(kalloc, pt, dst, srcva, maxlen, s). unat maxlen)") (auto intro: chunk_decreases)

declare copyinstr.simps [simp del]

section \<open>User addresses\<close>

text \<open>The physical address of a byte of user memory, if the page is mapped for the user.\<close>

definition translate :: "(u64 \<Rightarrow> nat \<Rightarrow> u64) \<Rightarrow> u64 \<Rightarrow> u64 \<Rightarrow> u64 option" where
  "translate m pt va =
     (let e = pte_of 2 m pt va in
      if va < MAXVA \<and> pte_valid e \<and> e AND PTE_U \<noteq> 0 \<and> PTE2PA e \<noteq> 0
      then Some (PTE2PA e + (va - PGROUNDDOWN va)) else None)"

lemma PGROUNDDOWN_less_MAXVA: "PGROUNDDOWN va < MAXVA \<longleftrightarrow> va < MAXVA"
  unfolding word_less_nat_alt unat_PGROUNDDOWN by (auto simp: MAXVA_eq)

lemma pte_of_round: "va < MAXVA \<Longrightarrow> pte_of 2 m pt (PGROUNDDOWN va) = pte_of 2 m pt va"
  using same_index_2_iff [of "PGROUNDDOWN va" va] PGROUNDDOWN_less_MAXVA MAXVA_SV39
  by (intro pte_of_same_index) auto

lemma walkaddr_eq:
  "walkaddr kalloc pt va s =
     Ok (if va < MAXVA \<and> pte_valid (pte_of 2 (ram s) pt va) \<and> pte_of 2 (ram s) pt va AND PTE_U \<noteq> 0
         then PTE2PA (pte_of 2 (ram s) pt va) else 0)"
  by (auto simp: walkaddr_def walk_def walk_from_lookup pte_of_def pte_valid_def split: option.splits)

lemma walkaddr_translate:
  "walkaddr kalloc pt (PGROUNDDOWN va) s =
     Ok (case translate (ram s) pt va of None \<Rightarrow> 0 | Some a \<Rightarrow> a - (va - PGROUNDDOWN va))"
  by (auto simp: walkaddr_eq translate_def Let_def PGROUNDDOWN_less_MAXVA pte_of_round)

lemma translate_Some:
  assumes "translate m pt va = Some a"
  shows "a - (va - PGROUNDDOWN va) = PTE2PA (pte_of 2 m pt va)" "PTE2PA (pte_of 2 m pt va) \<noteq> 0"
    "va < MAXVA" "PGROUNDDOWN a = PTE2PA (pte_of 2 m pt va)"
proof -
  have a: "a = PTE2PA (pte_of 2 m pt va) + (va - PGROUNDDOWN va)"
    and ne: "PTE2PA (pte_of 2 m pt va) \<noteq> 0" and lt: "va < MAXVA"
    using assms by (auto simp: translate_def Let_def split: if_splits)
  show "a - (va - PGROUNDDOWN va) = PTE2PA (pte_of 2 m pt va)" using a by simp
  show "PTE2PA (pte_of 2 m pt va) \<noteq> 0" "va < MAXVA" by fact+
  let ?p = "PTE2PA (pte_of 2 m pt va)"
  obtain k where k: "unat ?p = 4096 * k" using PTE2PA_aligned page_aligned_unat by (metis dvd_def)
  have "unat ?p < 2 ^ 64" using unsigned_less [of ?p] by simp
  then have "k < 2 ^ 52" using k by simp
  then have "unat a = 4096 * k + unat va mod 4096"
    unfolding a unat_word_ariths unat_offset k by simp
  then show "PGROUNDDOWN a = ?p" by (simp add: word_unat_eq_iff unat_PGROUNDDOWN k)
qed

lemma translate_sum:
  "translate m pt va = Some a \<Longrightarrow> PTE2PA (pte_of 2 m pt va) + (va - PGROUNDDOWN va) = a"
  by (auto simp: translate_def Let_def split: if_splits)

lemma div_in_page: "k < 4096 - n mod 4096 \<Longrightarrow> (n + k) div 4096 = n div 4096" for k n :: nat
proof (rule div_nat_eqI)
  assume k: "k < 4096 - n mod 4096"
  have n: "4096 * (n div 4096) + n mod 4096 = n" by simp
  show "4096 * (n div 4096) \<le> n + k" by simp
  show "n + k < 4096 * Suc (n div 4096)" using k n unfolding mult_Suc_right by linarith
qed

text \<open>Within a page, consecutive addresses translate to consecutive addresses.\<close>

lemma translate_in_page:
  assumes "translate m pt va = Some a" "k < 4096 - unat va mod 4096"
  shows "translate m pt (va + of_nat k) = Some (a + of_nat k)"
proof -
  have k: "unat (of_nat k :: u64) = k" using assms(2) by (simp add: unat_of_nat take_bit_nat_eq_self)
  have va: "unat va < 2 ^ 38" using translate_Some(3) [OF assms(1)] by (simp add: MAXVA_eq word_less_nat_alt)
  then have u: "unat (va + of_nat k) = unat va + k" using assms(2) k by (simp add: unat_word_ariths)
  have d: "(unat va + k) div 4096 = unat va div 4096" by (rule div_in_page [OF assms(2)])
  have r: "PGROUNDDOWN (va + of_nat k) = PGROUNDDOWN va"
    by (simp add: word_unat_eq_iff unat_PGROUNDDOWN u d)
  have lt: "va + of_nat k < MAXVA"
    using PGROUNDDOWN_less_MAXVA [of "va + of_nat k"] PGROUNDDOWN_less_MAXVA [of va] r
      translate_Some(3) [OF assms(1)] by simp
  have "pte_of 2 m pt (va + of_nat k) = pte_of 2 m pt va"
    using pte_of_round [OF lt, of m pt] pte_of_round [OF translate_Some(3) [OF assms(1)], of m pt] r by simp
  then show ?thesis
    using assms(1) lt r by (auto simp: translate_def Let_def algebra_simps split: if_splits)
qed

lemma next_chunk:
  assumes "chunk va len < len"
  shows "PGROUNDDOWN va + PGSIZE = va + chunk va len" "unat (chunk va len) = 4096 - unat va mod 4096"
proof -
  have n: "chunk va len = PGSIZE - (va - PGROUNDDOWN va)"
    using assms by (auto simp: chunk_def Let_def split: if_splits)
  show "PGROUNDDOWN va + PGSIZE = va + chunk va len" unfolding n by simp
  show "unat (chunk va len) = 4096 - unat va mod 4096"
    using assms unfolding word_less_nat_alt unat_chunk by simp
qed

lemma unat_rest: "unat (len - chunk va len) = unat len - unat (chunk va len)"
  by (rule unat_sub) (simp add: word_le_nat_alt unat_chunk)

section \<open>Reading user memory\<close>

definition uaddr :: "(u64 \<Rightarrow> nat \<Rightarrow> u64) \<Rightarrow> u64 \<Rightarrow> u64 \<Rightarrow> nat \<Rightarrow> u64" where
  "uaddr m pt va k = the (translate m pt (va + of_nat k))"

definition all_mapped :: "(u64 \<Rightarrow> nat \<Rightarrow> u64) \<Rightarrow> u64 \<Rightarrow> u64 \<Rightarrow> nat \<Rightarrow> bool" where
  "all_mapped m pt va n \<longleftrightarrow> (\<forall>k<n. translate m pt (va + of_nat k) \<noteq> None)"

lemma all_mapped_split:
  assumes "all_mapped m pt va n" "c \<le> n"
  shows "all_mapped m pt (va + of_nat c) (n - c)"
  unfolding all_mapped_def
proof (intro allI impI)
  fix k assume "k < n - c"
  then have "c + k < n" by simp
  then have "translate m pt (va + of_nat (c + k)) \<noteq> None"
    using assms(1) unfolding all_mapped_def by blast
  then show "translate m pt (va + of_nat c + of_nat k) \<noteq> None" by (simp add: add.assoc)
qed

lemma uaddr_split: "uaddr m pt (va + of_nat c) k = uaddr m pt va (c + k)"
  by (simp add: uaddr_def add.assoc)

lemma uaddr_in_page:
  assumes "translate m pt va = Some a" "k < unat (chunk va len)"
  shows "uaddr m pt va k = a + of_nat k"
  using translate_in_page [OF assms(1), of k] assms(2) by (simp add: uaddr_def unat_chunk)

lemma copyin_step:
  assumes "len > 0" "translate (ram s) pt va = Some a"
  shows "copyin kalloc pt dst va len s =
    copyin kalloc pt (dst @ map (\<lambda>k. rd_byte (uaddr (ram s) pt va k) s) [0..<unat (chunk va len)])
      (PGROUNDDOWN va + PGSIZE) (len - chunk va len) s"
proof -
  have "load_bytes a (unat (chunk va len)) s =
      map (\<lambda>k. rd_byte (uaddr (ram s) pt va k) s) [0..<unat (chunk va len)]"
    unfolding load_bytes_def using uaddr_in_page [OF assms(2)] by (intro map_cong) auto
  then show ?thesis
    using assms translate_Some(1,2) [OF assms(2)]
    by (subst copyin.simps) (simp add: walkaddr_translate Let_def translate_sum [OF assms(2)])
qed

lemma copyin_mapped:
  assumes "all_mapped (ram s) pt va (unat len)"
  shows "copyin kalloc pt dst va len s =
    Ok (0, dst @ map (\<lambda>k. rd_byte (uaddr (ram s) pt va k) s) [0..<unat len])"
  using assms
proof (induction "unat len" arbitrary: va len dst rule: less_induct)
  case less
  show ?case
  proof (cases "len > 0")
    case False
    then have "len = 0" by (simp add: word_less_nat_alt word_unat_eq_iff)
    then show ?thesis by (subst copyin.simps) simp
  next
    case True
    then have "translate (ram s) pt va \<noteq> None"
      using less.prems by (force simp: all_mapped_def word_less_nat_alt)
    then obtain a where a: "translate (ram s) pt va = Some a" by blast
    let ?c = "unat (chunk va len)"
    have c: "?c \<le> unat len" by (simp add: unat_chunk)
    have step: "copyin kalloc pt dst' (PGROUNDDOWN va + PGSIZE) (len - chunk va len) s =
        Ok (0, dst' @ map (\<lambda>k. rd_byte (uaddr (ram s) pt va (?c + k)) s) [0..<unat len - ?c])" for dst'
    proof (cases "chunk va len < len")
      case True
      have va: "va + of_nat ?c = PGROUNDDOWN va + PGSIZE" using next_chunk(1) [OF True] by simp
      show ?thesis
        using less.hyps [OF chunk_decreases [OF \<open>len > 0\<close>], of "PGROUNDDOWN va + PGSIZE" va dst']
          all_mapped_split [OF less.prems c] uaddr_split [of "ram s" pt va ?c]
        unfolding va unat_rest by simp
    next
      case False
      then have "chunk va len = len" using c by (simp add: word_le_nat_alt word_less_nat_alt word_unat_eq_iff)
      then show ?thesis by (subst copyin.simps) simp
    qed
    have "[0..<unat len] = [0..<?c] @ map ((+) ?c) [0..<unat len - ?c]"
      using c by (intro nth_equalityI) (auto simp: nth_append)
    then show ?thesis using copyin_step [OF True a] step by simp
  qed
qed

text \<open>A page that is not mapped for the user makes the copy fail.\<close>

lemma unmapped_next:
  assumes "translate m pt va = Some a" "k < unat len" "translate m pt (va + of_nat k) = None"
  shows "chunk va len < len" "k - unat (chunk va len) < unat (len - chunk va len)"
    "translate m pt (PGROUNDDOWN va + PGSIZE + of_nat (k - unat (chunk va len))) = None"
proof -
  let ?c = "unat (chunk va len)"
  have c: "?c \<le> k"
  proof (rule ccontr)
    assume "\<not> ?c \<le> k"
    then have "k < 4096 - unat va mod 4096" by (simp add: unat_chunk)
    then show False using translate_in_page [OF assms(1)] assms(3) by simp
  qed
  then show lt: "chunk va len < len" using assms(2) by (simp add: word_less_nat_alt)
  show "k - ?c < unat (len - chunk va len)" unfolding unat_rest using c assms(2) by simp
  have "va + of_nat ?c + of_nat (k - ?c) = va + of_nat (?c + (k - ?c))" by (simp only: of_nat_add add.assoc)
  then have "va + of_nat ?c + of_nat (k - ?c) = va + of_nat k" using c by simp
  moreover have "PGROUNDDOWN va + PGSIZE = va + of_nat ?c" using next_chunk(1) [OF lt] by simp
  ultimately show "translate m pt (PGROUNDDOWN va + PGSIZE + of_nat (k - ?c)) = None"
    using assms(3) by (simp add: add.assoc)
qed

lemma copyin_unmapped:
  assumes "\<not> all_mapped (ram s) pt va (unat len)"
  shows "\<exists>bs. copyin kalloc pt dst va len s = Ok (-1, bs)"
  using assms
proof (induction "unat len" arbitrary: va len dst rule: less_induct)
  case less
  then obtain k where k: "k < unat len" "translate (ram s) pt (va + of_nat k) = None"
    by (auto simp: all_mapped_def)
  then have len: "len > 0" by (simp add: word_less_nat_alt)
  show ?case
  proof (cases "translate (ram s) pt va")
    case None
    then show ?thesis using len by (subst copyin.simps) (simp add: walkaddr_translate Let_def)
  next
    case (Some a)
    note n = unmapped_next [OF Some k]
    have "\<not> all_mapped (ram s) pt (PGROUNDDOWN va + PGSIZE) (unat (len - chunk va len))"
      using n(2,3) by (auto simp: all_mapped_def)
    then show ?thesis using less.hyps [OF chunk_decreases [OF len]] copyin_step [OF len Some] by metis
  qed
qed

section \<open>Writing user memory\<close>

text \<open>\<open>wrote\<close>: the bytes \<open>src\<close> have been stored at the \<open>n\<close> addresses \<open>A\<close>, and nothing else changed.\<close>

definition wrote :: "(nat \<Rightarrow> u64) \<Rightarrow> nat \<Rightarrow> u8 list \<Rightarrow> 'a mach_scheme \<Rightarrow> 'a mach_scheme \<Rightarrow> bool" where
  "wrote A n src s s' \<longleftrightarrow>
     (\<exists>m. s' = s\<lparr>ram := m\<rparr>) \<and>
     (\<forall>p. (\<forall>k<n. p \<noteq> PGROUNDDOWN (A k)) \<longrightarrow> ram s' p = ram s p) \<and>
     (\<forall>a. (\<forall>k<n. a \<noteq> A k) \<longrightarrow> rd_byte a s' = rd_byte a s) \<and>
     (inj_on A {..<n} \<longrightarrow> (\<forall>k<n. rd_byte (A k) s' = src ! k))"

lemma wrote_0 [simp]: "wrote A 0 src s s"
  unfolding wrote_def by (auto intro: exI [of _ "ram s"])

lemma wrote_trans:
  assumes "wrote A n src s s1" "wrote (\<lambda>k. A (n + k)) m (drop n src) s1 s2" "n \<le> length src"
  shows "wrote A (n + m) src s s2"
proof -
  have idx: "k < n + m \<Longrightarrow> k < n \<or> (\<exists>j<m. k = n + j)" for k by presburger
  have "\<exists>x. s2 = s\<lparr>ram := x\<rparr>" using assms(1,2) by (auto simp: wrote_def)
  moreover have "ram s2 p = ram s p" if "\<forall>k<n + m. p \<noteq> PGROUNDDOWN (A k)" for p
    using assms(1,2) that by (simp add: wrote_def)
  moreover have "rd_byte a s2 = rd_byte a s" if "\<forall>k<n + m. a \<noteq> A k" for a
    using assms(1,2) that by (simp add: wrote_def)
  moreover have "rd_byte (A k) s2 = src ! k" if inj: "inj_on A {..<n + m}" and k: "k < n + m" for k
  proof (cases "k < n")
    case True
    have "inj_on A {..<n}" using inj by (rule inj_on_subset) auto
    then have "rd_byte (A k) s1 = src ! k" using assms(1) True by (simp add: wrote_def)
    moreover have "\<forall>j<m. A k \<noteq> A (n + j)" using inj_onD [OF inj, of k "n + j" for j] True by fastforce
    ultimately show ?thesis using assms(2) by (simp add: wrote_def)
  next
    case False
    then obtain j where j: "j < m" "k = n + j" using idx k by blast
    have "inj_on (\<lambda>k. A (n + k)) {..<m}" using inj_onD [OF inj, of "n + x" "n + y" for x y] by (auto intro!: inj_onI)
    then show ?thesis using assms(2,3) j by (simp add: wrote_def)
  qed
  ultimately show ?thesis by (simp add: wrote_def)
qed

lemma ram_wr_byte: "\<exists>m. wr_byte a b s = s\<lparr>ram := m\<rparr>"
  by (auto simp: wr_byte_def wr_cell_def Let_def)

lemma store_bytes_wrote:
  assumes "length bs < 2 ^ 64"
  shows "wrote (\<lambda>k. a + of_nat k) (length bs) bs s (store_bytes a bs s)"
  using assms
proof (induction bs arbitrary: a s)
  case Nil
  then show ?case by simp
next
  case (Cons b bs)
  have "wrote (\<lambda>k. a + of_nat k) 1 (b # bs) s (wr_byte a b s)"
    using ram_wr_byte [of a b s] by (auto simp: wrote_def rd_wr_byte ram_wr_byte_other)
  moreover have "wrote (\<lambda>k. a + of_nat (1 + k)) (length bs) (drop 1 (b # bs)) (wr_byte a b s)
      (store_bytes (a + 1) bs (wr_byte a b s))"
    using Cons.IH [of "a + 1" "wr_byte a b s"] Cons.prems by (simp add: add.assoc)
  ultimately show ?case using wrote_trans [of "\<lambda>k. a + of_nat k" 1 "b # bs" s] by fastforce
qed

lemma wrote_translate:
  assumes "wrote A n src s s'" "\<forall>k<n. PGROUNDDOWN (A k) \<notin> tables 2 (ram s) pt"
  shows "translate (ram s') pt va = translate (ram s) pt va" "tables 2 (ram s') pt = tables 2 (ram s) pt"
proof -
  have "\<forall>p\<in>tables 2 (ram s) pt. ram s' p = ram s p"
    using assms unfolding wrote_def by metis
  from pte_of_cong [OF this] tables_cong [OF this]
  show "translate (ram s') pt va = translate (ram s) pt va" "tables 2 (ram s') pt = tables 2 (ram s) pt"
    by (simp_all add: translate_def)
qed

lemma copyout_mapped:
  assumes "all_mapped (ram s) pt va (unat len)" "length src = unat len"
    and "\<forall>k<unat len. PGROUNDDOWN (uaddr (ram s) pt va k) \<notin> tables 2 (ram s) pt"
  shows "\<exists>s'. copyout kalloc pt va src len s = Ok (0, s') \<and> wrote (uaddr (ram s) pt va) (unat len) src s s'"
  using assms
proof (induction "unat len" arbitrary: va len src s rule: less_induct)
  case less
  show ?case
  proof (cases "len > 0")
    case False
    then have "len = 0" by (simp add: word_less_nat_alt word_unat_eq_iff)
    then show ?thesis by (subst copyout.simps) simp
  next
    case True
    then have "translate (ram s) pt va \<noteq> None"
      using less.prems(1) by (force simp: all_mapped_def word_less_nat_alt)
    then obtain a where a: "translate (ram s) pt va = Some a" by blast
    let ?c = "unat (chunk va len)" and ?A = "uaddr (ram s) pt va"
    have c: "?c \<le> unat len" "?c \<le> length src" using less.prems(2) by (simp_all add: unat_chunk)
    define s1 where "s1 = store_bytes a (take ?c src) s"
    have tk: "length (take ?c src) = ?c" using c by simp
    have "length (take ?c src) < 2 ^ 64" unfolding tk using unsigned_less [of "chunk va len"] by simp
    from store_bytes_wrote [OF this, of a s] have w: "wrote ?A ?c src s s1"
      unfolding tk s1_def wrote_def using uaddr_in_page [OF a, of _ len]
      by (auto simp: inj_on_def)
    have out: "\<forall>k<?c. PGROUNDDOWN (?A k) \<notin> tables 2 (ram s) pt" using less.prems(3) c by simp
    note wt = wrote_translate [OF w out]
    have ua: "uaddr (ram s1) pt va' = uaddr (ram s) pt va'" "all_mapped (ram s1) pt va' n = all_mapped (ram s) pt va' n"
      for va' n by (auto simp: uaddr_def all_mapped_def wt fun_eq_iff)
    have st: "copyout kalloc pt va src len s =
        copyout kalloc pt (PGROUNDDOWN va + PGSIZE) (drop ?c src) (len - chunk va len) s1"
      using True a translate_Some(1,2) [OF a]
      by (subst copyout.simps) (simp add: walkaddr_translate Let_def translate_sum [OF a] s1_def)
    have "\<exists>s'. copyout kalloc pt (PGROUNDDOWN va + PGSIZE) (drop ?c src) (len - chunk va len) s1 = Ok (0, s') \<and>
        wrote (\<lambda>k. ?A (?c + k)) (unat len - ?c) (drop ?c src) s1 s'"
    proof (cases "chunk va len < len")
      case True
      have va: "va + of_nat ?c = PGROUNDDOWN va + PGSIZE" using next_chunk(1) [OF True] by simp
      have sp: "uaddr (ram s) pt (PGROUNDDOWN va + PGSIZE) = (\<lambda>k. ?A (?c + k))"
        using uaddr_split [of "ram s" pt va ?c] unfolding va by blast
      show ?thesis
        using less.hyps [OF chunk_decreases [OF \<open>len > 0\<close>], of s1 "PGROUNDDOWN va + PGSIZE" va "drop ?c src"]
          all_mapped_split [OF less.prems(1) c(1)] less.prems(2,3) c
        unfolding va unat_rest ua wt(2) sp by simp
    next
      case False
      then have "chunk va len = len" using c(1) by (simp add: word_le_nat_alt word_less_nat_alt word_unat_eq_iff)
      then show ?thesis by (subst copyout.simps) simp
    qed
    then show ?thesis using st wrote_trans [OF w _ c(2)] c(1) by fastforce
  qed
qed

section \<open>Reading a string\<close>

lemma copyinstr_page_eq:
  "copyinstr_page n a dst s =
    (if \<exists>j<n. rd_byte (a + of_nat j) s = 0
     then (True, dst @ load_bytes a (LEAST j. rd_byte (a + of_nat j) s = 0) s @ [0])
     else (False, dst @ load_bytes a n s))"
proof (induction n arbitrary: a dst)
  case 0
  then show ?case by (simp add: load_bytes_def)
next
  case (Suc n)
  have load: "load_bytes a (Suc k) s = rd_byte a s # load_bytes (a + 1) k s" for k
    unfolding load_bytes_def map_upt_Suc by (simp add: add.assoc)
  show ?case
  proof (cases "rd_byte a s = 0")
    case True
    then have "(LEAST j. rd_byte (a + of_nat j) s = 0) = 0" by (intro Least_equality) auto
    then show ?thesis using True by (auto simp: load_bytes_def)
  next
    case False
    have ex: "(\<exists>j<Suc n. rd_byte (a + of_nat j) s = 0) \<longleftrightarrow> (\<exists>j<n. rd_byte (a + 1 + of_nat j) s = 0)"
      using False by (simp add: Ex_less_Suc2 add.assoc)
    have "(LEAST j. rd_byte (a + of_nat j) s = 0) = Suc (LEAST j. rd_byte (a + 1 + of_nat j) s = 0)"
      if "\<exists>j<n. rd_byte (a + 1 + of_nat j) s = 0"
    proof -
      from that obtain j where "rd_byte (a + of_nat (Suc j)) s = 0" by (auto simp: add.assoc)
      from Least_Suc [of "\<lambda>j. rd_byte (a + of_nat j) s = 0", OF this] show ?thesis
        using False by (simp add: add.assoc)
    qed
    then show ?thesis using False Suc.IH [of "a + 1"] ex by (simp add: load)
  qed
qed

text \<open>
  A string: the bytes of user memory up to and including the first NUL, if one occurs within
  \<open>maxlen\<close> bytes and the memory up to it is mapped.
\<close>

lemma copyinstr_string:
  assumes "all_mapped (ram s) pt va (Suc n)" "n < unat maxlen"
    and "rd_byte (uaddr (ram s) pt va n) s = 0" "\<forall>k<n. rd_byte (uaddr (ram s) pt va k) s \<noteq> 0"
  shows "copyinstr kalloc pt dst va maxlen s =
    Ok (0, dst @ map (\<lambda>k. rd_byte (uaddr (ram s) pt va k) s) [0..<n] @ [0])"
  using assms
proof (induction "unat maxlen" arbitrary: va maxlen dst n rule: less_induct)
  case less
  let ?A = "uaddr (ram s) pt va" and ?c = "unat (chunk va maxlen)"
  have pos: "maxlen > 0" using less.prems(2) by (simp add: word_less_nat_alt)
  have "translate (ram s) pt va \<noteq> None" using less.prems(1) by (force simp: all_mapped_def)
  then obtain a where a: "translate (ram s) pt va = Some a" by blast
  have A: "a + of_nat k = ?A k" if "k < ?c" for k using uaddr_in_page [OF a that] by simp
  have load: "load_bytes a k s = map (\<lambda>k. rd_byte (?A k) s) [0..<k]" if "k \<le> ?c" for k
    unfolding load_bytes_def using A that by (intro map_cong) auto
  have step: "copyinstr kalloc pt dst va maxlen s =
      (let (got, dst1) = copyinstr_page ?c a dst s
       in if got then Ok (0, dst1)
          else copyinstr kalloc pt dst1 (PGROUNDDOWN va + PGSIZE) (maxlen - chunk va maxlen) s)"
    using pos a translate_Some(1,2) [OF a]
    by (subst copyinstr.simps) (simp add: walkaddr_translate Let_def translate_sum [OF a])
  show ?case
  proof (cases "n < ?c")
    case True
    then have "(LEAST j. rd_byte (a + of_nat j) s = 0) = n"
      using less.prems(3,4) A by (intro Least_equality) (auto simp: not_less [symmetric])
    moreover have "\<exists>j<?c. rd_byte (a + of_nat j) s = 0" using True less.prems(3) A by auto
    ultimately have "copyinstr_page ?c a dst s = (True, dst @ load_bytes a n s @ [0])"
      unfolding copyinstr_page_eq by simp
    then show ?thesis using step load [of n] True by simp
  next
    case False
    then have c: "chunk va maxlen < maxlen" "?c \<le> n" "?c \<le> Suc n"
      using less.prems(2) by (auto simp: word_less_nat_alt)
    have va: "va + of_nat ?c = PGROUNDDOWN va + PGSIZE" using next_chunk(1) [OF c(1)] by simp
    have sp: "uaddr (ram s) pt (PGROUNDDOWN va + PGSIZE) k = ?A (?c + k)" for k
      using uaddr_split [of "ram s" pt va ?c] unfolding va by blast
    have "\<not> (\<exists>j<?c. rd_byte (a + of_nat j) s = 0)" using less.prems(4) A c(2) by auto
    then have pg: "copyinstr_page ?c a dst s = (False, dst @ load_bytes a ?c s)"
      unfolding copyinstr_page_eq by simp
    have "copyinstr kalloc pt (dst @ load_bytes a ?c s) (PGROUNDDOWN va + PGSIZE) (maxlen - chunk va maxlen) s =
        Ok (0, (dst @ load_bytes a ?c s) @ map (\<lambda>k. rd_byte (?A (?c + k)) s) [0..<n - ?c] @ [0])"
      using less.hyps [OF chunk_decreases [OF pos], of "PGROUNDDOWN va + PGSIZE" "n - ?c" va "dst @ load_bytes a ?c s"]
        all_mapped_split [OF less.prems(1) c(3)] less.prems(2-4) c
      unfolding va unat_rest sp by (simp add: Suc_diff_le)
    moreover have "[0..<n] = [0..<?c] @ map ((+) ?c) [0..<n - ?c]"
      using c(2) by (intro nth_equalityI) (auto simp: nth_append)
    ultimately show ?thesis using step pg load [of ?c] by simp
  qed
qed

end
