(* ===== verification/Vm_Kernel.thy ===== *)
theory Vm_Kernel
  imports Vm_Space
begin

text \<open>
  Kernel page tables of lab 4 (\<^verbatim>\<open>kernel/vm.c\<close>): the direct maps \<^verbatim>\<open>kvminit\<close> and \<^verbatim>\<open>kvminit_proc\<close> build,
  switching \<^verbatim>\<open>satp\<close>, printing a table, and sharing a process's user pages with its kernel page
  table (\<^verbatim>\<open>kvmcopy\<close>).
\<close>

section \<open>Operations\<close>

text \<open>
  The device addresses and \<^verbatim>\<open>TRAMPOLINE\<close> come from \<^verbatim>\<open>memlayout.h\<close>, \<^verbatim>\<open>etext\<close> and \<^verbatim>\<open>trampoline\<close> from the
  linker; all are outside the repository.
\<close>

record klayout = memlayout +
  UART0 :: u64
  VIRTIO0 :: u64
  CLINT :: u64
  PLIC :: u64
  KERNBASE :: u64
  TRAMPOLINE :: u64
  etext :: u64
  trampoline :: u64

definition kvmmap :: "'a kalloc_fn \<Rightarrow> u64 \<Rightarrow> u64 \<Rightarrow> u64 \<Rightarrow> u64 \<Rightarrow> u64 \<Rightarrow> 'a mach_scheme \<Rightarrow>
    'a mach_scheme res" where
  "kvmmap kalloc kernel_pagetable va pa sz perm s =
     rbind (mappages kalloc kernel_pagetable va sz pa perm s)
       (\<lambda>(r, s1). if r \<noteq> 0 then Panic ''kvmmap'' else Ok s1)"

definition kvmmap_proc :: "'a kalloc_fn \<Rightarrow> u64 \<Rightarrow> u64 \<Rightarrow> u64 \<Rightarrow> u64 \<Rightarrow> u64 \<Rightarrow> 'a mach_scheme \<Rightarrow>
    'a mach_scheme res" where
  "kvmmap_proc kalloc k_pagetable va pa sz perm s =
     rbind (mappages kalloc k_pagetable va sz pa perm s)
       (\<lambda>(r, s1). if r \<noteq> 0 then Panic ''kvmmap_proc'' else Ok s1)"

definition kvminit :: "'a kalloc_fn \<Rightarrow> klayout \<Rightarrow> 'a mach_scheme \<Rightarrow> (u64 \<times> 'a mach_scheme) res" where
  "kvminit kalloc L s =
     (let (kernel_pagetable, s1) = kalloc s;
          s2 = memset_page kernel_pagetable 0 s1;
          kmap = kvmmap kalloc kernel_pagetable
      in rbind (kmap (UART0 L) (UART0 L) PGSIZE (PTE_R OR PTE_W) s2) (\<lambda>s3.
         rbind (kmap (VIRTIO0 L) (VIRTIO0 L) PGSIZE (PTE_R OR PTE_W) s3) (\<lambda>s4.
         rbind (kmap (CLINT L) (CLINT L) 0x10000 (PTE_R OR PTE_W) s4) (\<lambda>s5.
         rbind (kmap (PLIC L) (PLIC L) 0x400000 (PTE_R OR PTE_W) s5) (\<lambda>s6.
         rbind (kmap (KERNBASE L) (KERNBASE L) (etext L - KERNBASE L) (PTE_R OR PTE_X) s6) (\<lambda>s7.
         rbind (kmap (etext L) (etext L) (PHYSTOP L - etext L) (PTE_R OR PTE_W) s7) (\<lambda>s8.
         rbind (kmap (TRAMPOLINE L) (trampoline L) PGSIZE (PTE_R OR PTE_X) s8) (\<lambda>s9.
         Ok (kernel_pagetable, s9)))))))))"

definition kvminit_proc :: "'a kalloc_fn \<Rightarrow> klayout \<Rightarrow> 'a mach_scheme \<Rightarrow> (u64 \<times> 'a mach_scheme) res" where
  "kvminit_proc kalloc L s =
     (let (k_pagetable, s1) = kalloc s;
          s2 = memset_page k_pagetable 0 s1;
          kmap = kvmmap_proc kalloc k_pagetable
      in rbind (kmap (UART0 L) (UART0 L) PGSIZE (PTE_R OR PTE_W) s2) (\<lambda>s3.
         rbind (kmap (VIRTIO0 L) (VIRTIO0 L) PGSIZE (PTE_R OR PTE_W) s3) (\<lambda>s4.
         rbind (kmap (PLIC L) (PLIC L) 0x400000 (PTE_R OR PTE_W) s4) (\<lambda>s5.
         rbind (kmap (KERNBASE L) (KERNBASE L) (etext L - KERNBASE L) (PTE_R OR PTE_X) s5) (\<lambda>s6.
         rbind (kmap (etext L) (etext L) (PHYSTOP L - etext L) (PTE_R OR PTE_W) s6) (\<lambda>s7.
         rbind (kmap (TRAMPOLINE L) (trampoline L) PGSIZE (PTE_R OR PTE_X) s7) (\<lambda>s8.
         Ok (k_pagetable, s8))))))))"

text \<open>The hardware page-table register of a hart, and the number of TLB flushes.\<close>

record hart =
  satp :: u64
  fences :: nat

definition kvminithart :: "u64 \<Rightarrow> hart \<Rightarrow> hart" where
  "kvminithart kernel_pagetable h = h\<lparr>satp := MAKE_SATP kernel_pagetable, fences := fences h + 1\<rparr>"

definition kvminithart_proc :: "u64 \<Rightarrow> hart \<Rightarrow> hart" where
  "kvminithart_proc k_pagetable h = h\<lparr>satp := MAKE_SATP k_pagetable, fences := fences h + 1\<rparr>"

definition test_pagetable :: "u64 \<Rightarrow> hart \<Rightarrow> bool" where
  "test_pagetable kernel_pagetable h \<longleftrightarrow> satp h \<noteq> MAKE_SATP kernel_pagetable"

text \<open>
  The lines \<^verbatim>\<open>vmprint\<close> prints: the header with the root, and one line per entry with its depth,
  index, value and physical address. The function passes the lines printed so far.
\<close>

datatype pt_line = Table u64 | Entry nat nat u64 u64

function vmprint_from :: "(u64 \<Rightarrow> nat \<Rightarrow> u64) \<Rightarrow> nat \<Rightarrow> nat \<Rightarrow> u64 \<Rightarrow> pt_line list \<Rightarrow> pt_line list res" where
  "vmprint_from m level i pgtbl out =
     (if i < 512 then
        let pte = m pgtbl i
        in if pte AND PTE_V \<noteq> 0 \<and> pte AND (PTE_R OR PTE_W OR PTE_X) = 0 then
             (if level = 0 \<or> level = 1 then
                rbind (vmprint_from m (level + 1) 0 (PTE2PA pte) (out @ [Entry level i pte (PTE2PA pte)]))
                  (\<lambda>out1. vmprint_from m level (i + 1) pgtbl out1)
              else Panic ''vmprint: wrong'')
           else if level = 2 \<and> pte AND PTE_V \<noteq> 0 then
             vmprint_from m level (i + 1) pgtbl (out @ [Entry level i pte (PTE2PA pte)])
           else vmprint_from m level (i + 1) pgtbl out
      else Ok out)"
  by pat_completeness auto
termination
  by (relation "measures [\<lambda>(m, level, i, pgtbl, out). 3 - level, \<lambda>(m, level, i, pgtbl, out). 512 - i]") auto

declare vmprint_from.simps [simp del]

definition vmprint :: "(u64 \<Rightarrow> nat \<Rightarrow> u64) \<Rightarrow> u64 \<Rightarrow> nat \<Rightarrow> pt_line list res" where
  "vmprint m pgtbl level = vmprint_from m level 0 pgtbl (if level = 0 then [Table pgtbl] else [])"

section \<open>Printing a table\<close>

text \<open>
  The lines for the entries of a table, depth first, when depth \<open>2 - l\<close> has tables of level \<open>l\<close>.
\<close>

primrec pt_lines :: "nat \<Rightarrow> (u64 \<Rightarrow> nat \<Rightarrow> u64) \<Rightarrow> u64 \<Rightarrow> pt_line list" where
  "pt_lines 0 m pt = concat (map (\<lambda>i. if pte_valid (m pt i) then [Entry 2 i (m pt i) (PTE2PA (m pt i))] else []) [0..<512])"
| "pt_lines (Suc l) m pt =
     concat (map (\<lambda>i. if pte_valid (m pt i)
       then Entry (1 - l) i (m pt i) (PTE2PA (m pt i)) # pt_lines l m (PTE2PA (m pt i)) else []) [0..<512])"

text \<open>A loop over the entries that adds \<open>f i\<close> for entry \<open>i\<close> adds the concatenation.\<close>

lemma entries_loop:
  assumes "\<And>i out. i < 512 \<Longrightarrow> F i out = F (Suc i) (out @ f i)" "\<And>out. F 512 out = Ok out"
  shows "i \<le> 512 \<Longrightarrow> F i out = Ok (out @ concat (map f [i..<512]))"
proof (induction "512 - i" arbitrary: i out)
  case 0
  then show ?case using assms(2) by simp
next
  case (Suc n)
  then have i: "i < 512" by simp
  then show ?case using Suc.hyps(1) [of "Suc i" "out @ f i"] Suc.hyps(2) assms(1) by (simp add: upt_conv_Cons)
qed

lemma vmprint_leaf:
  assumes "\<forall>i<512. pte_valid (m pt i) \<longrightarrow> \<not> is_pointer (m pt i)"
  shows "vmprint_from m 2 0 pt out = Ok (out @ pt_lines 0 m pt)"
  unfolding pt_lines.simps
proof (rule entries_loop)
  fix i out assume "i < (512 :: nat)"
  with assms show "vmprint_from m 2 i pt out = vmprint_from m 2 (Suc i) pt
      (out @ (if pte_valid (m pt i) then [Entry 2 i (m pt i) (PTE2PA (m pt i))] else []))"
    by (subst vmprint_from.simps) (auto simp: Let_def pte_valid_def is_pointer_def)
qed (subst vmprint_from.simps, simp_all)

lemma vmprint_inner:
  assumes "l < 2" "pt_wf (Suc l) m pt"
    and "\<And>i out. i < 512 \<Longrightarrow> pte_valid (m pt i) \<Longrightarrow>
      vmprint_from m (2 - l) 0 (PTE2PA (m pt i)) out = Ok (out @ pt_lines l m (PTE2PA (m pt i)))"
  shows "vmprint_from m (1 - l) 0 pt out = Ok (out @ pt_lines (Suc l) m pt)"
  unfolding pt_lines.simps
proof (rule entries_loop)
  fix i out assume i: "i < (512 :: nat)"
  have l: "1 - l = 0 \<or> 1 - l = 1" "Suc (1 - l) = 2 - l" "1 - l \<noteq> 2" using assms(1) by auto
  show "vmprint_from m (1 - l) i pt out = vmprint_from m (1 - l) (Suc i) pt
      (out @ (if pte_valid (m pt i)
        then Entry (1 - l) i (m pt i) (PTE2PA (m pt i)) # pt_lines l m (PTE2PA (m pt i)) else []))"
    using i assms(3) [OF i] pt_wf_child(4) [OF assms(2) i] l
    by (subst vmprint_from.simps) (auto simp: Let_def pte_valid_def is_pointer_def)
qed (subst vmprint_from.simps, simp_all)

lemma vmprint_prints:
  assumes "pt_wf 2 m pt"
    and leaf: "\<forall>va<SV39. pte_valid (pte_of 2 m pt va) \<longrightarrow> \<not> is_pointer (pte_of 2 m pt va)"
  shows "vmprint m pt 0 = Ok (Table pt # pt_lines 2 m pt)"
proof -
  have wf: "pt_wf (Suc 1) m pt" using assms(1) by (simp add: numeral_2_eq_2)
  have "vmprint_from m 1 0 (PTE2PA (m pt i)) out = Ok (out @ pt_lines 1 m (PTE2PA (m pt i)))"
    if i: "i < 512" "pte_valid (m pt i)" for i out
  proof -
    let ?c = "PTE2PA (m pt i)"
    have wfc: "pt_wf (Suc 0) m ?c" using pt_wf_child(1) [OF wf i] by simp
    have "vmprint_from m 2 0 (PTE2PA (m ?c j)) out = Ok (out @ pt_lines 0 m (PTE2PA (m ?c j)))"
      if j: "j < 512" "pte_valid (m ?c j)" for j out
    proof (rule vmprint_leaf, intro allI impI)
      fix k assume k: "k < 512" "pte_valid (m (PTE2PA (m ?c j)) k)"
      obtain va where "va < SV39" "PX 2 va = i" "PX 1 va = j" "PX 0 va = k"
        using va_of_indices i(1) j(1) k(1) by blast
      then show "\<not> is_pointer (m (PTE2PA (m ?c j)) k)"
        using leaf i(2) j(2) k(2) by (auto simp: numeral_2_eq_2 pte_of_Suc pte_of_0 dest!: spec [of _ va])
    qed
    then show ?thesis using vmprint_inner [of 0 m ?c out] wfc by (simp add: numeral_2_eq_2)
  qed
  then show ?thesis
    using vmprint_inner [of 1 m pt "[Table pt]"] wf by (simp add: vmprint_def numeral_2_eq_2)
qed

section \<open>Direct maps\<close>

text \<open>
  A region \<open>(va, pa, sz, perm)\<close> of a kernel map. Regions are in order when they are page aligned,
  non-empty, inside the address space, and no two of them share a page.
\<close>

type_synonym region = "u64 \<times> u64 \<times> u64 \<times> u64"

fun region_ok :: "region \<Rightarrow> bool" where
  "region_ok (va, pa, sz, perm) \<longleftrightarrow>
     page_aligned va \<and> 0 < unat sz \<and> unat va + 4096 * npages sz \<le> 2 ^ 38"

fun regions_apart :: "region \<Rightarrow> region \<Rightarrow> bool" where
  "regions_apart (va, pa, sz, perm) (va', pa', sz', perm') \<longleftrightarrow>
     unat va + 4096 * npages sz \<le> unat va' \<or> unat va' + 4096 * npages sz' \<le> unat va"

fun map_region :: "region \<Rightarrow> (u64 \<Rightarrow> u64) \<Rightarrow> u64 \<Rightarrow> u64" where
  "map_region (va, pa, sz, perm) f = map_range va (npages sz) pa perm f"

fun map_regions :: "'a kalloc_fn \<Rightarrow> string \<Rightarrow> u64 \<Rightarrow> region list \<Rightarrow> 'a mach_scheme \<Rightarrow> 'a mach_scheme res" where
  "map_regions kalloc msg pt [] s = Ok s"
| "map_regions kalloc msg pt ((va, pa, sz, perm) # rs) s =
     rbind (mappages kalloc pt va sz pa perm s)
       (\<lambda>(r, s1). if r \<noteq> 0 then Panic msg else map_regions kalloc msg pt rs s1)"

definition proc_regions :: "klayout \<Rightarrow> region list" where
  "proc_regions L =
     [(UART0 L, UART0 L, PGSIZE, PTE_R OR PTE_W), (VIRTIO0 L, VIRTIO0 L, PGSIZE, PTE_R OR PTE_W),
      (PLIC L, PLIC L, 0x400000, PTE_R OR PTE_W),
      (KERNBASE L, KERNBASE L, etext L - KERNBASE L, PTE_R OR PTE_X),
      (etext L, etext L, PHYSTOP L - etext L, PTE_R OR PTE_W),
      (TRAMPOLINE L, trampoline L, PGSIZE, PTE_R OR PTE_X)]"

definition kernel_regions :: "klayout \<Rightarrow> region list" where
  "kernel_regions L =
     [(UART0 L, UART0 L, PGSIZE, PTE_R OR PTE_W), (VIRTIO0 L, VIRTIO0 L, PGSIZE, PTE_R OR PTE_W),
      (CLINT L, CLINT L, 0x10000, PTE_R OR PTE_W), (PLIC L, PLIC L, 0x400000, PTE_R OR PTE_W),
      (KERNBASE L, KERNBASE L, etext L - KERNBASE L, PTE_R OR PTE_X),
      (etext L, etext L, PHYSTOP L - etext L, PTE_R OR PTE_W),
      (TRAMPOLINE L, trampoline L, PGSIZE, PTE_R OR PTE_X)]"

lemma map_regions_Cons:
  "map_regions kalloc ''kvmmap'' pt ((va, pa, sz, perm) # rs) s =
     rbind (kvmmap kalloc pt va pa sz perm s) (map_regions kalloc ''kvmmap'' pt rs)"
  "map_regions kalloc ''kvmmap_proc'' pt ((va, pa, sz, perm) # rs) s =
     rbind (kvmmap_proc kalloc pt va pa sz perm s) (map_regions kalloc ''kvmmap_proc'' pt rs)"
  by (cases "mappages kalloc pt va sz pa perm s"; auto simp: kvmmap_def kvmmap_proc_def)+

lemma kvminit_map_regions:
  "kalloc s = (pt, s1) \<Longrightarrow> kvminit kalloc L s =
     rbind (map_regions kalloc ''kvmmap'' pt (kernel_regions L) (memset_page pt 0 s1)) (\<lambda>s2. Ok (pt, s2))"
  unfolding kernel_regions_def map_regions_Cons
  by (simp add: kvminit_def Let_def rbind_assoc)

lemma kvminit_proc_map_regions:
  "kalloc s = (pt, s1) \<Longrightarrow> kvminit_proc kalloc L s =
     rbind (map_regions kalloc ''kvmmap_proc'' pt (proc_regions L) (memset_page pt 0 s1)) (\<lambda>s2. Ok (pt, s2))"
  unfolding proc_regions_def map_regions_Cons
  by (simp add: kvminit_proc_def Let_def rbind_assoc)

lemma map_range_id:
  "\<not> (a \<le> va \<and> (unat va - unat a) div 4096 < k) \<Longrightarrow> map_range a k pa perm f va = f va"
  by (auto simp: map_range_def Let_def)

lemma last_page:
  assumes "page_aligned va" "0 < unat sz" "unat va + 4096 * npages sz \<le> 2 ^ 38"
  shows "PGROUNDDOWN (va + sz - 1) = va + PGSIZE * of_nat (npages sz - 1)"
proof -
  define n where "n = npages sz - 1"
  have n: "n = (unat sz - 1) div 4096" "npages sz = Suc n" using assms(2) by (auto simp: n_def npages_def)
  obtain k where k: "unat va = 4096 * k" using assms(1) by (auto simp: page_aligned_unat)
  have "unat sz \<le> 4096 * npages sz" unfolding npages_def by linarith
  then have lt: "unat va + unat sz \<le> 2 ^ 38" using assms(3) by simp
  have "1 \<le> sz" using assms(2) by (simp add: word_le_nat_alt)
  then have "unat (sz - 1) = unat sz - 1" by (simp add: unat_sub)
  then have u: "unat (va + (sz - 1)) = 4096 * k + (unat sz - 1)" using lt k by (simp add: unat_word_ariths)
  have "unat (PGROUNDDOWN (va + (sz - 1))) = 4096 * k + 4096 * n"
    unfolding unat_PGROUNDDOWN u n(1) by simp
  moreover have "unat (va + PGSIZE * of_nat n) = 4096 * k + 4096 * n"
    using assms(3) n(2) k by (subst unat_page_from) auto
  ultimately have "PGROUNDDOWN (va + (sz - 1)) = va + PGSIZE * of_nat n" by (simp add: word_unat_eq_iff)
  then show ?thesis by (simp add: n_def add_diff_eq)
qed

text \<open>The entry of a user page in the kernel table that shares it: without \<^verbatim>\<open>PTE_U\<close>.\<close>

definition shared_pte :: "u64 \<Rightarrow> u64" where
  "shared_pte e = PA2PTE (PTE2PA e) OR (PTE_FLAGS e AND NOT PTE_U) OR PTE_V"

lemma pte_valid_shared: "pte_valid (shared_pte e)"
  by (simp add: shared_pte_def pte_valid_bit PTE_V_def bit_simps)

context page_allocator
begin

lemma mappages_region:
  assumes "pt_ok inv free pt s" "region_ok (va, pa, sz, perm)"
    and "\<forall>k<npages sz. \<not> pte_valid (pte_of 2 (ram s) pt (va + PGSIZE * of_nat k))"
  shows "\<exists>r s'. mappages kalloc pt va sz pa perm s = Ok (r, s') \<and>
    (r = 0 \<and> pt_ok inv free pt s' \<and> pt_grows free pt s s' \<and>
      (\<forall>x<SV39. pte_of 2 (ram s') pt x = map_region (va, pa, sz, perm) (pte_of 2 (ram s) pt) x) \<or>
     r = -1 \<and> free s' = {})"
proof -
  define n where "n = npages sz - 1"
  have ok: "page_aligned va" "0 < unat sz" "unat va + 4096 * npages sz \<le> 2 ^ 38" using assms(2) by auto
  have n: "npages sz = Suc n" using ok(2) by (auto simp: n_def npages_def)
  have "PGROUNDDOWN va = va" using ok(1) by (simp add: page_aligned_iff_round)
  then have m: "mappages kalloc pt va sz pa perm s =
      mappages_loop kalloc pt va (va + PGSIZE * of_nat n) pa perm s"
    using last_page [OF ok] by (simp add: mappages_def n_def)
  have "unat va + 4096 * Suc n \<le> 2 ^ 38" using ok(3) n by simp
  moreover have "\<forall>k\<le>n. \<not> pte_valid (pte_of 2 (ram s) pt (va + PGSIZE * of_nat k))"
    using assms(3) n by (simp add: less_Suc_eq_le)
  ultimately show ?thesis
    using mappages_loop_maps [OF assms(1) ok(1), of n pa perm] unfolding m map_region.simps n by fastforce
qed

lemma map_regions_maps:
  assumes "pt_ok inv free pt s" "\<forall>r\<in>set rs. region_ok r" "sorted_wrt regions_apart rs"
    and "\<forall>(va, pa, sz, perm)\<in>set rs. \<forall>k<npages sz. \<not> pte_valid (pte_of 2 (ram s) pt (va + PGSIZE * of_nat k))"
  shows "map_regions kalloc msg pt rs s = Panic msg \<or>
    (\<exists>s'. map_regions kalloc msg pt rs s = Ok s' \<and> pt_ok inv free pt s' \<and> pt_grows free pt s s' \<and>
      (\<forall>x<SV39. pte_of 2 (ram s') pt x = fold map_region rs (pte_of 2 (ram s) pt) x))"
  using assms
proof (induction rs arbitrary: s)
  case Nil
  then show ?case by simp
next
  case (Cons r rs)
  obtain va pa sz perm where r: "r = (va, pa, sz, perm)" by (cases r)
  have rok: "region_ok (va, pa, sz, perm)" using Cons.prems(2) r by simp
  obtain x s1 where m: "mappages kalloc pt va sz pa perm s = Ok (x, s1)"
      "x = 0 \<and> pt_ok inv free pt s1 \<and> pt_grows free pt s s1 \<and>
        (\<forall>y<SV39. pte_of 2 (ram s1) pt y = map_region (va, pa, sz, perm) (pte_of 2 (ram s) pt) y) \<or>
       x = -1 \<and> free s1 = {}"
    using mappages_region [OF Cons.prems(1) rok] Cons.prems(4) r by auto
  show ?case
  proof (cases "x = 0")
    case False
    then show ?thesis using m(1) r by simp
  next
    case True
    then have s1: "pt_ok inv free pt s1" "pt_grows free pt s s1"
        "\<forall>y<SV39. pte_of 2 (ram s1) pt y = map_region (va, pa, sz, perm) (pte_of 2 (ram s) pt) y"
      using m(2) by auto
    have "\<not> pte_valid (pte_of 2 (ram s1) pt (va' + PGSIZE * of_nat k))"
      if r': "(va', pa', sz', perm') \<in> set rs" and k: "k < npages sz'" for va' pa' sz' perm' k
    proof -
      have ok': "region_ok (va', pa', sz', perm')" and ap: "regions_apart (va, pa, sz, perm) (va', pa', sz', perm')"
        using Cons.prems(2,3) r r' by auto
      let ?y = "va' + PGSIZE * of_nat k"
      have u: "unat ?y = unat va' + 4096 * k" using ok' k by (intro unat_page_from) auto
      then have "?y < SV39" using ok' k by (auto simp: SV39_def word_less_nat_alt)
      moreover have "\<not> (va \<le> ?y \<and> (unat ?y - unat va) div 4096 < npages sz)"
        using ap k unfolding word_le_nat_alt u by auto
      ultimately have "pte_of 2 (ram s1) pt ?y = pte_of 2 (ram s) pt ?y"
        using s1(3) map_range_id by simp
      then show ?thesis using Cons.prems(4) r' k by fastforce
    qed
    then have un: "\<forall>(va, pa, sz, perm)\<in>set rs. \<forall>k<npages sz.
        \<not> pte_valid (pte_of 2 (ram s1) pt (va + PGSIZE * of_nat k))" by blast
    have fold: "fold map_region rs f x = fold map_region rs g x"
      if "\<forall>y<SV39. f y = g y" "x < SV39" for f g x rs
      using that
    proof (induction rs arbitrary: f g)
      case (Cons q rs)
      then show ?case by (cases q) (auto simp: map_range_def Let_def)
    qed simp
    have "map_regions kalloc msg pt (r # rs) s = map_regions kalloc msg pt rs s1"
      using m(1) True r by simp
    moreover have "fold map_region rs (pte_of 2 (ram s1) pt) x = fold map_region (r # rs) (pte_of 2 (ram s) pt) x"
      if "x < SV39" for x
      using fold [OF s1(3) that] r by simp
    ultimately show ?thesis
      using Cons.IH [OF s1(1)] Cons.prems(2,3) un pt_grows_trans [OF s1(2)] by fastforce
  qed
qed

text \<open>A fresh table holding nothing, and then a map of regions in it.\<close>

lemma fresh_table:
  assumes "inv s" "kalloc s = (pt, s1)" "pt \<noteq> 0"
  shows "pt_ok inv free pt (memset_page pt 0 s1)" "\<forall>va. pte_of 2 (ram (memset_page pt 0 s1)) pt va = 0"
    "tables 2 (ram (memset_page pt 0 s1)) pt = {pt}" "free (memset_page pt 0 s1) = free s - {pt}"
proof -
  let ?s = "memset_page pt 0 s1"
  have k: "inv s1" "free s1 = free s - {pt}" using kalloc_page [OF assms] by auto
  have "ram ?s pt = (\<lambda>_. 0)" by simp
  note z = zero_table [of "ram ?s" pt 2, OF this]
  show "free ?s = free s - {pt}" using k by simp
  then show "pt_ok inv free pt ?s" using z k by (simp add: pt_ok_def)
  show "\<forall>va. pte_of 2 (ram ?s) pt va = 0" "tables 2 (ram ?s) pt = {pt}" using z by blast+
qed

lemma fresh_regions:
  assumes "inv s" "kalloc s = (pt, s1)" "pt \<noteq> 0" "\<forall>r\<in>set rs. region_ok r" "sorted_wrt regions_apart rs"
  shows "map_regions kalloc msg pt rs (memset_page pt 0 s1) = Panic msg \<or>
    (\<exists>s'. map_regions kalloc msg pt rs (memset_page pt 0 s1) = Ok s' \<and> pt_ok inv free pt s' \<and>
      (\<forall>x<SV39. pte_of 2 (ram s') pt x = fold map_region rs (\<lambda>_. 0) x))"
proof -
  note f = fresh_table [OF assms(1-3)]
  have "pte_of 2 (ram (memset_page pt 0 s1)) pt = (\<lambda>_. 0)" using f(2) by blast
  then show ?thesis using map_regions_maps [OF f(1) assms(4,5), of msg] by auto
qed

section \<open>Sharing user pages with a kernel page table\<close>

text \<open>
  \<^verbatim>\<open>kvmcopy\<close> maps the pages from \<open>st\<close> up to \<open>sz\<close> of \<open>old\<close> in \<open>new\<close>, at the same physical addresses and
  without \<^verbatim>\<open>PTE_U\<close>. When it fails it removes the mappings of \<open>new\<close> from address 0 on.
\<close>

lemma kvmcopy_loop_shares:
  assumes ok: "pt_ok inv free new s'" "pt_grows free new s s'"
    and pte: "\<forall>va<SV39. pte_of 2 (ram s') new va =
      (if unat va div 4096 \<in> {n..<i} then shared_pte (upte (ram s) old (unat va div 4096)) else pte_of 2 (ram s) new va)"
    and i: "n \<le> i" "i \<le> max n (npages sz)" "sz \<le> MAXVA" "n \<le> 2 ^ 26"
    and old: "tables 2 (ram s) old \<inter> (tables 2 (ram s) new \<union> free s) = {}"
    and pages: "\<forall>k\<in>{n..<npages sz}. pte_valid (upte (ram s) old k) \<and>
      PTE_FLAGS (shared_pte (upte (ram s) old k)) \<noteq> PTE_V"
    and z: "\<forall>k\<in>{n..<npages sz}. \<not> pte_valid (upte (ram s) new k)"
    and low: "\<forall>k<n. pte_valid (upte (ram s) new k) \<and> PTE_FLAGS (upte (ram s) new k) \<noteq> PTE_V"
  shows "\<exists>r s''. kvmcopy_loop kalloc kfree old new (page_va i) sz s' = Ok (r, s'') \<and> pt_ok inv free new s'' \<and>
    (r = 0 \<and> (\<forall>va<SV39. pte_of 2 (ram s'') new va =
        (if unat va div 4096 \<in> {n..<npages sz} then shared_pte (upte (ram s) old (unat va div 4096))
         else pte_of 2 (ram s) new va)) \<or>
     r = -1 \<and> (\<exists>m\<in>{n..<npages sz}. \<forall>va<SV39. pte_of 2 (ram s'') new va =
        (if unat va div 4096 < m then 0 else pte_of 2 (ram s) new va)))"
  using ok pte i(1,2)
proof (induction "npages sz - i" arbitrary: i s')
  case 0
  have lt: "\<not> page_va i < sz"
    using 0 page_va_less_npages [OF i(3), of i] i(4) PGROUNDUP_npages [OF i(3)] by (auto simp: max_def split: if_splits)
  have "{n..<i} = {n..<npages sz}" using 0 by auto
  then show ?case using lt "0.prems"(1,3) by (subst kvmcopy_loop.simps) simp
next
  case (Suc d)
  let ?N = "npages sz"
  have iN: "i < ?N" "i < 2 ^ 26" "i \<in> {n..<?N}" using Suc.hyps(2) PGROUNDUP_npages [OF i(3)] Suc.prems(4) by auto
  have lt: "page_va i < sz" using page_va_less_npages [OF i(3), of i] iN by simp
  have up: "upte (ram s') new k = (if k \<in> {n..<i} then shared_pte (upte (ram s) old k) else upte (ram s) new k)"
    if "k < 2 ^ 26" for k
    using Suc.prems(3) page_va_SV39 [OF that] unat_page_va [of k] that by (simp add: upte_def)
  have nv: "\<not> pte_valid (upte (ram s') new i)" using up [OF iN(2)] z iN(3) by simp
  have same: "\<forall>p\<in>tables 2 (ram s) old. ram s' p = ram s p"
    using Suc.prems(2) old unfolding pt_grows_def by blast
  have e: "pte_of 2 (ram s') old (page_va i) = upte (ram s) old i"
    using pte_of_cong [OF same] by (simp add: upte_def)
  have v: "pte_valid (upte (ram s) old i)" using pages iN(3) by simp
  obtain q where q: "walk kalloc old (page_va i) False s' = Ok (Some (q, PX 0 (page_va i)), s')"
      "ram s' q (PX 0 (page_va i)) = upte (ram s) old i"
    using walk_lookup [OF page_va_MAXVA [OF iN(2)], of s' old] v e by metis
  let ?pa = "PTE2PA (upte (ram s) old i)" and ?fl = "PTE_FLAGS (upte (ram s) old i) AND NOT PTE_U"
  obtain r s2 where m: "mappages kalloc new (page_va i) PGSIZE ?pa ?fl s' = Ok (r, s2)"
      "pt_ok inv free new s2" "pt_grows free new s' s2"
      "r \<noteq> 0 \<longrightarrow> r = -1 \<and> free s2 = {} \<and> (\<forall>va<SV39. pte_of 2 (ram s2) new va = pte_of 2 (ram s') new va)"
      "r = 0 \<longrightarrow> (\<forall>va<SV39. pte_of 2 (ram s2) new va =
         (if unat va div 4096 = i then PA2PTE ?pa OR ?fl OR PTE_V else pte_of 2 (ram s') new va))"
    by (rule mappages_page [OF Suc.prems(1) iN(2) nv])
  have step: "kvmcopy_loop kalloc kfree old new (page_va i) sz s' =
      (if r \<noteq> 0 then rbind (uvmunmap kalloc kfree new 0 (page_va i div PGSIZE) False s2) (\<lambda>s3. Ok (-1, s3))
       else kvmcopy_loop kalloc kfree old new (page_va (Suc i)) sz s2)"
    using lt q v m(1) by (subst kvmcopy_loop.simps) (simp add: page_va_Suc pte_valid_def Let_def)
  show ?case
  proof (cases "r = 0")
    case True
    have "\<forall>va<SV39. pte_of 2 (ram s2) new va =
      (if unat va div 4096 \<in> {n..<Suc i} then shared_pte (upte (ram s) old (unat va div 4096)) else pte_of 2 (ram s) new va)"
      using m(5) True Suc.prems(3,4) by (auto simp: shared_pte_def)
    then show ?thesis
      using Suc.hyps(1) [OF _ m(2) pt_grows_trans [OF Suc.prems(2) m(3)], of "Suc i"] Suc.hyps(2) iN(1)
        Suc.prems(4) step True by auto
  next
    case False
    have u2: "upte (ram s2) new k = upte (ram s') new k" if "k < 2 ^ 26" for k
      using m(4) False page_va_SV39 [OF that] by (simp add: upte_def)
    have "mapped False free good new s2 k" if "k < i" for k
      using that u2 [of k] up [of k] iN pages low
      by (cases "k < n") (auto simp: mapped_def pte_valid_shared)
    then have "urange False free good new {0..<i} s2" by (simp add: urange_def)
    then obtain s3 where s3: "uvmunmap_loop kalloc kfree new 0 (page_va i) False s2 = Ok s3"
        "unmapped False inv free new {0..<i} s2 s3"
      using uvmunmap_loop_unmaps [OF m(2), of False 0 i] iN(2) by auto
    have "of_nat i * PGSIZE = page_va i" by (simp add: page_va_def)
    then have "uvmunmap kalloc kfree new 0 (page_va i div PGSIZE) False s2 = Ok s3"
      using s3(1) iN(2) by (simp add: uvmunmap_def page_va_div)
    moreover have "\<forall>va<SV39. pte_of 2 (ram s3) new va = (if unat va div 4096 < i then 0 else pte_of 2 (ram s) new va)"
      using s3(2) m(4) False Suc.prems(3) by (simp add: unmapped_def)
    moreover have "pt_ok inv free new s3" using s3(2) by (simp add: unmapped_def)
    ultimately show ?thesis using step False iN(3) by auto
  qed
qed

end

end
