(* ===== verification/Vm_Props.thy ===== *)
theory Vm_Props
  imports Vm_Free Vm_Copy Vm_Kernel Kalloc_Single
begin

text \<open>
  The properties of lab 4's \<^verbatim>\<open>kernel/vm.c\<close>. The allocator of lab 4 is outside the repository: the
  theorems hold for every \<open>ka\<close>, \<open>kf\<close> (\<^verbatim>\<open>kalloc\<close>, \<^verbatim>\<open>kfree\<close>) that keep the contract \<open>page_allocator\<close>, where
  \<open>fr s\<close> is the set of free pages, \<open>ok s\<close> the allocator's invariant and \<open>gd p\<close> holds of the pages it
  manages. The witnesses instantiate them with the allocator of lab 2.
\<close>

section \<open>A small machine\<close>

text \<open>
  Fifteen pages of memory. The table with root \<open>0x80001000\<close> maps the page at address 0 to
  \<open>0x80004000\<close>; the table with root \<open>0x80009000\<close> is empty; four pages are free.
\<close>

definition vm_layout :: memlayout where
  "vm_layout = \<lparr>kend = 0x80001000, PHYSTOP = 0x80010000\<rparr>"

definition vm_flags :: u64 where
  "vm_flags = PTE_W OR PTE_X OR PTE_R OR PTE_U"

definition vm_ram :: "u64 \<Rightarrow> nat \<Rightarrow> u64" where
  "vm_ram = (\<lambda>_ _. 0)
     (0x80001000 := (\<lambda>_. 0)(0 := PA2PTE 0x80002000 OR PTE_V),
      0x80002000 := (\<lambda>_. 0)(0 := PA2PTE 0x80003000 OR PTE_V),
      0x80003000 := (\<lambda>_. 0)(0 := PA2PTE 0x80004000 OR vm_flags OR PTE_V),
      0x80005000 := (\<lambda>_. 0x80006000), 0x80006000 := (\<lambda>_. 0x80007000), 0x80007000 := (\<lambda>_. 0x80008000))"

definition vm_state :: kmem where
  "vm_state = \<lparr>ram = vm_ram, freelist = 0x80005000, kmem_log = []\<rparr>"

lemma vm_free_list: "free_list vm_state [0x80005000, 0x80006000, 0x80007000, 0x80008000]"
  by (simp add: free_list_def vm_state_def vm_ram_def)

lemma vm_free: "kmem_free vm_state = {0x80005000, 0x80006000, 0x80007000, 0x80008000}"
  using kmem_free_eq [OF vm_free_list] by simp

lemma vm_inv: "kmem_inv vm_layout vm_state"
  using vm_free_list
  by (auto simp: kmem_inv_def layout_ok_def good_page_def vm_layout_def PGSIZE_def
      intro!: exI [of _ "[0x80005000, 0x80006000, 0x80007000, 0x80008000]"])

lemma vm_layout_ok: "layout_ok vm_layout"
  by (simp add: layout_ok_def vm_layout_def)

lemma vm_entries:
  "vm_ram 0x80001000 = (\<lambda>_. 0)(0 := PA2PTE 0x80002000 OR PTE_V)"
  "vm_ram 0x80002000 = (\<lambda>_. 0)(0 := PA2PTE 0x80003000 OR PTE_V)"
  "vm_ram 0x80003000 = (\<lambda>_. 0)(0 := PA2PTE 0x80004000 OR vm_flags OR PTE_V)"
  "vm_ram 0x80009000 = (\<lambda>_. 0)"
  by (simp_all add: vm_ram_def)

lemma vm_pte2pa:
  "PTE2PA (PA2PTE 0x80002000 OR PTE_V) = 0x80002000" "PTE2PA (PA2PTE 0x80003000 OR PTE_V) = 0x80003000"
  "PTE2PA (PA2PTE 0x80004000 OR vm_flags OR PTE_V) = 0x80004000"
  by (simp_all add: PTE2PA_def PA2PTE_def vm_flags_def pte_flag_defs)

lemma vm_tables: "tables 2 vm_ram 0x80001000 = {0x80001000, 0x80002000, 0x80003000}"
  "pt_wf 2 vm_ram 0x80001000"
proof -
  have v: "{i. i < 512 \<and> pte_valid (vm_ram 0x80001000 i)} = {0}" "{i. i < 512 \<and> pte_valid (vm_ram 0x80002000 i)} = {0}"
    by (auto simp: vm_entries split: if_splits)
  show t: "tables 2 vm_ram 0x80001000 = {0x80001000, 0x80002000, 0x80003000}"
    unfolding numeral_2_eq_2 by (simp add: v vm_entries vm_pte2pa)
  show "pt_wf 2 vm_ram 0x80001000"
    unfolding numeral_2_eq_2
    by (auto simp: vm_entries vm_pte2pa is_pointer_new v split: if_splits)
qed

lemma vm_pt_ok: "pt_ok (kmem_inv vm_layout) kmem_free 0x80001000 vm_state"
  using vm_inv vm_free vm_tables by (simp add: pt_ok_def vm_state_def)

lemma vm_pt_ok_new: "pt_ok (kmem_inv vm_layout) kmem_free 0x80009000 vm_state"
  using vm_inv vm_free zero_table [of vm_ram "0x80009000", OF vm_entries(4)] by (simp add: pt_ok_def vm_state_def)

lemma index_zero: "n = 0 \<longleftrightarrow> n div 262144 = 0 \<and> n div 512 mod 512 = 0 \<and> n mod 512 = 0" for n :: nat
proof
  assume a: "n div 262144 = 0 \<and> n div 512 mod 512 = 0 \<and> n mod 512 = 0"
  then have "n div 512 div 512 = 0" by (simp add: div_mult2_eq [symmetric])
  with a have "n div 512 = 0" by (metis div_mult_mod_eq mult_0 add_0)
  with a show "n = 0" by (metis div_mult_mod_eq mult_0 add_0)
qed simp

lemma vm_pte_of:
  assumes "va < SV39"
  shows "pte_of 2 vm_ram 0x80001000 va = (if unat va div 4096 = 0 then PA2PTE 0x80004000 OR vm_flags OR PTE_V else 0)"
proof -
  let ?k = "unat va div 4096"
  have k: "?k < 2 ^ 27" using assms by (simp add: SV39_def word_less_nat_alt)
  have "PX 2 va = ?k div 262144" "PX 1 va = ?k div 512 mod 512" "PX 0 va = ?k mod 512"
    using k by (simp_all add: PX_unat div_mult2_eq [symmetric])
  moreover have "?k = 0 \<longleftrightarrow> ?k div 262144 = 0 \<and> ?k div 512 mod 512 = 0 \<and> ?k mod 512 = 0"
    by (rule index_zero)
  ultimately have px: "?k = 0 \<longleftrightarrow> PX 2 va = 0 \<and> PX 1 va = 0 \<and> PX 0 va = 0" by simp
  show ?thesis
    unfolding px numeral_2_eq_2
    by (simp add: pte_of_Suc pte_of_0 vm_entries vm_pte2pa)
qed

lemmas vm_allocator = single.page_allocator_axioms [of vm_layout]

section \<open>Mapping\<close>

text \<open>
  C26: \<^verbatim>\<open>mappages\<close> on an unmapped, page-aligned range either returns 0 with every page of the range mapped
  to the next physical page with the given permissions, every other translation unchanged and only
  table pages and pages taken from the allocator written, or returns -1 with the allocator empty.
\<close>

theorem mappages_maps_range:
  assumes "page_allocator ka kf fr ok gd" "pt_ok ok fr pt s" "region_ok (va, pa, sz, perm)"
    and "\<forall>k<npages sz. \<not> pte_valid (pte_of 2 (ram s) pt (va + PGSIZE * of_nat k))"
  shows "\<exists>r s'. mappages ka pt va sz pa perm s = Ok (r, s') \<and>
    (r = 0 \<and> pt_ok ok fr pt s' \<and> pt_grows fr pt s s' \<and>
      (\<forall>x<SV39. pte_of 2 (ram s') pt x = map_region (va, pa, sz, perm) (pte_of 2 (ram s) pt) x) \<or>
     r = -1 \<and> fr s' = {})"
  by (rule page_allocator.mappages_region [OF assms])

theorem mappages_maps_range_witness:
  "\<exists>r s'. mappages kalloc 0x80009000 0 0x2000 0x80004000 vm_flags vm_state = Ok (r, s') \<and>
    (r = 0 \<and> pte_of 2 (ram s') 0x80009000 0x1000 = PA2PTE 0x80005000 OR vm_flags OR PTE_V \<or>
     r = -1 \<and> kmem_free s' = {})"
proof -
  have "region_ok (0, 0x80004000, 0x2000, vm_flags)" by (simp add: page_aligned_unat npages_def)
  moreover have "\<forall>k<npages 0x2000. \<not> pte_valid (pte_of 2 (ram vm_state) 0x80009000 (0 + PGSIZE * of_nat k))"
    using zero_table(3) [of vm_ram "0x80009000", OF vm_entries(4)] by (simp add: vm_state_def)
  ultimately obtain r s' where "mappages kalloc 0x80009000 0 0x2000 0x80004000 vm_flags vm_state = Ok (r, s')"
      "r = 0 \<and> (\<forall>x<SV39. pte_of 2 (ram s') 0x80009000 x =
         map_region (0, 0x80004000, 0x2000, vm_flags) (pte_of 2 (ram vm_state) 0x80009000) x) \<or>
       r = -1 \<and> kmem_free s' = {}"
    using mappages_maps_range [OF vm_allocator vm_pt_ok_new, of 0 "0x80004000" "0x2000" vm_flags] by blast
  then show ?thesis
    by (auto simp: map_range_def npages_def SV39_def PGSIZE_def intro!: exI [of _ r] exI [of _ s'])
qed

lemma PTE_U_bit: "e AND PTE_U \<noteq> 0 \<longleftrightarrow> bit e 4" for e :: u64
proof -
  have "e AND PTE_U = (if bit e 4 then PTE_U else 0)"
  proof (rule bit_word_eqI)
    fix n :: nat
    have "bit PTE_U n \<longleftrightarrow> n = 4" unfolding PTE_U_def bit_push_bit_iff by (auto simp: bit_1_iff)
    then show "bit (e AND PTE_U) n = bit (if bit e 4 then PTE_U else 0) n" by (auto simp: bit_and_iff)
  qed
  moreover have "PTE_U \<noteq> 0" by (simp add: PTE_U_def)
  ultimately show ?thesis by simp
qed

text \<open>
  a user page mapped by \<^verbatim>\<open>mappages\<close> is found again by \<^verbatim>\<open>walkaddr\<close>: for every address of the page the
  lookup returns the physical page that was mapped.
\<close>

theorem walkaddr_after_mappages:
  assumes A: "page_allocator ka kf fr ok gd" and pt: "pt_ok ok fr pt s"
    and i: "i < 2 ^ 26" "\<not> pte_valid (upte (ram s) pt i)"
    and pa: "page_aligned pa" "pa < 2 ^ 56" "perm < 2 ^ 10" "perm AND PTE_U \<noteq> 0"
    and va: "PGROUNDDOWN va = page_va i"
  shows "\<exists>r s'. mappages ka pt (page_va i) PGSIZE pa perm s = Ok (r, s') \<and>
    (if r = 0 then walkaddr ka pt va s' = Ok pa else r = -1 \<and> fr s' = {})"
proof -
  obtain r s' where m: "mappages ka pt (page_va i) PGSIZE pa perm s = Ok (r, s')"
      "r \<noteq> 0 \<longrightarrow> r = -1 \<and> fr s' = {} \<and> (\<forall>va<SV39. pte_of 2 (ram s') pt va = pte_of 2 (ram s) pt va)"
      "r = 0 \<longrightarrow> (\<forall>va<SV39. pte_of 2 (ram s') pt va =
         (if unat va div 4096 = i then PA2PTE pa OR perm OR PTE_V else pte_of 2 (ram s) pt va))"
    using page_allocator.mappages_page [OF A pt i] by metis
  have k: "unat va div 4096 = i" using va PGROUNDDOWN_eq_page_va i(1) by simp
  then have lt: "va < MAXVA" using page_va_MAXVA [OF i(1)] va PGROUNDDOWN_less_MAXVA by metis
  have "bit (PA2PTE pa OR perm OR PTE_V) 4" using pa(4) unfolding PTE_U_bit by (simp add: bit_simps)
  moreover have "PTE2PA (PA2PTE pa OR perm OR PTE_V) = pa"
    using PTE2PA_PA2PTE_flags [OF pa(1,2) or_less_1024 [OF pa(3) PTE_V_less]] by simp
  moreover have "pte_valid (PA2PTE pa OR perm OR PTE_V)"
    by (simp add: pte_valid_bit PTE_V_def bit_simps)
  ultimately show ?thesis using m k lt MAXVA_SV39 [OF lt] by (auto simp: walkaddr_eq PTE_U_bit)
qed

theorem walkaddr_after_mappages_witness:
  "\<exists>r s'. mappages kalloc 0x80009000 (page_va 3) PGSIZE 0x80004000 vm_flags vm_state = Ok (r, s') \<and>
    (if r = 0 then walkaddr kalloc 0x80009000 0x3010 s' = Ok 0x80004000 else r = -1 \<and> kmem_free s' = {})"
  by (rule walkaddr_after_mappages [OF vm_allocator vm_pt_ok_new])
    (use zero_table(3) [of vm_ram "0x80009000", OF vm_entries(4)] in
      \<open>simp_all add: upte_def vm_state_def page_aligned_def PGSIZE_def vm_flags_def pte_flag_defs
        PGROUNDDOWN_eq_page_va\<close>)

section \<open>User address spaces\<close>

text \<open>
  \<^verbatim>\<open>uvmunmap\<close> on a range of mapped leaves ends without a panic, clears exactly the entries of the range,
  keeps the table well formed, and with \<^verbatim>\<open>do_free\<close> gives each physical page back to the allocator once.
\<close>

theorem uvmunmap_unmaps_range:
  assumes "page_allocator ka kf fr ok gd" "pt_ok ok fr pt s" "i \<le> j" "j \<le> 2 ^ 26"
    and "urange d fr gd pt {i..<j} s"
  shows "\<exists>s'. uvmunmap ka kf pt (page_va i) (of_nat (j - i)) d s = Ok s' \<and> unmapped d ok fr pt {i..<j} s s'"
proof -
  have "page_va i mod PGSIZE = 0" using page_va_aligned [of i] assms(3,4) by (simp add: page_aligned_def)
  then show ?thesis
    using page_allocator.uvmunmap_loop_unmaps [OF assms(1,2,5,3,4)] page_va_add [OF assms(3)]
    by (simp add: uvmunmap_def del: of_nat_diff)
qed

lemma vm_upte:
  "upte vm_ram 0x80001000 k = (if k = 0 then PA2PTE 0x80004000 OR vm_flags OR PTE_V else 0)" if "k < 2 ^ 26"
  using vm_pte_of [OF page_va_SV39 [OF that]] unat_page_va [of k] that by (simp add: upte_def)

lemma vm_owned:
  "urange True kmem_free (\<lambda>p. layout_ok vm_layout \<and> good_page vm_layout p) 0x80001000 {0..<1} vm_state"
proof -
  have "PTE_FLAGS (PA2PTE 0x80004000 OR vm_flags OR PTE_V) \<noteq> PTE_V"
    by (simp add: PTE_FLAGS_def PA2PTE_def vm_flags_def pte_flag_defs)
  moreover have "pte_valid (PA2PTE 0x80004000 OR vm_flags OR PTE_V)"
    by (simp add: pte_valid_bit PTE_V_def bit_simps)
  ultimately show ?thesis
    using vm_layout_ok by (simp add: urange_def mapped_def upa_def vm_state_def vm_upte vm_pte2pa vm_tables
        vm_free [unfolded vm_state_def] good_page_def, simp add: vm_layout_def PGSIZE_def)
qed

theorem uvmunmap_unmaps_range_witness:
  "\<exists>s'. uvmunmap kalloc (kfree vm_layout) 0x80001000 0 1 True vm_state = Ok s' \<and>
    kmem_free s' = {0x80005000, 0x80006000, 0x80007000, 0x80008000, 0x80004000}"
  using uvmunmap_unmaps_range [OF vm_allocator vm_pt_ok, of 0 1 True] vm_owned vm_free
  by (auto simp: unmapped_def upa_def vm_state_def vm_upte vm_pte2pa insert_commute)

text \<open>
  \<^verbatim>\<open>uvmunmap\<close> panics at a page of the range whose entry is missing, not valid, or valid without any
  permission or user bit.
\<close>

theorem uvmunmap_panics_on_hole:
  assumes "page_aligned va" "va < MAXVA" "va < va + n * PGSIZE"
    and "\<not> pte_valid (pte_of 2 (ram s) pt va) \<or> PTE_FLAGS (pte_of 2 (ram s) pt va) = PTE_V"
  shows "uvmunmap ka kf pt va n d s =
    Panic (if leaf_table 2 (ram s) pt va = None then ''uvmunmap: walk''
      else if \<not> pte_valid (pte_of 2 (ram s) pt va) then ''uvmunmap: not mapped''
      else ''uvmunmap: not a leaf'')"
  using assms
  by (subst uvmunmap_def, subst uvmunmap_loop.simps)
    (auto simp: page_aligned_def walk_def walk_from_lookup pte_of_def pte_valid_def split: option.splits)

theorem uvmunmap_panics_on_hole_witness:
  "uvmunmap kalloc (kfree vm_layout) 0x80001000 0x1000 1 True vm_state = Panic ''uvmunmap: not mapped''"
proof -
  have "leaf_table 2 vm_ram 0x80001000 0x1000 = Some 0x80003000"
    unfolding numeral_2_eq_2
    by (simp add: Let_def PX_unat vm_entries vm_pte2pa)
  moreover have "pte_of 2 vm_ram 0x80001000 0x1000 = 0" using vm_pte_of [of "0x1000"] by (simp add: SV39_def)
  ultimately show ?thesis
    using uvmunmap_panics_on_hole [of "0x1000" 1 vm_state "0x80001000" kalloc "kfree vm_layout" True]
    by (simp add: vm_state_def page_aligned_def PGSIZE_def MAXVA_eq)
qed



text \<open>
  shrinking a process (\<^verbatim>\<open>uvmdealloc\<close>) returns the new size and frees exactly the pages above it, each
  once; the pages below keep their translations and contents.
\<close>

theorem uvmdealloc_shrinks:
  assumes "page_allocator ka kf fr ok gd" "pt_ok ok fr pt s" "newsz \<le> oldsz" "oldsz \<le> MAXVA"
    and "urange True fr gd pt {0..<npages oldsz} s"
  shows "\<exists>s'. uvmdealloc ka kf pt oldsz newsz s = Ok (newsz, s') \<and>
    unmapped True ok fr pt {npages newsz..<npages oldsz} s s' \<and>
    urange True fr gd pt {0..<npages newsz} s' \<and>
    (\<forall>k<npages newsz. ram s' (upa (ram s) pt k) = ram s (upa (ram s) pt k))"
proof -
  have le: "npages newsz \<le> npages oldsz" using npages_mono [OF assms(3)] .
  then have split: "{npages newsz..<npages oldsz} \<union> {0..<npages newsz} = {0..<npages oldsz}" by auto
  have "urange True fr gd pt {npages newsz..<npages oldsz} s"
    using assms(5) unfolding split [symmetric] urange_def by (auto simp: inj_on_Un)
  from page_allocator.uvmdealloc_unmaps [OF assms(1-4) this]
  obtain s' where s': "uvmdealloc ka kf pt oldsz newsz s = Ok (newsz, s')"
      "unmapped True ok fr pt {npages newsz..<npages oldsz} s s'" by blast
  have K: "{npages newsz..<npages oldsz} \<inter> {0..<npages newsz} = {}" "{0..<npages newsz} \<subseteq> {..<2 ^ 26}"
    using PGROUNDUP_npages [OF assms(4)] le by auto
  have "urange True fr gd pt {0..<npages newsz} s'"
    using urange_after_unmap [OF _ s'(2) K] assms(5) split by simp
  moreover have "ram s' (upa (ram s) pt k) = ram s (upa (ram s) pt k)" if "k < npages newsz" for k
  proof -
    have inj: "inj_on (upa (ram s) pt) {0..<npages oldsz}" using assms(5) by (simp add: urange_def)
    have "upa (ram s) pt k \<notin> upa (ram s) pt ` {npages newsz..<npages oldsz}" "upa (ram s) pt k \<notin> tables 2 (ram s) pt"
      using inj_onD [OF inj, of k] assms(5) that le by (fastforce simp: urange_def mapped_def)+
    then show ?thesis using s'(2) by (simp add: unmapped_def)
  qed
  ultimately show ?thesis using s' by blast
qed

theorem uvmdealloc_shrinks_witness:
  "\<exists>s'. uvmdealloc kalloc (kfree vm_layout) 0x80001000 4000 0 vm_state = Ok (0, s') \<and>
    0x80004000 \<in> kmem_free s'"
  using uvmdealloc_shrinks [OF vm_allocator vm_pt_ok, of 0 4000] vm_owned
  by (auto simp: unmapped_def MAXVA_eq npages_def upa_def vm_state_def vm_upte vm_pte2pa)



section \<open>Freeing\<close>

text \<open>
  C16: \<^verbatim>\<open>uvmfree\<close> on a process that owns its pages below \<open>sz\<close> and has nothing else mapped terminates without a
  panic and gives back all user pages and all page-table pages; no other page changes.
\<close>

theorem uvmfree_frees_everything:
  assumes "page_allocator ka kf fr ok gd" "pt_ok ok fr pt s" "sz \<le> MAXVA"
    and "urange True fr gd pt {0..<npages sz} s"
    and "\<forall>va<SV39. unat va div 4096 \<ge> npages sz \<longrightarrow> \<not> pte_valid (pte_of 2 (ram s) pt va)"
    and "\<forall>p\<in>tables 2 (ram s) pt. gd p"
  shows "\<exists>s'. uvmfree ka kf pt sz s = Some (Ok s') \<and>
    freed ok fr (tables 2 (ram s) pt \<union> upa (ram s) pt ` {0..<npages sz}) s s'"
  by (rule page_allocator.uvmfree_frees [OF assms])

lemma vm_tables_good: "\<forall>p\<in>tables 2 (ram vm_state) 0x80001000. layout_ok vm_layout \<and> good_page vm_layout p"
  using vm_layout_ok by (auto simp: vm_state_def vm_tables good_page_def vm_layout_def PGSIZE_def)

theorem uvmfree_frees_everything_witness:
  "\<exists>s'. uvmfree kalloc (kfree vm_layout) 0x80001000 4096 vm_state = Some (Ok s') \<and>
    {0x80001000, 0x80002000, 0x80003000, 0x80004000} \<subseteq> kmem_free s'"
proof -
  have n: "npages 4096 = 1" by (simp add: npages_def)
  have rest: "\<forall>va<SV39. unat va div 4096 \<ge> npages 4096 \<longrightarrow> \<not> pte_valid (pte_of 2 (ram vm_state) 0x80001000 va)"
    using vm_pte_of by (auto simp: n vm_state_def)
  have a: "upa (ram vm_state) 0x80001000 0 = 0x80004000" by (simp add: upa_def vm_state_def vm_upte vm_pte2pa)
  show ?thesis
    using uvmfree_frees_everything [OF vm_allocator vm_pt_ok _ _ rest vm_tables_good] vm_owned a
    by (auto simp: n MAXVA_eq freed_def vm_state_def vm_tables)
qed

text \<open>
  \<^verbatim>\<open>kvmfree\<close> on a table whose leaves all carry a permission terminates and gives back the page-table pages
  and only them: the pages the table maps are not freed.
\<close>

theorem kvmfree_frees_tables_only:
  assumes "page_allocator ka kf fr ok gd" "pt_ok ok fr pt s" "\<forall>p\<in>tables 2 (ram s) pt. gd p"
    and "\<forall>va<SV39. pte_valid (pte_of 2 (ram s) pt va) \<longrightarrow> \<not> is_pointer (pte_of 2 (ram s) pt va)"
  shows "\<exists>s'. kvmfree kf pt s = Some (Ok s') \<and> freed ok fr (tables 2 (ram s) pt) s s'"
  by (rule page_allocator.kvmfree_frees [OF assms])

lemma vm_leaf: "\<forall>va<SV39. pte_valid (pte_of 2 (ram vm_state) 0x80001000 va) \<longrightarrow>
    \<not> is_pointer (pte_of 2 (ram vm_state) 0x80001000 va)"
  using vm_pte_of by (auto simp: vm_state_def is_pointer_def PA2PTE_def vm_flags_def pte_flag_defs)

theorem kvmfree_frees_tables_only_witness:
  "\<exists>s'. kvmfree (kfree vm_layout) 0x80001000 vm_state = Some (Ok s') \<and>
    0x80003000 \<in> kmem_free s' \<and> 0x80004000 \<notin> kmem_free s'"
  using kvmfree_frees_tables_only [OF vm_allocator vm_pt_ok vm_tables_good vm_leaf] vm_free
  by (auto simp: freed_def vm_state_def vm_tables)

section \<open>Copying bytes\<close>

text \<open>
  C14: what \<^verbatim>\<open>copyout\<close> writes to mapped user memory, \<^verbatim>\<open>copyin\<close> reads back, across page boundaries; both return 0.
\<close>

theorem copyout_copyin_roundtrip:
  assumes "all_mapped (ram s) pt va (unat len)" "length src = unat len"
    and "\<forall>k<unat len. PGROUNDDOWN (uaddr (ram s) pt va k) \<notin> tables 2 (ram s) pt"
    and "inj_on (uaddr (ram s) pt va) {..<unat len}"
  shows "\<exists>s'. copyout ka pt va src len s = Ok (0, s') \<and> copyin ka pt [] va len s' = Ok (0, src)"
proof -
  obtain s' where s': "copyout ka pt va src len s = Ok (0, s')" "wrote (uaddr (ram s) pt va) (unat len) src s s'"
    using copyout_mapped [OF assms(1-3)] by blast
  note t = wrote_translate(1) [OF s'(2) assms(3)]
  have "all_mapped (ram s') pt va (unat len)" using assms(1) by (simp add: all_mapped_def t)
  moreover have "uaddr (ram s') pt va = uaddr (ram s) pt va" by (simp add: uaddr_def t fun_eq_iff)
  moreover have "map (\<lambda>k. rd_byte (uaddr (ram s) pt va k) s') [0..<unat len] = src"
    using s'(2) assms(2,4) by (intro nth_equalityI) (auto simp: wrote_def)
  ultimately show ?thesis using s'(1) copyin_mapped [of s' pt va len ka "[]"] by simp
qed

lemma vm_translate: "k < 4000 \<Longrightarrow> translate vm_ram 0x80001000 (0x10 + of_nat k) = Some (0x80004010 + of_nat k)"
proof -
  assume k: "k < 4000"
  have e: "pte_of 2 vm_ram 0x80001000 0x10 = PA2PTE 0x80004000 OR vm_flags OR PTE_V"
    using vm_pte_of [of "0x10"] by (simp add: SV39_def)
  have "translate vm_ram 0x80001000 0x10 = Some 0x80004010"
    unfolding translate_def e Let_def vm_pte2pa
    by (simp add: MAXVA_eq PGROUNDDOWN_def PGSIZE_def PA2PTE_def vm_flags_def pte_flag_defs pte_valid_def)
  from translate_in_page [OF this] k show ?thesis by simp
qed

theorem copyout_copyin_roundtrip_witness:
  "\<exists>s'. copyout kalloc 0x80001000 0x10 [104, 105, 0] 3 vm_state = Ok (0, s') \<and>
    copyin kalloc 0x80001000 [] 0x10 3 s' = Ok (0, [104, 105, 0])"
proof -
  have u: "unat (3 :: u64) = 3" by simp
  have ua: "uaddr (ram vm_state) 0x80001000 0x10 k = 0x80004010 + of_nat k" if "k < 3" for k
    using vm_translate [of k] that by (simp add: uaddr_def vm_state_def)
  have cases: "k = 0 \<or> k = 1 \<or> k = 2" if "k < 3" for k :: nat using that by auto
  have "PGROUNDDOWN (uaddr (ram vm_state) 0x80001000 0x10 k) = 0x80004000" if "k < 3" for k
    unfolding ua [OF that] using cases [OF that] by (auto simp: PGROUNDDOWN_def PGSIZE_def)
  moreover have "inj_on (uaddr (ram vm_state) 0x80001000 0x10) {..<3}"
  proof (rule inj_onI)
    fix x y assume "x \<in> {..<3 :: nat}" "y \<in> {..<3}"
      "uaddr (ram vm_state) 0x80001000 0x10 x = uaddr (ram vm_state) 0x80001000 0x10 y"
    then show "x = y" using ua [of x] ua [of y] cases [of x] cases [of y] by auto
  qed
  moreover have "all_mapped (ram vm_state) 0x80001000 0x10 3"
    using vm_translate by (simp add: all_mapped_def vm_state_def)
  ultimately show ?thesis
    using copyout_copyin_roundtrip [of vm_state "0x80001000" "0x10" 3 "[104, 105, 0]" kalloc]
    unfolding u by (simp add: vm_state_def vm_tables)
qed

text \<open>
  \<^verbatim>\<open>copyin\<close> terminates for every address and length; it returns 0 exactly when every byte of the range is
  mapped for the user, and -1 otherwise.
\<close>

theorem copyin_result:
  "\<exists>bs. copyin ka pt dst va len s = Ok (if all_mapped (ram s) pt va (unat len) then 0 else -1, bs)"
  using copyin_mapped [of s pt va len ka dst] copyin_unmapped [of s pt va len ka dst]
  by (cases "all_mapped (ram s) pt va (unat len)") auto

text \<open>
  \<^verbatim>\<open>copyinstr\<close> returns 0 with the user's string, up to and including its first NUL, when the string is mapped
  and its NUL lies within the given maximum.
\<close>

theorem copyinstr_reads_string:
  assumes "all_mapped (ram s) pt va (Suc n)" "n < unat maxlen"
    and "rd_byte (uaddr (ram s) pt va n) s = 0" "\<forall>k<n. rd_byte (uaddr (ram s) pt va k) s \<noteq> 0"
  shows "copyinstr ka pt [] va maxlen s =
    Ok (0, map (\<lambda>k. rd_byte (uaddr (ram s) pt va k) s) [0..<n] @ [0])"
  using copyinstr_string [OF assms, of ka "[]"] by simp

theorem copyinstr_reads_string_witness:
  "copyinstr kalloc 0x80001000 [] 0x10 100 vm_state = Ok (0, [0])"
proof -
  have t: "translate vm_ram 0x80001000 0x10 = Some 0x80004010" using vm_translate [of 0] by simp
  then have "all_mapped (ram vm_state) 0x80001000 0x10 (Suc 0)" by (simp add: all_mapped_def vm_state_def)
  moreover have "rd_byte 0x80004010 vm_state = 0"
    by (simp add: rd_byte_def vm_state_def vm_ram_def PGROUNDDOWN_def PGSIZE_def get_byte_def)
  ultimately show ?thesis
    using copyinstr_reads_string [of vm_state "0x80001000" "0x10" 0 100 kalloc] t
    by (simp add: uaddr_def vm_state_def)
qed

section \<open>Kernel page tables\<close>

text \<open>
  with a page to start from, \<^verbatim>\<open>kvminit_proc\<close> builds a well-formed table whose translations are exactly the
  direct maps of the devices, of the kernel's text (read and execute) and data (read and write), and the
  trampoline, or panics because a table page cannot be allocated.
\<close>

theorem kvminit_proc_direct_map:
  assumes A: "page_allocator ka kf fr ok gd" and s: "ok s" "fr s \<noteq> {}"
    and L: "\<forall>r\<in>set (proc_regions L). region_ok r" "sorted_wrt regions_apart (proc_regions L)"
  shows "kvminit_proc ka L s = Panic ''kvmmap_proc'' \<or>
    (\<exists>pt s'. kvminit_proc ka L s = Ok (pt, s') \<and> pt \<in> fr s \<and> pt_ok ok fr pt s' \<and>
      (\<forall>x<SV39. pte_of 2 (ram s') pt x = fold map_region (proc_regions L) (\<lambda>_. 0) x))"
proof -
  obtain pt s1 where k: "ka s = (pt, s1)" by fastforce
  then have pt: "pt \<noteq> 0" "pt \<in> fr s"
    using page_allocator.kalloc_null [OF A s(1), of s1] page_allocator.kalloc_page [OF A s(1) k] s(2) by auto
  show ?thesis
    using page_allocator.fresh_regions [OF A s(1) k pt(1) L, of "''kvmmap_proc''"] pt(2)
    unfolding kvminit_proc_map_regions [where kalloc = ka, OF k] by auto
qed

definition ex_klayout :: klayout where
  "ex_klayout = \<lparr>kend = 0x80020000, PHYSTOP = 0x88000000, UART0 = 0x10000000, VIRTIO0 = 0x10001000,
     CLINT = 0x2000000, PLIC = 0xC000000, KERNBASE = 0x80000000, TRAMPOLINE = 0x3FFFFFF000,
     etext = 0x80008000, trampoline = 0x80007000\<rparr>"

lemma ex_regions:
  "\<forall>r\<in>set (kernel_regions ex_klayout). region_ok r" "sorted_wrt regions_apart (kernel_regions ex_klayout)"
  "\<forall>r\<in>set (proc_regions ex_klayout). region_ok r" "sorted_wrt regions_apart (proc_regions ex_klayout)"
  by (simp_all add: kernel_regions_def proc_regions_def ex_klayout_def page_aligned_unat npages_def)

theorem kvminit_proc_direct_map_witness:
  "kvminit_proc kalloc ex_klayout vm_state = Panic ''kvmmap_proc'' \<or>
    (\<exists>pt s'. kvminit_proc kalloc ex_klayout vm_state = Ok (pt, s') \<and> pt \<in> kmem_free vm_state \<and>
      pt_ok (kmem_inv vm_layout) kmem_free pt s' \<and>
      (\<forall>x<SV39. pte_of 2 (ram s') pt x = fold map_region (proc_regions ex_klayout) (\<lambda>_. 0) x))"
  by (rule kvminit_proc_direct_map [OF vm_allocator vm_inv _ ex_regions(3,4)]) (simp add: vm_free)

text \<open>
  the boot-time kernel table of \<^verbatim>\<open>kvminit\<close> has the same direct maps and, in addition, the CLINT.
\<close>

theorem kvminit_direct_map:
  assumes A: "page_allocator ka kf fr ok gd" and s: "ok s" "fr s \<noteq> {}"
    and L: "\<forall>r\<in>set (kernel_regions L). region_ok r" "sorted_wrt regions_apart (kernel_regions L)"
  shows "kvminit ka L s = Panic ''kvmmap'' \<or>
    (\<exists>pt s'. kvminit ka L s = Ok (pt, s') \<and> pt \<in> fr s \<and> pt_ok ok fr pt s' \<and>
      (\<forall>x<SV39. pte_of 2 (ram s') pt x = fold map_region (kernel_regions L) (\<lambda>_. 0) x))"
proof -
  obtain pt s1 where k: "ka s = (pt, s1)" by fastforce
  then have pt: "pt \<noteq> 0" "pt \<in> fr s"
    using page_allocator.kalloc_null [OF A s(1), of s1] page_allocator.kalloc_page [OF A s(1) k] s(2) by auto
  show ?thesis
    using page_allocator.fresh_regions [OF A s(1) k pt(1) L, of "''kvmmap''"] pt(2)
    unfolding kvminit_map_regions [where kalloc = ka, OF k] by auto
qed

theorem kvminit_direct_map_witness:
  "kvminit kalloc ex_klayout vm_state = Panic ''kvmmap'' \<or>
    (\<exists>pt s'. kvminit kalloc ex_klayout vm_state = Ok (pt, s') \<and> pt \<in> kmem_free vm_state \<and>
      pt_ok (kmem_inv vm_layout) kmem_free pt s' \<and>
      (\<forall>x<SV39. pte_of 2 (ram s') pt x = fold map_region (kernel_regions ex_klayout) (\<lambda>_. 0) x))"
  by (rule kvminit_direct_map [OF vm_allocator vm_inv _ ex_regions(1,2)]) (simp add: vm_free)



text \<open>
  \<^verbatim>\<open>vmprint\<close> of a well-formed table whose leaves carry a permission prints, after the header, every valid
  entry once, depth first in the order of the indices, and does not panic.
\<close>

theorem vmprint_prints_tree:
  assumes "pt_wf 2 m pt"
    and "\<forall>va<SV39. pte_valid (pte_of 2 m pt va) \<longrightarrow> \<not> is_pointer (pte_of 2 m pt va)"
  shows "vmprint m pt 0 = Ok (Table pt # pt_lines 2 m pt)"
  by (rule vmprint_prints [OF assms])

theorem vmprint_prints_tree_witness:
  "vmprint vm_ram 0x80001000 0 = Ok (Table 0x80001000 # pt_lines 2 vm_ram 0x80001000)"
  using vmprint_prints_tree [OF vm_tables(2)] vm_leaf by (simp add: vm_state_def)

text \<open>
  after \<^verbatim>\<open>uvmclear\<close> of a mapped page the user can no longer reach it (\<^verbatim>\<open>walkaddr\<close> returns 0 there), and no other
  translation changes.
\<close>

theorem uvmclear_revokes_user_access:
  assumes A: "page_allocator ka kf fr ok gd" and pt: "pt_ok ok fr pt s"
    and va: "va < MAXVA" "pte_valid (pte_of 2 (ram s) pt va)"
  shows "\<exists>s'. uvmclear ka pt va s = Ok s' \<and> pt_ok ok fr pt s' \<and>
    (\<forall>x. PGROUNDDOWN x = PGROUNDDOWN va \<longrightarrow> walkaddr ka pt x s' = Ok 0) \<and>
    (\<forall>x<SV39. PGROUNDDOWN x \<noteq> PGROUNDDOWN va \<longrightarrow> pte_of 2 (ram s') pt x = pte_of 2 (ram s) pt x)"
proof -
  obtain q where q: "walk ka pt va False s = Ok (Some (q, PX 0 va), s)"
      "leaf_table 2 (ram s) pt va = Some q" "ram s q (PX 0 va) = pte_of 2 (ram s) pt va"
    using page_allocator.walk_lookup [OF A va] .
  define v where "v = pte_of 2 (ram s) pt va AND NOT PTE_U"
  note st = page_allocator.store_pte [OF A pt q(2) va(1) refl [of "wr_cell q (PX 0 va) v s"]]
  have "uvmclear ka pt va s = Ok (wr_cell q (PX 0 va) v s)" using q(1,3) by (simp add: uvmclear_def v_def)
  moreover have "v AND PTE_U = 0"
    unfolding v_def by (simp add: and.assoc)
  moreover have "walkaddr ka pt x (wr_cell q (PX 0 va) v s) = Ok 0" if "PGROUNDDOWN x = PGROUNDDOWN va" for x
    using st(4) [of x] that MAXVA_SV39 [of x] \<open>v AND PTE_U = 0\<close> by (auto simp: walkaddr_eq)
  ultimately show ?thesis using st(1,4) by auto
qed

theorem uvmclear_revokes_user_access_witness:
  "\<exists>s'. uvmclear kalloc 0x80001000 0 vm_state = Ok s' \<and> walkaddr kalloc 0x80001000 0x10 s' = Ok 0"
proof -
  have "pte_valid (pte_of 2 (ram vm_state) 0x80001000 0)"
    using vm_pte_of [of 0] by (simp add: SV39_def vm_state_def pte_valid_bit PTE_V_def bit_simps)
  moreover have "PGROUNDDOWN 0x10 = PGROUNDDOWN 0" by (simp add: PGROUNDDOWN_def PGSIZE_def)
  ultimately show ?thesis
    using uvmclear_revokes_user_access [OF vm_allocator vm_pt_ok, of 0] by (auto simp: MAXVA_eq)
qed

text \<open>
  \<^verbatim>\<open>test_pagetable\<close> tells whether the hart runs on another table than the global kernel table: after
  \<^verbatim>\<open>kvminithart_proc\<close> with a page-aligned table below 2 to the power 56 it is true exactly when the two tables differ.
\<close>

theorem test_pagetable_distinguishes:
  assumes "page_aligned p" "page_aligned q" "p < 2 ^ 56" "q < 2 ^ 56"
  shows "test_pagetable q (kvminithart_proc p h) \<longleftrightarrow> p \<noteq> q"
proof -
  have "p = q" if "MAKE_SATP p = MAKE_SATP q"
  proof (rule bit_word_eqI)
    fix n assume n: "n < LENGTH(64)"
    have hi: "bit p n \<Longrightarrow> n < 56" "bit q n \<Longrightarrow> n < 56" using assms(3,4) word_less_exp_bit by blast+
    have lo: "bit p n \<Longrightarrow> 12 \<le> n" "bit q n \<Longrightarrow> 12 \<le> n" using assms(1,2) page_aligned_bit by blast+
    have "bit (MAKE_SATP p) (n - 12) = bit (MAKE_SATP q) (n - 12)" using that by simp
    then show "bit p n = bit q n" using hi lo n unfolding MAKE_SATP_def bit_or_iff bit_push_bit_iff bit_drop_bit_eq by auto
  qed
  then show ?thesis by (auto simp: test_pagetable_def kvminithart_proc_def)
qed

theorem test_pagetable_distinguishes_witness:
  "test_pagetable 0x80001000 (kvminithart_proc 0x80009000 \<lparr>satp = 0, fences = 0\<rparr>)"
  using test_pagetable_distinguishes [of "0x80009000" "0x80001000"]
  by (simp add: page_aligned_def PGSIZE_def)

end
