(* ===== verification/Newfs_Disk.thy ===== *)
theory Newfs_Disk
  imports Prelude Riscv
begin

text \<open>
  The disk layer of the FUSE file system of lab 5 (\<^verbatim>\<open>newfs/src/newfs.c\<close>, \<^verbatim>\<open>newfs/include/types.h\<close>):
  the layout macros and \<^verbatim>\<open>newfs_driver_read\<close> and \<^verbatim>\<open>newfs_driver_write\<close>, which turn the block device
  into a byte-addressed one. The block device \<^verbatim>\<open>ddriver\<close> is a library outside the repository: its
  calls are parameters, and \<open>ddriver_ok\<close> states what its header documents. The C integers of this
  part stay far below their bounds and are HOL integers.
\<close>

section \<open>Macros of types.h\<close>

definition NEWFS_MAGIC_NUM :: int where "NEWFS_MAGIC_NUM = 0x20011005"
definition NEWFS_MAX_FILE_NAME :: nat where "NEWFS_MAX_FILE_NAME = 128"
definition NEWFS_MAP_INODE_BLOCKS :: int where "NEWFS_MAP_INODE_BLOCKS = 1"
definition NEWFS_MAP_DATA_BLOCKS :: int where "NEWFS_MAP_DATA_BLOCKS = 1"
definition NEWFS_DATA_PER_FILE :: int where "NEWFS_DATA_PER_FILE = 8"
definition NEWFS_BLOCK_SIZE :: int where "NEWFS_BLOCK_SIZE = 1024"
definition NEWFS_SUPER_OFS :: int where "NEWFS_SUPER_OFS = 0"
definition NEWFS_MAP_INODE_OFS :: int where "NEWFS_MAP_INODE_OFS = 1024"
definition NEWFS_MAP_DATA_OFS :: int where "NEWFS_MAP_DATA_OFS = 2048"
definition NEWFS_INODE_OFS :: int where "NEWFS_INODE_OFS = 3072"
definition NEWFS_INODE_SIZE :: int where "NEWFS_INODE_SIZE = 32"
definition NEWFS_INODE_NUM :: int where "NEWFS_INODE_NUM = 3968"
definition NEWFS_DATA_OFS :: int where "NEWFS_DATA_OFS = 130048"
definition NEWFS_DATA_SIZE :: int where "NEWFS_DATA_SIZE = 1024"
definition NEWFS_DATA_NUM :: int where "NEWFS_DATA_NUM = 3968"

lemmas newfs_consts = NEWFS_MAGIC_NUM_def NEWFS_MAX_FILE_NAME_def NEWFS_MAP_INODE_BLOCKS_def
  NEWFS_MAP_DATA_BLOCKS_def NEWFS_DATA_PER_FILE_def NEWFS_BLOCK_SIZE_def NEWFS_SUPER_OFS_def
  NEWFS_MAP_INODE_OFS_def NEWFS_MAP_DATA_OFS_def NEWFS_INODE_OFS_def NEWFS_INODE_SIZE_def
  NEWFS_INODE_NUM_def NEWFS_DATA_OFS_def NEWFS_DATA_SIZE_def NEWFS_DATA_NUM_def

text \<open>
  The rounding macros do not put their argument in parentheses. On a single operand they round;
  \<open>NEWFS_ROUND_UP_sum\<close> is the expansion on an argument written \<^verbatim>\<open>x + y\<close>, in which \<^verbatim>\<open>%\<close> and \<^verbatim>\<open>/\<close> bind to
  \<open>y\<close> alone.
\<close>

definition NEWFS_ROUND_DOWN :: "int \<Rightarrow> int \<Rightarrow> int" where
  "NEWFS_ROUND_DOWN value round = (if value mod round = 0 then value else (value div round) * round)"

definition NEWFS_ROUND_UP :: "int \<Rightarrow> int \<Rightarrow> int" where
  "NEWFS_ROUND_UP value round = (if value mod round = 0 then value else (value div round + 1) * round)"

definition NEWFS_ROUND_UP_sum :: "int \<Rightarrow> int \<Rightarrow> int \<Rightarrow> int" where
  "NEWFS_ROUND_UP_sum x y round =
     (if x + y mod round = 0 then x + y else (x + y div round + 1) * round)"

definition NEWFS_BLKS_SZ :: "int \<Rightarrow> int" where
  "NEWFS_BLKS_SZ sz_io = NEWFS_ROUND_UP NEWFS_BLOCK_SIZE sz_io"

definition NEWFS_INO_OFS :: "int \<Rightarrow> int" where
  "NEWFS_INO_OFS ino = NEWFS_INODE_OFS + ino * NEWFS_INODE_SIZE"

definition NEWFS_DA_OFS :: "int \<Rightarrow> int" where
  "NEWFS_DA_OFS data = NEWFS_DATA_OFS + data * NEWFS_DATA_PER_FILE * NEWFS_DATA_SIZE"

section \<open>The block device\<close>

record 'd ddriver =
  ddriver_open :: "string \<Rightarrow> 'd \<Rightarrow> int \<times> 'd"
  ddriver_seek :: "int \<Rightarrow> 'd \<Rightarrow> 'd"
  ddriver_read :: "int \<Rightarrow> 'd \<Rightarrow> u8 list \<times> 'd"
  ddriver_write :: "u8 list \<Rightarrow> 'd \<Rightarrow> 'd"
  ddriver_size :: "'d \<Rightarrow> int"
  ddriver_io_sz :: "'d \<Rightarrow> int"
  ddriver_close :: "'d \<Rightarrow> 'd"

text \<open>\<open>n\<close> bytes of a disk from address \<open>a\<close>, and the disk after bytes are stored from \<open>a\<close> on.\<close>

definition dslice :: "(int \<Rightarrow> u8) \<Rightarrow> int \<Rightarrow> nat \<Rightarrow> u8 list" where
  "dslice c a n = map (\<lambda>k. c (a + int k)) [0..<n]"

definition dsplice :: "(int \<Rightarrow> u8) \<Rightarrow> int \<Rightarrow> u8 list \<Rightarrow> int \<Rightarrow> u8" where
  "dsplice c a bs x = (if a \<le> x \<and> x < a + int (length bs) then bs ! nat (x - a) else c x)"

text \<open>
  What \<^verbatim>\<open>ddriver.h\<close> documents, for an open device with contents \<open>c d\<close>, head position \<open>pos d\<close>, size \<open>sz\<close> and
  IO unit \<open>io\<close>: seeking to a multiple of the IO unit moves the head; reading or writing one unit at
  the head transfers it and moves the head on.
\<close>

definition ddriver_ok :: "'d ddriver \<Rightarrow> int \<Rightarrow> int \<Rightarrow> ('d \<Rightarrow> int \<Rightarrow> u8) \<Rightarrow> ('d \<Rightarrow> int) \<Rightarrow> bool" where
  "ddriver_ok D io sz c pos \<longleftrightarrow> 0 < io \<and>
     (\<forall>d p. 0 \<le> p \<and> p \<le> sz \<and> io dvd p \<longrightarrow>
        c (ddriver_seek D p d) = c d \<and> pos (ddriver_seek D p d) = p) \<and>
     (\<forall>d. 0 \<le> pos d \<and> pos d + io \<le> sz \<longrightarrow>
        (\<exists>d'. ddriver_read D io d = (dslice (c d) (pos d) (nat io), d') \<and> c d' = c d \<and> pos d' = pos d + io)) \<and>
     (\<forall>d bs. 0 \<le> pos d \<and> pos d + io \<le> sz \<and> length bs = nat io \<longrightarrow>
        c (ddriver_write D bs d) = dsplice (c d) (pos d) bs \<and> pos (ddriver_write D bs d) = pos d + io)"

section \<open>Byte access\<close>

text \<open>
  The transfer loops run until \<^verbatim>\<open>size_aligned\<close> is exactly 0; \<open>None\<close> is a loop that does not end.
\<close>

partial_function (option) driver_read_loop ::
    "'d ddriver \<Rightarrow> int \<Rightarrow> int \<Rightarrow> u8 list \<Rightarrow> 'd \<Rightarrow> (u8 list \<times> 'd) option" where
  "driver_read_loop D io size_aligned cur d =
     (if size_aligned \<noteq> 0 then
        let (bs, d1) = ddriver_read D io d
        in driver_read_loop D io (size_aligned - io) (cur @ bs) d1
      else Some (cur, d))"

definition newfs_driver_read :: "'d ddriver \<Rightarrow> int \<Rightarrow> int \<Rightarrow> int \<Rightarrow> 'd \<Rightarrow> (u8 list \<times> 'd) option" where
  "newfs_driver_read D io offset sz d =
     (let offset_aligned = NEWFS_ROUND_DOWN offset (NEWFS_BLKS_SZ io);
          bias = offset - offset_aligned;
          size_aligned = NEWFS_ROUND_UP (sz + bias) (NEWFS_BLKS_SZ io);
          d1 = ddriver_seek D offset_aligned d
      in case driver_read_loop D io size_aligned [] d1 of
           None \<Rightarrow> None
         | Some (temp_content, d2) \<Rightarrow> Some (take (nat sz) (drop (nat bias) temp_content), d2))"

partial_function (option) driver_write_loop ::
    "'d ddriver \<Rightarrow> int \<Rightarrow> int \<Rightarrow> u8 list \<Rightarrow> 'd \<Rightarrow> 'd option" where
  "driver_write_loop D io size_aligned cur d =
     (if size_aligned \<noteq> 0 then
        driver_write_loop D io (size_aligned - io) (drop (nat io) cur) (ddriver_write D (take (nat io) cur) d)
      else Some d)"

definition newfs_driver_write :: "'d ddriver \<Rightarrow> int \<Rightarrow> int \<Rightarrow> u8 list \<Rightarrow> 'd \<Rightarrow> 'd option" where
  "newfs_driver_write D io offset in_content d =
     (let sz = int (length in_content);
          offset_aligned = NEWFS_ROUND_DOWN offset (NEWFS_BLKS_SZ io);
          bias = offset - offset_aligned;
          size_aligned = NEWFS_ROUND_UP (sz + bias) (NEWFS_BLKS_SZ io)
      in case newfs_driver_read D io offset_aligned size_aligned d of
           None \<Rightarrow> None
         | Some (temp0, d1) \<Rightarrow>
             let temp_content = take (nat bias) temp0 @ in_content @ drop (nat bias + length in_content) temp0;
                 d2 = ddriver_seek D offset_aligned d1
             in driver_write_loop D io size_aligned temp_content d2)"

section \<open>Rounding\<close>

lemma NEWFS_ROUND_DOWN_eq: "0 < r \<Longrightarrow> NEWFS_ROUND_DOWN v r = v div r * r"
  by (auto simp: NEWFS_ROUND_DOWN_def)

lemma NEWFS_ROUND_DOWN_bounds:
  "0 < r \<Longrightarrow> NEWFS_ROUND_DOWN v r \<le> v" "0 < r \<Longrightarrow> v < NEWFS_ROUND_DOWN v r + r" "0 < r \<Longrightarrow> r dvd NEWFS_ROUND_DOWN v r"
  "0 < r \<Longrightarrow> 0 \<le> v \<Longrightarrow> 0 \<le> NEWFS_ROUND_DOWN v r"
proof -
  assume r: "0 < r"
  have "v = v div r * r + v mod r" by simp
  moreover have "0 \<le> v mod r" "v mod r < r" using r by simp_all
  ultimately show "NEWFS_ROUND_DOWN v r \<le> v" "v < NEWFS_ROUND_DOWN v r + r"
    unfolding NEWFS_ROUND_DOWN_eq [OF r] by linarith+
  show "r dvd NEWFS_ROUND_DOWN v r" unfolding NEWFS_ROUND_DOWN_eq [OF r] by simp
  show "0 \<le> NEWFS_ROUND_DOWN v r" if "0 \<le> v" unfolding NEWFS_ROUND_DOWN_eq [OF r]
    using that r by (simp add: pos_imp_zdiv_nonneg_iff)
qed

lemma NEWFS_ROUND_UP_bounds:
  "0 < r \<Longrightarrow> v \<le> NEWFS_ROUND_UP v r" "0 < r \<Longrightarrow> NEWFS_ROUND_UP v r < v + r" "0 < r \<Longrightarrow> r dvd NEWFS_ROUND_UP v r"
proof -
  assume r: "0 < r"
  have v: "v = v div r * r + v mod r" by simp
  have m: "0 \<le> v mod r" "v mod r < r" using r by simp_all
  have e: "(v div r + 1) * r = v div r * r + r" by (simp add: algebra_simps)
  show "v \<le> NEWFS_ROUND_UP v r" "NEWFS_ROUND_UP v r < v + r"
    using v m r unfolding NEWFS_ROUND_UP_def e by (auto split: if_splits; linarith)+
  show "r dvd NEWFS_ROUND_UP v r" by (auto simp: NEWFS_ROUND_UP_def dvd_eq_mod_eq_0)
qed

lemma NEWFS_BLKS_SZ_props:
  assumes "0 < io"
  shows "0 < NEWFS_BLKS_SZ io" "io dvd NEWFS_BLKS_SZ io"
  using NEWFS_ROUND_UP_bounds(1,3) [OF assms, of NEWFS_BLOCK_SIZE]
  by (simp_all add: NEWFS_BLKS_SZ_def NEWFS_BLOCK_SIZE_def)

section \<open>Slices\<close>

lemma length_slice [simp]: "length (dslice c a n) = n"
  by (simp add: dslice_def)

lemma nth_slice: "k < n \<Longrightarrow> dslice c a n ! k = c (a + int k)"
  by (simp add: dslice_def)

lemma slice_append: "dslice c a (m + n) = dslice c a m @ dslice c (a + int m) n"
  by (rule nth_equalityI) (auto simp: nth_slice nth_append algebra_simps of_nat_diff)

lemma take_slice: "m \<le> n \<Longrightarrow> take m (dslice c a n) = dslice c a m"
  by (rule nth_equalityI) (auto simp: nth_slice)

lemma drop_slice: "drop m (dslice c a n) = dslice c (a + int m) (n - m)"
  by (rule nth_equalityI) (auto simp: nth_slice algebra_simps)

lemma slice_splice_same: "dslice (dsplice c a bs) a (length bs) = bs"
  by (rule nth_equalityI) (auto simp: nth_slice dsplice_def)

lemma slice_splice_other:
  assumes "b + int n \<le> a \<or> a + int (length bs) \<le> b"
  shows "dslice (dsplice c a bs) b n = dslice c b n"
  using assms by (intro nth_equalityI) (auto simp: nth_slice dsplice_def)

lemma splice_append: "dsplice (dsplice c a bs) (a + int (length bs)) bs' = dsplice c a (bs @ bs')"
  by (rule ext) (auto simp: dsplice_def nth_append nat_diff_distrib' algebra_simps nat_less_iff
      intro!: arg_cong [of _ _ "(!) bs'"])

lemma splice_Nil [simp]: "dsplice c a [] = c"
  by (rule ext) (auto simp: dsplice_def)

section \<open>Byte access to the device\<close>

lemma ddriver_okD:
  assumes "ddriver_ok D io sz c pos"
  shows "0 < io"
    "0 \<le> p \<Longrightarrow> p \<le> sz \<Longrightarrow> io dvd p \<Longrightarrow> c (ddriver_seek D p d) = c d \<and> pos (ddriver_seek D p d) = p"
    "0 \<le> pos d \<Longrightarrow> pos d + io \<le> sz \<Longrightarrow>
      \<exists>d'. ddriver_read D io d = (dslice (c d) (pos d) (nat io), d') \<and> c d' = c d \<and> pos d' = pos d + io"
    "0 \<le> pos d \<Longrightarrow> pos d + io \<le> sz \<Longrightarrow> length bs = nat io \<Longrightarrow>
      c (ddriver_write D bs d) = dsplice (c d) (pos d) bs \<and> pos (ddriver_write D bs d) = pos d + io"
  using assms by (simp_all add: ddriver_ok_def)

lemma driver_read_loop_reads:
  assumes D: "ddriver_ok D io sz c pos"
  shows "0 \<le> pos d \<Longrightarrow> pos d + io * int k \<le> sz \<Longrightarrow>
    \<exists>d'. driver_read_loop D io (io * int k) cur d = Some (cur @ dslice (c d) (pos d) (nat io * k), d') \<and> c d' = c d"
proof (induction k arbitrary: cur d)
  case 0
  then show ?case by (simp add: driver_read_loop.simps dslice_def)
next
  case (Suc k)
  note io = ddriver_okD(1) [OF D]
  have k: "0 \<le> io * int k" using io by simp
  have sum: "io * int (Suc k) = io * int k + io" by (simp add: algebra_simps)
  obtain d1 where d1: "ddriver_read D io d = (dslice (c d) (pos d) (nat io), d1)" "c d1 = c d" "pos d1 = pos d + io"
    using ddriver_okD(3) [OF D, of d] Suc.prems k sum by auto
  obtain d' where d': "driver_read_loop D io (io * int k) (cur @ dslice (c d) (pos d) (nat io)) d1 =
      Some ((cur @ dslice (c d) (pos d) (nat io)) @ dslice (c d1) (pos d1) (nat io * k), d')" "c d' = c d1"
    using Suc.IH [of d1 "cur @ dslice (c d) (pos d) (nat io)"] d1(3) Suc.prems io sum by auto
  have "io * int (Suc k) \<noteq> 0" "io * int (Suc k) - io = io * int k" using io k sum by linarith+
  then have "driver_read_loop D io (io * int (Suc k)) cur d =
      driver_read_loop D io (io * int k) (cur @ dslice (c d) (pos d) (nat io)) d1"
    by (subst driver_read_loop.simps) (simp add: d1(1) del: of_nat_Suc)
  moreover have "dslice (c d) (pos d) (nat io * Suc k) = dslice (c d) (pos d) (nat io) @ dslice (c d) (pos d + io) (nat io * k)"
    using slice_append [of "c d" "pos d" "nat io" "nat io * k"] io by simp
  ultimately show ?case using d' d1 by simp
qed

lemma driver_write_loop_writes:
  assumes D: "ddriver_ok D io sz c pos"
  shows "0 \<le> pos d \<Longrightarrow> pos d + io * int k \<le> sz \<Longrightarrow> length cur = nat io * k \<Longrightarrow>
    \<exists>d'. driver_write_loop D io (io * int k) cur d = Some d' \<and> c d' = dsplice (c d) (pos d) cur"
proof (induction k arbitrary: cur d)
  case 0
  then show ?case by (simp add: driver_write_loop.simps)
next
  case (Suc k)
  note io = ddriver_okD(1) [OF D]
  have k: "0 \<le> io * int k" using io by simp
  have sum: "io * int (Suc k) = io * int k + io" by (simp add: algebra_simps)
  let ?d1 = "ddriver_write D (take (nat io) cur) d"
  have len: "length (take (nat io) cur) = nat io" using Suc.prems(3) by simp
  have d1: "c ?d1 = dsplice (c d) (pos d) (take (nat io) cur)" "pos ?d1 = pos d + io"
    using ddriver_okD(4) [OF D, of d "take (nat io) cur"] Suc.prems k sum len by auto
  obtain d' where d': "driver_write_loop D io (io * int k) (drop (nat io) cur) ?d1 = Some d'"
      "c d' = dsplice (c ?d1) (pos ?d1) (drop (nat io) cur)"
    using Suc.IH [of ?d1 "drop (nat io) cur"] d1(2) Suc.prems io sum by auto
  have "io * int (Suc k) \<noteq> 0" "io * int (Suc k) - io = io * int k" using io k sum by linarith+
  then have "driver_write_loop D io (io * int (Suc k)) cur d =
      driver_write_loop D io (io * int k) (drop (nat io) cur) ?d1"
    by (subst driver_write_loop.simps) (simp del: of_nat_Suc)
  moreover have "c d' = dsplice (c d) (pos d) cur"
    using splice_append [of "c d" "pos d" "take (nat io) cur" "drop (nat io) cur"] d'(2) d1 io len by simp
  ultimately show ?case using d' by simp
qed

text \<open>The blocks around a range of bytes that lies on the disk lie on the disk.\<close>

lemma aligned_range:
  assumes "0 < r" "0 \<le> ofs" "0 \<le> n" "ofs + n \<le> sz" "r dvd sz"
  defines "a \<equiv> NEWFS_ROUND_DOWN ofs r"
  defines "s \<equiv> NEWFS_ROUND_UP (n + (ofs - a)) r"
  shows "0 \<le> a" "a \<le> ofs" "r dvd a" "r dvd s" "0 \<le> s" "n + (ofs - a) \<le> s" "a + s \<le> sz"
proof -
  show a: "0 \<le> a" "a \<le> ofs" "r dvd a" using NEWFS_ROUND_DOWN_bounds assms(1,2) by (auto simp: a_def)
  note s = NEWFS_ROUND_UP_bounds [OF assms(1), of "n + (ofs - a)", folded s_def]
  show "r dvd s" "n + (ofs - a) \<le> s" using s by auto
  then show "0 \<le> s" using assms(3) a(2) by simp
  have "a + s < sz + r" using s(2) assms(4) by simp
  moreover obtain u v where "a + s = r * u" "sz = r * v" using a(3) s(3) assms(5) by (metis dvd_add dvd_def)
  ultimately have "r * u < r * (v + 1)" by (simp add: algebra_simps)
  then have "u \<le> v" using assms(1) by simp
  then show "a + s \<le> sz" using \<open>a + s = r * u\<close> \<open>sz = r * v\<close> assms(1) by simp
qed

text \<open>
  Reading and writing a range of bytes on a device whose size is a multiple of the block size.
\<close>

lemma newfs_driver_read_bytes:
  assumes D: "ddriver_ok D io sz c pos" and r: "NEWFS_BLKS_SZ io dvd sz"
    and b: "0 \<le> ofs" "0 \<le> n" "ofs + n \<le> sz"
  shows "\<exists>d'. newfs_driver_read D io ofs n d = Some (dslice (c d) ofs (nat n), d') \<and> c d' = c d"
proof -
  note io = ddriver_okD(1) [OF D]
  let ?r = "NEWFS_BLKS_SZ io"
  define a where "a = NEWFS_ROUND_DOWN ofs ?r"
  define s where "s = NEWFS_ROUND_UP (n + (ofs - a)) ?r"
  note R = NEWFS_BLKS_SZ_props [OF io]
  note al = aligned_range [OF R(1) b r, folded a_def, folded s_def]
  have "io dvd a" "io dvd s" using al(3,4) R(2) dvd_trans by blast+
  then obtain k where k: "s = io * int k" using al(5) io
    by (metis dvd_def int_nat_eq nat_0_le zero_le_mult_iff less_imp_le mult_nonneg_nonneg order.strict_iff_order not_le mult_pos_neg)
  let ?d1 = "ddriver_seek D a d"
  have d1: "c ?d1 = c d" "pos ?d1 = a" using ddriver_okD(2) [OF D, of a d] al \<open>io dvd a\<close> by auto
  obtain d' where d': "driver_read_loop D io s [] ?d1 = Some (dslice (c d) a (nat io * k), d')" "c d' = c d"
    using driver_read_loop_reads [OF D, of ?d1 k "[]"] al d1 k by auto
  have "nat s = nat io * k" using k io by (simp add: nat_mult_distrib)
  then have "take (nat n) (drop (nat (ofs - a)) (dslice (c d) a (nat io * k))) = dslice (c d) ofs (nat n)"
    unfolding drop_slice using al(2,6) b(2) by (subst take_slice) auto
  then show ?thesis
    using d' unfolding newfs_driver_read_def Let_def a_def [symmetric] s_def [symmetric] by simp
qed

lemma splice_inside:
  assumes "a \<le> ofs" "ofs + int (length bs) \<le> a + int n"
  shows "dsplice c a (take (nat (ofs - a)) (dslice c a n) @ bs @ drop (nat (ofs - a) + length bs) (dslice c a n)) =
    dsplice c ofs bs"
proof
  fix x
  let ?b = "nat (ofs - a)"
  have len: "length (take ?b (dslice c a n)) = ?b" "length (drop (?b + length bs) (dslice c a n)) = n - (?b + length bs)"
    using assms by auto
  have tot: "?b + (length bs + (n - (?b + length bs))) = n" using assms by auto
  show "dsplice c a (take ?b (dslice c a n) @ bs @ drop (?b + length bs) (dslice c a n)) x = dsplice c ofs bs x"
  proof (cases "a \<le> x \<and> x < a + int n")
    case False
    then show ?thesis using assms len tot by (auto simp: dsplice_def)
  next
    case True
    define k where "k = nat (x - a)"
    have x: "x = a + int k" "k < n" using True by (auto simp: k_def)
    consider "k < ?b" | "?b \<le> k" "k < ?b + length bs" | "?b + length bs \<le> k" by linarith
    then show ?thesis
      using assms len tot x
      by cases (auto simp: dsplice_def nth_append nth_slice nat_diff_distrib' intro!: arg_cong [of _ _ "(!) bs"])
  qed
qed

lemma newfs_driver_write_bytes:
  assumes D: "ddriver_ok D io sz c pos" and r: "NEWFS_BLKS_SZ io dvd sz"
    and b: "0 \<le> ofs" "ofs + int (length bs) \<le> sz"
  shows "\<exists>d'. newfs_driver_write D io ofs bs d = Some d' \<and> c d' = dsplice (c d) ofs bs"
proof -
  note io = ddriver_okD(1) [OF D]
  let ?r = "NEWFS_BLKS_SZ io" and ?n = "int (length bs)"
  define a where "a = NEWFS_ROUND_DOWN ofs ?r"
  define s where "s = NEWFS_ROUND_UP (?n + (ofs - a)) ?r"
  note R = NEWFS_BLKS_SZ_props [OF io]
  note al = aligned_range [OF R(1) b(1) _ b(2) r, simplified, folded a_def, folded s_def]
  have "io dvd a" "io dvd s" using al(3,4) R(2) dvd_trans by blast+
  then obtain k where k: "s = io * int k" using al(5) io
    by (metis dvd_def int_nat_eq nat_0_le zero_le_mult_iff less_imp_le mult_nonneg_nonneg order.strict_iff_order not_le mult_pos_neg)
  obtain d1 where d1: "newfs_driver_read D io a s d = Some (dslice (c d) a (nat s), d1)" "c d1 = c d"
    using newfs_driver_read_bytes [OF D r al(1,5,7)] by blast
  let ?t = "take (nat (ofs - a)) (dslice (c d) a (nat s)) @ bs @ drop (nat (ofs - a) + length bs) (dslice (c d) a (nat s))"
  let ?d2 = "ddriver_seek D a d1"
  have d2: "c ?d2 = c d" "pos ?d2 = a" using ddriver_okD(2) [OF D, of a d1] d1(2) al \<open>io dvd a\<close> by auto
  have ns: "nat s = nat io * k" using k io by (simp add: nat_mult_distrib)
  have "length ?t = nat io * k" unfolding ns [symmetric] using al(2,5,6) by auto
  then obtain d' where d': "driver_write_loop D io s ?t ?d2 = Some d'" "c d' = dsplice (c d) a ?t"
    using driver_write_loop_writes [OF D, of ?d2 k ?t] d2 al k by auto
  have "dsplice (c d) a ?t = dsplice (c d) ofs bs" using al(2,5,6) by (intro splice_inside) auto
  then show ?thesis
    using d1(1) d' unfolding newfs_driver_write_def Let_def a_def [symmetric] s_def [symmetric] by simp
qed

end
