(* ===== verification/Newfs_State.thy ===== *)
theory Newfs_State
  imports Newfs_Disk "HOL-Library.Monad_Syntax"
begin

text \<open>
  In-memory state and disk format of the lab 5 file system (\<^verbatim>\<open>newfs.c\<close>, \<^verbatim>\<open>types.h\<close>). Dentries and inodes
  live in a heap: a pointer is the number of an object, \<open>None\<close> is NULL. A function returns \<open>None\<close> where
  the C code has no defined result: it does not return, follows a NULL or dangling pointer, or
  leaves an array. Bytes the code never initialises (padding, unset fields, fresh buffers) are
  what the parameter \<open>uninit\<close> of the state gives.
\<close>

section \<open>Data of types.h\<close>

datatype file_type = NEWFS_FILE | NEWFS_DIR | NEWFS_SYM_LINK

record dentry =
  fname :: string
  ftype :: file_type
  parent :: "nat option"
  brother :: "nat option"
  dino :: int
  dinode :: "nat option"
  valid :: int

record inode =
  ino :: int
  isize :: int
  dir_cnt :: int
  identry :: nat
  dentrys :: "nat option"
  data :: "u8 list option"

record 'd newfs =
  sz_io :: int
  sz_disk :: int
  sz_usage :: int
  driver_fd :: int
  max_ino :: int
  max_data :: int
  map_inode :: "u8 list"
  map_inode_blks :: int
  map_inode_offset :: int
  map_data :: "u8 list"
  map_data_blks :: int
  map_data_offset :: int
  inode_offset :: int
  data_offset :: int
  is_mounted :: bool
  root_dentry :: "nat option"
  dents :: "nat \<Rightarrow> dentry option"
  inodes :: "nat \<Rightarrow> inode option"
  fresh :: nat
  uninit :: "nat \<Rightarrow> u8 list"
  dev :: 'd

text \<open>The sizes of the C structures (64-bit pointers).\<close>

definition sizeof_dentry :: int where "sizeof_dentry = 176"
definition sizeof_dentry_d :: int where "sizeof_dentry_d = 140"
definition sizeof_inode_d :: int where "sizeof_inode_d = 32"
definition sizeof_super_d :: int where "sizeof_super_d = 52"

lemmas newfs_sizes = sizeof_dentry_def sizeof_dentry_d_def sizeof_inode_d_def sizeof_super_d_def

abbreviation ENOENT :: int where "ENOENT \<equiv> 2"
abbreviation EIO :: int where "EIO \<equiv> 5"
abbreviation ENXIO :: int where "ENXIO \<equiv> 6"
abbreviation EEXIST :: int where "EEXIST \<equiv> 17"
abbreviation EISDIR :: int where "EISDIR \<equiv> 21"
abbreviation ENOSPC :: int where "ENOSPC \<equiv> 28"
abbreviation ESPIPE :: int where "ESPIPE \<equiv> 29"

section \<open>Disk format\<close>

text \<open>A 32-bit \<^verbatim>\<open>int\<close> as four bytes, little endian.\<close>

definition enc_int :: "int \<Rightarrow> u8 list" where
  "enc_int n = (let w = word_of_int n :: u32 in
     [ucast w, ucast (drop_bit 8 w), ucast (drop_bit 16 w), ucast (drop_bit 24 w)])"

definition dec_int :: "u8 list \<Rightarrow> int" where
  "dec_int bs = sint (ucast (bs ! 0) OR push_bit 8 (ucast (bs ! 1)) OR push_bit 16 (ucast (bs ! 2))
     OR push_bit 24 (ucast (bs ! 3)) :: u32)"

definition int_at :: "nat \<Rightarrow> u8 list \<Rightarrow> int" where
  "int_at k bs = dec_int (take 4 (drop k bs))"

fun int_of_ftype :: "file_type \<Rightarrow> int" where
  "int_of_ftype NEWFS_FILE = 0"
| "int_of_ftype NEWFS_DIR = 1"
| "int_of_ftype NEWFS_SYM_LINK = 2"

definition ftype_of_int :: "int \<Rightarrow> file_type option" where
  "ftype_of_int n = (if n = 0 then Some NEWFS_FILE else if n = 1 then Some NEWFS_DIR
     else if n = 2 then Some NEWFS_SYM_LINK else None)"

definition byte_of_char :: "char \<Rightarrow> u8" where
  "byte_of_char c = of_nat (of_char c)"

definition char_of_byte :: "u8 \<Rightarrow> char" where
  "char_of_byte b = char_of (unat b)"

text \<open>The array \<^verbatim>\<open>fname\<close> of 128 bytes: the name, then zeros.\<close>

definition name_bytes :: "string \<Rightarrow> u8 list" where
  "name_bytes s = map byte_of_char s @ replicate (NEWFS_MAX_FILE_NAME - length s) 0"

text \<open>The C string in a buffer; \<open>None\<close> when the buffer has no terminating zero.\<close>

definition c_string :: "u8 list \<Rightarrow> string option" where
  "c_string bs = (if 0 \<in> set bs then Some (map char_of_byte (takeWhile (\<lambda>b. b \<noteq> 0) bs)) else None)"

text \<open>\<^verbatim>\<open>struct newfs_inode_d\<close>: \<^verbatim>\<open>ino, size, link, ftype, dir_cnt\<close>, padding, \<^verbatim>\<open>data\<close>.\<close>

definition enc_inode_d :: "(nat \<Rightarrow> u8 list) \<Rightarrow> int \<Rightarrow> int \<Rightarrow> file_type \<Rightarrow> int \<Rightarrow> u8 list" where
  "enc_inode_d U i sz ft cnt = enc_int i @ enc_int sz @ U 4 @ enc_int (int_of_ftype ft) @ enc_int cnt @ U 12"

text \<open>\<^verbatim>\<open>struct newfs_dentry_d\<close>: \<^verbatim>\<open>fname, ftype, ino, valid\<close>.\<close>

definition enc_dentry_d :: "(nat \<Rightarrow> u8 list) \<Rightarrow> string \<Rightarrow> file_type \<Rightarrow> int \<Rightarrow> u8 list" where
  "enc_dentry_d U nm ft i = name_bytes nm @ enc_int (int_of_ftype ft) @ enc_int i @ U 4"

section \<open>Bitmaps\<close>

text \<open>The inner loop over the bits of a byte from \<open>bit_cursor\<close> on, and the loop over the bytes.\<close>

function scan_byte :: "u8 \<Rightarrow> nat \<Rightarrow> nat option" where
  "scan_byte b bit_cursor =
     (if bit_cursor < 8 then
        if b AND push_bit bit_cursor 1 = 0 then Some bit_cursor else scan_byte b (bit_cursor + 1)
      else None)"
  by pat_completeness auto
termination by (relation "measure (\<lambda>(b, k). 8 - k)") auto

declare scan_byte.simps [simp del]

fun scan_map :: "u8 list \<Rightarrow> nat \<Rightarrow> nat option" where
  "scan_map [] cursor = None"
| "scan_map (b # bs) cursor =
     (case scan_byte b 0 of
        Some k \<Rightarrow> Some (cursor + k)
      | None \<Rightarrow> scan_map bs (cursor + 8))"

definition set_bit_at :: "u8 list \<Rightarrow> nat \<Rightarrow> u8 list" where
  "set_bit_at m k = m[k div 8 := m ! (k div 8) OR push_bit (k mod 8) 1]"

text \<open>
  Searching a map of \<open>limit\<close> bytes for a free bit and taking it: the position found, if any, and the
  map. Running past the end of the array has no defined result.
\<close>

definition take_bit_of :: "int \<Rightarrow> u8 list \<Rightarrow> (nat option \<times> u8 list) option" where
  "take_bit_of limit m =
     (case scan_map (take (nat limit) m) 0 of
        Some k \<Rightarrow> Some (Some k, set_bit_at m k)
      | None \<Rightarrow> if nat limit \<le> length m then Some (None, m) else None)"

section \<open>Dentries and inodes\<close>

definition newfs_get_fname :: "string \<Rightarrow> string option" where
  "newfs_get_fname path =
     (if CHR ''/'' \<in> set path then Some (rev (takeWhile (\<lambda>c. c \<noteq> CHR ''/'') (rev path))) else None)"

definition new_dentry :: "string \<Rightarrow> file_type \<Rightarrow> 'd newfs \<Rightarrow> (nat \<times> 'd newfs) option" where
  "new_dentry nm ft s =
     (if length nm > NEWFS_MAX_FILE_NAME then None
      else Some (fresh s,
        s\<lparr>dents := (dents s)(fresh s \<mapsto>
            \<lparr>fname = nm, ftype = ft, parent = None, brother = None, dino = -1, dinode = None, valid = 0\<rparr>),
          fresh := fresh s + 1\<rparr>))"

partial_function (option) get_dentry_from ::
    "('d newfs) \<Rightarrow> int \<Rightarrow> nat option \<Rightarrow> int \<Rightarrow> nat option option" where
  "get_dentry_from s dir cursor cnt =
     (case cursor of
        None \<Rightarrow> Some None
      | Some p \<Rightarrow>
          if dir = cnt then Some (Some p)
          else Option.bind (dents s p) (\<lambda>e. get_dentry_from s dir (brother e) (cnt + 1)))"

definition newfs_get_dentry :: "nat \<Rightarrow> int \<Rightarrow> 'd newfs \<Rightarrow> nat option option" where
  "newfs_get_dentry i dir s = Option.bind (inodes s i) (\<lambda>n. get_dentry_from s dir (dentrys n) 0)"

definition newfs_alloc_dentry :: "nat \<Rightarrow> nat \<Rightarrow> 'd newfs \<Rightarrow> (int \<times> 'd newfs) option" where
  "newfs_alloc_dentry ip dp s = do {
     i \<leftarrow> inodes s ip;
     d \<leftarrow> dents s dp;
     let s1 = (if dentrys i = None then s else s\<lparr>dents := (dents s)(dp \<mapsto> d\<lparr>brother := dentrys i\<rparr>)\<rparr>);
     let i1 = i\<lparr>dentrys := Some dp\<rparr>;
     let s2 = s1\<lparr>inodes := (inodes s1)(ip \<mapsto> i1)\<rparr>;
     let blks = NEWFS_BLKS_SZ (sz_io s2);
     (found, m) \<leftarrow>
       (if NEWFS_ROUND_UP (isize i1) blks \<noteq> NEWFS_ROUND_UP_sum (isize i1) sizeof_dentry blks
        then take_bit_of (map_data_blks s2 * blks) (map_data s2)
        else Some (None, map_data s2));
     let s3 = s2\<lparr>map_data := m\<rparr>;
     (case found of
        None \<Rightarrow> Some (- ENOSPC, s3)
      | Some k \<Rightarrow>
          if int k = max_data s3 then Some (- ENOSPC, s3)
          else
            let i2 = i1\<lparr>dir_cnt := dir_cnt i1 + 1, isize := isize i1 + sizeof_dentry\<rparr>
            in Some (dir_cnt i2, s3\<lparr>inodes := (inodes s3)(ip \<mapsto> i2)\<rparr>))
   }"

text \<open>\<open>Inl\<close>: the error number the function returns cast to a pointer.\<close>

definition newfs_alloc_inode :: "nat \<Rightarrow> 'd newfs \<Rightarrow> ((int + nat) \<times> 'd newfs) option" where
  "newfs_alloc_inode dp s = do {
     let blks = NEWFS_BLKS_SZ (sz_io s);
     (found, m) \<leftarrow> take_bit_of (map_inode_blks s * blks) (map_inode s);
     let s1 = s\<lparr>map_inode := m\<rparr>;
     (case found of
        None \<Rightarrow> Some (Inl (- ENOSPC), s1)
      | Some k \<Rightarrow>
          if int k = max_ino s1 then Some (Inl (- ENOSPC), s1)
          else do {
            d \<leftarrow> dents s1 dp;
            let ip = fresh s1;
            let i = \<lparr>ino = int k, isize = 0, dir_cnt = 0, identry = dp, dentrys = None,
                data = (if ftype d = NEWFS_FILE then Some (uninit s1 (nat (NEWFS_DATA_PER_FILE * blks))) else None)\<rparr>;
            Some (Inr ip,
              s1\<lparr>dents := (dents s1)(dp \<mapsto> d\<lparr>dinode := Some ip, dino := int k\<rparr>),
                inodes := (inodes s1)(ip \<mapsto> i), fresh := fresh s1 + 1\<rparr>)
          })
   }"

section \<open>Writing inodes to the disk\<close>

definition fs_write :: "'d ddriver \<Rightarrow> int \<Rightarrow> u8 list \<Rightarrow> 'd newfs \<Rightarrow> 'd newfs option" where
  "fs_write D ofs bs s = map_option (\<lambda>d. s\<lparr>dev := d\<rparr>) (newfs_driver_write D (sz_io s) ofs bs (dev s))"

definition fs_read :: "'d ddriver \<Rightarrow> int \<Rightarrow> int \<Rightarrow> 'd newfs \<Rightarrow> (u8 list \<times> 'd newfs) option" where
  "fs_read D ofs n s = map_option (\<lambda>(bs, d). (bs, s\<lparr>dev := d\<rparr>)) (newfs_driver_read D (sz_io s) ofs n (dev s))"

text \<open>
  \<^verbatim>\<open>newfs_sync_inode\<close> as two kinds of task: an inode, and the rest of the entries of a directory from a
  cursor and a disk offset on. The functions it calls never report an error, so it returns 0.
\<close>

datatype sync_task = Sync_inode nat | Sync_dentries "nat option" int

partial_function (option) newfs_sync :: "'d ddriver \<Rightarrow> sync_task \<Rightarrow> 'd newfs \<Rightarrow> 'd newfs option" where
  "newfs_sync D t s =
     (case t of
        Sync_inode ip \<Rightarrow> do {
          i \<leftarrow> inodes s ip;
          d \<leftarrow> dents s (identry i);
          s1 \<leftarrow> fs_write D (NEWFS_INO_OFS (ino i)) (enc_inode_d (uninit s) (ino i) (isize i) (ftype d) (dir_cnt i)) s;
          if ftype d = NEWFS_DIR then newfs_sync D (Sync_dentries (dentrys i) (NEWFS_DA_OFS (ino i))) s1
          else if ftype d = NEWFS_FILE then do {
            bs \<leftarrow> data i;
            let n = nat (NEWFS_ROUND_UP (isize i) (NEWFS_BLKS_SZ (sz_io s)));
            if n \<le> length bs then fs_write D (NEWFS_DA_OFS (ino i)) (take n bs) s1 else None
          }
          else Some s1
        }
      | Sync_dentries cursor offset \<Rightarrow>
          (case cursor of
             None \<Rightarrow> Some s
           | Some p \<Rightarrow> do {
               e \<leftarrow> dents s p;
               s1 \<leftarrow> fs_write D offset (enc_dentry_d (uninit s) (fname e) (ftype e) (dino e)) s;
               s2 \<leftarrow> (case dinode e of None \<Rightarrow> Some s1 | Some ip \<Rightarrow> newfs_sync D (Sync_inode ip) s1);
               newfs_sync D (Sync_dentries (brother e) (offset + sizeof_dentry_d)) s2
             }))"

definition newfs_sync_inode :: "'d ddriver \<Rightarrow> nat \<Rightarrow> 'd newfs \<Rightarrow> (int \<times> 'd newfs) option" where
  "newfs_sync_inode D ip s = map_option (\<lambda>s1. (0, s1)) (newfs_sync D (Sync_inode ip) s)"

section \<open>Reading inodes from the disk\<close>

text \<open>The loop over the \<open>n\<close> remaining entries of a directory, from entry \<open>k\<close> on.\<close>

primrec read_dentries :: "'d ddriver \<Rightarrow> nat \<Rightarrow> int \<Rightarrow> int \<Rightarrow> nat \<Rightarrow> nat \<Rightarrow> 'd newfs \<Rightarrow> 'd newfs option" where
  "read_dentries D 0 num k ip dp s = Some s"
| "read_dentries D (Suc n) num k ip dp s = do {
     (bs, s1) \<leftarrow> fs_read D (NEWFS_DA_OFS num + k * sizeof_dentry_d) sizeof_dentry_d s;
     nm \<leftarrow> c_string (take NEWFS_MAX_FILE_NAME bs);
     ft \<leftarrow> ftype_of_int (int_at 128 bs);
     (sub, s2) \<leftarrow> new_dentry nm ft s1;
     e \<leftarrow> dents s2 sub;
     let s3 = s2\<lparr>dents := (dents s2)(sub \<mapsto> e\<lparr>parent := Some dp, dino := int_at 132 bs\<rparr>)\<rparr>;
     (_, s4) \<leftarrow> newfs_alloc_dentry ip sub s3;
     read_dentries D n num (k + 1) ip dp s4
   }"

definition newfs_read_inode :: "'d ddriver \<Rightarrow> nat \<Rightarrow> int \<Rightarrow> 'd newfs \<Rightarrow> (nat \<times> 'd newfs) option" where
  "newfs_read_inode D dp num s = do {
     let ip = fresh s;
     (bs, s1) \<leftarrow> fs_read D (NEWFS_INO_OFS num) sizeof_inode_d (s\<lparr>fresh := fresh s + 1\<rparr>);
     d \<leftarrow> dents s1 dp;
     let i = \<lparr>ino = int_at 0 bs, isize = int_at 4 bs, dir_cnt = 0, identry = dp, dentrys = None, data = None\<rparr>;
     let s2 = s1\<lparr>inodes := (inodes s1)(ip \<mapsto> i)\<rparr>;
     if ftype d = NEWFS_DIR then do {
       s3 \<leftarrow> read_dentries D (nat (int_at 16 bs)) num 0 ip dp s2;
       Some (ip, s3)
     }
     else if ftype d = NEWFS_FILE then do {
       (bs1, s3) \<leftarrow> fs_read D (NEWFS_DA_OFS num) (NEWFS_DATA_PER_FILE * NEWFS_BLKS_SZ (sz_io s2)) s2;
       Some (ip, s3\<lparr>inodes := (inodes s3)(ip \<mapsto> i\<lparr>data := Some bs1\<rparr>)\<rparr>)
     }
     else Some (ip, s2)
   }"

end
