(* ===== verification/Newfs_Ops.thy ===== *)
theory Newfs_Ops
  imports Newfs_State
begin

text \<open>
  Path lookup and the FUSE operations of the lab 5 file system (\<^verbatim>\<open>newfs.c\<close>): mounting, unmounting,
  creating directories and files, attributes, directory listing, reading and writing. The copy
  of the path that \<^verbatim>\<open>newfs_lookup\<close> tokenises is modelled as complete, although its buffer is too short
  for it; \<^verbatim>\<open>is_find\<close> is \<open>None\<close> where the function returns without setting it.
\<close>

section \<open>Lookup\<close>

definition newfs_calc_lvl :: "string \<Rightarrow> nat" where
  "newfs_calc_lvl path = (if path = ''/'' then 0 else length (filter (\<lambda>c. c = CHR ''/'') path))"

text \<open>The tokens \<^verbatim>\<open>strtok(path, "/")\<close> yields.\<close>

fun strtok_slash :: "string \<Rightarrow> string \<Rightarrow> string list" where
  "strtok_slash [] cur = (if cur = [] then [] else [cur])"
| "strtok_slash (c # cs) cur =
     (if c = CHR ''/'' then (if cur = [] then strtok_slash cs [] else cur # strtok_slash cs [])
      else strtok_slash cs (cur @ [c]))"

text \<open>
  \<^verbatim>\<open>memcmp(dentry->fname, name, strlen(name)) == 0\<close>: the first bytes of the array of 128 are the name.
  Comparing more than 128 bytes runs past the array.
\<close>

definition name_hit :: "string \<Rightarrow> string \<Rightarrow> bool option" where
  "name_hit stored nm =
     (if length nm > NEWFS_MAX_FILE_NAME then None
      else Some (take (length nm) (name_bytes stored) = map byte_of_char nm))"

text \<open>The search of a directory: the dentry found, or NULL.\<close>

partial_function (option) find_dentry :: "('d newfs) \<Rightarrow> string \<Rightarrow> nat option \<Rightarrow> nat option option" where
  "find_dentry s nm cursor =
     (case cursor of
        None \<Rightarrow> Some None
      | Some p \<Rightarrow>
          Option.bind (dents s p) (\<lambda>e.
          Option.bind (name_hit (fname e) nm) (\<lambda>hit.
          if hit then Some (Some p) else find_dentry s nm (brother e))))"

text \<open>
  The loop of \<^verbatim>\<open>newfs_lookup\<close> over the remaining tokens, with \<^verbatim>\<open>lvl\<close> tokens already consumed. The result is
  \<^verbatim>\<open>dentry_ret\<close> (NULL if never set), \<^verbatim>\<open>is_find\<close>, and the state. An inode that is not in memory is read,
  but the pointer to it is dropped, and the NULL pointer is followed next.
\<close>

fun lookup_loop :: "'d ddriver \<Rightarrow> nat \<Rightarrow> string list \<Rightarrow> nat \<Rightarrow> nat option \<Rightarrow>
    nat option \<Rightarrow> bool option \<Rightarrow> 'd newfs \<Rightarrow> (nat option \<times> bool option \<times> 'd newfs) option" where
  "lookup_loop D total_lvl [] lvl cursor ret is_find s = Some (ret, is_find, s)"
| "lookup_loop D total_lvl (nm # nms) lvl cursor ret is_find s =
     (let lvl1 = lvl + 1 in do {
        p \<leftarrow> cursor;
        d \<leftarrow> dents s p;
        ip \<leftarrow> dinode d;
        i \<leftarrow> inodes s ip;
        di \<leftarrow> dents s (identry i);
        if ftype di = NEWFS_FILE \<and> lvl1 < total_lvl then Some (Some (identry i), is_find, s)
        else if ftype di = NEWFS_DIR then do {
          hit \<leftarrow> find_dentry s nm (dentrys i);
          (case hit of
             None \<Rightarrow> Some (Some (identry i), Some False, s)
           | Some q \<Rightarrow>
               if lvl1 = total_lvl then Some (Some q, Some True, s)
               else lookup_loop D total_lvl nms lvl1 (Some q) ret is_find s)
        }
        else lookup_loop D total_lvl nms lvl1 cursor ret is_find s
      })"

definition newfs_lookup :: "'d ddriver \<Rightarrow> string \<Rightarrow> 'd newfs \<Rightarrow> (nat \<times> bool option \<times> bool \<times> 'd newfs) option" where
  "newfs_lookup D path s = do {
     let total_lvl = newfs_calc_lvl path;
     let is_root = (total_lvl = 0);
     (ret, is_find, s1) \<leftarrow> lookup_loop D total_lvl (strtok_slash path []) 0 (root_dentry s)
        (if is_root then root_dentry s else None) (if is_root then Some True else None) s;
     dp \<leftarrow> ret;
     d \<leftarrow> dents s1 dp;
     (case dinode d of
        Some _ \<Rightarrow> Some (dp, is_find, is_root, s1)
      | None \<Rightarrow> do {
          (ip, s2) \<leftarrow> newfs_read_inode D dp (dino d) s1;
          d2 \<leftarrow> dents s2 dp;
          Some (dp, is_find, is_root, s2\<lparr>dents := (dents s2)(dp \<mapsto> d2\<lparr>dinode := Some ip\<rparr>)\<rparr>)
        })
   }"

text \<open>The type of the dentry an inode points back to, as \<^verbatim>\<open>NEWFS_IS_DIR\<close> and \<^verbatim>\<open>NEWFS_IS_REG\<close> read it.\<close>

definition inode_type :: "nat option \<Rightarrow> 'd newfs \<Rightarrow> file_type option" where
  "inode_type ip s = do { p \<leftarrow> ip; i \<leftarrow> inodes s p; d \<leftarrow> dents s (identry i); Some (ftype d) }"

section \<open>Mounting and unmounting\<close>

text \<open>The fields of \<^verbatim>\<open>struct newfs_super_d\<close> the code uses, at their offsets.\<close>

record super_d =
  magic_num :: int
  d_map_inode_blks :: int
  d_map_inode_offset :: int
  d_map_data_blks :: int
  d_map_data_offset :: int
  d_inode_offset :: int
  d_data_offset :: int
  d_sz_usage :: int

definition dec_super_d :: "u8 list \<Rightarrow> super_d" where
  "dec_super_d bs = \<lparr>magic_num = int_at 0 bs, d_map_inode_blks = int_at 24 bs, d_map_inode_offset = int_at 28 bs,
     d_map_data_blks = int_at 32 bs, d_map_data_offset = int_at 36 bs, d_inode_offset = int_at 40 bs,
     d_data_offset = int_at 44 bs, d_sz_usage = int_at 48 bs\<rparr>"

definition enc_super_d :: "(nat \<Rightarrow> u8 list) \<Rightarrow> super_d \<Rightarrow> u8 list" where
  "enc_super_d U x = enc_int (magic_num x) @ U 20 @ enc_int (d_map_inode_blks x) @ enc_int (d_map_inode_offset x)
     @ enc_int (d_map_data_blks x) @ enc_int (d_map_data_offset x) @ enc_int (d_inode_offset x)
     @ enc_int (d_data_offset x) @ enc_int (d_sz_usage x)"

text \<open>
  The result is the value of the \<^verbatim>\<open>void *\<close> the function returns: 0, or the negative descriptor when
  the device cannot be opened.
\<close>

definition newfs_init :: "'d ddriver \<Rightarrow> string \<Rightarrow> 'd newfs \<Rightarrow> (int \<times> 'd newfs) option" where
  "newfs_init D device s = do {
     let (fd, d0) = ddriver_open D device (dev s);
     if fd < 0 then Some (fd, s\<lparr>dev := d0\<rparr>)
     else do {
       let s1 = s\<lparr>driver_fd := fd, dev := d0, sz_disk := ddriver_size D d0, sz_io := ddriver_io_sz D d0\<rparr>;
       (rd, s2) \<leftarrow> new_dentry ''/'' NEWFS_DIR s1;
       (bs, s3) \<leftarrow> fs_read D NEWFS_SUPER_OFS sizeof_super_d s2;
       let sd0 = dec_super_d bs;
       let is_init = (magic_num sd0 \<noteq> NEWFS_MAGIC_NUM);
       let s4 = (if is_init then s3\<lparr>max_ino := NEWFS_INODE_NUM, max_data := NEWFS_DATA_NUM\<rparr> else s3);
       let sd = (if is_init then
           sd0\<lparr>d_map_inode_offset := NEWFS_MAP_INODE_OFS, d_map_data_offset := NEWFS_MAP_DATA_OFS,
             d_map_inode_blks := NEWFS_MAP_INODE_BLOCKS, d_map_data_blks := NEWFS_MAP_DATA_BLOCKS,
             d_inode_offset := NEWFS_INODE_OFS, d_data_offset := NEWFS_DATA_OFS, d_sz_usage := 0\<rparr> else sd0);
       let blks = NEWFS_BLKS_SZ (sz_io s4);
       let s5 = s4\<lparr>sz_usage := d_sz_usage sd, map_inode_blks := d_map_inode_blks sd,
         map_inode_offset := d_map_inode_offset sd, map_data_blks := d_map_data_blks sd,
         map_data_offset := d_map_data_offset sd\<rparr>;
       (mi, s6) \<leftarrow> fs_read D (d_map_inode_offset sd) (d_map_inode_blks sd * blks) s5;
       (md, s7) \<leftarrow> fs_read D (d_map_data_offset sd) (d_map_data_blks sd * blks) (s6\<lparr>map_inode := mi\<rparr>);
       let s8 = s7\<lparr>map_data := md\<rparr>;
       s9 \<leftarrow> (if is_init then do {
             (r, t) \<leftarrow> newfs_alloc_inode rd s8;
             (case r of Inl _ \<Rightarrow> None | Inr ip \<Rightarrow> do { (_, t1) \<leftarrow> newfs_sync_inode D ip t; Some t1 })
           } else Some s8);
       (ip, s10) \<leftarrow> newfs_read_inode D rd 0 s9;
       d \<leftarrow> dents s10 rd;
       Some (0, s10\<lparr>dents := (dents s10)(rd \<mapsto> d\<lparr>dinode := Some ip\<rparr>), root_dentry := Some rd, is_mounted := True\<rparr>)
     }
   }"

definition newfs_destroy :: "'d ddriver \<Rightarrow> 'd newfs \<Rightarrow> 'd newfs option" where
  "newfs_destroy D s =
     (if \<not> is_mounted s then Some s
      else do {
        rd \<leftarrow> root_dentry s;
        d \<leftarrow> dents s rd;
        ip \<leftarrow> dinode d;
        (_, s1) \<leftarrow> newfs_sync_inode D ip s;
        let sd = \<lparr>magic_num = NEWFS_MAGIC_NUM, d_map_inode_blks = map_inode_blks s1,
          d_map_inode_offset = map_inode_offset s1, d_map_data_blks = map_data_blks s1,
          d_map_data_offset = map_data_offset s1, d_inode_offset = inode_offset s1,
          d_data_offset = data_offset s1, d_sz_usage = sz_usage s1\<rparr>;
        let blks = NEWFS_BLKS_SZ (sz_io s1);
        s2 \<leftarrow> fs_write D NEWFS_SUPER_OFS (enc_super_d (uninit s1) sd) s1;
        s3 \<leftarrow> fs_write D (d_map_inode_offset sd) (take (nat (d_map_inode_blks sd * blks)) (map_inode s2)) s2;
        s4 \<leftarrow> fs_write D (d_map_data_offset sd) (take (nat (d_map_data_blks sd * blks)) (map_data s3)) s3;
        Some (s4\<lparr>map_inode := [], map_data := [], dev := ddriver_close D (dev s4)\<rparr>)
      })"

section \<open>Creating\<close>

definition newfs_mkdir :: "'d ddriver \<Rightarrow> string \<Rightarrow> 'd newfs \<Rightarrow> (int \<times> 'd newfs) option" where
  "newfs_mkdir D path s = do {
     (last_dentry, is_find, _, s1) \<leftarrow> newfs_lookup D path s;
     found \<leftarrow> is_find;
     if found then Some (- EEXIST, s1)
     else do {
       ld \<leftarrow> dents s1 last_dentry;
       t \<leftarrow> inode_type (dinode ld) s1;
       if t = NEWFS_FILE then Some (- ENXIO, s1)
       else do {
         nm \<leftarrow> newfs_get_fname path;
         (dp, s2) \<leftarrow> new_dentry nm NEWFS_DIR s1;
         d \<leftarrow> dents s2 dp;
         let s3 = s2\<lparr>dents := (dents s2)(dp \<mapsto> d\<lparr>parent := Some last_dentry\<rparr>)\<rparr>;
         (_, s4) \<leftarrow> newfs_alloc_inode dp s3;
         ld4 \<leftarrow> dents s4 last_dentry;
         lip \<leftarrow> dinode ld4;
         (_, s5) \<leftarrow> newfs_alloc_dentry lip dp s4;
         Some (0, s5)
       }
     }
   }"

text \<open>The \<^verbatim>\<open>S_ISREG\<close> and \<^verbatim>\<open>S_ISDIR\<close> tests of \<^verbatim>\<open>mode\<close>; for any other mode \<^verbatim>\<open>dentry\<close> is not initialised.\<close>

datatype mknod_mode = S_REG | S_DIR | S_OTHER

definition newfs_mknod :: "'d ddriver \<Rightarrow> string \<Rightarrow> mknod_mode \<Rightarrow> 'd newfs \<Rightarrow> (int \<times> 'd newfs) option" where
  "newfs_mknod D path mode s = do {
     (last_dentry, is_find, _, s1) \<leftarrow> newfs_lookup D path s;
     found \<leftarrow> is_find;
     if found then Some (- EEXIST, s1)
     else do {
       nm \<leftarrow> newfs_get_fname path;
       ft \<leftarrow> (case mode of S_REG \<Rightarrow> Some NEWFS_FILE | S_DIR \<Rightarrow> Some NEWFS_DIR | S_OTHER \<Rightarrow> None);
       (dp, s2) \<leftarrow> new_dentry nm ft s1;
       d \<leftarrow> dents s2 dp;
       let s3 = s2\<lparr>dents := (dents s2)(dp \<mapsto> d\<lparr>parent := Some last_dentry\<rparr>)\<rparr>;
       (_, s4) \<leftarrow> newfs_alloc_inode dp s3;
       ld4 \<leftarrow> dents s4 last_dentry;
       lip \<leftarrow> dinode ld4;
       (_, s5) \<leftarrow> newfs_alloc_dentry lip dp s4;
       Some (0, s5)
     }
   }"

section \<open>Attributes and listing\<close>

text \<open>The fields of \<^verbatim>\<open>struct stat\<close> the file system itself determines.\<close>

record stat =
  st_mode :: int
  st_size :: int
  st_nlink :: int
  st_blksize :: int
  st_blocks :: int

definition NEWFS_DEFAULT_PERM :: int where "NEWFS_DEFAULT_PERM = 511"
definition S_IFDIR :: int where "S_IFDIR = 16384"
definition S_IFREG :: int where "S_IFREG = 32768"
definition S_IFLNK :: int where "S_IFLNK = 40960"

definition newfs_getattr :: "'d ddriver \<Rightarrow> string \<Rightarrow> stat \<Rightarrow> 'd newfs \<Rightarrow> (int \<times> stat \<times> 'd newfs) option" where
  "newfs_getattr D path st s = do {
     (dp, is_find, is_root, s1) \<leftarrow> newfs_lookup D path s;
     found \<leftarrow> is_find;
     if \<not> found then Some (- ENOENT, st, s1)
     else do {
       d \<leftarrow> dents s1 dp;
       ip \<leftarrow> dinode d;
       i \<leftarrow> inodes s1 ip;
       t \<leftarrow> inode_type (dinode d) s1;
       let st1 = (case t of
           NEWFS_DIR \<Rightarrow> st\<lparr>st_mode := S_IFDIR OR NEWFS_DEFAULT_PERM, st_size := dir_cnt i * sizeof_dentry_d\<rparr>
         | NEWFS_FILE \<Rightarrow> st\<lparr>st_mode := S_IFREG OR NEWFS_DEFAULT_PERM, st_size := isize i\<rparr>
         | NEWFS_SYM_LINK \<Rightarrow> st\<lparr>st_mode := S_IFLNK OR NEWFS_DEFAULT_PERM, st_size := isize i\<rparr>);
       let st2 = st1\<lparr>st_nlink := 1, st_blksize := NEWFS_BLKS_SZ (sz_io s1)\<rparr>;
       let st3 = (if is_root then
           st2\<lparr>st_size := sz_usage s1, st_blocks := sz_disk s1 div NEWFS_BLKS_SZ (sz_io s1), st_nlink := 2\<rparr>
         else st2);
       Some (0, st3, s1)
     }
   }"

text \<open>\<^verbatim>\<open>newfs_readdir\<close>: the arguments of the call of \<^verbatim>\<open>filler\<close>, if there is one.\<close>

definition newfs_readdir :: "'d ddriver \<Rightarrow> string \<Rightarrow> int \<Rightarrow> 'd newfs \<Rightarrow>
    (int \<times> (string \<times> int) option \<times> 'd newfs) option" where
  "newfs_readdir D path offset s = do {
     (dp, is_find, _, s1) \<leftarrow> newfs_lookup D path s;
     found \<leftarrow> is_find;
     if found then do {
       d \<leftarrow> dents s1 dp;
       ip \<leftarrow> dinode d;
       sub \<leftarrow> newfs_get_dentry ip offset s1;
       (case sub of
          None \<Rightarrow> Some (0, None, s1)
        | Some q \<Rightarrow> do { e \<leftarrow> dents s1 q; Some (0, Some (fname e, offset + 1), s1) })
     }
     else Some (- ENOENT, None, s1)
   }"

section \<open>Reading and writing\<close>

definition newfs_write :: "'d ddriver \<Rightarrow> string \<Rightarrow> u8 list \<Rightarrow> int \<Rightarrow> 'd newfs \<Rightarrow> (int \<times> 'd newfs) option" where
  "newfs_write D path buf offset s = do {
     (dp, is_find, _, s1) \<leftarrow> newfs_lookup D path s;
     found \<leftarrow> is_find;
     if \<not> found then Some (- ENOENT, s1)
     else do {
       d \<leftarrow> dents s1 dp;
       ip \<leftarrow> dinode d;
       i \<leftarrow> inodes s1 ip;
       t \<leftarrow> inode_type (dinode d) s1;
       if t = NEWFS_DIR then Some (- EISDIR, s1)
       else if isize i < offset then Some (- ESPIPE, s1)
       else do {
         bs \<leftarrow> data i;
         let n = length buf;
         if offset < 0 \<or> nat offset + n > length bs then None
         else do {
           let bs1 = take (nat offset) bs @ buf @ drop (nat offset + n) bs;
           let sz = (if offset + int n > isize i then offset + int n else isize i);
           Some (int n, s1\<lparr>inodes := (inodes s1)(ip \<mapsto> i\<lparr>data := Some bs1, isize := sz\<rparr>)\<rparr>)
         }
       }
     }
   }"

definition newfs_read :: "'d ddriver \<Rightarrow> string \<Rightarrow> nat \<Rightarrow> int \<Rightarrow> 'd newfs \<Rightarrow> (int \<times> u8 list \<times> 'd newfs) option" where
  "newfs_read D path n offset s = do {
     (dp, is_find, _, s1) \<leftarrow> newfs_lookup D path s;
     found \<leftarrow> is_find;
     if \<not> found then Some (- ENOENT, [], s1)
     else do {
       d \<leftarrow> dents s1 dp;
       ip \<leftarrow> dinode d;
       i \<leftarrow> inodes s1 ip;
       t \<leftarrow> inode_type (dinode d) s1;
       if t = NEWFS_DIR then Some (- EISDIR, [], s1)
       else if isize i < offset then Some (- ESPIPE, [], s1)
       else do {
         bs \<leftarrow> data i;
         if offset < 0 \<or> nat offset + n > length bs then None
         else Some (int n, take n (drop (nat offset) bs), s1)
       }
     }
   }"

text \<open>The remaining operations do nothing and report success.\<close>

definition newfs_utimens :: "string \<Rightarrow> 'd newfs \<Rightarrow> int \<times> 'd newfs" where "newfs_utimens path s = (0, s)"
definition newfs_unlink :: "string \<Rightarrow> 'd newfs \<Rightarrow> int \<times> 'd newfs" where "newfs_unlink path s = (0, s)"
definition newfs_rmdir :: "string \<Rightarrow> 'd newfs \<Rightarrow> int \<times> 'd newfs" where "newfs_rmdir path s = (0, s)"
definition newfs_rename :: "string \<Rightarrow> string \<Rightarrow> 'd newfs \<Rightarrow> int \<times> 'd newfs" where "newfs_rename from to s = (0, s)"
definition newfs_open :: "string \<Rightarrow> 'd newfs \<Rightarrow> int \<times> 'd newfs" where "newfs_open path s = (0, s)"
definition newfs_opendir :: "string \<Rightarrow> 'd newfs \<Rightarrow> int \<times> 'd newfs" where "newfs_opendir path s = (0, s)"
definition newfs_truncate :: "string \<Rightarrow> int \<Rightarrow> 'd newfs \<Rightarrow> int \<times> 'd newfs" where "newfs_truncate path offset s = (0, s)"
definition newfs_access :: "string \<Rightarrow> int \<Rightarrow> 'd newfs \<Rightarrow> int \<times> 'd newfs" where "newfs_access path type s = (0, s)"

end
