(* ===== verification/First_Fit.thy ===== *)
theory First_Fit
  imports Prelude
begin

text \<open>
  The contract of an allocator that always takes the lowest free number: the bitmaps of newfs and the table of file descriptors
  keep it. \<open>alloc x s\<close> puts \<open>x\<close> into the lowest free place of \<open>s\<close>.
\<close>

text \<open>Several allocations in a row; \<open>None\<close> when one of them finds no free place.\<close>

fun allocs :: "('x \<Rightarrow> 's \<Rightarrow> (nat \<times> 's) option) \<Rightarrow> 'x list \<Rightarrow> 's \<Rightarrow> (nat list \<times> 's) option" where
  "allocs alloc [] s = Some ([], s)"
| "allocs alloc (x # xs) s =
     (case alloc x s of
        None \<Rightarrow> None
      | Some (k, s1) \<Rightarrow> map_option (\<lambda>(ks, s2). (k # ks, s2)) (allocs alloc xs s1))"

locale first_fit =
  fixes alloc :: "'x \<Rightarrow> 's \<Rightarrow> (nat \<times> 's) option"
    and free :: "'s \<Rightarrow> nat set"
    and valid :: "'x \<Rightarrow> bool"
  assumes finite_free: "finite (free s)"
    and alloc_Some: "valid x \<Longrightarrow> alloc x s = Some (k, s') \<Longrightarrow> k \<in> free s \<and> (\<forall>j\<in>free s. k \<le> j) \<and> free s' = free s - {k}"
    and alloc_None: "alloc x s = None \<longleftrightarrow> free s = {}"
begin

lemma alloc_Min: "valid x \<Longrightarrow> alloc x s = Some (k, s') \<Longrightarrow> k = Min (free s) \<and> free s' = free s - {Min (free s)}"
  using alloc_Some [of x s k s'] Min_eqI [OF finite_free, of s k] by auto

lemma sorted_free: "free s \<noteq> {} \<Longrightarrow> sorted_list_of_set (free s) = Min (free s) # sorted_list_of_set (free s - {Min (free s)})"
  by (rule sorted_list_of_set_nonempty [OF finite_free])

text \<open>They all succeed exactly when there are enough free numbers, and they take the lowest ones in ascending order.\<close>

lemma allocs_lowest:
  assumes "\<forall>x\<in>set xs. valid x"
  shows "case allocs alloc xs s of
      None \<Rightarrow> card (free s) < length xs
    | Some (ks, s') \<Rightarrow> ks = take (length xs) (sorted_list_of_set (free s)) \<and> length ks = length xs \<and> free s' = free s - set ks"
  using assms
proof (induction xs arbitrary: s)
  case (Cons x xs)
  show ?case
  proof (cases "alloc x s")
    case None
    moreover from this have "free s = {}" by (simp add: alloc_None)
    ultimately show ?thesis by simp
  next
    case (Some r)
    obtain k s1 where r: "r = (k, s1)" by fastforce
    have k: "k = Min (free s)" "free s1 = free s - {Min (free s)}" using alloc_Min [of x s k s1] Cons.prems Some r by auto
    have ne: "free s \<noteq> {}" using Some alloc_None [of x s] by auto
    have card: "card (free s1) = card (free s) - 1" "0 < card (free s)" using k ne finite_free [of s] by (simp_all add: card_gt_0_iff)
    show ?thesis
    proof (cases "allocs alloc xs s1")
      case None
      then have "card (free s1) < length xs" using Cons.IH [of s1] Cons.prems by simp
      then show ?thesis using None Some r card by simp
    next
      case (Some q)
      then show ?thesis using Cons.IH [of s1] Cons.prems \<open>alloc x s = Some r\<close> r k sorted_free [OF ne] by (cases q) auto
    qed
  qed
qed simp

end

end
