(* ===== verification/Newfs_Bitmap.thy ===== *)
theory Newfs_Bitmap
  imports Newfs_Ops First_Fit
begin

text \<open>
  The allocation of bits in the inode and data bitmaps, the list of entries of a directory, and
  what \<^verbatim>\<open>newfs_alloc_inode\<close> and \<^verbatim>\<open>newfs_alloc_dentry\<close> do to them.
\<close>

section \<open>Free bits\<close>

definition bit_used :: "u8 list \<Rightarrow> nat \<Rightarrow> bool" where
  "bit_used m k \<longleftrightarrow> bit (m ! (k div 8)) (k mod 8)"

lemma bit_pow: "bit (2 ^ k :: u8) n \<longleftrightarrow> k < 8 \<and> n = k"
  by (auto simp: bit_exp_iff)

lemma and_push_bit_1: "(b AND 2 ^ k = 0) \<longleftrightarrow> \<not> bit b k" if "k < 8" for b :: u8
proof -
  have "b AND 2 ^ k = (if bit b k then 2 ^ k else 0)"
    by (rule bit_word_eqI) (auto simp: bit_and_iff bit_pow)
  moreover have "2 ^ k \<noteq> (0 :: u8)" using that by simp
  ultimately show ?thesis by auto
qed

lemma scan_byte_eq:
  "k \<le> 8 \<Longrightarrow> scan_byte b k = (if \<exists>j\<in>{k..<8}. \<not> bit b j then Some (LEAST j. k \<le> j \<and> \<not> bit b j) else None)"
proof (induction "8 - k" arbitrary: k)
  case 0
  then show ?case by (simp add: scan_byte.simps)
next
  case (Suc n)
  then have k: "k < 8" by simp
  show ?case
  proof (cases "bit b k")
    case False
    then have "(LEAST j. k \<le> j \<and> \<not> bit b j) = k" by (intro Least_equality) auto
    moreover have "scan_byte b k = Some k" using k False by (subst scan_byte.simps) (simp add: and_push_bit_1)
    ultimately show ?thesis using k False by auto
  next
    case True
    have "scan_byte b k = scan_byte b (Suc k)" using k True by (subst scan_byte.simps) (simp add: and_push_bit_1)
    moreover have "(k \<le> j \<and> \<not> bit b j) \<longleftrightarrow> (Suc k \<le> j \<and> \<not> bit b j)" for j using True le_eq_less_or_eq by auto
    moreover have "(\<exists>j\<in>{k..<8}. \<not> bit b j) \<longleftrightarrow> (\<exists>j\<in>{Suc k..<8}. \<not> bit b j)"
    proof -
      have "{k..<8} = insert k {Suc k..<8}" using k by auto
      then show ?thesis using True by simp
    qed
    ultimately show ?thesis using Suc by simp
  qed
qed

lemma scan_byte_Some:
  assumes "scan_byte b 0 = Some k"
  shows "k < 8" "\<not> bit b k" "\<And>j. j < k \<Longrightarrow> bit b j"
proof -
  obtain j where j: "j < 8" "\<not> bit b j" and k: "k = (LEAST j. \<not> bit b j)"
    using assms by (auto simp: scan_byte_eq split: if_splits)
  show "\<not> bit b k" unfolding k using j(2) by (rule LeastI)
  have "k \<le> j" unfolding k using j(2) by (rule Least_le)
  then show "k < 8" using j(1) by simp
  show "bit b i" if "i < k" for i using not_less_Least that unfolding k by blast
qed

lemma scan_byte_None: "scan_byte b 0 = None \<Longrightarrow> j < 8 \<Longrightarrow> bit b j"
  by (auto simp: scan_byte_eq split: if_splits)

lemma bit_used_Cons: "bit_used (b # m) k = (if k < 8 then bit b k else bit_used m (k - 8))"
proof (cases "k < 8")
  case False
  then have "k div 8 = Suc ((k - 8) div 8)" "(k - 8) mod 8 = k mod 8" by (simp_all add: le_div_geq le_mod_geq)
  then show ?thesis using False by (simp add: bit_used_def)
qed (simp add: bit_used_def)

lemma scan_map_eq:
  "case scan_map m c of
     Some k \<Rightarrow> \<exists>j. k = c + j \<and> j < 8 * length m \<and> \<not> bit_used m j \<and> (\<forall>i<j. bit_used m i)
   | None \<Rightarrow> \<forall>i<8 * length m. bit_used m i"
proof (induction m arbitrary: c)
  case Nil
  then show ?case by simp
next
  case (Cons b m)
  show ?case
  proof (cases "scan_byte b 0")
    case (Some k)
    then show ?thesis using scan_byte_Some [OF Some] by (auto simp: bit_used_Cons)
  next
    case None
    note low = scan_byte_None [OF None]
    show ?thesis
    proof (cases "scan_map m (c + 8)")
      case (Some k)
      then obtain j where j: "k = c + 8 + j" "j < 8 * length m" "\<not> bit_used m j" "\<forall>i<j. bit_used m i"
        using Cons.IH [of "c + 8"] by auto
      then have "\<exists>j. k = c + j \<and> j < 8 * length (b # m) \<and> \<not> bit_used (b # m) j \<and> (\<forall>i<j. bit_used (b # m) i)"
        using low by (intro exI [of _ "8 + j"]) (auto simp: bit_used_Cons)
      then show ?thesis using Some None by simp
    next
      case n: None
      then show ?thesis using Cons.IH [of "c + 8"] None low by (auto simp: bit_used_Cons)
    qed
  qed
qed

lemma bit_used_set:
  assumes "k < 8 * length m"
  shows "bit_used (set_bit_at m k) j \<longleftrightarrow> j = k \<or> bit_used m j"
proof -
  have k: "k div 8 < length m" using assms by (simp add: div_less_iff_less_mult mult.commute)
  have jk: "j div 8 = k div 8 \<and> j mod 8 = k mod 8 \<longleftrightarrow> j = k" by (metis div_mult_mod_eq)
  have "bit (push_bit (k mod 8) 1 :: u8) (j mod 8) \<longleftrightarrow> j mod 8 = k mod 8"
    by (auto simp: bit_pow)
  then show ?thesis using k jk by (auto simp: bit_used_def set_bit_at_def nth_list_update bit_or_iff)
qed

lemma length_set_bit_at [simp]: "length (set_bit_at m k) = length m"
  by (simp add: set_bit_at_def)

text \<open>Taking a bit: the lowest free one is taken, no other bit changes.\<close>

lemma take_bit_of_eq:
  assumes "length m = nat limit" "take_bit_of limit m = r"
  shows "\<exists>found m'. r = Some (found, m') \<and> length m' = length m \<and>
    (case found of
       Some k \<Rightarrow> k < 8 * length m \<and> \<not> bit_used m k \<and> (\<forall>i<k. bit_used m i) \<and> (\<forall>j. bit_used m' j \<longleftrightarrow> j = k \<or> bit_used m j)
     | None \<Rightarrow> m' = m \<and> (\<forall>i<8 * length m. bit_used m i))"
proof (cases "scan_map m 0")
  case None
  then show ?thesis using assms scan_map_eq [of m 0] by (auto simp: take_bit_of_def)
next
  case (Some k)
  then have k: "k < 8 * length m" "\<not> bit_used m k" "\<forall>i<k. bit_used m i" using scan_map_eq [of m 0] by auto
  then show ?thesis using assms Some by (auto simp: take_bit_of_def bit_used_set)
qed

text \<open>The bitmap of \<open>n\<close> bytes keeps the contract of \<open>first_fit\<close>.\<close>

definition bit_alloc :: "nat \<Rightarrow> unit \<Rightarrow> u8 list \<Rightarrow> (nat \<times> u8 list) option" where
  "bit_alloc n u m = (if length m = n then case take_bit_of (int n) m of Some (Some k, m') \<Rightarrow> Some (k, m') | _ \<Rightarrow> None else None)"

definition free_bits :: "nat \<Rightarrow> u8 list \<Rightarrow> nat set" where
  "free_bits n m = (if length m = n then {k. k < 8 * n \<and> \<not> bit_used m k} else {})"

interpretation bitmap: first_fit "bit_alloc n" "free_bits n" "\<lambda>_. True" for n
proof (unfold_locales, goal_cases)
  case 1
  then show ?case by (simp add: free_bits_def)
next
  case (2 x m k m')
  then have n: "length m = n" by (simp add: bit_alloc_def split: if_splits)
  have t: "take_bit_of (int n) m = Some (Some k, m')" using 2 n by (auto simp: bit_alloc_def split: option.splits)
  have "k < 8 * n \<and> \<not> bit_used m k \<and> (\<forall>i<k. bit_used m i) \<and> (\<forall>j. bit_used m' j \<longleftrightarrow> j = k \<or> bit_used m j) \<and> length m' = n"
    using take_bit_of_eq [of m "int n", OF _ t] n by auto
  then show ?case using n not_less by (auto simp: free_bits_def)
next
  case (3 x m)
  show ?case
  proof (cases "length m = n")
    case True
    then show ?thesis using take_bit_of_eq [of m "int n", OF _ refl] by (auto simp: bit_alloc_def free_bits_def split: option.splits)
  qed (simp add: bit_alloc_def free_bits_def)
qed

section \<open>The entries of a directory\<close>

primrec dlist :: "(nat \<Rightarrow> dentry option) \<Rightarrow> nat option \<Rightarrow> nat list \<Rightarrow> bool" where
  "dlist h c [] \<longleftrightarrow> c = None"
| "dlist h c (p # ps) \<longleftrightarrow> c = Some p \<and> (\<exists>e. h p = Some e \<and> dlist h (brother e) ps)"

lemma dlist_update: "p \<notin> set ps \<Longrightarrow> dlist (h(p := x)) c ps = dlist h c ps"
  by (induction ps arbitrary: c) auto

lemma dlist_cong: "(\<And>p. p \<in> set ps \<Longrightarrow> h' p = h p) \<Longrightarrow> dlist h' c ps = dlist h c ps"
  by (induction ps arbitrary: c) auto

text \<open>
  The condition under which \<^verbatim>\<open>newfs_alloc_dentry\<close> takes a data block holds for every size: the macro
  expands to \<^verbatim>\<open>(size + 176 / 1024 + 1) * 1024\<close>.
\<close>

lemma round_up_sum_differs:
  assumes "0 \<le> n" "176 < r"
  shows "NEWFS_ROUND_UP n r \<noteq> NEWFS_ROUND_UP_sum n sizeof_dentry r"
proof -
  have "NEWFS_ROUND_UP n r < n + r" using NEWFS_ROUND_UP_bounds(2) assms by simp
  moreover have "NEWFS_ROUND_UP_sum n sizeof_dentry r = n * r + r"
    using assms by (simp add: NEWFS_ROUND_UP_sum_def sizeof_dentry_def algebra_simps)
  moreover have "n * 1 \<le> n * r" using assms by (intro mult_left_mono) auto
  ultimately show ?thesis by simp
qed

section \<open>Properties\<close>


text \<open>A file system with one byte in each bitmap, a root dentry and its inode.\<close>

definition ex_fs :: "u8 \<Rightarrow> unit newfs" where
  "ex_fs b = \<lparr>sz_io = 512, sz_disk = 4194304, sz_usage = 0, driver_fd = 1, max_ino = 3968, max_data = 3968,
     map_inode = b # replicate 1023 0, map_inode_blks = 1, map_inode_offset = 1024,
     map_data = b # replicate 1023 0, map_data_blks = 1, map_data_offset = 2048, inode_offset = 3072,
     data_offset = 130048, is_mounted = True, root_dentry = Some 0,
     dents = [0 \<mapsto> \<lparr>fname = ''/'', ftype = NEWFS_DIR, parent = None, brother = None, dino = 0, dinode = Some 1, valid = 0\<rparr>,
       2 \<mapsto> \<lparr>fname = ''ab'', ftype = NEWFS_DIR, parent = Some 0, brother = None, dino = -1, dinode = None, valid = 0\<rparr>],
     inodes = [1 \<mapsto> \<lparr>ino = 0, isize = 0, dir_cnt = 0, identry = 0, dentrys = None, data = None\<rparr>],
     fresh = 3, uninit = (\<lambda>n. replicate n 0xEE), dev = ()\<rparr>"

lemma ex_blks [simp]: "NEWFS_BLKS_SZ 512 = 1024"
  by (simp add: NEWFS_BLKS_SZ_def NEWFS_ROUND_UP_def NEWFS_BLOCK_SIZE_def)

lemma ex_scan: "scan_byte 3 0 = Some 2"
  by (simp add: scan_byte.simps)

lemma ex_used:
  "bit_used (3 # m) 0" "bit_used (3 # m) 1" "\<not> bit_used (3 # m) 2"
  by (simp_all add: bit_used_def bit_iff_odd)




end
