(* ===== verification/Newfs_Sync.thy ===== *)
theory Newfs_Sync
  imports Newfs_Bitmap
begin

text \<open>
  Persistence of the lab 5 file system: \<^verbatim>\<open>newfs_sync_inode\<close> writes a whole tree of inodes to the disk,
  and \<^verbatim>\<open>newfs_read_inode\<close> reads back what was written.
\<close>

section \<open>Encodings\<close>

lemma length_enc_int [simp]: "length (enc_int n) = 4"
  by (simp add: enc_int_def Let_def)

lemma word32_bytes:
  "(ucast (ucast w :: u8) OR push_bit 8 (ucast (ucast (drop_bit 8 w) :: u8)) OR push_bit 16 (ucast (ucast (drop_bit 16 w) :: u8))
     OR push_bit 24 (ucast (ucast (drop_bit 24 w) :: u8)) :: u32) = w"
proof (rule bit_word_eqI)
  fix n assume n: "n < LENGTH(32)"
  consider "n < 8" | "8 \<le> n" "n < 16" | "16 \<le> n" "n < 24" | "24 \<le> n" "n < 32" using n by fastforce
  then show "bit (ucast (ucast w :: u8) OR push_bit 8 (ucast (ucast (drop_bit 8 w) :: u8)) OR push_bit 16 (ucast (ucast (drop_bit 16 w) :: u8))
     OR push_bit 24 (ucast (ucast (drop_bit 24 w) :: u8)) :: u32) n = bit w n"
    by cases (auto simp: bit_simps)
qed

lemma dec_enc_int: "- (2 ^ 31) \<le> n \<Longrightarrow> n < 2 ^ 31 \<Longrightarrow> dec_int (enc_int n) = n"
proof -
  assume n: "- (2 ^ 31) \<le> n" "n < 2 ^ 31"
  have "dec_int (enc_int n) = sint (word_of_int n :: u32)"
    unfolding dec_int_def enc_int_def Let_def using word32_bytes [of "word_of_int n"] by simp
  also have "\<dots> = n" using n by (simp add: signed_of_int signed_take_bit_int_eq_self)
  finally show ?thesis .
qed

lemma ftype_of_int_of_ftype [simp]: "ftype_of_int (int_of_ftype ft) = Some ft"
  by (cases ft) (simp_all add: ftype_of_int_def)

lemma int_of_ftype_range: "- (2 ^ 31) \<le> int_of_ftype ft" "int_of_ftype ft < 2 ^ 31"
  by (cases ft; simp)+

lemma char_of_byte_of_char [simp]: "char_of_byte (byte_of_char c) = c"
proof -
  have "of_char c < (256 :: nat)" by simp
  then have "unat (of_nat (of_char c) :: u8) = of_char c" by (simp add: unat_of_nat take_bit_nat_eq_self)
  then show ?thesis by (simp add: char_of_byte_def byte_of_char_def)
qed

lemma byte_of_char_0: "byte_of_char c = 0 \<longleftrightarrow> c = CHR 0x00"
proof
  assume "byte_of_char c = 0"
  then have "char_of_byte (byte_of_char c) = char_of_byte 0" by simp
  then show "c = CHR 0x00" by (simp only: char_of_byte_of_char) (simp add: char_of_byte_def char_of_def)
qed (simp add: byte_of_char_def)

definition name_ok :: "string \<Rightarrow> bool" where
  "name_ok nm \<longleftrightarrow> length nm < NEWFS_MAX_FILE_NAME \<and> CHR 0x00 \<notin> set nm"

lemma length_name_bytes: "name_ok nm \<Longrightarrow> length (name_bytes nm) = 128"
  by (simp add: name_ok_def name_bytes_def NEWFS_MAX_FILE_NAME_def)

lemma c_string_name_bytes: "name_ok nm \<Longrightarrow> c_string (name_bytes nm) = Some nm"
proof -
  assume nm: "name_ok nm"
  then obtain k where k: "NEWFS_MAX_FILE_NAME - length nm = Suc k"
    by (metis name_ok_def Suc_diff_Suc)
  have "\<forall>b\<in>set (map byte_of_char nm). b \<noteq> 0" using nm by (auto simp: name_ok_def byte_of_char_0)
  then have "takeWhile (\<lambda>b. b \<noteq> 0) (map byte_of_char nm @ 0 # replicate k 0) = map byte_of_char nm"
    by (subst takeWhile_append2) auto
  then show ?thesis by (simp add: c_string_def name_bytes_def k comp_def)
qed

definition uninit_ok :: "(nat \<Rightarrow> u8 list) \<Rightarrow> bool" where
  "uninit_ok U \<longleftrightarrow> (\<forall>n. length (U n) = n)"

lemma length_enc_inode_d: "uninit_ok U \<Longrightarrow> length (enc_inode_d U i sz ft cnt) = 32"
  by (simp add: enc_inode_d_def uninit_ok_def)

lemma length_enc_dentry_d: "uninit_ok U \<Longrightarrow> name_ok nm \<Longrightarrow> length (enc_dentry_d U nm ft i) = 140"
  by (simp add: enc_dentry_d_def uninit_ok_def length_name_bytes)

definition int32 :: "int \<Rightarrow> bool" where
  "int32 n \<longleftrightarrow> - (2 ^ 31) \<le> n \<and> n < 2 ^ 31"

lemma dec_inode_d:
  assumes "uninit_ok U" "int32 i" "int32 sz" "int32 cnt"
  shows "int_at 0 (enc_inode_d U i sz ft cnt) = i" "int_at 4 (enc_inode_d U i sz ft cnt) = sz"
    "int_at 16 (enc_inode_d U i sz ft cnt) = cnt"
proof -
  have U: "length (U 4) = 4" using assms(1) by (simp add: uninit_ok_def)
  show "int_at 0 (enc_inode_d U i sz ft cnt) = i" "int_at 4 (enc_inode_d U i sz ft cnt) = sz"
      "int_at 16 (enc_inode_d U i sz ft cnt) = cnt"
    using assms(2-4) by (simp_all add: int_at_def enc_inode_d_def U int32_def dec_enc_int)
qed

lemma dec_dentry_d:
  assumes "name_ok nm" "int32 i"
  shows "c_string (take NEWFS_MAX_FILE_NAME (enc_dentry_d U nm ft i)) = Some nm"
    "ftype_of_int (int_at 128 (enc_dentry_d U nm ft i)) = Some ft" "int_at 132 (enc_dentry_d U nm ft i) = i"
  using assms int_of_ftype_range [of ft]
  by (simp_all add: int_at_def enc_dentry_d_def length_name_bytes c_string_name_bytes NEWFS_MAX_FILE_NAME_def
      int32_def dec_enc_int)

section \<open>Trees of inodes\<close>

text \<open>
  The part of the file system that is in memory below an inode: a file with its buffer, a symbolic
  link, or a directory with its entries, each with or without an inode in memory.
\<close>

datatype tree = FileT int int int "u8 list" | LinkT int int int | DirT int int int ents
  and ents = NoEnt | Ent string file_type int ents | EntT string file_type int tree ents

definition has_inode :: "'d newfs \<Rightarrow> nat \<Rightarrow> inode \<Rightarrow> file_type \<Rightarrow> int \<Rightarrow> int \<Rightarrow> int \<Rightarrow> bool" where
  "has_inode s ip n ft i sz cnt \<longleftrightarrow> inodes s ip = Some n \<and> ino n = i \<and> isize n = sz \<and> dir_cnt n = cnt \<and>
     map_option ftype (dents s (identry n)) = Some ft"

primrec rep_tree :: "'d newfs \<Rightarrow> nat \<Rightarrow> tree \<Rightarrow> bool"
  and rep_ents :: "'d newfs \<Rightarrow> nat option \<Rightarrow> ents \<Rightarrow> bool" where
  "rep_tree s ip (FileT i sz cnt bs) \<longleftrightarrow> (\<exists>n. has_inode s ip n NEWFS_FILE i sz cnt \<and> data n = Some bs)"
| "rep_tree s ip (LinkT i sz cnt) \<longleftrightarrow> (\<exists>n. has_inode s ip n NEWFS_SYM_LINK i sz cnt)"
| "rep_tree s ip (DirT i sz cnt es) \<longleftrightarrow> (\<exists>n. has_inode s ip n NEWFS_DIR i sz cnt \<and> rep_ents s (dentrys n) es)"
| "rep_ents s c NoEnt \<longleftrightarrow> c = None"
| "rep_ents s c (Ent nm ft i es) \<longleftrightarrow> (\<exists>p e. c = Some p \<and> dents s p = Some e \<and> fname e = nm \<and> ftype e = ft \<and>
     dino e = i \<and> dinode e = None \<and> rep_ents s (brother e) es)"
| "rep_ents s c (EntT nm ft i t es) \<longleftrightarrow> (\<exists>p e ip. c = Some p \<and> dents s p = Some e \<and> fname e = nm \<and> ftype e = ft \<and>
     dino e = i \<and> dinode e = Some ip \<and> rep_tree s ip t \<and> rep_ents s (brother e) es)"

primrec ecount :: "ents \<Rightarrow> nat" where
  "ecount NoEnt = 0"
| "ecount (Ent nm ft i es) = Suc (ecount es)"
| "ecount (EntT nm ft i t es) = Suc (ecount es)"

text \<open>The inode numbers in memory, and the trees whose names, numbers and sizes fit the disk format.\<close>

primrec inos :: "tree \<Rightarrow> int list" and inos_ents :: "ents \<Rightarrow> int list" where
  "inos (FileT i sz cnt bs) = [i]"
| "inos (LinkT i sz cnt) = [i]"
| "inos (DirT i sz cnt es) = i # inos_ents es"
| "inos_ents NoEnt = []"
| "inos_ents (Ent nm ft i es) = inos_ents es"
| "inos_ents (EntT nm ft i t es) = inos t @ inos_ents es"

definition file_bytes :: "int \<Rightarrow> int \<Rightarrow> nat" where
  "file_bytes io sz = nat (NEWFS_ROUND_UP sz (NEWFS_BLKS_SZ io))"

primrec fits :: "int \<Rightarrow> tree \<Rightarrow> bool" and fits_ents :: "int \<Rightarrow> ents \<Rightarrow> bool" where
  "fits io (FileT i sz cnt bs) \<longleftrightarrow> file_bytes io sz \<le> length bs \<and> file_bytes io sz \<le> 8192"
| "fits io (LinkT i sz cnt) \<longleftrightarrow> True"
| "fits io (DirT i sz cnt es) \<longleftrightarrow> 140 * ecount es \<le> 8192 \<and> fits_ents io es"
| "fits_ents io NoEnt \<longleftrightarrow> True"
| "fits_ents io (Ent nm ft i es) \<longleftrightarrow> name_ok nm \<and> fits_ents io es"
| "fits_ents io (EntT nm ft i t es) \<longleftrightarrow> name_ok nm \<and> fits io t \<and> fits_ents io es"

text \<open>A disk that holds a tree.\<close>

primrec on_disk :: "(nat \<Rightarrow> u8 list) \<Rightarrow> int \<Rightarrow> (int \<Rightarrow> u8) \<Rightarrow> tree \<Rightarrow> bool"
  and on_disk_ents :: "(nat \<Rightarrow> u8 list) \<Rightarrow> int \<Rightarrow> (int \<Rightarrow> u8) \<Rightarrow> int \<Rightarrow> ents \<Rightarrow> bool" where
  "on_disk U io c (FileT i sz cnt bs) \<longleftrightarrow>
     dslice c (NEWFS_INO_OFS i) 32 = enc_inode_d U i sz NEWFS_FILE cnt \<and>
     dslice c (NEWFS_DA_OFS i) (file_bytes io sz) = take (file_bytes io sz) bs"
| "on_disk U io c (LinkT i sz cnt) \<longleftrightarrow> dslice c (NEWFS_INO_OFS i) 32 = enc_inode_d U i sz NEWFS_SYM_LINK cnt"
| "on_disk U io c (DirT i sz cnt es) \<longleftrightarrow>
     dslice c (NEWFS_INO_OFS i) 32 = enc_inode_d U i sz NEWFS_DIR cnt \<and> on_disk_ents U io c (NEWFS_DA_OFS i) es"
| "on_disk_ents U io c ofs NoEnt \<longleftrightarrow> True"
| "on_disk_ents U io c ofs (Ent nm ft i es) \<longleftrightarrow>
     dslice c ofs 140 = enc_dentry_d U nm ft i \<and> on_disk_ents U io c (ofs + 140) es"
| "on_disk_ents U io c ofs (EntT nm ft i t es) \<longleftrightarrow>
     dslice c ofs 140 = enc_dentry_d U nm ft i \<and> on_disk U io c t \<and> on_disk_ents U io c (ofs + 140) es"

text \<open>The bytes of the disk an inode number owns.\<close>

definition region :: "int \<Rightarrow> int set" where
  "region i = {NEWFS_INO_OFS i ..< NEWFS_INO_OFS i + 32} \<union> {NEWFS_DA_OFS i ..< NEWFS_DA_OFS i + 8192}"

definition regions_of :: "int list \<Rightarrow> int set" where
  "regions_of is = (\<Union>i\<in>set is. region i)"

definition good_inos :: "int list \<Rightarrow> bool" where
  "good_inos is \<longleftrightarrow> distinct is \<and> (\<forall>i\<in>set is. 0 \<le> i \<and> i < 496)"

lemma region_disjoint:
  assumes "0 \<le> i" "i < 496" "0 \<le> j" "j < 496" "i \<noteq> j"
  shows "region i \<inter> region j = {}"
proof -
  have "i + 1 \<le> j \<or> j + 1 \<le> i" using assms by linarith
  then show ?thesis using assms(1-4) by (auto simp: region_def NEWFS_INO_OFS_def NEWFS_DA_OFS_def newfs_consts)
qed

lemma regions_disjoint: "good_inos (is @ js) \<Longrightarrow> regions_of is \<inter> regions_of js = {}"
proof -
  assume g: "good_inos (is @ js)"
  have "region i \<inter> region j = {}" if "i \<in> set is" "j \<in> set js" for i j
    using g that by (intro region_disjoint) (auto simp: good_inos_def)
  then show ?thesis unfolding regions_of_def by blast
qed

lemma regions_of_simps [simp]: "regions_of [] = {}" "regions_of (i # is) = region i \<union> regions_of is"
  "regions_of (is @ js) = regions_of is \<union> regions_of js"
  by (auto simp: regions_of_def)

lemma good_inos_appendD: "good_inos (is @ js) \<Longrightarrow> good_inos is" "good_inos (is @ js) \<Longrightarrow> good_inos js"
  "good_inos (i # js) \<Longrightarrow> good_inos js"
  by (auto simp: good_inos_def)

lemma dslice_cong: "(\<And>x. a \<le> x \<Longrightarrow> x < a + int n \<Longrightarrow> c' x = c x) \<Longrightarrow> dslice c' a n = dslice c a n"
  by (simp add: dslice_def)

text \<open>What a disk holds of a tree depends on the regions of its inodes only.\<close>

lemma on_disk_cong:
  "fits io t \<Longrightarrow> (\<And>x. x \<in> regions_of (inos t) \<Longrightarrow> c' x = c x) \<Longrightarrow> on_disk U io c' t = on_disk U io c t"
  "fits_ents io es \<Longrightarrow> (\<And>x. x \<in> regions_of (inos_ents es) \<or> (ofs \<le> x \<and> x < ofs + 140 * int (ecount es)) \<Longrightarrow> c' x = c x)
     \<Longrightarrow> on_disk_ents U io c' ofs es = on_disk_ents U io c ofs es"
proof (induction t and es arbitrary: and ofs rule: tree.induct ents.induct)
  case (FileT i sz cnt bs)
  have "dslice c' (NEWFS_INO_OFS i) 32 = dslice c (NEWFS_INO_OFS i) 32"
    "dslice c' (NEWFS_DA_OFS i) (file_bytes io sz) = dslice c (NEWFS_DA_OFS i) (file_bytes io sz)"
    using FileT by (auto intro!: dslice_cong simp: region_def)
  then show ?case by simp
next
  case (LinkT i sz cnt)
  have "dslice c' (NEWFS_INO_OFS i) 32 = dslice c (NEWFS_INO_OFS i) 32"
    using LinkT by (auto intro!: dslice_cong simp: region_def)
  then show ?case by simp
next
  case (DirT i sz cnt es)
  have "dslice c' (NEWFS_INO_OFS i) 32 = dslice c (NEWFS_INO_OFS i) 32"
    using DirT.prems by (auto intro!: dslice_cong simp: region_def)
  moreover have "on_disk_ents U io c' (NEWFS_DA_OFS i) es = on_disk_ents U io c (NEWFS_DA_OFS i) es"
    using DirT.prems by (intro DirT.IH) (auto simp: region_def)
  ultimately show ?case by simp
next
  case (Ent nm ft i es)
  have "dslice c' ofs 140 = dslice c ofs 140" using Ent.prems by (auto intro!: dslice_cong)
  moreover have "on_disk_ents U io c' (ofs + 140) es = on_disk_ents U io c (ofs + 140) es"
    using Ent.prems by (intro Ent.IH) auto
  ultimately show ?case by simp
next
  case (EntT nm ft i t es)
  have "dslice c' ofs 140 = dslice c ofs 140" using EntT.prems by (auto intro!: dslice_cong)
  moreover have "on_disk U io c' t = on_disk U io c t" using EntT.prems by (intro EntT.IH) auto
  moreover have "on_disk_ents U io c' (ofs + 140) es = on_disk_ents U io c (ofs + 140) es"
    using EntT.prems by (intro EntT.IH) auto
  ultimately show ?case by simp
qed simp

section \<open>Writing a tree\<close>

text \<open>The device of a mounted file system: the geometry the code assumes.\<close>

definition disk_ok :: "'d ddriver \<Rightarrow> int \<Rightarrow> ('d \<Rightarrow> int \<Rightarrow> u8) \<Rightarrow> ('d \<Rightarrow> int) \<Rightarrow> 'd newfs \<Rightarrow> bool" where
  "disk_ok D sz c pos s \<longleftrightarrow> ddriver_ok D (sz_io s) sz c pos \<and> NEWFS_BLKS_SZ (sz_io s) dvd sz \<and> 4194304 \<le> sz \<and>
     uninit_ok (uninit s)"

lemma fs_write_bytes:
  assumes "disk_ok D sz c pos s" "0 \<le> ofs" "ofs + int (length bs) \<le> 4194304"
  shows "\<exists>d. fs_write D ofs bs s = Some (s\<lparr>dev := d\<rparr>) \<and> c d = dsplice (c (dev s)) ofs bs"
  using newfs_driver_write_bytes [of D "sz_io s" sz c pos ofs bs "dev s"] assms
  by (auto simp: fs_write_def disk_ok_def)

lemma fs_read_bytes:
  assumes "disk_ok D sz c pos s" "0 \<le> ofs" "0 \<le> n" "ofs + n \<le> 4194304"
  shows "\<exists>d. fs_read D ofs n s = Some (dslice (c (dev s)) ofs (nat n), s\<lparr>dev := d\<rparr>) \<and> c d = c (dev s)"
  using newfs_driver_read_bytes [of D "sz_io s" sz c pos ofs n "dev s"] assms
  by (auto simp: fs_read_def disk_ok_def)

lemma disk_ok_dev [simp]: "disk_ok D sz c pos (s\<lparr>dev := d\<rparr>) = disk_ok D sz c pos s"
  by (simp add: disk_ok_def)

lemma rep_dev [simp]:
  "rep_tree (s\<lparr>dev := d\<rparr>) ip t = rep_tree s ip t" "rep_ents (s\<lparr>dev := d\<rparr>) cur es = rep_ents s cur es"
  by (induction t and es arbitrary: ip and cur rule: tree.induct ents.induct) (simp_all add: has_inode_def)

lemma region_in_disk:
  assumes "0 \<le> i" "i < 496"
  shows "0 \<le> NEWFS_INO_OFS i" "NEWFS_INO_OFS i + 32 \<le> 130048" "130048 \<le> NEWFS_DA_OFS i" "NEWFS_DA_OFS i + 8192 \<le> 4194304"
  using assms by (simp_all add: NEWFS_INO_OFS_def NEWFS_DA_OFS_def newfs_consts)

lemma dsplice_outside: "x < a \<or> a + int (length bs) \<le> x \<Longrightarrow> dsplice c a bs x = c x"
  by (auto simp: dsplice_def)

text \<open>The header of an inode, the first step of every call.\<close>

lemma sync_header:
  assumes k: "disk_ok D sz c pos s" and n: "has_inode s ip n ft i sz' cnt" and i: "0 \<le> i" "i < 496"
  obtains d where "fs_write D (NEWFS_INO_OFS i) (enc_inode_d (uninit s) i sz' ft cnt) s = Some (s\<lparr>dev := d\<rparr>)"
    "dslice (c d) (NEWFS_INO_OFS i) 32 = enc_inode_d (uninit s) i sz' ft cnt"
    "\<And>x. x < NEWFS_INO_OFS i \<or> NEWFS_INO_OFS i + 32 \<le> x \<Longrightarrow> c d x = c (dev s) x"
proof -
  let ?b = "enc_inode_d (uninit s) i sz' ft cnt"
  have len: "length ?b = 32" using k length_enc_inode_d by (auto simp: disk_ok_def)
  obtain d where d: "fs_write D (NEWFS_INO_OFS i) ?b s = Some (s\<lparr>dev := d\<rparr>)"
      "c d = dsplice (c (dev s)) (NEWFS_INO_OFS i) ?b"
    using fs_write_bytes [OF k, of "NEWFS_INO_OFS i" ?b] region_in_disk [OF i] len by auto
  show ?thesis
  proof (rule that [OF d(1)])
    show "dslice (c d) (NEWFS_INO_OFS i) 32 = ?b" using slice_splice_same [of _ _ ?b] d(2) len by simp
  qed (auto simp: d(2) dsplice_outside len)
qed

lemma sync_entry:
  assumes k: "disk_ok D sz c pos s" and nm: "name_ok nm" and ofs: "0 \<le> ofs" "ofs + 140 \<le> 4194304"
  obtains d where "fs_write D ofs (enc_dentry_d (uninit s) nm ft i) s = Some (s\<lparr>dev := d\<rparr>)"
    "dslice (c d) ofs 140 = enc_dentry_d (uninit s) nm ft i"
    "\<And>x. x < ofs \<or> ofs + 140 \<le> x \<Longrightarrow> c d x = c (dev s) x"
proof -
  let ?b = "enc_dentry_d (uninit s) nm ft i"
  have len: "length ?b = 140" using k nm length_enc_dentry_d by (auto simp: disk_ok_def)
  obtain d where d: "fs_write D ofs ?b s = Some (s\<lparr>dev := d\<rparr>)" "c d = dsplice (c (dev s)) ofs ?b"
    using fs_write_bytes [OF k, of ofs ?b] ofs len by auto
  show ?thesis
  proof (rule that [OF d(1)])
    show "dslice (c d) ofs 140 = ?b" using slice_splice_same [of _ _ ?b] d(2) len by simp
  qed (auto simp: d(2) dsplice_outside len)
qed

lemma has_inode_dents: "has_inode s ip n ft i sz cnt \<Longrightarrow> \<exists>e. dents s (identry n) = Some e \<and> ftype e = ft"
  by (auto simp: has_inode_def)

definition synced :: "('d \<Rightarrow> int \<Rightarrow> u8) \<Rightarrow> 'd newfs \<Rightarrow> int set \<Rightarrow> ((int \<Rightarrow> u8) \<Rightarrow> bool) \<Rightarrow> 'd newfs option \<Rightarrow> bool" where
  "synced c s R P r \<longleftrightarrow> (\<exists>d. r = Some (s\<lparr>dev := d\<rparr>) \<and> P (c d) \<and> (\<forall>x. x \<notin> R \<longrightarrow> c d x = c (dev s) x))"

lemma syncedE:
  assumes "synced c s R P r"
  obtains d where "r = Some (s\<lparr>dev := d\<rparr>)" "P (c d)" "\<And>x. x \<notin> R \<Longrightarrow> c d x = c (dev s) x"
  using assms by (auto simp: synced_def)

text \<open>The cases of the induction, each as a lemma.\<close>

lemma sync_file:
  assumes k: "disk_ok D sz c pos s" and r: "rep_tree s ip (FileT i sz' cnt bs)" and f: "fits (sz_io s) (FileT i sz' cnt bs)"
    and i: "0 \<le> i" "i < 496"
  shows "synced c s (region i) (\<lambda>x. on_disk (uninit s) (sz_io s) x (FileT i sz' cnt bs)) (newfs_sync D (Sync_inode ip) s)"
proof -
  obtain n where n: "has_inode s ip n NEWFS_FILE i sz' cnt" "data n = Some bs" using r by auto
  obtain d where d: "fs_write D (NEWFS_INO_OFS i) (enc_inode_d (uninit s) i sz' NEWFS_FILE cnt) s = Some (s\<lparr>dev := d\<rparr>)"
      "dslice (c d) (NEWFS_INO_OFS i) 32 = enc_inode_d (uninit s) i sz' NEWFS_FILE cnt"
      "\<And>x. x < NEWFS_INO_OFS i \<or> NEWFS_INO_OFS i + 32 \<le> x \<Longrightarrow> c d x = c (dev s) x"
    using sync_header [OF k n(1) i] by blast
  let ?b = "take (file_bytes (sz_io s) sz') bs"
  have len: "length ?b = file_bytes (sz_io s) sz'" "file_bytes (sz_io s) sz' \<le> 8192" using f by auto
  note R = region_in_disk [OF i]
  obtain d2 where d2: "fs_write D (NEWFS_DA_OFS i) ?b (s\<lparr>dev := d\<rparr>) = Some (s\<lparr>dev := d2\<rparr>)"
      "c d2 = dsplice (c d) (NEWFS_DA_OFS i) ?b"
    using fs_write_bytes [of D sz c pos "s\<lparr>dev := d\<rparr>" "NEWFS_DA_OFS i" ?b] k R len by auto
  have "newfs_sync D (Sync_inode ip) s = Some (s\<lparr>dev := d2\<rparr>)"
    using n has_inode_dents [OF n(1)] d(1) d2(1) f
    by (subst newfs_sync.simps) (auto simp: has_inode_def file_bytes_def Let_def)
  moreover have "dslice (c d2) (NEWFS_INO_OFS i) 32 = enc_inode_d (uninit s) i sz' NEWFS_FILE cnt"
    unfolding d2(2) using R d(2) by (subst slice_splice_other) auto
  moreover have "dslice (c d2) (NEWFS_DA_OFS i) (file_bytes (sz_io s) sz') = ?b"
    using slice_splice_same [of "c d" "NEWFS_DA_OFS i" ?b] d2(2) len by simp
  moreover have "c d2 x = c (dev s) x" if "x \<notin> region i" for x
    using that d(3) len by (subst d2(2), subst dsplice_outside) (auto simp: region_def not_le)
  ultimately show ?thesis by (auto simp: synced_def)
qed

lemma sync_link:
  assumes k: "disk_ok D sz c pos s" and r: "rep_tree s ip (LinkT i sz' cnt)" and i: "0 \<le> i" "i < 496"
  shows "synced c s (region i) (\<lambda>x. on_disk (uninit s) (sz_io s) x (LinkT i sz' cnt)) (newfs_sync D (Sync_inode ip) s)"
proof -
  obtain n where n: "has_inode s ip n NEWFS_SYM_LINK i sz' cnt" using r by auto
  obtain d where d: "fs_write D (NEWFS_INO_OFS i) (enc_inode_d (uninit s) i sz' NEWFS_SYM_LINK cnt) s = Some (s\<lparr>dev := d\<rparr>)"
      "dslice (c d) (NEWFS_INO_OFS i) 32 = enc_inode_d (uninit s) i sz' NEWFS_SYM_LINK cnt"
      "\<And>x. x < NEWFS_INO_OFS i \<or> NEWFS_INO_OFS i + 32 \<le> x \<Longrightarrow> c d x = c (dev s) x"
    using sync_header [OF k n i] by blast
  have "newfs_sync D (Sync_inode ip) s = Some (s\<lparr>dev := d\<rparr>)"
    using n has_inode_dents [OF n] d(1) by (subst newfs_sync.simps) (auto simp: has_inode_def)
  moreover have "c d x = c (dev s) x" if "x \<notin> region i" for x
    using that by (intro d(3)) (auto simp: region_def)
  ultimately show ?thesis using d(2) by (auto simp: synced_def)
qed

abbreviation ents_range :: "int \<Rightarrow> ents \<Rightarrow> int set" where
  "ents_range ofs es \<equiv> {ofs ..< ofs + 140 * int (ecount es)}"

lemma sync_dir:
  assumes k: "disk_ok D sz c pos s" and r: "rep_tree s ip (DirT i sz' cnt es)" and f: "fits (sz_io s) (DirT i sz' cnt es)"
    and g: "good_inos (i # inos_ents es)"
    and IH: "\<And>s cur ofs. disk_ok D sz c pos s \<Longrightarrow> rep_ents s cur es \<Longrightarrow> fits_ents (sz_io s) es \<Longrightarrow> 0 \<le> ofs \<Longrightarrow>
      ofs + 140 * int (ecount es) \<le> 4194304 \<Longrightarrow> ents_range ofs es \<inter> regions_of (inos_ents es) = {} \<Longrightarrow>
      synced c s (ents_range ofs es \<union> regions_of (inos_ents es))
        (\<lambda>x. on_disk_ents (uninit s) (sz_io s) x ofs es) (newfs_sync D (Sync_dentries cur ofs) s)"
  shows "synced c s (region i \<union> regions_of (inos_ents es))
    (\<lambda>x. on_disk (uninit s) (sz_io s) x (DirT i sz' cnt es)) (newfs_sync D (Sync_inode ip) s)"
proof -
  obtain n where n: "has_inode s ip n NEWFS_DIR i sz' cnt" "rep_ents s (dentrys n) es" using r by auto
  have i: "0 \<le> i" "i < 496" using g by (auto simp: good_inos_def)
  obtain d where d: "fs_write D (NEWFS_INO_OFS i) (enc_inode_d (uninit s) i sz' NEWFS_DIR cnt) s = Some (s\<lparr>dev := d\<rparr>)"
      "dslice (c d) (NEWFS_INO_OFS i) 32 = enc_inode_d (uninit s) i sz' NEWFS_DIR cnt"
      "\<And>x. x < NEWFS_INO_OFS i \<or> NEWFS_INO_OFS i + 32 \<le> x \<Longrightarrow> c d x = c (dev s) x"
    using sync_header [OF k n(1) i] by blast
  note R = region_in_disk [OF i]
  have dis: "region i \<inter> regions_of (inos_ents es) = {}"
    using regions_disjoint [of "[i]" "inos_ents es"] g by simp
  have sub: "ents_range (NEWFS_DA_OFS i) es \<subseteq> region i" using f by (auto simp: region_def)
  obtain d2 where d2: "newfs_sync D (Sync_dentries (dentrys n) (NEWFS_DA_OFS i)) (s\<lparr>dev := d\<rparr>) = Some (s\<lparr>dev := d2\<rparr>)"
      "on_disk_ents (uninit s) (sz_io s) (c d2) (NEWFS_DA_OFS i) es"
      "\<And>x. x \<notin> ents_range (NEWFS_DA_OFS i) es \<union> regions_of (inos_ents es) \<Longrightarrow> c d2 x = c d x"
    using IH [of "s\<lparr>dev := d\<rparr>" "dentrys n" "NEWFS_DA_OFS i"] k n(2) f R sub dis by (fastforce simp: synced_def)
  have "newfs_sync D (Sync_inode ip) s = Some (s\<lparr>dev := d2\<rparr>)"
    using n has_inode_dents [OF n(1)] d(1) d2(1)
    by (subst newfs_sync.simps) (auto simp: has_inode_def)
  moreover have "dslice (c d2) (NEWFS_INO_OFS i) 32 = enc_inode_d (uninit s) i sz' NEWFS_DIR cnt"
    unfolding d(2) [symmetric] using R dis by (intro dslice_cong d2(3)) (auto simp: region_def)
  moreover have "c d2 x = c (dev s) x" if "x \<notin> region i \<union> regions_of (inos_ents es)" for x
  proof -
    have "c d2 x = c d x" using that sub by (intro d2(3)) blast
    also have "\<dots> = c (dev s) x" using that by (intro d(3)) (auto simp: region_def)
    finally show ?thesis .
  qed
  ultimately show ?thesis using d2(2) by (auto simp: synced_def)
qed

lemma sync_ent_step:
  assumes k: "disk_ok D sz c pos s" and nm: "name_ok nm" and ofs: "0 \<le> ofs" "ofs + 140 + 140 * int (ecount es) \<le> 4194304"
    and e: "dents s p = Some e" "fname e = nm" "ftype e = ft" "dino e = i"
    and g: "R0 \<inter> regions_of (inos_ents es) = {}" "{ofs ..< ofs + 140 + 140 * int (ecount es)} \<inter> (R0 \<union> regions_of (inos_ents es)) = {}"
    and sub: "\<And>d. synced c (s\<lparr>dev := d\<rparr>) R0 P (case dinode e of None \<Rightarrow> Some (s\<lparr>dev := d\<rparr>) | Some ip \<Rightarrow> newfs_sync D (Sync_inode ip) (s\<lparr>dev := d\<rparr>))"
    and P: "\<And>c1 c2. (\<And>x. x \<in> R0 \<Longrightarrow> c1 x = c2 x) \<Longrightarrow> P c1 = P c2"
    and rest: "\<And>d. synced c (s\<lparr>dev := d\<rparr>) (ents_range (ofs + 140) es \<union> regions_of (inos_ents es))
        (\<lambda>x. on_disk_ents (uninit s) (sz_io s) x (ofs + 140) es)
        (newfs_sync D (Sync_dentries (brother e) (ofs + 140)) (s\<lparr>dev := d\<rparr>))"
  shows "synced c s ({ofs ..< ofs + 140 + 140 * int (ecount es)} \<union> R0 \<union> regions_of (inos_ents es))
    (\<lambda>x. dslice x ofs 140 = enc_dentry_d (uninit s) nm ft i \<and> P x \<and> on_disk_ents (uninit s) (sz_io s) x (ofs + 140) es)
    (newfs_sync D (Sync_dentries (Some p) ofs) s)"
proof -
  obtain d where d: "fs_write D ofs (enc_dentry_d (uninit s) nm ft i) s = Some (s\<lparr>dev := d\<rparr>)"
      "dslice (c d) ofs 140 = enc_dentry_d (uninit s) nm ft i"
      "\<And>x. x < ofs \<or> ofs + 140 \<le> x \<Longrightarrow> c d x = c (dev s) x"
    using sync_entry [OF k nm, of ofs] ofs by auto
  obtain d1 where d1: "(case dinode e of None \<Rightarrow> Some (s\<lparr>dev := d\<rparr>) | Some ip \<Rightarrow> newfs_sync D (Sync_inode ip) (s\<lparr>dev := d\<rparr>)) =
        Some (s\<lparr>dev := d1\<rparr>)" "P (c d1)" "\<And>x. x \<notin> R0 \<Longrightarrow> c d1 x = c d x"
    using sub [of d] by (auto simp: synced_def)
  obtain d2 where d2: "newfs_sync D (Sync_dentries (brother e) (ofs + 140)) (s\<lparr>dev := d1\<rparr>) = Some (s\<lparr>dev := d2\<rparr>)"
      "on_disk_ents (uninit s) (sz_io s) (c d2) (ofs + 140) es"
      "\<And>x. x \<notin> ents_range (ofs + 140) es \<union> regions_of (inos_ents es) \<Longrightarrow> c d2 x = c d1 x"
    using rest [of d1] by (auto simp: synced_def)
  have "newfs_sync D (Sync_dentries (Some p) ofs) s = Some (s\<lparr>dev := d2\<rparr>)"
    using e d(1) d1(1) d2(1) by (subst newfs_sync.simps) (simp add: sizeof_dentry_d_def)
  moreover have "dslice (c d2) ofs 140 = dslice (c d) ofs 140"
  proof (rule dslice_cong)
    fix x assume x: "ofs \<le> x" "x < ofs + int 140"
    then have "x \<in> {ofs ..< ofs + 140 + 140 * int (ecount es)}" by simp
    then have "x \<notin> R0 \<union> regions_of (inos_ents es)" using g(2) by blast
    then show "c d2 x = c d x" using d1(3) d2(3) x by auto
  qed
  moreover have "P (c d2)"
  proof -
    have "x \<notin> ents_range (ofs + 140) es \<union> regions_of (inos_ents es)" if "x \<in> R0" for x
    proof -
      have "ents_range (ofs + 140) es \<subseteq> {ofs ..< ofs + 140 + 140 * int (ecount es)}" by auto
      then show ?thesis using that g by blast
    qed
    then have "P (c d2) = P (c d1)" using d2(3) by (intro P) blast
    then show ?thesis using d1(2) by simp
  qed
  moreover have "c d2 x = c (dev s) x"
    if x: "x \<notin> {ofs ..< ofs + 140 + 140 * int (ecount es)} \<union> R0 \<union> regions_of (inos_ents es)" for x
  proof -
    have "c d2 x = c d1 x" using x by (intro d2(3)) auto
    also have "\<dots> = c d x" using x by (intro d1(3)) auto
    also have "\<dots> = c (dev s) x" using x by (intro d(3)) auto
    finally show ?thesis .
  qed
  ultimately show ?thesis using d(2) d2(2) by (auto simp: synced_def)
qed

text \<open>A tree in memory is written to the regions of its inodes, and nothing else of the disk changes.\<close>

lemma newfs_sync_tree:
  "disk_ok D sz c pos s \<Longrightarrow> rep_tree s ip t \<Longrightarrow> fits (sz_io s) t \<Longrightarrow> good_inos (inos t) \<Longrightarrow>
     synced c s (regions_of (inos t)) (\<lambda>x. on_disk (uninit s) (sz_io s) x t) (newfs_sync D (Sync_inode ip) s)"
  "disk_ok D sz c pos s \<Longrightarrow> rep_ents s cur es \<Longrightarrow> fits_ents (sz_io s) es \<Longrightarrow> good_inos (inos_ents es) \<Longrightarrow> 0 \<le> ofs \<Longrightarrow>
     ofs + 140 * int (ecount es) \<le> 4194304 \<Longrightarrow> ents_range ofs es \<inter> regions_of (inos_ents es) = {} \<Longrightarrow>
     synced c s (ents_range ofs es \<union> regions_of (inos_ents es))
       (\<lambda>x. on_disk_ents (uninit s) (sz_io s) x ofs es) (newfs_sync D (Sync_dentries cur ofs) s)"
proof (induction t and es arbitrary: s ip and s cur ofs rule: tree.induct ents.induct)
  case (FileT i sz' cnt bs)
  then show ?case using sync_file [OF FileT.prems(1-3)] by (simp add: good_inos_def)
next
  case (LinkT i sz' cnt)
  then show ?case using sync_link [OF LinkT.prems(1-2)] by (simp add: good_inos_def)
next
  case (DirT i sz' cnt es)
  have g: "good_inos (inos_ents es)" using DirT.prems(4) good_inos_appendD(3) by simp
  show ?case unfolding inos.simps regions_of_simps
    by (rule sync_dir [OF DirT.prems(1-3) DirT.prems(4) [unfolded inos.simps]])
      (rule DirT.IH, assumption+, rule g, assumption+)
next
  case NoEnt
  have "newfs_sync D (Sync_dentries cur ofs) s = Some s" using NoEnt.prems(2) by (subst newfs_sync.simps) simp
  then show ?case unfolding synced_def by (intro exI [of _ "dev s"]) simp
next
  case (Ent nm ft i es)
  obtain p e where e: "cur = Some p" "dents s p = Some e" "fname e = nm" "ftype e = ft" "dino e = i" "dinode e = None"
      "rep_ents s (brother e) es" using Ent.prems(2) by auto
  let ?R = "regions_of (inos_ents es)"
  have rng: "{ofs ..< ofs + 140 + 140 * int (ecount es)} = ents_range ofs (Ent nm ft i es)" by (simp add: algebra_simps)
  have "ents_range (ofs + 140) es \<subseteq> ents_range ofs (Ent nm ft i es)" by auto
  then have dis: "ents_range (ofs + 140) es \<inter> ?R = {}" using Ent.prems(7) unfolding inos_ents.simps by blast
  have rest: "synced c (s\<lparr>dev := d\<rparr>) (ents_range (ofs + 140) es \<union> ?R)
        (\<lambda>x. on_disk_ents (uninit s) (sz_io s) x (ofs + 140) es)
        (newfs_sync D (Sync_dentries (brother e) (ofs + 140)) (s\<lparr>dev := d\<rparr>))" for d
    using Ent.IH [of "s\<lparr>dev := d\<rparr>" "brother e" "ofs + 140"] Ent.prems e dis by simp
  have sub: "synced c (s\<lparr>dev := d\<rparr>) {} (\<lambda>_. True) (case dinode e of None \<Rightarrow> Some (s\<lparr>dev := d\<rparr>)
      | Some ip \<Rightarrow> newfs_sync D (Sync_inode ip) (s\<lparr>dev := d\<rparr>))" for d
    using e(6) by (auto simp: synced_def)
  show ?case
    using sync_ent_step [OF Ent.prems(1) _ Ent.prems(5) _ e(2-5) _ _ sub _ rest] Ent.prems e(1) rng by simp
next
  case (EntT nm ft i t es)
  obtain p e ip where e: "cur = Some p" "dents s p = Some e" "fname e = nm" "ftype e = ft" "dino e = i" "dinode e = Some ip"
      "rep_tree s ip t" "rep_ents s (brother e) es" using EntT.prems(2) by auto
  let ?R = "regions_of (inos_ents es)" and ?T = "regions_of (inos t)"
  have rng: "{ofs ..< ofs + 140 + 140 * int (ecount es)} = ents_range ofs (EntT nm ft i t es)" by (simp add: algebra_simps)
  note good = EntT.prems(4) [unfolded inos_ents.simps]
  note g = good_inos_appendD(1,2) [OF good] regions_disjoint [OF good]
  have "ents_range (ofs + 140) es \<subseteq> ents_range ofs (EntT nm ft i t es)" by auto
  then have dis: "ents_range (ofs + 140) es \<inter> ?R = {}" using EntT.prems(7) unfolding inos_ents.simps regions_of_simps by blast
  have rest: "synced c (s\<lparr>dev := d\<rparr>) (ents_range (ofs + 140) es \<union> ?R)
        (\<lambda>x. on_disk_ents (uninit s) (sz_io s) x (ofs + 140) es)
        (newfs_sync D (Sync_dentries (brother e) (ofs + 140)) (s\<lparr>dev := d\<rparr>))" for d
    using EntT.IH(2) [of "s\<lparr>dev := d\<rparr>" "brother e" "ofs + 140"] EntT.prems e dis g by simp
  have sub: "synced c (s\<lparr>dev := d\<rparr>) ?T (\<lambda>x. on_disk (uninit s) (sz_io s) x t) (case dinode e of None \<Rightarrow> Some (s\<lparr>dev := d\<rparr>)
      | Some ip \<Rightarrow> newfs_sync D (Sync_inode ip) (s\<lparr>dev := d\<rparr>))" for d
    using EntT.IH(1) [of "s\<lparr>dev := d\<rparr>" ip] EntT.prems e g by simp
  have cong: "on_disk (uninit s) (sz_io s) c1 t = on_disk (uninit s) (sz_io s) c2 t" if "\<And>x. x \<in> ?T \<Longrightarrow> c1 x = c2 x" for c1 c2
    using on_disk_cong(1) [of "sz_io s" t c1 c2] that EntT.prems(3) by simp
  show ?case
    using sync_ent_step [OF EntT.prems(1) _ EntT.prems(5) _ e(2-5) g(3) _ sub cong rest] EntT.prems e(1) rng
    by (simp add: Un_assoc)
qed

section \<open>Reading back\<close>

text \<open>The entries of a directory in memory: name, type and inode number of each.\<close>

primrec dir_list :: "(nat \<Rightarrow> dentry option) \<Rightarrow> nat option \<Rightarrow> (string \<times> file_type \<times> int) list \<Rightarrow> bool" where
  "dir_list h cur [] \<longleftrightarrow> cur = None"
| "dir_list h cur (x # xs) \<longleftrightarrow> (\<exists>p e. cur = Some p \<and> h p = Some e \<and> x = (fname e, ftype e, dino e) \<and> dir_list h (brother e) xs)"

primrec ent_list :: "ents \<Rightarrow> (string \<times> file_type \<times> int) list" where
  "ent_list NoEnt = []"
| "ent_list (Ent nm ft i es) = (nm, ft, i) # ent_list es"
| "ent_list (EntT nm ft i t es) = (nm, ft, i) # ent_list es"

lemma dir_list_fresh: "dir_list h cur xs \<Longrightarrow> h p = None \<Longrightarrow> dir_list (h(p := x)) cur xs"
  by (induction xs arbitrary: cur) (simp, fastforce)

lemma dir_list_dinode: "dir_list h cur xs \<Longrightarrow> h p = Some e \<Longrightarrow> dir_list (h(p \<mapsto> e\<lparr>dinode := x\<rparr>)) cur xs"
  by (induction xs arbitrary: cur) (simp, fastforce)

text \<open>Linking an entry, whatever becomes of the data bitmap.\<close>

lemma newfs_alloc_dentry_links:
  assumes i: "inodes s ip = Some i" and d: "dents s dp = Some d" "brother d = None"
    and m: "length (map_data s) = nat (map_data_blks s * NEWFS_BLKS_SZ (sz_io s))"
  obtains r s' i' m' where "newfs_alloc_dentry ip dp s = Some (r, s')"
    "s' = s\<lparr>dents := (dents s)(dp \<mapsto> d\<lparr>brother := dentrys i\<rparr>), inodes := (inodes s)(ip \<mapsto> i'), map_data := m'\<rparr>"
    "dentrys i' = Some dp" "ino i' = ino i" "identry i' = identry i" "length m' = length (map_data s)"
proof -
  obtain found m' where t: "take_bit_of (map_data_blks s * NEWFS_BLKS_SZ (sz_io s)) (map_data s) = Some (found, m')"
      "length m' = length (map_data s)"
    using take_bit_of_eq [OF m refl] by blast
  have "d\<lparr>brother := None\<rparr> = d" using d(2) by (cases d) simp
  then have same: "(dents s)(dp \<mapsto> d\<lparr>brother := None\<rparr>) = dents s" using d(1) by auto
  let ?s = "\<lambda>i' m'. s\<lparr>dents := (dents s)(dp \<mapsto> d\<lparr>brother := dentrys i\<rparr>), inodes := (inodes s)(ip \<mapsto> i'), map_data := m'\<rparr>"
  let ?f = "NEWFS_ROUND_UP (isize i) (NEWFS_BLKS_SZ (sz_io s)) = NEWFS_ROUND_UP_sum (isize i) sizeof_dentry (NEWFS_BLKS_SZ (sz_io s))"
  consider "?f \<or> found = None \<or> found = Some (nat (max_data s)) \<and> 0 \<le> max_data s" | k where "\<not> ?f" "found = Some k" "int k \<noteq> max_data s"
    by (cases found) (auto, metis nat_int of_nat_0_le_iff)
  then show ?thesis
  proof cases
    case 1
    then have "newfs_alloc_dentry ip dp s = Some (- ENOSPC, ?s (i\<lparr>dentrys := Some dp\<rparr>) (if ?f then map_data s else m'))"
      using i d(1) t(1) unfolding newfs_alloc_dentry_def by (auto simp: Let_def same)
    then show ?thesis by (rule that [OF _ refl]) (use t(2) in auto)
  next
    case 2
    then have "newfs_alloc_dentry ip dp s = Some (dir_cnt i + 1,
        ?s (i\<lparr>dentrys := Some dp, dir_cnt := dir_cnt i + 1, isize := isize i + sizeof_dentry\<rparr>) m')"
      using i d(1) t(1) unfolding newfs_alloc_dentry_def by (auto simp: Let_def same)
    then show ?thesis by (rule that [OF _ refl]) (use t(2) in auto)
  qed
qed

text \<open>The states in which directories can be read: the device, the data bitmap, and unused heap above \<open>fresh\<close>.\<close>

definition readable :: "'d ddriver \<Rightarrow> int \<Rightarrow> ('d \<Rightarrow> int \<Rightarrow> u8) \<Rightarrow> ('d \<Rightarrow> int) \<Rightarrow> 'd newfs \<Rightarrow> bool" where
  "readable D sz c pos s \<longleftrightarrow> disk_ok D sz c pos s \<and>
     length (map_data s) = nat (map_data_blks s * NEWFS_BLKS_SZ (sz_io s)) \<and>
     (\<forall>p\<ge>fresh s. dents s p = None)"

primrec inos32 :: "ents \<Rightarrow> bool" where
  "inos32 NoEnt \<longleftrightarrow> True"
| "inos32 (Ent nm ft i es) \<longleftrightarrow> int32 i \<and> inos32 es"
| "inos32 (EntT nm ft i t es) \<longleftrightarrow> int32 i \<and> inos32 es"

text \<open>One entry: it becomes the first of the list.\<close>

lemma read_dentries_step:
  assumes ok: "readable D sz c pos s" and ofs: "0 \<le> NEWFS_DA_OFS num + k * 140" "NEWFS_DA_OFS num + k * 140 + 140 \<le> 4194304"
    and disk: "dslice (c (dev s)) (NEWFS_DA_OFS num + k * 140) 140 = enc_dentry_d U nm ft i"
    and nm: "name_ok nm" "int32 i"
    and ip: "inodes s ip = Some n" "dir_list (dents s) (dentrys n) xs"
  obtains s' n' where "\<forall>m. read_dentries D (Suc m) num k ip dp s = read_dentries D m num (k + 1) ip dp s'"
    "readable D sz c pos s'" "c (dev s') = c (dev s)" "inodes s' ip = Some n'" "ino n' = ino n" "identry n' = identry n"
    "dir_list (dents s') (dentrys n') ((nm, ft, i) # xs)" "\<forall>p<fresh s. dents s' p = dents s p" "fresh s \<le> fresh s'"
    "map_inode s' = map_inode s"
proof -
  let ?b = "enc_dentry_d U nm ft i"
  obtain d where d: "fs_read D (NEWFS_DA_OFS num + k * sizeof_dentry_d) sizeof_dentry_d s = Some (?b, s\<lparr>dev := d\<rparr>)"
      "c d = c (dev s)"
    using fs_read_bytes [of D sz c pos s "NEWFS_DA_OFS num + k * 140" 140] ok ofs disk
    by (auto simp: readable_def sizeof_dentry_d_def)
  let ?p = "fresh s"
  let ?e = "\<lparr>fname = nm, ftype = ft, parent = Some dp, brother = None, dino = i, dinode = None, valid = 0\<rparr>"
  let ?s3 = "s\<lparr>dev := d, fresh := ?p + 1, dents := (dents s)(?p \<mapsto> ?e)\<rparr>"
  have len: "length nm \<le> NEWFS_MAX_FILE_NAME" using nm(1) by (simp add: name_ok_def)
  have m: "length (map_data ?s3) = nat (map_data_blks ?s3 * NEWFS_BLKS_SZ (sz_io ?s3))" using ok by (simp add: readable_def)
  obtain r s4 n' m' where s4: "newfs_alloc_dentry ip ?p ?s3 = Some (r, s4)"
      "s4 = ?s3\<lparr>dents := (dents ?s3)(?p \<mapsto> ?e\<lparr>brother := dentrys n\<rparr>), inodes := (inodes ?s3)(ip \<mapsto> n'), map_data := m'\<rparr>"
      "dentrys n' = Some ?p" "ino n' = ino n" "identry n' = identry n" "length m' = length (map_data ?s3)"
  proof -
    have "inodes ?s3 ip = Some n" "dents ?s3 ?p = Some ?e" "brother ?e = None" using ip(1) by simp_all
    then show thesis by (rule newfs_alloc_dentry_links [OF _ _ _ m]) (rule that)
  qed
  have none: "dents s ?p = None" using ok by (simp add: readable_def)
  show ?thesis
  proof (rule that [of s4 n'])
    show "\<forall>m. read_dentries D (Suc m) num k ip dp s = read_dentries D m num (k + 1) ip dp s4"
      using d(1) dec_dentry_d [OF nm, of U ft] len s4(1) by (simp add: new_dentry_def)
    show "readable D sz c pos s4" using ok s4(2,6) by (auto simp: readable_def disk_ok_def)
    show "dir_list (dents s4) (dentrys n') ((nm, ft, i) # xs)"
      using dir_list_fresh [OF ip(2) none] s4(2,3) by simp
  qed (use s4 d(2) in auto)
qed

lemma read_dentries_reads:
  "readable D sz c pos s \<Longrightarrow> 0 \<le> NEWFS_DA_OFS num + k * 140 \<Longrightarrow>
     NEWFS_DA_OFS num + k * 140 + 140 * int (ecount es) \<le> 4194304 \<Longrightarrow> fits_ents io es \<Longrightarrow> inos32 es \<Longrightarrow>
     on_disk_ents U io (c (dev s)) (NEWFS_DA_OFS num + k * 140) es \<Longrightarrow>
     inodes s ip = Some n \<Longrightarrow> dir_list (dents s) (dentrys n) xs \<Longrightarrow>
   \<exists>s' n'. read_dentries D (ecount es) num k ip dp s = Some s' \<and> c (dev s') = c (dev s) \<and> inodes s' ip = Some n' \<and>
     ino n' = ino n \<and> identry n' = identry n \<and> dir_list (dents s') (dentrys n') (rev (ent_list es) @ xs) \<and>
     (\<forall>p<fresh s. dents s' p = dents s p) \<and> map_inode s' = map_inode s"
proof (induction es arbitrary: s k n xs rule: ents.induct [where ?P1.0 = "\<lambda>_. True"])
  case (Ent nm ft i es)
  have pre: "NEWFS_DA_OFS num + k * 140 + 140 \<le> 4194304"
    "dslice (c (dev s)) (NEWFS_DA_OFS num + k * 140) 140 = enc_dentry_d U nm ft i" "name_ok nm" "int32 i"
    using Ent.prems(3-6) by auto
  obtain s1 n1 where s1: "\<forall>m. read_dentries D (Suc m) num k ip dp s = read_dentries D m num (k + 1) ip dp s1"
    "readable D sz c pos s1" "c (dev s1) = c (dev s)" "inodes s1 ip = Some n1" "ino n1 = ino n" "identry n1 = identry n"
    "dir_list (dents s1) (dentrys n1) ((nm, ft, i) # xs)" "\<forall>p<fresh s. dents s1 p = dents s p" "fresh s \<le> fresh s1"
    "map_inode s1 = map_inode s"
    by (rule read_dentries_step [OF Ent.prems(1,2) pre Ent.prems(7,8), where dp = dp])
  have a: "NEWFS_DA_OFS num + (k + 1) * 140 = NEWFS_DA_OFS num + k * 140 + 140" by simp
  show ?case
    using Ent.IH [OF s1(2) _ _ _ _ _ s1(4) s1(7), where k = "k + 1", unfolded a] Ent.prems s1 by fastforce
next
  case (EntT nm ft i t es)
  have pre: "NEWFS_DA_OFS num + k * 140 + 140 \<le> 4194304"
    "dslice (c (dev s)) (NEWFS_DA_OFS num + k * 140) 140 = enc_dentry_d U nm ft i" "name_ok nm" "int32 i"
    using EntT.prems(3-6) by auto
  obtain s1 n1 where s1: "\<forall>m. read_dentries D (Suc m) num k ip dp s = read_dentries D m num (k + 1) ip dp s1"
    "readable D sz c pos s1" "c (dev s1) = c (dev s)" "inodes s1 ip = Some n1" "ino n1 = ino n" "identry n1 = identry n"
    "dir_list (dents s1) (dentrys n1) ((nm, ft, i) # xs)" "\<forall>p<fresh s. dents s1 p = dents s p" "fresh s \<le> fresh s1"
    "map_inode s1 = map_inode s"
    by (rule read_dentries_step [OF EntT.prems(1,2) pre EntT.prems(7,8), where dp = dp])
  have a: "NEWFS_DA_OFS num + (k + 1) * 140 = NEWFS_DA_OFS num + k * 140 + 140" by simp
  show ?case
    using EntT.IH [OF s1(2) _ _ _ _ _ s1(4) s1(7), where k = "k + 1", unfolded a] EntT.prems s1 by fastforce
qed simp_all

lemma read_header:
  assumes ok: "disk_ok D sz c pos s" and i: "0 \<le> i" "i < 496" "int32 sz'" "int32 cnt"
    and disk: "dslice (c (dev s)) (NEWFS_INO_OFS i) 32 = enc_inode_d U i sz' ft cnt" "uninit_ok U"
  obtains d where "fs_read D (NEWFS_INO_OFS i) sizeof_inode_d (s\<lparr>fresh := f\<rparr>) =
      Some (enc_inode_d U i sz' ft cnt, s\<lparr>fresh := f, dev := d\<rparr>)" "c d = c (dev s)"
    "int_at 0 (enc_inode_d U i sz' ft cnt) = i" "int_at 4 (enc_inode_d U i sz' ft cnt) = sz'"
    "int_at 16 (enc_inode_d U i sz' ft cnt) = cnt"
proof -
  have "disk_ok D sz c pos (s\<lparr>fresh := f\<rparr>)" using ok by (simp add: disk_ok_def)
  from fs_read_bytes [OF this, of "NEWFS_INO_OFS i" 32] obtain d where
    d: "fs_read D (NEWFS_INO_OFS i) sizeof_inode_d (s\<lparr>fresh := f\<rparr>) = Some (enc_inode_d U i sz' ft cnt, s\<lparr>fresh := f, dev := d\<rparr>)"
      "c d = c (dev s)"
    using region_in_disk [OF i(1,2)] disk(1) by (auto simp: sizeof_inode_d_def)
  have "int32 i" using i(1,2) by (simp add: int32_def)
  from dec_inode_d [OF disk(2) this i(3,4)] d show ?thesis by (intro that)
qed

lemma newfs_read_inode_file:
  assumes ok: "disk_ok D sz c pos s" "sz_io s = io" "NEWFS_BLKS_SZ io = 1024" and i: "0 \<le> i" "i < 496" "int32 sz'" "int32 cnt"
    and disk: "on_disk U io (c (dev s)) (FileT i sz' cnt bs)" "uninit_ok U" "fits io (FileT i sz' cnt bs)"
    and dp: "dents s dp = Some d" "ftype d = NEWFS_FILE"
  obtains s' b n where "newfs_read_inode D dp i s = Some (fresh s, s')" "c (dev s') = c (dev s)" "inodes s' (fresh s) = Some n"
    "ino n = i" "isize n = sz'" "identry n = dp" "data n = Some b" "take (file_bytes io sz') b = take (file_bytes io sz') bs"
    "length b = 8192"
proof -
  obtain d1 where d1: "fs_read D (NEWFS_INO_OFS i) sizeof_inode_d (s\<lparr>fresh := fresh s + 1\<rparr>) =
      Some (enc_inode_d U i sz' NEWFS_FILE cnt, s\<lparr>fresh := fresh s + 1, dev := d1\<rparr>)" "c d1 = c (dev s)"
    "int_at 0 (enc_inode_d U i sz' NEWFS_FILE cnt) = i" "int_at 4 (enc_inode_d U i sz' NEWFS_FILE cnt) = sz'"
    using read_header [OF ok(1) i, of U NEWFS_FILE "fresh s + 1"] disk(1,2) by auto
  let ?n = "\<lparr>ino = i, isize = sz', dir_cnt = 0, identry = dp, dentrys = None, data = None\<rparr>"
  let ?s2 = "s\<lparr>fresh := fresh s + 1, dev := d1, inodes := (inodes s)(fresh s \<mapsto> ?n)\<rparr>"
  have "disk_ok D sz c pos ?s2" using ok by (simp add: disk_ok_def)
  from fs_read_bytes [OF this, of "NEWFS_DA_OFS i" 8192] obtain d2 where
    d2: "fs_read D (NEWFS_DA_OFS i) 8192 ?s2 = Some (dslice (c (dev s)) (NEWFS_DA_OFS i) 8192, ?s2\<lparr>dev := d2\<rparr>)" "c d2 = c d1"
    using region_in_disk [OF i(1,2)] d1(2) by auto
  let ?b = "dslice (c (dev s)) (NEWFS_DA_OFS i) 8192"
  have sz: "NEWFS_DATA_PER_FILE * NEWFS_BLKS_SZ (sz_io ?s2) = 8192" using ok by (simp add: NEWFS_DATA_PER_FILE_def)
  have r: "newfs_read_inode D dp i s =
      Some (fresh s, ?s2\<lparr>dev := d2, inodes := (inodes s)(fresh s \<mapsto> ?n\<lparr>data := Some ?b\<rparr>)\<rparr>)"
    using d1 dp d2(1) sz by (simp add: newfs_read_inode_def Let_def)
  have b: "take (file_bytes io sz') ?b = take (file_bytes io sz') bs"
    using disk(1,3) by (simp add: take_slice)
  show ?thesis by (rule that [OF r, of "?n\<lparr>data := Some ?b\<rparr>" ?b]) (use d1(2) d2(2) b in auto)
qed

lemma newfs_read_inode_dir:
  assumes ok: "readable D sz c pos s" and i: "0 \<le> i" "i < 496" "int32 sz'"
    and disk: "on_disk U io (c (dev s)) (DirT i sz' (int (ecount es)) es)" "uninit_ok U"
      "fits io (DirT i sz' (int (ecount es)) es)" "inos32 es"
    and dp: "dents s dp = Some d" "ftype d = NEWFS_DIR"
  obtains s' n where "newfs_read_inode D dp i s = Some (fresh s, s')" "c (dev s') = c (dev s)" "inodes s' (fresh s) = Some n"
    "ino n = i" "identry n = dp" "dir_list (dents s') (dentrys n) (rev (ent_list es))" "\<forall>p<fresh s. dents s' p = dents s p"
    "map_inode s' = map_inode s"
proof -
  have cnt: "int32 (int (ecount es))" using disk(3) by (simp add: int32_def)
  have ok': "disk_ok D sz c pos s" using ok by (simp add: readable_def)
  obtain d1 where d1: "fs_read D (NEWFS_INO_OFS i) sizeof_inode_d (s\<lparr>fresh := fresh s + 1\<rparr>) =
      Some (enc_inode_d U i sz' NEWFS_DIR (int (ecount es)), s\<lparr>fresh := fresh s + 1, dev := d1\<rparr>)" "c d1 = c (dev s)"
    "int_at 0 (enc_inode_d U i sz' NEWFS_DIR (int (ecount es))) = i"
    "int_at 4 (enc_inode_d U i sz' NEWFS_DIR (int (ecount es))) = sz'"
    "int_at 16 (enc_inode_d U i sz' NEWFS_DIR (int (ecount es))) = int (ecount es)"
    using read_header [OF ok' i cnt, of U NEWFS_DIR "fresh s + 1"] disk(1,2) by auto
  let ?n = "\<lparr>ino = i, isize = sz', dir_cnt = 0, identry = dp, dentrys = None, data = None\<rparr>"
  let ?s2 = "s\<lparr>fresh := fresh s + 1, dev := d1, inodes := (inodes s)(fresh s \<mapsto> ?n)\<rparr>"
  have "readable D sz c pos ?s2" using ok by (auto simp: readable_def disk_ok_def)
  from read_dentries_reads [OF this, of i 0 es io U "fresh s" ?n "[]" dp]
  obtain s3 n' where s3: "read_dentries D (ecount es) i 0 (fresh s) dp ?s2 = Some s3" "c (dev s3) = c d1"
      "inodes s3 (fresh s) = Some n'" "ino n' = i" "identry n' = dp" "dir_list (dents s3) (dentrys n') (rev (ent_list es))"
      "\<forall>p<fresh s. dents s3 p = dents s p" "map_inode s3 = map_inode s"
    using region_in_disk [OF i(1,2)] disk d1(2) by auto
  have "newfs_read_inode D dp i s = Some (fresh s, s3)"
    using d1 dp s3(1) by (simp add: newfs_read_inode_def Let_def)
  then show ?thesis by (rule that) (use s3 d1(2) in auto)
qed

end
