(* ===== verification/Newfs_Props.thy ===== *)
theory Newfs_Props
  imports Newfs_Sync
begin

text \<open>
  Properties of the lab 5 file system that span its layers: bytes on the device, writing and
  reading inodes, unmounting and mounting again, and the FUSE operations.
\<close>

section \<open>A device in memory\<close>

text \<open>Contents and head position; the IO unit is 512 bytes and the size 4 MB, as the device of the lab has them.\<close>

type_synonym ram = "(int \<Rightarrow> u8) \<times> int"

definition ram_driver :: "ram ddriver" where
  "ram_driver = \<lparr>ddriver_open = (\<lambda>_ d. (3, d)), ddriver_seek = (\<lambda>p (m, _). (m, p)),
     ddriver_read = (\<lambda>n (m, p). (dslice m p (nat n), (m, p + n))),
     ddriver_write = (\<lambda>bs (m, p). (dsplice m p bs, p + int (length bs))),
     ddriver_size = (\<lambda>_. 4194304), ddriver_io_sz = (\<lambda>_. 512), ddriver_close = (\<lambda>d. d)\<rparr>"

lemma ram_driver_ok: "ddriver_ok ram_driver 512 4194304 fst snd"
  by (auto simp: ddriver_ok_def ram_driver_def)

section \<open>Bytes on the device\<close>

text \<open>
  C29: \<^verbatim>\<open>newfs_driver_write\<close> stores the bytes at their offset, whatever the alignment of the range, and changes no other
  byte of the device; \<^verbatim>\<open>newfs_driver_read\<close> of any range then returns what the device holds.
\<close>

theorem newfs_driver_write_read:
  assumes D: "ddriver_ok D io sz c pos" "NEWFS_BLKS_SZ io dvd sz"
    and w: "0 \<le> ofs" "ofs + int (length bs) \<le> sz" and r: "0 \<le> ofs'" "0 \<le> n" "ofs' + n \<le> sz"
  shows "\<exists>d1 d2. newfs_driver_write D io ofs bs d = Some d1 \<and>
    (\<forall>x. c d1 x = (if ofs \<le> x \<and> x < ofs + int (length bs) then bs ! nat (x - ofs) else c d x)) \<and>
    newfs_driver_read D io ofs' n d1 = Some (map (\<lambda>k. c d1 (ofs' + int k)) [0..<nat n], d2) \<and> c d2 = c d1"
proof -
  obtain d1 where d1: "newfs_driver_write D io ofs bs d = Some d1" "c d1 = dsplice (c d) ofs bs"
    using newfs_driver_write_bytes [OF D w] by blast
  obtain d2 where "newfs_driver_read D io ofs' n d1 = Some (dslice (c d1) ofs' (nat n), d2)" "c d2 = c d1"
    using newfs_driver_read_bytes [OF D r] by blast
  then show ?thesis using d1 by (auto simp: dsplice_def dslice_def)
qed

theorem newfs_driver_write_read_witness:
  "\<exists>d1 d2. newfs_driver_write ram_driver 512 1023 [1, 2, 3] ((\<lambda>_. 0), 0) = Some d1 \<and>
    newfs_driver_read ram_driver 512 1022 3 d1 = Some ([0, 1, 2], d2)"
  using newfs_driver_write_read [OF ram_driver_ok, of 1023 "[1, 2, 3]" 1022 3 "((\<lambda>_. 0), 0)"]
  by (fastforce simp: upt_rec)

section \<open>Writing the tree\<close>

text \<open>
  C6: \<^verbatim>\<open>newfs_sync_inode\<close> on an inode with the tree below it in memory returns 0, leaves memory as it is, and writes
  every inode, directory entry and file buffer of the tree to its place; no byte outside the regions of
  the tree's inodes changes. The inode numbers must be distinct and below 496, directories at most 58 entries long
  and files at most 8 blocks: beyond that the regions overlap or lie past the end of the device.
\<close>

theorem newfs_sync_inode_writes_tree:
  assumes "disk_ok D sz c pos s" "rep_tree s ip t" "fits (sz_io s) t" "good_inos (inos t)"
  shows "\<exists>d. newfs_sync_inode D ip s = Some (0, s\<lparr>dev := d\<rparr>) \<and> on_disk (uninit s) (sz_io s) (c d) t \<and>
    (\<forall>x. x \<notin> regions_of (inos t) \<longrightarrow> c d x = c (dev s) x)"
  using newfs_sync_tree(1) [OF assms] by (auto simp: synced_def newfs_sync_inode_def)

text \<open>A mounted file system with a directory \<^verbatim>\<open>d\<close> that is not loaded and a file \<^verbatim>\<open>f\<close> that is.\<close>

definition ex_root :: "ram newfs" where
  "ex_root = \<lparr>sz_io = 512, sz_disk = 4194304, sz_usage = 0, driver_fd = 3, max_ino = 3968, max_data = 3968,
     map_inode = 7 # replicate 1023 0, map_inode_blks = 1, map_inode_offset = 1024,
     map_data = 3 # replicate 1023 0, map_data_blks = 1, map_data_offset = 2048, inode_offset = 3072,
     data_offset = 130048, is_mounted = True, root_dentry = Some 0,
     dents = [0 \<mapsto> \<lparr>fname = ''/'', ftype = NEWFS_DIR, parent = None, brother = None, dino = 0, dinode = Some 1, valid = 0\<rparr>,
       2 \<mapsto> \<lparr>fname = ''d'', ftype = NEWFS_DIR, parent = Some 0, brother = Some 3, dino = 1, dinode = None, valid = 0\<rparr>,
       3 \<mapsto> \<lparr>fname = ''f'', ftype = NEWFS_FILE, parent = Some 0, brother = None, dino = 2, dinode = Some 4, valid = 0\<rparr>],
     inodes = [1 \<mapsto> \<lparr>ino = 0, isize = 352, dir_cnt = 2, identry = 0, dentrys = Some 2, data = None\<rparr>,
       4 \<mapsto> \<lparr>ino = 2, isize = 5, dir_cnt = 0, identry = 3, dentrys = None, data = Some (replicate 8192 65)\<rparr>],
     fresh = 5, uninit = (\<lambda>n. replicate n 0xEE), dev = ((\<lambda>_. 0), 0)\<rparr>"

definition ex_ents :: ents where
  "ex_ents = Ent ''d'' NEWFS_DIR 1 (EntT ''f'' NEWFS_FILE 2 (FileT 2 5 0 (replicate 8192 65)) NoEnt)"

definition ex_tree :: tree where
  "ex_tree = DirT 0 352 2 ex_ents"

lemma ex_root_ok:
  "disk_ok ram_driver 4194304 fst snd ex_root" "rep_tree ex_root 1 ex_tree" "rep_tree ex_root 4 (FileT 2 5 0 (replicate 8192 65))"
  "fits 512 ex_tree" "good_inos (inos ex_tree)" "sz_io ex_root = 512" "inos32 ex_ents"
  using ram_driver_ok
  by (simp_all add: ex_root_def ex_tree_def ex_ents_def disk_ok_def uninit_ok_def has_inode_def name_ok_def
      NEWFS_MAX_FILE_NAME_def file_bytes_def NEWFS_ROUND_UP_def good_inos_def int32_def)

theorem newfs_sync_inode_writes_tree_witness:
  "\<exists>d. newfs_sync_inode ram_driver 1 ex_root = Some (0, ex_root\<lparr>dev := d\<rparr>) \<and> on_disk (uninit ex_root) 512 (fst d) ex_tree"
  using newfs_sync_inode_writes_tree [OF ex_root_ok(1,2)] ex_root_ok(4,5,6) by auto

text \<open>
  C28: A file that \<^verbatim>\<open>newfs_sync_inode\<close> wrote and \<^verbatim>\<open>newfs_read_inode\<close> reads again has the same number, size and bytes, up
  to the last block its size reaches.
\<close>

theorem newfs_sync_then_read_file:
  assumes ok: "disk_ok D sz c pos s" "NEWFS_BLKS_SZ (sz_io s) = 1024" and r: "rep_tree s ip (FileT i sz' cnt bs)"
    and f: "fits (sz_io s) (FileT i sz' cnt bs)" "0 \<le> i" "i < 496" "int32 sz'" "int32 cnt"
    and dp: "dents s dp = Some d" "ftype d = NEWFS_FILE"
  shows "\<exists>s1 s2 n b. newfs_sync_inode D ip s = Some (0, s1) \<and> newfs_read_inode D dp i s1 = Some (fresh s, s2) \<and>
    inodes s2 (fresh s) = Some n \<and> ino n = i \<and> isize n = sz' \<and> data n = Some b \<and>
    take (file_bytes (sz_io s) sz') b = take (file_bytes (sz_io s) sz') bs"
proof -
  have g: "good_inos (inos (FileT i sz' cnt bs))" using f by (simp add: good_inos_def)
  obtain e where e: "newfs_sync_inode D ip s = Some (0, s\<lparr>dev := e\<rparr>)" "on_disk (uninit s) (sz_io s) (c e) (FileT i sz' cnt bs)"
    using newfs_sync_tree(1) [OF ok(1) r f(1) g] by (auto simp: synced_def newfs_sync_inode_def)
  let ?s = "s\<lparr>dev := e\<rparr>"
  have "disk_ok D sz c pos ?s" "sz_io ?s = sz_io s" "on_disk (uninit s) (sz_io s) (c (dev ?s)) (FileT i sz' cnt bs)"
    "uninit_ok (uninit s)" "dents ?s dp = Some d"
    using ok e dp by (simp_all add: disk_ok_def)
  then obtain s2 b n where "newfs_read_inode D dp i ?s = Some (fresh ?s, s2)" "inodes s2 (fresh ?s) = Some n"
      "ino n = i" "isize n = sz'" "data n = Some b" "take (file_bytes (sz_io s) sz') b = take (file_bytes (sz_io s) sz') bs"
    using newfs_read_inode_file [of D sz c pos ?s "sz_io s" i sz' cnt "uninit s" bs dp d] ok(2) f dp(2) by metis
  then show ?thesis using e(1) by auto
qed

theorem newfs_sync_then_read_file_witness:
  "\<exists>s1 s2 n b. newfs_sync_inode ram_driver 4 ex_root = Some (0, s1) \<and> newfs_read_inode ram_driver 3 2 s1 = Some (5, s2) \<and>
    inodes s2 5 = Some n \<and> isize n = 5 \<and> data n = Some b \<and> take 1024 b = replicate 1024 65"
proof -
  have h: "fits (sz_io ex_root) (FileT 2 5 0 (replicate 8192 65))" "int32 5" "int32 0" "fresh ex_root = 5"
    "NEWFS_BLKS_SZ (sz_io ex_root) = 1024" "file_bytes (sz_io ex_root) 5 = 1024"
    "\<exists>d. dents ex_root 3 = Some d \<and> ftype d = NEWFS_FILE"
    by (simp_all add: ex_root_def file_bytes_def NEWFS_ROUND_UP_def int32_def)
  then show ?thesis
    using newfs_sync_then_read_file [OF ex_root_ok(1) h(5) ex_root_ok(3) h(1) _ _ h(2,3)] by (fastforce simp: h(4,6))
qed

section \<open>Unmounting and mounting again\<close>

text \<open>What \<^verbatim>\<open>ddriver.h\<close> documents of opening and closing: the device keeps its contents.\<close>

definition ddriver_open_ok :: "'d ddriver \<Rightarrow> string \<Rightarrow> int \<Rightarrow> ('d \<Rightarrow> int \<Rightarrow> u8) \<Rightarrow> bool" where
  "ddriver_open_ok D device io c \<longleftrightarrow>
     (\<forall>d. 0 \<le> fst (ddriver_open D device d) \<and> c (snd (ddriver_open D device d)) = c d \<and>
        ddriver_io_sz D d = io \<and> c (ddriver_close D d) = c d)"

text \<open>The disk of a file system that was unmounted: superblock, bitmaps and the tree below the root.\<close>

definition saved :: "(nat \<Rightarrow> u8 list) \<Rightarrow> int \<Rightarrow> super_d \<Rightarrow> u8 list \<Rightarrow> u8 list \<Rightarrow> tree \<Rightarrow> (int \<Rightarrow> u8) \<Rightarrow> bool" where
  "saved U io sd mi md t m \<longleftrightarrow> dslice m 0 52 = enc_super_d U sd \<and> dslice m 1024 1024 = mi \<and> dslice m 2048 1024 = md \<and>
     on_disk U io m t"

lemma length_enc_super_d: "uninit_ok U \<Longrightarrow> length (enc_super_d U x) = 52"
  by (simp add: enc_super_d_def uninit_ok_def)

lemma dec_enc_super_d:
  assumes "uninit_ok U" "int32 (magic_num x)" "int32 (d_map_inode_blks x)" "int32 (d_map_inode_offset x)"
    "int32 (d_map_data_blks x)" "int32 (d_map_data_offset x)"
  shows "magic_num (dec_super_d (enc_super_d U x)) = magic_num x"
    "d_map_inode_blks (dec_super_d (enc_super_d U x)) = d_map_inode_blks x"
    "d_map_inode_offset (dec_super_d (enc_super_d U x)) = d_map_inode_offset x"
    "d_map_data_blks (dec_super_d (enc_super_d U x)) = d_map_data_blks x"
    "d_map_data_offset (dec_super_d (enc_super_d U x)) = d_map_data_offset x"
  using assms by (simp_all add: dec_super_d_def enc_super_d_def int_at_def uninit_ok_def int32_def dec_enc_int)

text \<open>The bytes below the inode table belong to no inode.\<close>

lemma on_disk_meta:
  assumes "fits io t" "good_inos (inos t)" "\<And>x. 3072 \<le> x \<Longrightarrow> m' x = m x"
  shows "on_disk U io m' t = on_disk U io m t"
proof (rule on_disk_cong(1) [OF assms(1)])
  fix x assume "x \<in> regions_of (inos t)"
  then obtain i where "i \<in> set (inos t)" "x \<in> region i" by (auto simp: regions_of_def)
  moreover have "0 \<le> i" using calculation(1) assms(2) by (simp add: good_inos_def)
  ultimately have "3072 \<le> x" by (auto simp: region_def NEWFS_INO_OFS_def NEWFS_DA_OFS_def newfs_consts)
  then show "m' x = m x" by (rule assms(3))
qed

text \<open>A file system as \<^verbatim>\<open>newfs_init\<close> lays it out, with the tree \<open>t\<close> below its root in memory.\<close>

definition laid_out :: "'d newfs \<Rightarrow> tree \<Rightarrow> bool" where
  "laid_out s t \<longleftrightarrow> is_mounted s \<and> map_inode_blks s = 1 \<and> map_inode_offset s = 1024 \<and> map_data_blks s = 1 \<and>
     map_data_offset s = 2048 \<and> NEWFS_BLKS_SZ (sz_io s) = 1024 \<and> length (map_inode s) = 1024 \<and> length (map_data s) = 1024 \<and>
     (\<exists>rd d ip. root_dentry s = Some rd \<and> dents s rd = Some d \<and> dinode d = Some ip \<and> rep_tree s ip t)"

lemma newfs_destroy_saves:
  assumes k: "disk_ok D sz c pos s" and l: "laid_out s t" and f: "fits (sz_io s) t" "good_inos (inos t)"
    and cl: "ddriver_open_ok D device (sz_io s) c"
  obtains s' sd where "newfs_destroy D s = Some s'" "saved (uninit s) (sz_io s) sd (map_inode s) (map_data s) t (c (dev s'))"
    "magic_num sd = NEWFS_MAGIC_NUM" "d_map_inode_blks sd = 1" "d_map_inode_offset sd = 1024" "d_map_data_blks sd = 1"
    "d_map_data_offset sd = 2048"
proof -
  obtain rd d ip where r: "root_dentry s = Some rd" "dents s rd = Some d" "dinode d = Some ip" "rep_tree s ip t"
    using l by (auto simp: laid_out_def)
  obtain d1 where d1: "newfs_sync_inode D ip s = Some (0, s\<lparr>dev := d1\<rparr>)" "on_disk (uninit s) (sz_io s) (c d1) t"
    using newfs_sync_tree(1) [OF k r(4) f] by (auto simp: synced_def newfs_sync_inode_def)
  define sd where "sd = \<lparr>magic_num = NEWFS_MAGIC_NUM, d_map_inode_blks = map_inode_blks s,
          d_map_inode_offset = map_inode_offset s, d_map_data_blks = map_data_blks s,
          d_map_data_offset = map_data_offset s, d_inode_offset = inode_offset s,
          d_data_offset = data_offset s, d_sz_usage = sz_usage s\<rparr>"
  have sdl: "length (enc_super_d (uninit s) sd) = 52" using k length_enc_super_d by (simp add: disk_ok_def)
  obtain d2 where d2: "fs_write D 0 (enc_super_d (uninit s) sd) (s\<lparr>dev := d1\<rparr>) = Some (s\<lparr>dev := d2\<rparr>)"
      "c d2 = dsplice (c d1) 0 (enc_super_d (uninit s) sd)"
    using fs_write_bytes [of D sz c pos "s\<lparr>dev := d1\<rparr>" 0 "enc_super_d (uninit s) sd"] k sdl by auto
  have ml: "length (map_inode s) = 1024" "length (map_data s) = 1024" using l by (simp_all add: laid_out_def)
  obtain d3 where d3: "fs_write D 1024 (map_inode s) (s\<lparr>dev := d2\<rparr>) = Some (s\<lparr>dev := d3\<rparr>)"
      "c d3 = dsplice (c d2) 1024 (map_inode s)"
    using fs_write_bytes [of D sz c pos "s\<lparr>dev := d2\<rparr>" 1024 "map_inode s"] k ml by auto
  obtain d4 where d4: "fs_write D 2048 (map_data s) (s\<lparr>dev := d3\<rparr>) = Some (s\<lparr>dev := d4\<rparr>)"
      "c d4 = dsplice (c d3) 2048 (map_data s)"
    using fs_write_bytes [of D sz c pos "s\<lparr>dev := d3\<rparr>" 2048 "map_data s"] k ml by auto
  have des: "newfs_destroy D s = Some (s\<lparr>map_inode := [], map_data := [], dev := ddriver_close D d4\<rparr>)"
    using l r d1(1) d2(1) d3(1) d4(1) ml
    by (simp add: newfs_destroy_def Let_def laid_out_def NEWFS_SUPER_OFS_def sd_def [symmetric])
      (simp add: sd_def)
  have sup: "dslice (c d4) 0 52 = enc_super_d (uninit s) sd"
    using slice_splice_same [of "c d1" 0 "enc_super_d (uninit s) sd"] ml sdl
    by (simp add: d4(2) d3(2) d2(2) slice_splice_other)
  have maps: "dslice (c d4) 1024 1024 = map_inode s" "dslice (c d4) 2048 1024 = map_data s"
    using slice_splice_same [of "c d2" 1024 "map_inode s"] slice_splice_same [of "c d3" 2048 "map_data s"] ml
    by (simp_all add: d4(2) d3(2) slice_splice_other)
  have "c d4 x = c d1 x" if "3072 \<le> x" for x
    using that sdl ml by (simp add: d4(2) d3(2) d2(2) dsplice_outside)
  then have "on_disk (uninit s) (sz_io s) (c d4) t = on_disk (uninit s) (sz_io s) (c d1) t"
    by (rule on_disk_meta [OF f])
  then have sv: "saved (uninit s) (sz_io s) sd (map_inode s) (map_data s) t (c (ddriver_close D d4))"
    using sup maps d1(2) cl by (simp add: saved_def ddriver_open_ok_def)
  show ?thesis by (rule that [OF des, of sd]) (use sv l in \<open>auto simp: laid_out_def sd_def\<close>)
qed

lemma newfs_init_loads:
  assumes D: "ddriver_ok D io sz c pos" "NEWFS_BLKS_SZ io dvd sz" "4194304 \<le> sz" "ddriver_open_ok D device io c"
    and io: "NEWFS_BLKS_SZ io = 1024" and U: "uninit_ok U" "uninit_ok (uninit s)" and h: "\<forall>p\<ge>fresh s. dents s p = None"
    and sv: "saved U io sd mi md (DirT 0 sz' (int (ecount es)) es) (c (dev s))"
    and t: "fits io (DirT 0 sz' (int (ecount es)) es)" "inos32 es" "int32 sz'"
    and sd: "magic_num sd = NEWFS_MAGIC_NUM" "d_map_inode_blks sd = 1" "d_map_inode_offset sd = 1024" "d_map_data_blks sd = 1"
      "d_map_data_offset sd = 2048"
  obtains s' rd ip n where "newfs_init D device s = Some (0, s')" "is_mounted s'" "root_dentry s' = Some rd"
    "map_option dinode (dents s' rd) = Some (Some ip)" "inodes s' ip = Some n" "ino n = 0"
    "dir_list (dents s') (dentrys n) (rev (ent_list es))" "c (dev s') = c (dev s)" "map_inode s' = mi"
proof -
  obtain fd d0 where o: "ddriver_open D device (dev s) = (fd, d0)" by fastforce
  then have fd: "0 \<le> fd" "c d0 = c (dev s)" "ddriver_io_sz D d0 = io"
    using D(4) unfolding ddriver_open_ok_def by (metis fst_conv snd_conv)+
  let ?rd = "fresh s"
  let ?e = "\<lparr>fname = ''/'', ftype = NEWFS_DIR, parent = None, brother = None, dino = -1, dinode = None, valid = 0\<rparr>"
  let ?s2 = "s\<lparr>driver_fd := fd, dev := d0, sz_disk := ddriver_size D d0, sz_io := io, dents := (dents s)(?rd \<mapsto> ?e), fresh := ?rd + 1\<rparr>"
  have ok: "disk_ok D sz c pos q" if "sz_io q = io" "uninit q = uninit s" for q :: "'a newfs"
    using D U(2) that by (simp add: disk_ok_def)
  let ?sd = "enc_super_d U sd"
  obtain d1 where d1: "fs_read D NEWFS_SUPER_OFS sizeof_super_d ?s2 = Some (?sd, ?s2\<lparr>dev := d1\<rparr>)" "c d1 = c (dev s)"
    using fs_read_bytes [OF ok [of ?s2], of 0 52] fd sv by (auto simp: NEWFS_SUPER_OFS_def sizeof_super_d_def saved_def)
  have sds: "magic_num (dec_super_d ?sd) = NEWFS_MAGIC_NUM" "d_map_inode_blks (dec_super_d ?sd) = 1"
    "d_map_inode_offset (dec_super_d ?sd) = 1024" "d_map_data_blks (dec_super_d ?sd) = 1" "d_map_data_offset (dec_super_d ?sd) = 2048"
    using dec_enc_super_d [OF U(1), of sd] sd by (simp_all add: int32_def NEWFS_MAGIC_NUM_def)
  let ?s5 = "?s2\<lparr>dev := d1, sz_usage := d_sz_usage (dec_super_d ?sd), map_inode_blks := 1, map_inode_offset := 1024,
     map_data_blks := 1, map_data_offset := 2048\<rparr>"
  obtain d2 where d2: "fs_read D 1024 1024 ?s5 = Some (mi, ?s5\<lparr>dev := d2\<rparr>)" "c d2 = c (dev s)"
    using fs_read_bytes [OF ok [of ?s5], of 1024 1024] d1(2) sv by (auto simp: saved_def)
  let ?s6 = "?s5\<lparr>dev := d2, map_inode := mi\<rparr>"
  obtain d3 where d3: "fs_read D 2048 1024 ?s6 = Some (md, ?s6\<lparr>dev := d3\<rparr>)" "c d3 = c (dev s)"
    using fs_read_bytes [OF ok [of ?s6], of 2048 1024] d2(2) sv by (auto simp: saved_def)
  let ?s8 = "?s6\<lparr>dev := d3, map_data := md\<rparr>"
  have md: "length md = 1024" using sv by (auto simp: saved_def)
  have rdb: "readable D sz c pos ?s8" using ok [of ?s8] md h io by (auto simp: readable_def)
  have dsk: "on_disk U io (c (dev ?s8)) (DirT 0 sz' (int (ecount es)) es)" using sv d3(2) by (simp add: saved_def)
  have root: "dents ?s8 ?rd = Some ?e" "ftype ?e = NEWFS_DIR" by simp_all
  obtain s9 n where s9: "newfs_read_inode D ?rd 0 ?s8 = Some (fresh ?s8, s9)" "c (dev s9) = c (dev ?s8)"
      "inodes s9 (fresh ?s8) = Some n" "ino n = 0" "identry n = ?rd" "dir_list (dents s9) (dentrys n) (rev (ent_list es))"
      "\<forall>p<fresh ?s8. dents s9 p = dents ?s8 p" "map_inode s9 = map_inode ?s8"
    by (rule newfs_read_inode_dir [OF rdb _ _ t(3) dsk U(1) t(1,2) root]) simp_all
  have e9: "dents s9 ?rd = Some ?e" using s9(7) by simp
  let ?s10 = "s9\<lparr>dents := (dents s9)(?rd \<mapsto> ?e\<lparr>dinode := Some (fresh ?s8)\<rparr>), root_dentry := Some ?rd, is_mounted := True\<rparr>"
  have "newfs_init D device s = Some (0, ?s10)"
    using o fd d1(1) d2(1) d3(1) s9(1) e9 sds io
    by (simp add: newfs_init_def new_dentry_def NEWFS_MAX_FILE_NAME_def Let_def)
  then show ?thesis
    by (rule that [of _ ?rd "fresh ?s8" n]) (use s9 d3(2) dir_list_dinode [OF s9(6) e9] in auto)
qed

text \<open>
  C7: Unmounting a file system and mounting its device again: \<^verbatim>\<open>newfs_destroy\<close> and then \<^verbatim>\<open>newfs_init\<close> in any fresh state
  succeed; the inode bitmap is the one that was saved, and the root directory has the entries it had
  (names, types and inode numbers), in reverse order.
\<close>

theorem newfs_remount:
  assumes D: "disk_ok D sz c pos s" "ddriver_open_ok D device (sz_io s) c"
    and t: "t = DirT 0 sz' (int (ecount es)) es" "laid_out s t" "fits (sz_io s) t" "good_inos (inos t)" "inos32 es" "int32 sz'"
  shows "\<exists>s1. newfs_destroy D s = Some s1 \<and>
    (\<forall>s0. dev s0 = dev s1 \<and> uninit_ok (uninit s0) \<and> (\<forall>p\<ge>fresh s0. dents s0 p = None) \<longrightarrow>
      (\<exists>s2 rd e ip n. newfs_init D device s0 = Some (0, s2) \<and> is_mounted s2 \<and> map_inode s2 = map_inode s \<and>
         root_dentry s2 = Some rd \<and> dents s2 rd = Some e \<and> dinode e = Some ip \<and> inodes s2 ip = Some n \<and> ino n = 0 \<and>
         dir_list (dents s2) (dentrys n) (rev (ent_list es))))"
proof -
  obtain s1 sd where s1: "newfs_destroy D s = Some s1" "saved (uninit s) (sz_io s) sd (map_inode s) (map_data s) t (c (dev s1))"
    and sd: "magic_num sd = NEWFS_MAGIC_NUM" "d_map_inode_blks sd = 1" "d_map_inode_offset sd = 1024" "d_map_data_blks sd = 1"
      "d_map_data_offset sd = 2048"
    by (rule newfs_destroy_saves [OF D(1) t(2,3,4) D(2)])
  have io: "ddriver_ok D (sz_io s) sz c pos" "NEWFS_BLKS_SZ (sz_io s) dvd sz" "4194304 \<le> sz" "uninit_ok (uninit s)"
    "NEWFS_BLKS_SZ (sz_io s) = 1024" using D(1) t(2) by (simp_all add: disk_ok_def laid_out_def)
  have "\<exists>s2 rd e ip n. newfs_init D device s0 = Some (0, s2) \<and> is_mounted s2 \<and> map_inode s2 = map_inode s \<and>
         root_dentry s2 = Some rd \<and> dents s2 rd = Some e \<and> dinode e = Some ip \<and> inodes s2 ip = Some n \<and> ino n = 0 \<and>
         dir_list (dents s2) (dentrys n) (rev (ent_list es))"
    if s0: "dev s0 = dev s1" "uninit_ok (uninit s0)" "\<forall>p\<ge>fresh s0. dents s0 p = None" for s0
  proof -
    have sv: "saved (uninit s) (sz_io s) sd (map_inode s) (map_data s) (DirT 0 sz' (int (ecount es)) es) (c (dev s0))"
      using s1(2) s0(1) t(1) by simp
    show ?thesis
      by (rule newfs_init_loads [OF io(1-3) D(2) io(5,4) s0(2,3) sv t(3) [unfolded t(1)] t(5,6) sd]) auto
  qed
  then show ?thesis using s1(1) by blast
qed

theorem newfs_remount_witness:
  "\<exists>s1 s2 rd e ip n. newfs_destroy ram_driver ex_root = Some s1 \<and>
    newfs_init ram_driver ''/dev/ddriver'' (ex_root\<lparr>dents := Map.empty, inodes := Map.empty, fresh := 0, dev := dev s1\<rparr>) = Some (0, s2) \<and>
    root_dentry s2 = Some rd \<and> dents s2 rd = Some e \<and> dinode e = Some ip \<and> inodes s2 ip = Some n \<and>
    dir_list (dents s2) (dentrys n) [(''f'', NEWFS_FILE, 2), (''d'', NEWFS_DIR, 1)]"
proof -
  have o: "ddriver_open_ok ram_driver ''/dev/ddriver'' (sz_io ex_root) fst"
    by (simp add: ddriver_open_ok_def ram_driver_def ex_root_def)
  have l: "ex_tree = DirT 0 352 (int (ecount ex_ents)) ex_ents" "int32 352" "laid_out ex_root ex_tree"
    "uninit_ok (uninit ex_root)" "ent_list ex_ents = [(''d'', NEWFS_DIR, 1), (''f'', NEWFS_FILE, 2)]"
    using ex_root_ok(2)
    by (simp_all add: ex_tree_def ex_ents_def int32_def laid_out_def ex_root_def uninit_ok_def)
  obtain s1 where s1: "newfs_destroy ram_driver ex_root = Some s1" and
    *: "\<forall>s0. dev s0 = dev s1 \<and> uninit_ok (uninit s0) \<and> (\<forall>p\<ge>fresh s0. dents s0 p = None) \<longrightarrow>
      (\<exists>s2 rd e ip n. newfs_init ram_driver ''/dev/ddriver'' s0 = Some (0, s2) \<and> is_mounted s2 \<and> map_inode s2 = map_inode ex_root \<and>
         root_dentry s2 = Some rd \<and> dents s2 rd = Some e \<and> dinode e = Some ip \<and> inodes s2 ip = Some n \<and> ino n = 0 \<and>
         dir_list (dents s2) (dentrys n) (rev (ent_list ex_ents)))"
    using newfs_remount [OF ex_root_ok(1) o l(1,3) _ ex_root_ok(5,7) l(2)] ex_root_ok(4,6) by auto
  let ?s0 = "ex_root\<lparr>dents := Map.empty, inodes := Map.empty, fresh := 0, dev := dev s1\<rparr>"
  have "dev ?s0 = dev s1 \<and> uninit_ok (uninit ?s0) \<and> (\<forall>p\<ge>fresh ?s0. dents ?s0 p = None)" using l(4) by simp
  from mp [OF spec [OF *] this] show ?thesis using s1 unfolding l(5) rev.simps append.simps by blast
qed

section \<open>How many inodes fit on the disk\<close>

lemma region_off_metadata: "0 \<le> i \<Longrightarrow> region i \<inter> {0..<NEWFS_INODE_OFS} = {}"
  by (auto simp: region_def NEWFS_INO_OFS_def NEWFS_DA_OFS_def newfs_consts)

lemma region_disjoint_all:
  assumes "0 \<le> i" "i < j" "j < NEWFS_INODE_NUM"
  shows "region i \<inter> region j = {}"
  using assms by (auto simp: region_def NEWFS_INO_OFS_def NEWFS_DA_OFS_def newfs_consts)

lemma region_on_disk: "0 \<le> i \<Longrightarrow> region i \<subseteq> {0..<4194304} \<longleftrightarrow> i \<le> 495"
proof
  assume i: "0 \<le> i" and r: "region i \<subseteq> {0..<4194304}"
  have "NEWFS_DA_OFS i + 8191 \<in> region i" by (simp add: region_def)
  then show "i \<le> 495" using r by (auto simp: NEWFS_DA_OFS_def newfs_consts)
qed (auto simp: region_def NEWFS_INO_OFS_def NEWFS_DA_OFS_def newfs_consts)

text \<open>
  C40: The inode that \<^verbatim>\<open>newfs_alloc_inode\<close> hands out for the lowest free bit \<open>k\<close> owns bytes apart from the superblock, the bitmaps and, below 3968, every inode
  before it. The data of the first 496 inodes lie on a disk of 4 MiB; the allocator goes on to hand out numbers whose data lie past its end.
\<close>

theorem newfs_inode_capacity:
  assumes "length (map_inode s) = nat (map_inode_blks s * NEWFS_BLKS_SZ (sz_io s))" "dents s dp = Some d"
    and k: "k < 8 * length (map_inode s)" "\<not> bit_used (map_inode s) k" "\<forall>j<k. bit_used (map_inode s) j" "int k \<noteq> max_ino s"
  shows "\<exists>ip s' i. newfs_alloc_inode dp s = Some (Inr ip, s') \<and> inodes s' ip = Some i \<and> ino i = int k \<and>
    region (ino i) \<inter> {0..<NEWFS_INODE_OFS} = {} \<and> (ino i < NEWFS_INODE_NUM \<longrightarrow> (\<forall>j<k. region (int j) \<inter> region (ino i) = {})) \<and>
    (region (ino i) \<subseteq> {0..<4194304} \<longleftrightarrow> k \<le> 495)"
proof -
  have lowest: "j = k" if "\<not> bit_used (map_inode s) j" "\<forall>l<j. bit_used (map_inode s) l" for j
    using that k(2,3) by (metis nat_neq_iff)
  obtain found m' where t: "take_bit_of (map_inode_blks s * NEWFS_BLKS_SZ (sz_io s)) (map_inode s) = Some (found, m')"
      "case found of
         Some j \<Rightarrow> j < 8 * length (map_inode s) \<and> \<not> bit_used (map_inode s) j \<and> (\<forall>i<j. bit_used (map_inode s) i) \<and>
           (\<forall>l. bit_used m' l \<longleftrightarrow> l = j \<or> bit_used (map_inode s) l)
       | None \<Rightarrow> m' = map_inode s \<and> (\<forall>i<8 * length (map_inode s). bit_used (map_inode s) i)"
    using take_bit_of_eq [OF assms(1) refl] by blast
  have "found = Some k" using t(2) k(1,2) lowest by (auto split: option.splits)
  then have "\<exists>ip s' i. newfs_alloc_inode dp s = Some (Inr ip, s') \<and> inodes s' ip = Some i \<and> ino i = int k"
    using t(1) assms(2) k(4) by (auto simp: newfs_alloc_inode_def Let_def)
  then obtain ip s' i where a: "newfs_alloc_inode dp s = Some (Inr ip, s')" "inodes s' ip = Some i" "ino i = int k" by blast
  show ?thesis
    by (intro exI [of _ ip] exI [of _ s'] exI [of _ i])
      (use a region_off_metadata [of "int k"] region_on_disk [of "int k"] region_disjoint_all [of _ "int k"] in auto)
qed

text \<open>With bits 0 to 495 set the next inode is number 496.\<close>

definition ex_full :: "unit newfs" where
  "ex_full = (ex_fs 3)\<lparr>map_inode := replicate 62 (-1) @ replicate 962 0\<rparr>"

lemma ex_full_bits: "bit_used (map_inode ex_full) j \<longleftrightarrow> j < 496" if "j < 8192"
proof (cases "j < 496")
  case True
  then have "j div 8 < 62" by simp
  then show ?thesis using True by (simp add: ex_full_def bit_used_def nth_append)
next
  case False
  then have "62 \<le> j div 8" "j div 8 - 62 < 962" using that by auto
  then show ?thesis using False by (simp add: ex_full_def bit_used_def nth_append)
qed

theorem newfs_inode_capacity_witness:
  "\<exists>ip s' i. newfs_alloc_inode 2 ex_full = Some (Inr ip, s') \<and> inodes s' ip = Some i \<and> ino i = 496 \<and> \<not> region (ino i) \<subseteq> {0..<4194304}"
proof -
  have h: "length (map_inode ex_full) = nat (map_inode_blks ex_full * NEWFS_BLKS_SZ (sz_io ex_full))" by (simp add: ex_full_def ex_fs_def)
  obtain d where d: "dents ex_full 2 = Some d" by (simp add: ex_full_def ex_fs_def)
  have k: "496 < 8 * length (map_inode ex_full)" "\<not> bit_used (map_inode ex_full) 496" "\<forall>j<496. bit_used (map_inode ex_full) j" "int 496 \<noteq> max_ino ex_full"
    by (simp_all add: ex_full_bits) (simp_all add: ex_full_def ex_fs_def)
  obtain ip s' i where "newfs_alloc_inode 2 ex_full = Some (Inr ip, s')" "inodes s' ip = Some i" "ino i = int 496" "region (ino i) \<subseteq> {0..<4194304} \<longleftrightarrow> (496 :: nat) \<le> 495"
    using newfs_inode_capacity [OF h d k] by blast
  then show ?thesis by (intro exI [of _ ip] exI [of _ s'] exI [of _ i]) simp
qed

end
