(* ===== verification/Newfs_Files.thy ===== *)
theory Newfs_Files
  imports Newfs_Props
begin

text \<open>
  The FUSE operations of the lab 5 file system on names: creating a directory in the root and finding
  it again, the comparison of names by prefix, and reading what was written to a file.
\<close>

section \<open>Paths\<close>

lemma strtok_no_slash: "CHR ''/'' \<notin> set nm \<Longrightarrow> strtok_slash nm cur = (if cur @ nm = [] then [] else [cur @ nm])"
  by (induction nm arbitrary: cur) auto

lemma root_path:
  assumes "CHR ''/'' \<notin> set nm" "nm \<noteq> []"
  shows "strtok_slash (CHR ''/'' # nm) [] = [nm]" "newfs_calc_lvl (CHR ''/'' # nm) = 1"
    "newfs_get_fname (CHR ''/'' # nm) = Some nm"
proof -
  show "strtok_slash (CHR ''/'' # nm) [] = [nm]" using assms by (simp add: strtok_no_slash)
  have "filter (\<lambda>c. c = CHR ''/'') nm = []" using assms(1) by (auto simp: filter_empty_conv)
  then show "newfs_calc_lvl (CHR ''/'' # nm) = 1" using assms(2) by (simp add: newfs_calc_lvl_def)
  have "\<And>c. c \<in> set (rev nm) \<Longrightarrow> c \<noteq> CHR ''/''" using assms(1) by auto
  then have "takeWhile (\<lambda>c. c \<noteq> CHR ''/'') (rev nm @ [CHR ''/'']) = rev nm" by (subst takeWhile_append2) auto
  then show "newfs_get_fname (CHR ''/'' # nm) = Some nm" by (simp add: newfs_get_fname_def)
qed

section \<open>Searching a directory\<close>

text \<open>A stored name is hit by every name that is a prefix of it.\<close>

definition name_prefix :: "string \<Rightarrow> string \<Rightarrow> bool" where
  "name_prefix nm stored \<longleftrightarrow> take (length nm) stored = nm"

lemma byte_of_char_inj: "inj byte_of_char"
  by (rule injI) (metis char_of_byte_of_char)

lemma name_hit_eq:
  assumes "name_ok nm"
  shows "name_hit stored nm = Some (name_prefix nm stored)"
proof -
  have len: "length nm \<le> NEWFS_MAX_FILE_NAME" using assms by (simp add: name_ok_def)
  have "take (length nm) (name_bytes stored) = map byte_of_char nm \<longleftrightarrow> name_prefix nm stored"
  proof (cases "length nm \<le> length stored")
    case True
    then have "take (length nm) (name_bytes stored) = map byte_of_char (take (length nm) stored)"
      by (simp add: name_bytes_def take_map)
    then show ?thesis using byte_of_char_inj by (simp add: name_prefix_def inj_map_eq_map)
  next
    case False
    then have "length stored < length (name_bytes stored)" "name_bytes stored ! length stored = 0"
      using len by (auto simp: name_bytes_def nth_append)
    moreover have "nm ! length stored \<in> set nm" using False by simp
    then have "map byte_of_char nm ! length stored \<noteq> 0"
      using False assms by (metis name_ok_def byte_of_char_0 not_le nth_map)
    ultimately have "take (length nm) (name_bytes stored) \<noteq> map byte_of_char nm"
      using False by (metis not_le nth_take)
    moreover have "\<not> name_prefix nm stored" using False by (auto simp: name_prefix_def dest!: arg_cong [of _ _ length])
    ultimately show ?thesis by simp
  qed
  then show ?thesis using len by (simp add: name_hit_def)
qed

fun first_hit :: "(nat \<Rightarrow> dentry option) \<Rightarrow> string \<Rightarrow> nat list \<Rightarrow> nat option" where
  "first_hit h nm [] = None"
| "first_hit h nm (p # ps) = (if (\<exists>e. h p = Some e \<and> name_prefix nm (fname e)) then Some p else first_hit h nm ps)"

lemma find_dentry_eq:
  "name_ok nm \<Longrightarrow> dlist (dents s) cur ps \<Longrightarrow> find_dentry s nm cur = Some (first_hit (dents s) nm ps)"
proof (induction ps arbitrary: cur)
  case Nil
  then show ?case by (simp add: find_dentry.simps)
next
  case (Cons p ps)
  then obtain e where e: "cur = Some p" "dents s p = Some e" "dlist (dents s) (brother e) ps" by auto
  then show ?case using Cons.IH [OF Cons.prems(1) e(3)] name_hit_eq [OF Cons.prems(1)]
    by (subst find_dentry.simps) simp
qed

text \<open>The root directory: its dentry, inode, inode object and entries.\<close>

definition root_dir :: "'d newfs \<Rightarrow> nat \<Rightarrow> nat \<Rightarrow> inode \<Rightarrow> nat list \<Rightarrow> bool" where
  "root_dir s rd ip i ps \<longleftrightarrow> root_dentry s = Some rd \<and> (\<exists>d. dents s rd = Some d \<and> dinode d = Some ip \<and> ftype d = NEWFS_DIR) \<and>
     inodes s ip = Some i \<and> identry i = rd \<and> dlist (dents s) (dentrys i) ps"

lemma lookup_in_root:
  assumes nm: "name_ok nm" "CHR ''/'' \<notin> set nm" "nm \<noteq> []" and r: "root_dir s rd ip i ps"
  shows "newfs_lookup D (CHR ''/'' # nm) s =
    (case first_hit (dents s) nm ps of
       None \<Rightarrow> Some (rd, Some False, False, s)
     | Some q \<Rightarrow> (case dents s q of
         None \<Rightarrow> None
       | Some e \<Rightarrow> (case dinode e of
           Some _ \<Rightarrow> Some (q, Some True, False, s)
         | None \<Rightarrow> do { (qi, s2) \<leftarrow> newfs_read_inode D q (dino e) s; e2 \<leftarrow> dents s2 q;
             Some (q, Some True, False, s2\<lparr>dents := (dents s2)(q \<mapsto> e2\<lparr>dinode := Some qi\<rparr>)\<rparr>) })))"
proof -
  obtain d where d: "root_dentry s = Some rd" "dents s rd = Some d" "dinode d = Some ip" "ftype d = NEWFS_DIR"
      "inodes s ip = Some i" "identry i = rd" "dlist (dents s) (dentrys i) ps"
    using r by (auto simp: root_dir_def)
  note f = find_dentry_eq [OF nm(1) d(7)]
  show ?thesis
    using root_path [OF nm(2,3)] d f by (simp add: newfs_lookup_def Let_def split: option.split)
qed

section \<open>Creating a directory\<close>

text \<open>There is a free bit below \<open>limit\<close> in a bitmap of one block.\<close>

definition bit_free_below :: "u8 list \<Rightarrow> int \<Rightarrow> bool" where
  "bit_free_below m limit \<longleftrightarrow> (\<exists>k. \<not> bit_used m k \<and> int k < limit \<and> k < 8 * length m)"

lemma take_bit_below:
  assumes "length m = nat n" "bit_free_below m limit"
  obtains k m' where "take_bit_of n m = Some (Some k, m')" "int k < limit" "\<not> bit_used m k" "length m' = length m"
    "\<forall>j. bit_used m' j \<longleftrightarrow> j = k \<or> bit_used m j"
proof -
  obtain j where j: "\<not> bit_used m j" "int j < limit" "j < 8 * length m" using assms(2) by (auto simp: bit_free_below_def)
  obtain found m' where t: "take_bit_of n m = Some (found, m')" "length m' = length m"
      "case found of
         Some k \<Rightarrow> k < 8 * length m \<and> \<not> bit_used m k \<and> (\<forall>i<k. bit_used m i) \<and> (\<forall>j. bit_used m' j \<longleftrightarrow> j = k \<or> bit_used m j)
       | None \<Rightarrow> m' = m \<and> (\<forall>i<8 * length m. bit_used m i)"
    using take_bit_of_eq [OF assms(1) refl] by blast
  then obtain k where k: "found = Some k" using j by (cases found) auto
  then have "k \<le> j" using t(3) j(1) by (auto simp: not_le [symmetric])
  then show ?thesis using that t k j(2) by (auto simp: le_less_trans [of "int k" "int j"])
qed

text \<open>A mounted file system in which one more entry can be made.\<close>

definition has_room :: "'d newfs \<Rightarrow> bool" where
  "has_room s \<longleftrightarrow> NEWFS_BLKS_SZ (sz_io s) = 1024 \<and>
     length (map_inode s) = nat (map_inode_blks s * 1024) \<and> bit_free_below (map_inode s) (max_ino s) \<and>
     length (map_data s) = nat (map_data_blks s * 1024) \<and> bit_free_below (map_data s) (max_data s) \<and>
     (\<forall>p\<ge>fresh s. dents s p = None \<and> inodes s p = None)"

lemma dlist_below: "dlist h cur ps \<Longrightarrow> h q = None \<Longrightarrow> q \<notin> set ps"
  by (induction ps arbitrary: cur) auto

lemma mkdir_in_root:
  assumes nm: "name_ok nm" "CHR ''/'' \<notin> set nm" "nm \<noteq> []" and r: "root_dir s rd ip i ps" and room: "has_room s"
    and sz: "0 \<le> isize i" and new: "first_hit (dents s) nm ps = None"
  obtains s' k i' e n where "newfs_mkdir D (CHR ''/'' # nm) s = Some (0, s')" "root_dir s' rd ip i' (fresh s # ps)"
    "dents s' (fresh s) = Some e" "fname e = nm" "ftype e = NEWFS_DIR" "parent e = Some rd" "dinode e = Some (Suc (fresh s))"
    "dino e = int k" "\<not> bit_used (map_inode s) k" "\<forall>j. bit_used (map_inode s') j \<longleftrightarrow> j = k \<or> bit_used (map_inode s) j"
    "inodes s' (Suc (fresh s)) = Some n" "ino n = int k" "dir_cnt n = 0" "identry n = fresh s" "sz_io s' = sz_io s"
    "dir_cnt i' = dir_cnt i + 1"
proof -
  let ?p = "fresh s"
  obtain d where d: "root_dentry s = Some rd" "dents s rd = Some d" "dinode d = Some ip" "ftype d = NEWFS_DIR"
      "inodes s ip = Some i" "identry i = rd" "dlist (dents s) (dentrys i) ps"
    using r by (auto simp: root_dir_def)
  have fr: "dents s ?p = None" "inodes s (Suc ?p) = None" "rd \<noteq> ?p" "ip \<noteq> Suc ?p" "?p \<notin> set ps"
    using room d dlist_below [OF d(7), of ?p] by (auto simp: has_room_def)
  have lens: "length (map_inode s) = nat (map_inode_blks s * NEWFS_BLKS_SZ (sz_io s))"
    "length (map_data s) = nat (map_data_blks s * NEWFS_BLKS_SZ (sz_io s))" "NEWFS_BLKS_SZ (sz_io s) = 1024"
    "bit_free_below (map_inode s) (max_ino s)" "bit_free_below (map_data s) (max_data s)"
    using room by (simp_all add: has_room_def)
  obtain k mi where k: "take_bit_of (map_inode_blks s * NEWFS_BLKS_SZ (sz_io s)) (map_inode s) = Some (Some k, mi)"
      "int k < max_ino s" "\<not> bit_used (map_inode s) k" "\<forall>j. bit_used mi j \<longleftrightarrow> j = k \<or> bit_used (map_inode s) j"
    by (rule take_bit_below [OF lens(1,4)])
  obtain l md where l: "take_bit_of (map_data_blks s * NEWFS_BLKS_SZ (sz_io s)) (map_data s) = Some (Some l, md)"
      "int l < max_data s"
    by (rule take_bit_below [OF lens(2,5)])
  let ?e0 = "\<lparr>fname = nm, ftype = NEWFS_DIR, parent = Some rd, brother = None, dino = -1, dinode = None, valid = 0\<rparr>"
  let ?e = "?e0\<lparr>dinode := Some (Suc ?p), dino := int k, brother := dentrys i\<rparr>"
  let ?n = "\<lparr>ino = int k, isize = 0, dir_cnt = 0, identry = ?p, dentrys = None, data = None\<rparr>"
  let ?i = "i\<lparr>dentrys := Some ?p, dir_cnt := dir_cnt i + 1, isize := isize i + sizeof_dentry\<rparr>"
  let ?h = "(dents s)(?p \<mapsto> ?e)"
  have bro: "?e0\<lparr>dinode := Some (Suc ?p), dino := int k\<rparr> = ?e" if "dentrys i = None" using that by simp
  have lk: "newfs_lookup D (CHR ''/'' # nm) s = Some (rd, Some False, False, s)"
    using lookup_in_root [OF nm r] new by simp
  have ty: "inode_type (dinode d) s = Some NEWFS_DIR" using d by (simp add: inode_type_def)
  have len: "\<not> NEWFS_MAX_FILE_NAME < length nm" using nm(1) by (simp add: name_ok_def)
  have ne: "NEWFS_ROUND_UP (isize i) (NEWFS_BLKS_SZ (sz_io s)) \<noteq> NEWFS_ROUND_UP_sum (isize i) sizeof_dentry (NEWFS_BLKS_SZ (sz_io s))"
    using round_up_sum_differs sz lens(3) by simp
  obtain s' where s': "newfs_mkdir D (CHR ''/'' # nm) s = Some (0, s')" "dents s' = ?h" "inodes s' = (inodes s)(Suc ?p \<mapsto> ?n, ip \<mapsto> ?i)"
      "map_inode s' = mi" "root_dentry s' = root_dentry s" "sz_io s' = sz_io s"
    using lk ty d(2,3,5) root_path(3) [OF nm(2,3)] len fr k(1,2) l ne
    by (cases "dentrys i")
      (auto simp: newfs_mkdir_def new_dentry_def newfs_alloc_inode_def newfs_alloc_dentry_def Let_def)
  have dl: "dlist ?h (dentrys i) ps" using dlist_update [OF fr(5)] d(7) by metis
  have "root_dir s' rd ip ?i (?p # ps)"
    using s'(2,3,5) d fr dl by (auto simp: root_dir_def)
  then show ?thesis by (rule that [OF s'(1)]) (use s' fr k in auto)
qed


lemma ex_root_room:
  "root_dir ex_root 0 1 \<lparr>ino = 0, isize = 352, dir_cnt = 2, identry = 0, dentrys = Some 2, data = None\<rparr> [2, 3]"
  "has_room ex_root"
proof -
  show "root_dir ex_root 0 1 \<lparr>ino = 0, isize = 352, dir_cnt = 2, identry = 0, dentrys = Some 2, data = None\<rparr> [2, 3]"
    by (simp add: root_dir_def ex_root_def)
  have "\<not> bit_used (7 # replicate 1023 0) 3" "\<not> bit_used (3 # replicate 1023 0) 3"
    by (simp_all add: bit_used_def bit_iff_odd)
  then have "bit_free_below (7 # replicate 1023 0) 3968" "bit_free_below (3 # replicate 1023 0) 3968"
    by (auto simp: bit_free_below_def intro!: exI [of _ 3])
  then show "has_room ex_root" by (simp add: has_room_def ex_root_def)
qed

definition st_zero :: stat where
  "st_zero = \<lparr>st_mode = 0, st_size = 0, st_nlink = 0, st_blksize = 0, st_blocks = 0\<rparr>"



text \<open>The root with one entry \<^verbatim>\<open>long\<close>.\<close>

definition ex_long :: "ram newfs" where
  "ex_long = ex_root\<lparr>dents := (dents ex_root)(2 \<mapsto> \<lparr>fname = ''long'', ftype = NEWFS_DIR, parent = Some 0, brother = None,
       dino = 1, dinode = Some 4, valid = 0\<rparr>)\<rparr>"


section \<open>Reading what was written\<close>

text \<open>A lookup uses the dentries and, of the inodes, the dentry and the list of entries.\<close>

definition same_names :: "'d newfs \<Rightarrow> 'd newfs \<Rightarrow> bool" where
  "same_names s s' \<longleftrightarrow> dents s' = dents s \<and> root_dentry s' = root_dentry s \<and>
     (\<forall>p. map_option (\<lambda>i. (identry i, dentrys i)) (inodes s' p) = map_option (\<lambda>i. (identry i, dentrys i)) (inodes s p))"

lemma find_dentry_same:
  assumes "dents s' = dents s" "find_dentry s nm cur = Some r"
  shows "find_dentry s' nm cur = Some r"
proof -
  have "dents s' = dents s \<longrightarrow> find_dentry s' nm cur = Some r"
    by (rule find_dentry.raw_induct [of "\<lambda>s nm cur r. dents s' = dents s \<longrightarrow> find_dentry s' nm cur = Some r", OF _ assms(2)])
      (intro impI, subst find_dentry.simps, auto split: option.splits if_splits simp: bind_eq_Some_conv)
  then show ?thesis using assms(1) by blast
qed

lemma lookup_loop_same:
  "same_names s s' \<Longrightarrow> lookup_loop D tot nms lvl cur ret f s = Some (r, g, s1) \<Longrightarrow>
     s1 = s \<and> lookup_loop D tot nms lvl cur ret f s' = Some (r, g, s')"
proof (induction nms arbitrary: lvl cur)
  case Nil
  then show ?case by simp
next
  case (Cons nm nms)
  obtain p d ip i di where h: "cur = Some p" "dents s p = Some d" "dinode d = Some ip" "inodes s ip = Some i"
      "dents s (identry i) = Some di"
    using Cons.prems(2) by (auto simp: Let_def bind_eq_Some_conv)
  have e: "dents s' = dents s" using Cons.prems(1) by (simp add: same_names_def)
  obtain i' where i': "inodes s' ip = Some i'" "identry i' = identry i" "dentrys i' = dentrys i"
    using Cons.prems(1) h(4) by (auto simp: same_names_def dest!: spec [of _ ip])
  show ?case
  proof (cases "ftype di = NEWFS_DIR")
    case True
    then obtain hit where hit: "find_dentry s nm (dentrys i) = Some hit"
      using Cons.prems(2) h by (auto simp: Let_def bind_eq_Some_conv)
    note hit' = find_dentry_same [OF e hit]
    show ?thesis using Cons h hit hit' e i' True by (auto simp: Let_def split: option.splits if_splits)
  next
    case False
    then show ?thesis using Cons h e i' by (auto simp: Let_def split: if_splits)
  qed
qed

lemma newfs_lookup_same:
  assumes "same_names s s'" "newfs_lookup D path s = Some (dp, f, b, s)" "dents s dp = Some d" "dinode d = Some ip"
  shows "newfs_lookup D path s' = Some (dp, f, b, s')"
proof -
  let ?root = "newfs_calc_lvl path = 0"
  obtain ret g s1 where l: "lookup_loop D (newfs_calc_lvl path) (strtok_slash path []) 0 (root_dentry s)
        (if ?root then root_dentry s else None) (if ?root then Some True else None) s = Some (ret, g, s1)"
    using assms(2) by (auto simp: newfs_lookup_def Let_def bind_eq_Some_conv)
  note l' = lookup_loop_same [OF assms(1) l]
  have e: "dents s' = dents s" "root_dentry s' = root_dentry s" using assms(1) by (simp_all add: same_names_def)
  obtain q e1 where q: "ret = Some q" "dents s q = Some e1"
    using assms(2) l l' by (auto simp: newfs_lookup_def Let_def bind_eq_Some_conv)
  have "dp = q" using assms(2) l l' q by (auto simp: newfs_lookup_def Let_def bind_eq_Some_conv split: option.splits)
  then have "g = f" "b = ?root" using assms(2,3,4) l l' q by (auto simp: newfs_lookup_def Let_def)
  then show ?thesis using assms(3,4) l' q e \<open>dp = q\<close> by (cases ?root) (simp_all add: newfs_lookup_def Let_def)
qed

text \<open>A path that names a file whose inode \<open>i\<close> with buffer \<open>bs\<close> is in memory.\<close>

definition open_file :: "'d ddriver \<Rightarrow> string \<Rightarrow> 'd newfs \<Rightarrow> nat \<Rightarrow> inode \<Rightarrow> u8 list \<Rightarrow> bool" where
  "open_file D path s ip i bs \<longleftrightarrow>
     (\<exists>dp b d. newfs_lookup D path s = Some (dp, Some True, b, s) \<and> dents s dp = Some d \<and> dinode d = Some ip \<and>
        inodes s ip = Some i \<and> map_option ftype (dents s (identry i)) = Some NEWFS_FILE \<and> data i = Some bs)"

lemma open_fileE:
  assumes "open_file D path s ip i bs"
  obtains dp b d where "newfs_lookup D path s = Some (dp, Some True, b, s)" "dents s dp = Some d" "dinode d = Some ip"
    "inodes s ip = Some i" "inode_type (Some ip) s = Some NEWFS_FILE" "data i = Some bs" "map_option ftype (dents s (identry i)) = Some NEWFS_FILE"
  using assms by (auto simp: open_file_def inode_type_def)

lemma newfs_read_open:
  assumes "open_file D path s ip i bs" "0 \<le> ofs" "ofs \<le> isize i" "ofs + int n \<le> int (length bs)"
  shows "newfs_read D path n ofs s = Some (int n, take n (drop (nat ofs) bs), s)"
  using assms(2-4) by (rule_tac open_fileE [OF assms(1)]) (auto simp: newfs_read_def Let_def)



end
