(* ===== verification/Bcache.thy ===== *)
theory Bcache
  imports Prelude Riscv "HOL-Library.Monad_Syntax"
begin

text \<open>
  The buffer cache of lab 3 (\<^verbatim>\<open>kernel/bio.c\<close>): buffers in 13 hash buckets, each a circular doubly linked
  list with a lock of its own. The lists are modelled by their pointers; the disk driver
  (\<^verbatim>\<open>virtio_disk_rw\<close>) and \<^verbatim>\<open>NBUF\<close> (of \<^verbatim>\<open>param.h\<close>) are parameters. A function returns \<open>None\<close> where it does not
  return: it sleeps on a lock, or loops forever.
\<close>

section \<open>State\<close>

definition NBUCKETS :: nat where "NBUCKETS = 13"

text \<open>The nodes of the lists: the heads \<^verbatim>\<open>hashbucket[k]\<close> and the buffers \<^verbatim>\<open>buf[i]\<close>.\<close>

datatype node = Hd nat | Bf nat

text \<open>\<^verbatim>\<open>struct buf\<close>; \<open>bowner\<close> is the process that holds the sleep lock of the buffer.\<close>

record 'b buf =
  bvalid :: bool
  bdev :: u32
  blockno :: u32
  refcnt :: u32
  bowner :: "nat option"
  bdata :: 'b

record ('b, 'd) bcache =
  nxt :: "node \<Rightarrow> node"
  prv :: "node \<Rightarrow> node"
  bufs :: "nat \<Rightarrow> 'b buf"
  disk :: 'd
  block_log :: "nat lock_call list"

text \<open>\<^verbatim>\<open>virtio_disk_rw(b, write)\<close>, by the device and block number of \<open>b\<close>.\<close>

record ('b, 'd) virtio =
  disk_read :: "u32 \<Rightarrow> u32 \<Rightarrow> 'd \<Rightarrow> 'b \<times> 'd"
  disk_write :: "u32 \<Rightarrow> u32 \<Rightarrow> 'b \<Rightarrow> 'd \<Rightarrow> 'd"

definition bcache_calls :: "nat lock_call list \<Rightarrow> ('b, 'd) bcache \<Rightarrow> ('b, 'd) bcache" where
  "bcache_calls cs s = s\<lparr>block_log := block_log s @ cs\<rparr>"

definition set_buf :: "nat \<Rightarrow> ('b buf \<Rightarrow> 'b buf) \<Rightarrow> ('b, 'd) bcache \<Rightarrow> ('b, 'd) bcache" where
  "set_buf i f s = s\<lparr>bufs := (bufs s)(i := f (bufs s i))\<rparr>"

definition bucket_of :: "u32 \<Rightarrow> nat" where
  "bucket_of bno = unat bno mod NBUCKETS"

section \<open>Lists\<close>

text \<open>The three pointer updates, in the order of the code.\<close>

definition link_front :: "nat \<Rightarrow> nat \<Rightarrow> ('b, 'd) bcache \<Rightarrow> ('b, 'd) bcache" where
  "link_front k i s =
     (let s1 = s\<lparr>nxt := (nxt s)(Bf i := nxt s (Hd k))\<rparr>;
          s2 = s1\<lparr>prv := (prv s1)(Bf i := Hd k)\<rparr>;
          s3 = s2\<lparr>prv := (prv s2)(nxt s2 (Hd k) := Bf i)\<rparr>
      in s3\<lparr>nxt := (nxt s3)(Hd k := Bf i)\<rparr>)"

definition unlink :: "nat \<Rightarrow> ('b, 'd) bcache \<Rightarrow> ('b, 'd) bcache" where
  "unlink i s =
     (let s1 = s\<lparr>prv := (prv s)(nxt s (Bf i) := prv s (Bf i))\<rparr>
      in s1\<lparr>nxt := (nxt s1)(prv s1 (Bf i) := nxt s1 (Bf i))\<rparr>)"

text \<open>
  The loops \<^verbatim>\<open>for(b = head.next; b != &head; b = b->next)\<close> and, over \<^verbatim>\<open>prev\<close>, backwards, that return the first
  buffer with a property. A list never leads to the head of another bucket.
\<close>

partial_function (option) scan_list :: "(node \<Rightarrow> node) \<Rightarrow> nat \<Rightarrow> (nat \<Rightarrow> bool) \<Rightarrow> node \<Rightarrow> nat option option" where
  "scan_list link k P b =
     (if b = Hd k then Some None
      else case b of
        Hd j \<Rightarrow> None
      | Bf i \<Rightarrow> if P i then Some (Some i) else scan_list link k P (link b))"

section \<open>Initialisation\<close>

primrec init_heads :: "nat \<Rightarrow> ('b, 'd) bcache \<Rightarrow> ('b, 'd) bcache" where
  "init_heads 0 s = s"
| "init_heads (Suc k) s =
     (let s1 = init_heads k s;
          s2 = s1\<lparr>prv := (prv s1)(Hd k := Hd k)\<rparr>
      in s2\<lparr>nxt := (nxt s2)(Hd k := Hd k)\<rparr>)"

text \<open>Buffers \<open>0 .. n-1\<close> have been put in front of buckets \<open>0, 1, .., 12, 0, ..\<close>.\<close>

primrec init_bufs :: "nat \<Rightarrow> ('b, 'd) bcache \<Rightarrow> ('b, 'd) bcache" where
  "init_bufs 0 s = s"
| "init_bufs (Suc i) s =
     (let s1 = init_bufs i s; count = i mod NBUCKETS;
          s2 = s1\<lparr>nxt := (nxt s1)(Bf i := nxt s1 (Hd count))\<rparr>;
          s3 = s2\<lparr>prv := (prv s2)(Bf i := Hd count)\<rparr>;
          s4 = set_buf i (\<lambda>b. b\<lparr>bowner := None\<rparr>) s3;
          s5 = s4\<lparr>prv := (prv s4)(nxt s4 (Hd count) := Bf i)\<rparr>
      in s5\<lparr>nxt := (nxt s5)(Hd count := Bf i)\<rparr>)"

definition binit :: "nat \<Rightarrow> ('b, 'd) bcache \<Rightarrow> ('b, 'd) bcache" where
  "binit NBUF s = init_bufs NBUF (init_heads NBUCKETS s)"

section \<open>Getting a buffer\<close>

text \<open>A free buffer becomes the buffer of a block.\<close>

definition recycle :: "u32 \<Rightarrow> u32 \<Rightarrow> nat \<Rightarrow> ('b, 'd) bcache \<Rightarrow> ('b, 'd) bcache" where
  "recycle dev bno i s = set_buf i (\<lambda>b. b\<lparr>bdev := dev, blockno := bno, bvalid := False, refcnt := 1\<rparr>) s"

text \<open>
  The search of the other buckets. \<open>busy\<close> are the buckets whose lock another CPU holds when this CPU
  looks at \<^verbatim>\<open>bcache.lock[findCount].locked\<close>; its own bucket is locked by itself.
\<close>

partial_function (option) bget_steal :: "(nat \<Rightarrow> bool) \<Rightarrow> nat \<Rightarrow> u32 \<Rightarrow> u32 \<Rightarrow> nat \<Rightarrow> ('b, 'd) bcache \<Rightarrow>
    (nat option \<times> ('b, 'd) bcache) option" where
  "bget_steal busy currentCount dev bno findCount s =
     (if findCount = currentCount then Some (None, s)
      else
        let f = findCount mod NBUCKETS in
        if busy f \<or> f = currentCount then bget_steal busy currentCount dev bno (f + 1) s
        else
          let s1 = bcache_calls [Acquire f] s in
          Option.bind (scan_list (prv s1) f (\<lambda>i. refcnt (bufs s1 i) = 0) (prv s1 (Hd f))) (\<lambda>found.
          case found of
            Some i \<Rightarrow> Some (Some i, bcache_calls [Release f, Release currentCount]
              (recycle dev bno i (link_front currentCount i (unlink i s1))))
          | None \<Rightarrow> bget_steal busy currentCount dev bno (f + 1) (bcache_calls [Release f] s1)))"

text \<open>The part of \<^verbatim>\<open>bget\<close> under the bucket locks: the buffer, before its sleep lock is taken.\<close>

definition bget_section :: "(nat \<Rightarrow> bool) \<Rightarrow> u32 \<Rightarrow> u32 \<Rightarrow> ('b, 'd) bcache \<Rightarrow> (nat \<times> ('b, 'd) bcache) res option" where
  "bget_section busy dev bno s = do {
     let currentCount = bucket_of bno;
     let s1 = bcache_calls [Acquire currentCount] s;
     hit \<leftarrow> scan_list (nxt s1) currentCount (\<lambda>i. bdev (bufs s1 i) = dev \<and> blockno (bufs s1 i) = bno) (nxt s1 (Hd currentCount));
     (case hit of
        Some i \<Rightarrow> Some (Ok (i, bcache_calls [Release currentCount] (set_buf i (\<lambda>b. b\<lparr>refcnt := refcnt b + 1\<rparr>) s1)))
      | None \<Rightarrow> do {
          free \<leftarrow> scan_list (prv s1) currentCount (\<lambda>i. refcnt (bufs s1 i) = 0) (prv s1 (Hd currentCount));
          (case free of
             Some i \<Rightarrow> Some (Ok (i, bcache_calls [Release currentCount] (recycle dev bno i s1)))
           | None \<Rightarrow> do {
               (stolen, s2) \<leftarrow> bget_steal busy currentCount dev bno (currentCount + 1) s1;
               (case stolen of
                  Some i \<Rightarrow> Some (Ok (i, s2))
                | None \<Rightarrow> Some (Panic ''bget: no buffers''))
             })
        })
   }"

text \<open>\<^verbatim>\<open>acquiresleep\<close> sleeps while another process holds the lock.\<close>

definition acquiresleep :: "nat \<Rightarrow> nat \<Rightarrow> ('b, 'd) bcache \<Rightarrow> ('b, 'd) bcache option" where
  "acquiresleep me i s =
     (if bowner (bufs s i) = None then Some (set_buf i (\<lambda>b. b\<lparr>bowner := Some me\<rparr>) s) else None)"

definition bget :: "nat \<Rightarrow> (nat \<Rightarrow> bool) \<Rightarrow> u32 \<Rightarrow> u32 \<Rightarrow> ('b, 'd) bcache \<Rightarrow> (nat \<times> ('b, 'd) bcache) res option" where
  "bget me busy dev bno s = do {
     r \<leftarrow> bget_section busy dev bno s;
     (case r of
        Panic m \<Rightarrow> Some (Panic m)
      | Ok (i, s1) \<Rightarrow> map_option (\<lambda>s2. Ok (i, s2)) (acquiresleep me i s1))
   }"

section \<open>Using and releasing buffers\<close>

definition bread_fill :: "('b, 'd) virtio \<Rightarrow> nat \<Rightarrow> ('b, 'd) bcache \<Rightarrow> ('b, 'd) bcache" where
  "bread_fill V i s =
     (if bvalid (bufs s i) then s
      else
        let (bs, d) = disk_read V (bdev (bufs s i)) (blockno (bufs s i)) (disk s)
        in set_buf i (\<lambda>b. b\<lparr>bdata := bs, bvalid := True\<rparr>) (s\<lparr>disk := d\<rparr>))"

definition bread :: "('b, 'd) virtio \<Rightarrow> nat \<Rightarrow> (nat \<Rightarrow> bool) \<Rightarrow> u32 \<Rightarrow> u32 \<Rightarrow> ('b, 'd) bcache \<Rightarrow>
    (nat \<times> ('b, 'd) bcache) res option" where
  "bread V me busy dev bno s =
     map_option (\<lambda>r. rbind r (\<lambda>(i, s1). Ok (i, bread_fill V i s1))) (bget me busy dev bno s)"

definition bwrite :: "('b, 'd) virtio \<Rightarrow> nat \<Rightarrow> nat \<Rightarrow> ('b, 'd) bcache \<Rightarrow> ('b, 'd) bcache res" where
  "bwrite V me i s =
     (if bowner (bufs s i) \<noteq> Some me then Panic ''bwrite''
      else Ok (s\<lparr>disk := disk_write V (bdev (bufs s i)) (blockno (bufs s i)) (bdata (bufs s i)) (disk s)\<rparr>))"

text \<open>The part of \<^verbatim>\<open>brelse\<close> under the bucket lock.\<close>

definition brelse_section :: "nat \<Rightarrow> nat \<Rightarrow> ('b, 'd) bcache \<Rightarrow> ('b, 'd) bcache" where
  "brelse_section currentCount i s =
     (let s1 = set_buf i (\<lambda>b. b\<lparr>refcnt := refcnt b - 1\<rparr>) (bcache_calls [Acquire currentCount] s);
          s2 = (if refcnt (bufs s1 i) = 0 then link_front currentCount i (unlink i s1) else s1)
      in bcache_calls [Release currentCount] s2)"

definition brelse :: "nat \<Rightarrow> nat \<Rightarrow> ('b, 'd) bcache \<Rightarrow> ('b, 'd) bcache res" where
  "brelse me i s =
     (let currentCount = bucket_of (blockno (bufs s i)) in
      if bowner (bufs s i) \<noteq> Some me then Panic ''brelse''
      else Ok (brelse_section currentCount i (set_buf i (\<lambda>b. b\<lparr>bowner := None\<rparr>) s)))"

definition bpin :: "nat \<Rightarrow> ('b, 'd) bcache \<Rightarrow> ('b, 'd) bcache" where
  "bpin i s =
     (let currentCount = bucket_of (blockno (bufs s i))
      in bcache_calls [Release currentCount]
           (set_buf i (\<lambda>b. b\<lparr>refcnt := refcnt b + 1\<rparr>) (bcache_calls [Acquire currentCount] s)))"

definition bunpin :: "nat \<Rightarrow> ('b, 'd) bcache \<Rightarrow> ('b, 'd) bcache" where
  "bunpin i s =
     (let currentCount = bucket_of (blockno (bufs s i))
      in bcache_calls [Release currentCount]
           (set_buf i (\<lambda>b. b\<lparr>refcnt := refcnt b - 1\<rparr>) (bcache_calls [Acquire currentCount] s)))"

section \<open>Lists of pointers\<close>

text \<open>A stretch of a doubly linked list: from \<open>a\<close> over the nodes \<open>xs\<close> to \<open>b\<close>.\<close>

primrec seg :: "(node \<Rightarrow> node) \<Rightarrow> (node \<Rightarrow> node) \<Rightarrow> node \<Rightarrow> node list \<Rightarrow> node \<Rightarrow> bool" where
  "seg n p a [] b \<longleftrightarrow> n a = b \<and> p b = a"
| "seg n p a (x # xs) b \<longleftrightarrow> n a = x \<and> p x = a \<and> seg n p x xs b"

lemma seg_append: "seg n p a (xs @ y # ys) b \<longleftrightarrow> seg n p a xs y \<and> seg n p y ys b"
  by (induction xs arbitrary: a) auto

lemma seg_rev: "seg n p a xs b \<longleftrightarrow> seg p n b (rev xs) a"
proof (induction xs arbitrary: a)
  case (Cons x xs)
  then show ?case using seg_append [of p n b "rev xs" x "[]" a] by auto
qed auto

lemma seg_cong:
  "(\<And>x. x \<in> insert a (set xs) \<Longrightarrow> n' x = n x) \<Longrightarrow> (\<And>x. x \<in> insert b (set xs) \<Longrightarrow> p' x = p x) \<Longrightarrow>
     seg n' p' a xs b = seg n p a xs b"
  by (induction xs arbitrary: a) auto

lemma seg_first: "seg n p a xs b \<Longrightarrow> n a = hd (xs @ [b])"
  by (cases xs) auto

text \<open>\<open>L k\<close> are the buffers of bucket \<open>k\<close>, first to last; every buffer is in exactly one bucket.\<close>

definition rings :: "nat \<Rightarrow> ('b, 'd) bcache \<Rightarrow> (nat \<Rightarrow> nat list) \<Rightarrow> bool" where
  "rings NBUF s L \<longleftrightarrow> (\<forall>k<NBUCKETS. seg (nxt s) (prv s) (Hd k) (map Bf (L k)) (Hd k) \<and> distinct (L k)) \<and>
     (\<forall>j k. j < NBUCKETS \<longrightarrow> k < NBUCKETS \<longrightarrow> j \<noteq> k \<longrightarrow> set (L j) \<inter> set (L k) = {}) \<and>
     (\<Union>k<NBUCKETS. set (L k)) = {..<NBUF}"

lemma scan_list_seg:
  "seg n p a xs (Hd k) \<Longrightarrow> (\<forall>x\<in>set xs. \<exists>i. x = Bf i) \<Longrightarrow>
    scan_list n k P (n a) = Some (find P (map (\<lambda>x. case x of Bf i \<Rightarrow> i | Hd i \<Rightarrow> i) xs))"
proof (induction xs arbitrary: a)
  case Nil
  then show ?case by (simp add: scan_list.simps)
next
  case (Cons x xs)
  then obtain i where x: "x = Bf i" by auto
  have "scan_list n k P x = (if P i then Some (Some i) else scan_list n k P (n x))"
    by (subst scan_list.simps) (simp add: x)
  then show ?case using Cons x by simp
qed

lemma scan_fwd:
  assumes "rings NBUF s L" "k < NBUCKETS"
  shows "scan_list (nxt s) k P (nxt s (Hd k)) = Some (find P (L k))"
  using scan_list_seg [of "nxt s" "prv s" "Hd k" "map Bf (L k)" k P] assms by (auto simp: rings_def comp_def)

lemma scan_bwd:
  assumes "rings NBUF s L" "k < NBUCKETS"
  shows "scan_list (prv s) k P (prv s (Hd k)) = Some (find P (rev (L k)))"
  using scan_list_seg [of "prv s" "nxt s" "Hd k" "rev (map Bf (L k))" k P] assms seg_rev
  by (fastforce simp: rings_def comp_def rev_map)

end
