(* ===== verification/Bcache_Lists.thy ===== *)
theory Bcache_Lists
  imports Bcache
begin

text \<open>
  The linked lists of the buffer cache: unlinking a buffer, linking it in front of a bucket, the
  lists \<^verbatim>\<open>binit\<close> builds, and the buffer \<^verbatim>\<open>bget\<close> chooses in terms of the lists.
\<close>

section \<open>Pointer updates\<close>

lemma seg_unlink_first:
  assumes "seg n p a (x # ys) b" "distinct ys" "a \<notin> set ys" "b \<notin> set ys"
  shows "seg (n(a := n x)) (p(n x := a)) a ys b"
proof (cases ys)
  case Nil
  then show ?thesis using assms by simp
next
  case (Cons y zs)
  then have "seg n p y zs b" using assms(1) by simp
  then have "seg (n(a := n x)) (p(y := a)) y zs b"
    using assms Cons by (subst seg_cong [of _ _ _ n _ _ p]) auto
  then show ?thesis using assms(1) Cons by simp
qed

lemma seg_unlink:
  assumes s: "seg n p a (xs @ x # ys) b" and d: "distinct (xs @ x # ys)" "a \<notin> set (xs @ x # ys)" "b \<notin> set (xs @ x # ys)"
  shows "seg (n(p x := n x)) (p(n x := p x)) a (xs @ ys) b"
proof (cases xs rule: rev_cases)
  case Nil
  then show ?thesis using seg_unlink_first [of n p a x ys b] s d by simp
next
  case (snoc ws w)
  have 1: "seg n p a ws w" "seg n p w (x # ys) b"
    using s snoc seg_append [of n p a ws w "x # ys" b] by simp_all
  then have w: "p x = w" by simp
  have nx: "n x \<in> insert b (set ys)" using 1(2) by (cases ys) auto
  have "seg (n(w := n x)) (p(n x := w)) w ys b"
    using seg_unlink_first [OF 1(2)] d snoc by simp
  moreover have "seg (n(w := n x)) (p(n x := w)) a ws w"
    using 1(1) d snoc nx by (subst seg_cong [of _ _ _ n _ _ p]) auto
  ultimately show ?thesis using w snoc seg_append [of _ _ a ws w ys b] by simp
qed

lemma seg_link_front:
  assumes s: "seg n p h xs h" and d: "distinct xs" "h \<notin> set xs" "x \<notin> set xs" "x \<noteq> h"
  shows "seg (n(x := n h, h := x)) (p(x := h, n h := x)) h (x # xs) h"
proof (cases xs)
  case Nil
  then show ?thesis using s d by auto
next
  case (Cons y ys)
  then have "seg n p y ys h" using s by simp
  then have "seg (n(x := n h, h := x)) (p(x := h, y := x)) y ys h"
    using d Cons by (subst seg_cong [of _ _ _ n _ _ p]) auto
  then show ?thesis using s d Cons by auto
qed

text \<open>The pointers of a node of a list stay in the list.\<close>

lemma seg_neighbours:
  assumes "seg n p a (xs @ x # ys) b"
  shows "p x \<in> insert a (set xs)" "n x \<in> insert b (set ys)"
proof -
  have 1: "seg n p a xs x" "seg n p x ys b" using assms by (simp_all add: seg_append)
  show "p x \<in> insert a (set xs)" using 1(1)
    by (cases xs rule: rev_cases) (auto simp: seg_append)
  show "n x \<in> insert b (set ys)" using 1(2) by (cases ys) auto
qed

lemma ringsD:
  assumes "rings NBUF s L" "k < NBUCKETS"
  shows "seg (nxt s) (prv s) (Hd k) (map Bf (L k)) (Hd k)" "distinct (L k)" "set (L k) \<subseteq> {..<NBUF}"
  using assms by (auto simp: rings_def)

lemma rings_disjoint: "rings NBUF s L \<Longrightarrow> j < NBUCKETS \<Longrightarrow> k < NBUCKETS \<Longrightarrow> i \<in> set (L j) \<Longrightarrow> i \<in> set (L k) \<Longrightarrow> j = k"
  by (auto simp: rings_def)

lemma rings_cong: "nxt s' = nxt s \<Longrightarrow> prv s' = prv s \<Longrightarrow> rings NBUF s' L = rings NBUF s L"
  by (simp add: rings_def)

lemma calls_simps [simp]:
  "nxt (bcache_calls cs s) = nxt s" "prv (bcache_calls cs s) = prv s" "bufs (bcache_calls cs s) = bufs s"
  "disk (bcache_calls cs s) = disk s" "block_log (bcache_calls cs s) = block_log s @ cs"
  by (simp_all add: bcache_calls_def)

lemma set_buf_simps [simp]:
  "nxt (set_buf i f s) = nxt s" "prv (set_buf i f s) = prv s" "bufs (set_buf i f s) = (bufs s)(i := f (bufs s i))"
  "disk (set_buf i f s) = disk s" "block_log (set_buf i f s) = block_log s"
  by (simp_all add: set_buf_def)

lemma recycle_simps [simp]:
  "nxt (recycle dev bno i s) = nxt s" "prv (recycle dev bno i s) = prv s" "disk (recycle dev bno i s) = disk s"
  "block_log (recycle dev bno i s) = block_log s"
  "bufs (recycle dev bno i s) = (bufs s)(i := (bufs s i)\<lparr>bdev := dev, blockno := bno, bvalid := False, refcnt := 1\<rparr>)"
  by (simp_all add: recycle_def)

lemma link_simps [simp]:
  "bufs (link_front k i s) = bufs s" "disk (link_front k i s) = disk s" "block_log (link_front k i s) = block_log s"
  "bufs (unlink i s) = bufs s" "disk (unlink i s) = disk s" "block_log (unlink i s) = block_log s"
  by (simp_all add: link_front_def unlink_def Let_def)

lemma rings_calls [simp]: "rings NBUF (bcache_calls cs s) L = rings NBUF s L"
  by (rule rings_cong) simp_all

lemma rings_set_buf [simp]: "rings NBUF (set_buf i f s) L = rings NBUF s L"
  by (rule rings_cong) simp_all

lemma rings_recycle [simp]: "rings NBUF (recycle dev bno i s) L = rings NBUF s L"
  by (rule rings_cong) simp_all

text \<open>Unlinking buffer \<open>i\<close> of bucket \<open>f\<close>: the lists without \<open>i\<close>.\<close>

definition rings_upto :: "nat set \<Rightarrow> ('b, 'd) bcache \<Rightarrow> (nat \<Rightarrow> nat list) \<Rightarrow> bool" where
  "rings_upto B s L \<longleftrightarrow> (\<forall>k<NBUCKETS. seg (nxt s) (prv s) (Hd k) (map Bf (L k)) (Hd k) \<and> distinct (L k)) \<and>
     (\<forall>j k. j < NBUCKETS \<longrightarrow> k < NBUCKETS \<longrightarrow> j \<noteq> k \<longrightarrow> set (L j) \<inter> set (L k) = {}) \<and>
     (\<Union>k<NBUCKETS. set (L k)) = B"

lemma rings_eq_upto: "rings NBUF s L \<longleftrightarrow> rings_upto {..<NBUF} s L"
  by (simp add: rings_def rings_upto_def)

lemma unlink_rings:
  assumes r: "rings_upto B s L" and f: "f < NBUCKETS" "L f = us @ i # vs"
  shows "rings_upto (B - {i}) (unlink i s) (L(f := us @ vs))"
proof -
  have u: "nxt (unlink i s) = (nxt s)(prv s (Bf i) := nxt s (Bf i))" "prv (unlink i s) = (prv s)(nxt s (Bf i) := prv s (Bf i))"
  proof -
    have sg: "seg (nxt s) (prv s) (Hd f) (map Bf us @ Bf i # map Bf vs) (Hd f)" using r f by (auto simp: rings_upto_def)
    have "distinct (us @ i # vs)" using r f unfolding rings_upto_def by metis
    then have "nxt s (Bf i) \<noteq> Bf i" using seg_neighbours(2) [OF sg] by auto
    then show "nxt (unlink i s) = (nxt s)(prv s (Bf i) := nxt s (Bf i))" "prv (unlink i s) = (prv s)(nxt s (Bf i) := prv s (Bf i))"
      by (simp_all add: unlink_def Let_def)
  qed
  have d: "distinct (us @ i # vs)" using r f unfolding rings_upto_def by metis
  have sf: "seg (nxt s) (prv s) (Hd f) (map Bf us @ Bf i # map Bf vs) (Hd f)" using r f by (auto simp: rings_upto_def)
  note nb = seg_neighbours [OF sf]
  have "seg (nxt (unlink i s)) (prv (unlink i s)) (Hd f) (map Bf us @ map Bf vs) (Hd f)"
    unfolding u using d by (intro seg_unlink [OF sf]) (auto simp: distinct_map inj_on_def)
  moreover have "seg (nxt (unlink i s)) (prv (unlink i s)) (Hd k) (map Bf (L k)) (Hd k)" if k: "k < NBUCKETS" "k \<noteq> f" for k
  proof -
    have dis: "set (L k) \<inter> set (L f) = {}" using r k f unfolding rings_upto_def by metis
    have "seg (nxt s) (prv s) (Hd k) (map Bf (L k)) (Hd k)" using r k by (auto simp: rings_upto_def)
    moreover have "prv s (Bf i) \<notin> insert (Hd k) (set (map Bf (L k)))" "nxt s (Bf i) \<notin> insert (Hd k) (set (map Bf (L k)))"
      using nb dis k(2) f(2) by auto
    ultimately show ?thesis unfolding u by (subst seg_cong [of _ _ _ "nxt s" _ _ "prv s"]) auto
  qed
  ultimately have "\<forall>k<NBUCKETS. seg (nxt (unlink i s)) (prv (unlink i s)) (Hd k) (map Bf ((L(f := us @ vs)) k)) (Hd k)"
    by auto
  moreover have "\<forall>k<NBUCKETS. distinct ((L(f := us @ vs)) k)" using r d by (auto simp: rings_upto_def)
  moreover have "\<forall>j k. j < NBUCKETS \<longrightarrow> k < NBUCKETS \<longrightarrow> j \<noteq> k \<longrightarrow> set ((L(f := us @ vs)) j) \<inter> set ((L(f := us @ vs)) k) = {}"
  proof (intro allI impI)
    fix j k assume jk: "j < NBUCKETS" "k < NBUCKETS" "j \<noteq> k"
    then have "set (L j) \<inter> set (L k) = {}" using r unfolding rings_upto_def by blast
    then show "set ((L(f := us @ vs)) j) \<inter> set ((L(f := us @ vs)) k) = {}" using f(2) jk(3) by (auto simp: fun_upd_def)
  qed
  moreover have "(\<Union>k<NBUCKETS. set ((L(f := us @ vs)) k)) = B - {i}"
  proof -
    have "(\<Union>k<NBUCKETS. set ((L(f := us @ vs)) k)) = (\<Union>k\<in>{..<NBUCKETS} - {f}. set (L k)) \<union> set (us @ vs)"
      using f(1) by (auto simp: fun_upd_def split: if_splits)
    moreover have "B = (\<Union>k\<in>{..<NBUCKETS} - {f}. set (L k)) \<union> set (us @ i # vs)"
      using r f unfolding rings_upto_def by (auto simp: f(2) [symmetric])
    moreover have "i \<notin> (\<Union>k\<in>{..<NBUCKETS} - {f}. set (L k))"
    proof
      assume "i \<in> (\<Union>k\<in>{..<NBUCKETS} - {f}. set (L k))"
      then obtain k where "k < NBUCKETS" "k \<noteq> f" "i \<in> set (L k)" by auto
      moreover have "i \<in> set (L f)" using f(2) by simp
      ultimately show False using r f(1) unfolding rings_upto_def by blast
    qed
    ultimately show ?thesis using d by auto
  qed
  ultimately show ?thesis unfolding rings_upto_def by blast
qed

lemma link_front_rings:
  assumes r: "rings_upto B s L" and k: "k < NBUCKETS" "i \<notin> B"
  shows "rings_upto (insert i B) (link_front k i s) (L(k := i # L k))"
proof -
  have i: "i \<notin> set (L j)" if "j < NBUCKETS" for j using r k(2) that unfolding rings_upto_def by blast
  have sk: "seg (nxt s) (prv s) (Hd k) (map Bf (L k)) (Hd k)" "distinct (L k)" using r k by (auto simp: rings_upto_def)
  have nk: "nxt s (Hd k) \<in> insert (Hd k) (Bf ` set (L k))" using seg_first [OF sk(1)] by (cases "L k") auto
  have l: "nxt (link_front k i s) = (nxt s)(Bf i := nxt s (Hd k), Hd k := Bf i)"
    "prv (link_front k i s) = (prv s)(Bf i := Hd k, nxt s (Hd k) := Bf i)"
    by (simp_all add: link_front_def Let_def)
  have "seg (nxt (link_front k i s)) (prv (link_front k i s)) (Hd k) (Bf i # map Bf (L k)) (Hd k)"
    unfolding l using sk i [OF k(1)] by (intro seg_link_front) (auto simp: distinct_map inj_on_def)
  moreover have "seg (nxt (link_front k i s)) (prv (link_front k i s)) (Hd j) (map Bf (L j)) (Hd j)" if j: "j < NBUCKETS" "j \<noteq> k" for j
  proof -
    have dis: "set (L j) \<inter> set (L k) = {}" using r j k unfolding rings_upto_def by metis
    have "seg (nxt s) (prv s) (Hd j) (map Bf (L j)) (Hd j)" using r j by (auto simp: rings_upto_def)
    moreover have "x \<noteq> Bf i \<and> x \<noteq> Hd k \<and> x \<noteq> nxt s (Hd k)" if "x \<in> insert (Hd j) (set (map Bf (L j)))" for x
      using i [OF j(1)] nk dis j(2) that by auto
    ultimately show ?thesis unfolding l by (subst seg_cong [of _ _ _ "nxt s" _ _ "prv s"]) auto
  qed
  ultimately have "\<forall>j<NBUCKETS. seg (nxt (link_front k i s)) (prv (link_front k i s)) (Hd j) (map Bf ((L(k := i # L k)) j)) (Hd j)"
    by auto
  moreover have "\<forall>j<NBUCKETS. distinct ((L(k := i # L k)) j)" using r i k by (auto simp: rings_upto_def)
  moreover have "\<forall>j j'. j < NBUCKETS \<longrightarrow> j' < NBUCKETS \<longrightarrow> j \<noteq> j' \<longrightarrow> set ((L(k := i # L k)) j) \<inter> set ((L(k := i # L k)) j') = {}"
  proof (intro allI impI)
    fix j j' assume jk: "j < NBUCKETS" "j' < NBUCKETS" "j \<noteq> j'"
    then have "set (L j) \<inter> set (L j') = {}" using r unfolding rings_upto_def by blast
    then show "set ((L(k := i # L k)) j) \<inter> set ((L(k := i # L k)) j') = {}" using i jk by (auto simp: fun_upd_def)
  qed
  moreover have "(\<Union>j<NBUCKETS. set ((L(k := i # L k)) j)) = insert i B"
  proof -
    have "(\<Union>j<NBUCKETS. set ((L(k := i # L k)) j)) = insert i (\<Union>j<NBUCKETS. set (L j))"
      using k(1) by (auto simp: fun_upd_def split: if_splits)
    then show ?thesis using r by (simp add: rings_upto_def)
  qed
  ultimately show ?thesis unfolding rings_upto_def by blast
qed

text \<open>Moving a buffer to the front of a bucket, from this or another one.\<close>

definition move_front :: "nat \<Rightarrow> nat \<Rightarrow> (nat \<Rightarrow> nat list) \<Rightarrow> nat \<Rightarrow> nat list" where
  "move_front k i L = (\<lambda>j. if j = k then i # filter (\<lambda>x. x \<noteq> i) (L k) else filter (\<lambda>x. x \<noteq> i) (L j))"

lemma move_front_rings:
  assumes r: "rings NBUF s L" and f: "f < NBUCKETS" "i \<in> set (L f)" and k: "k < NBUCKETS"
  shows "rings NBUF (link_front k i (unlink i s)) (move_front k i L)"
proof -
  obtain us vs where uv: "L f = us @ i # vs" using f(2) by (meson split_list)
  have d: "i \<notin> set us" "i \<notin> set vs" using ringsD(2) [OF r f(1)] uv by auto
  have iB: "i \<in> {..<NBUF}" using ringsD(3) [OF r f(1)] f(2) by auto
  let ?L = "L(f := us @ vs)"
  have "rings_upto ({..<NBUF} - {i}) (unlink i s) ?L" using unlink_rings r f(1) uv unfolding rings_eq_upto by blast
  then have "rings_upto (insert i ({..<NBUF} - {i})) (link_front k i (unlink i s)) (?L(k := i # ?L k))"
    using link_front_rings k by blast
  then have 1: "rings_upto {..<NBUF} (link_front k i (unlink i s)) (?L(k := i # ?L k))"
    using iB by (simp add: insert_absorb)
  have "(?L(k := i # ?L k)) j = move_front k i L j" if "j < NBUCKETS" for j
  proof -
    have "filter (\<lambda>x. x \<noteq> i) us = us" "filter (\<lambda>x. x \<noteq> i) vs = vs" using d by (auto intro!: filter_True)
    then have "filter (\<lambda>x. x \<noteq> i) (L f) = us @ vs" using uv by simp
    moreover have "filter (\<lambda>x. x \<noteq> i) (L j) = L j" if "j \<noteq> f"
      using rings_disjoint [OF r \<open>j < NBUCKETS\<close> f(1), of i] that f(2) by (auto simp: filter_id_conv)
    moreover have "filter (\<lambda>x. x \<noteq> i) (L k) = L k" if "k \<noteq> f"
      using rings_disjoint [OF r k f(1), of i] that f(2) by (auto simp: filter_id_conv)
    ultimately show ?thesis by (auto simp: move_front_def)
  qed
  then show ?thesis using 1 unfolding rings_eq_upto rings_upto_def by simp
qed

section \<open>Initialisation\<close>

primrec init_lists :: "nat \<Rightarrow> nat \<Rightarrow> nat list" where
  "init_lists 0 = (\<lambda>_. [])"
| "init_lists (Suc i) = (init_lists i)(i mod NBUCKETS := i # init_lists i (i mod NBUCKETS))"

lemma init_heads_self: "j < k \<Longrightarrow> nxt (init_heads k s) (Hd j) = Hd j \<and> prv (init_heads k s) (Hd j) = Hd j"
  by (induction k) (auto simp: Let_def less_Suc_eq)

lemma init_bufs_Suc:
  "nxt (init_bufs (Suc i) s) = nxt (link_front (i mod NBUCKETS) i (init_bufs i s))"
  "prv (init_bufs (Suc i) s) = prv (link_front (i mod NBUCKETS) i (init_bufs i s))"
  by (simp_all add: link_front_def Let_def)

lemma binit_rings: "rings NBUF (binit NBUF s) (init_lists NBUF)"
proof -
  have "rings_upto {} (init_heads NBUCKETS s) (\<lambda>_. [])"
    using init_heads_self by (auto simp: rings_upto_def)
  then have "rings_upto {..<n} (init_bufs n (init_heads NBUCKETS s)) (init_lists n)" for n
  proof (induction n)
    case 0
    then show ?case by simp
  next
    case (Suc i)
    have "rings_upto (insert i {..<i}) (link_front (i mod NBUCKETS) i (init_bufs i (init_heads NBUCKETS s))) (init_lists (Suc i))"
      unfolding init_lists.simps using Suc by (intro link_front_rings) (auto simp: NBUCKETS_def)
    moreover have "insert i {..<i} = {..<Suc i}" by auto
    ultimately show ?case unfolding rings_upto_def init_bufs_Suc by simp
  qed
  then show ?thesis by (simp add: binit_def rings_eq_upto)
qed

lemma init_bufs_bufs:
  "bufs (init_bufs n s) i = (if i < n then (bufs s i)\<lparr>bowner := None\<rparr> else bufs s i)" "disk (init_bufs n s) = disk s"
  by (induction n) (auto simp: Let_def less_Suc_eq)

lemma init_heads_bufs: "bufs (init_heads n s) = bufs s" "disk (init_heads n s) = disk s"
  by (induction n) (auto simp: Let_def)

lemma binit_bufs: "i < NBUF \<Longrightarrow> bufs (binit NBUF s) i = (bufs s i)\<lparr>bowner := None\<rparr>" "disk (binit NBUF s) = disk s"
  by (simp_all add: binit_def init_bufs_bufs init_heads_bufs)

section \<open>Stealing\<close>

lemma calls_calls [simp]: "bcache_calls cs (bcache_calls cs' s) = bcache_calls (cs' @ cs) s"
  by (simp add: bcache_calls_def)

lemma ops_calls [simp]:
  "link_front k i (bcache_calls cs s) = bcache_calls cs (link_front k i s)"
  "unlink i (bcache_calls cs s) = bcache_calls cs (unlink i s)"
  "recycle dev bno i (bcache_calls cs s) = bcache_calls cs (recycle dev bno i s)"
  "set_buf i f (bcache_calls cs s) = bcache_calls cs (set_buf i f s)"
  by (simp_all add: link_front_def unlink_def recycle_def set_buf_def bcache_calls_def Let_def)

text \<open>The free buffer a backward search of a bucket finds, and the buckets in the order they are searched.\<close>

definition free_in :: "(nat \<Rightarrow> nat list) \<Rightarrow> (nat \<Rightarrow> 'b buf) \<Rightarrow> nat \<Rightarrow> nat option" where
  "free_in L B k = find (\<lambda>i. refcnt (B i) = 0) (rev (L k))"

definition steal_order :: "nat \<Rightarrow> nat list" where
  "steal_order cur = map (\<lambda>j. (cur + 1 + j) mod NBUCKETS) [0..<12]"

fun steal_from :: "(nat \<Rightarrow> bool) \<Rightarrow> (nat \<Rightarrow> nat option) \<Rightarrow> nat list \<Rightarrow> (nat \<times> nat) option" where
  "steal_from busy free [] = None"
| "steal_from busy free (f # fs) =
     (if busy f then steal_from busy free fs
      else case free f of Some i \<Rightarrow> Some (f, i) | None \<Rightarrow> steal_from busy free fs)"

fun steal_calls :: "(nat \<Rightarrow> bool) \<Rightarrow> (nat \<Rightarrow> nat option) \<Rightarrow> nat list \<Rightarrow> nat lock_call list" where
  "steal_calls busy free [] = []"
| "steal_calls busy free (f # fs) =
     (if busy f then steal_calls busy free fs
      else [Acquire f, Release f] @ (case free f of Some i \<Rightarrow> [] | None \<Rightarrow> steal_calls busy free fs))"

lemma bget_steal_unfold:
  assumes r: "rings NBUF s L" and c: "fc \<noteq> cur" "f = fc mod NBUCKETS"
  shows "bget_steal busy cur dev bno fc s =
    (if busy f \<or> f = cur then bget_steal busy cur dev bno (f + 1) s
     else case free_in L (bufs s) f of
       Some i \<Rightarrow> Some (Some i, bcache_calls [Acquire f, Release f, Release cur] (recycle dev bno i (link_front cur i (unlink i s))))
     | None \<Rightarrow> bget_steal busy cur dev bno (f + 1) (bcache_calls [Acquire f, Release f] s))"
proof -
  have f: "f < NBUCKETS" using c(2) by (simp add: NBUCKETS_def)
  have "scan_list (prv s) f (\<lambda>i. refcnt (bufs s i) = 0) (prv s (Hd f)) = Some (free_in L (bufs s) f)"
    using scan_bwd [OF r f] by (simp add: free_in_def)
  then show ?thesis using c by (subst bget_steal.simps) (auto simp: Let_def split: option.split)
qed

lemma steal_order_drop:
  "j < 12 \<Longrightarrow> drop j (steal_order cur) = (cur + 1 + j) mod NBUCKETS # drop (Suc j) (steal_order cur)"
proof -
  assume j: "j < 12"
  have n: "steal_order cur ! j = (cur + 1 + j) mod NBUCKETS"
    unfolding steal_order_def using nth_map [of j "[0..<12]"] nth_upt [of 0 j 12] j by (simp del: upt_rec_numeral)
  show ?thesis unfolding n [symmetric] using j by (intro Cons_nth_drop_Suc [symmetric]) (simp add: steal_order_def)
qed

lemma steal_next:
  assumes "cur < NBUCKETS" "j < 12" "f = (cur + 1 + j) mod NBUCKETS"
  shows "f \<noteq> cur" "(f + 1) mod NBUCKETS = (cur + 1 + Suc j) mod NBUCKETS" "j < 11 \<Longrightarrow> f + 1 \<noteq> cur"
    "j = 11 \<Longrightarrow> cur \<noteq> 0 \<Longrightarrow> f + 1 = cur"
proof -
  have f: "f = (if cur + 1 + j < 13 then cur + 1 + j else cur + 1 + j - 13)"
    using assms by (simp add: NBUCKETS_def mod_if)
  show "f \<noteq> cur" "j < 11 \<Longrightarrow> f + 1 \<noteq> cur" "j = 11 \<Longrightarrow> cur \<noteq> 0 \<Longrightarrow> f + 1 = cur"
    using f assms by (auto simp: NBUCKETS_def split: if_splits)
  show "(f + 1) mod NBUCKETS = (cur + 1 + Suc j) mod NBUCKETS"
    unfolding assms(3) by (simp add: mod_Suc_eq)
qed

text \<open>From the \<open>j\<close>-th bucket of the order on, the loop finds a buffer, or ends when the bucket is not bucket 0.\<close>

lemma bget_steal_from:
  fixes s :: "('b, 'd) bcache"
  assumes c: "cur < NBUCKETS"
  shows "rings NBUF s L \<Longrightarrow> j \<le> 12 \<Longrightarrow> fc mod NBUCKETS = (cur + 1 + j) mod NBUCKETS \<Longrightarrow> (j < 12 \<longrightarrow> fc \<noteq> cur) \<Longrightarrow>
    (j = 12 \<and> cur \<noteq> 0 \<longrightarrow> fc = cur) \<Longrightarrow>
    (case steal_from busy (free_in L (bufs s)) (drop j (steal_order cur)) of
       Some (f, i) \<Rightarrow> bget_steal busy cur dev bno fc s =
         Some (Some i, bcache_calls (steal_calls busy (free_in L (bufs s)) (drop j (steal_order cur)) @ [Release cur])
           (recycle dev bno i (link_front cur i (unlink i s))))
     | None \<Rightarrow> cur \<noteq> 0 \<longrightarrow> bget_steal busy cur dev bno fc s =
         Some (None, bcache_calls (steal_calls busy (free_in L (bufs s)) (drop j (steal_order cur))) s))"
proof (induction "12 - j" arbitrary: j fc s)
  case 0
  then have "j = 12" by simp
  then show ?case using 0 by (auto simp: steal_order_def bget_steal.simps bcache_calls_def)
next
  case (Suc n)
  then have j: "j < 12" "n = 12 - Suc j" by auto
  define f where "f = (cur + 1 + j) mod NBUCKETS"
  note nx = steal_next [OF c j(1) f_def]
  note dr = steal_order_drop [OF j(1), of cur, folded f_def]
  have u: "bget_steal busy cur dev bno fc s =
    (if busy f then bget_steal busy cur dev bno (f + 1) s
     else case free_in L (bufs s) f of
       Some i \<Rightarrow> Some (Some i, bcache_calls [Acquire f, Release f, Release cur] (recycle dev bno i (link_front cur i (unlink i s))))
     | None \<Rightarrow> bget_steal busy cur dev bno (f + 1) (bcache_calls [Acquire f, Release f] s))"
    using bget_steal_unfold [OF Suc.prems(1), of fc cur f busy dev bno] Suc.prems j f_def nx(1) by simp
  have IH: "case steal_from busy (free_in L (bufs s')) (drop (Suc j) (steal_order cur)) of
       Some (f, i) \<Rightarrow> bget_steal busy cur dev bno (f1 + 1) s' =
         Some (Some i, bcache_calls (steal_calls busy (free_in L (bufs s')) (drop (Suc j) (steal_order cur)) @ [Release cur])
           (recycle dev bno i (link_front cur i (unlink i s'))))
     | None \<Rightarrow> cur \<noteq> 0 \<longrightarrow> bget_steal busy cur dev bno (f1 + 1) s' =
         Some (None, bcache_calls (steal_calls busy (free_in L (bufs s')) (drop (Suc j) (steal_order cur))) s')"
    if "rings NBUF s' L" "f1 = f" for s' :: "('b, 'd) bcache" and f1
    using Suc.hyps(1) [OF j(2) that(1), of "f + 1"] that(2) nx j by auto
  show ?case
  proof (cases "busy f \<or> free_in L (bufs s) f = None")
    case True
    show ?thesis
    proof (cases "busy f")
      case b: True
      then show ?thesis using IH [OF Suc.prems(1) refl] u dr by (auto split: option.splits)
    next
      case b: False
      let ?s = "bcache_calls [Acquire f, Release f] s"
      have "rings NBUF ?s L" using Suc.prems(1) by simp
      from IH [OF this refl] show ?thesis
        using u dr b True by (auto split: option.splits)
    qed
  next
    case False
    then obtain i where "free_in L (bufs s) f = Some i" "\<not> busy f" by auto
    then show ?thesis using u dr by (auto split: option.splits)
  qed
qed

end
