(* ===== verification/Bcache_Props.thy ===== *)
theory Bcache_Props
  imports Bcache_Lists
begin

text \<open>
  Properties of the buffer cache: \<^verbatim>\<open>bget\<close> refines a cache of lists, no block is cached twice, and a process
  reads from a buffer what the disk holds.
\<close>

section \<open>The abstract cache\<close>

text \<open>The buckets as lists, and the buffers.\<close>

type_synonym 'b acache = "(nat \<Rightarrow> nat list) \<times> (nat \<Rightarrow> 'b buf)"

definition recycled :: "u32 \<Rightarrow> u32 \<Rightarrow> 'b buf \<Rightarrow> 'b buf" where
  "recycled dev bno b = b\<lparr>bdev := dev, blockno := bno, bvalid := False, refcnt := 1\<rparr>"

definition cached_in :: "u32 \<Rightarrow> u32 \<Rightarrow> 'b acache \<Rightarrow> nat option" where
  "cached_in dev bno A = find (\<lambda>i. bdev (snd A i) = dev \<and> blockno (snd A i) = bno) (fst A (bucket_of bno))"

text \<open>
  The cached buffer of the block; else the last free buffer of its bucket; else the last free
  buffer of the next bucket that has one, moved to the front of the block's bucket.
\<close>

definition abs_bget :: "(nat \<Rightarrow> bool) \<Rightarrow> u32 \<Rightarrow> u32 \<Rightarrow> 'b acache \<Rightarrow> (nat \<times> 'b acache) option" where
  "abs_bget busy dev bno A =
     (let (L, B) = A; cur = bucket_of bno in
      case cached_in dev bno A of
        Some i \<Rightarrow> Some (i, L, B(i := (B i)\<lparr>refcnt := refcnt (B i) + 1\<rparr>))
      | None \<Rightarrow>
          (case free_in L B cur of
             Some i \<Rightarrow> Some (i, L, B(i := recycled dev bno (B i)))
           | None \<Rightarrow>
               (case steal_from busy (free_in L B) (steal_order cur) of
                  Some (f, i) \<Rightarrow> Some (i, move_front cur i L, B(i := recycled dev bno (B i)))
                | None \<Rightarrow> None)))"

section \<open>Refinement\<close>

lemma bucket_less [simp]: "bucket_of bno < NBUCKETS"
  by (simp add: bucket_of_def NBUCKETS_def)

text \<open>In bucket 0 the search of the other buckets does not end when it finds nothing.\<close>

lemma bget_steal_diverges:
  fixes s :: "('b, 'd) bcache"
  assumes "rings NBUF s L" "fc \<noteq> 0" "\<forall>f\<in>set (steal_order 0). busy f \<or> free_in L (bufs s) f = None"
  shows "bget_steal busy 0 dev bno fc s = None"
proof (rule ccontr)
  have all: "busy f \<or> free_in L (bufs s) f = None" if "f < NBUCKETS" "f \<noteq> 0" for f
  proof -
    have "f \<in> (\<lambda>j. (0 + 1 + j) mod NBUCKETS) ` {0..<12}"
      using that by (intro image_eqI [of _ _ "f - 1"]) (auto simp: NBUCKETS_def)
    then show ?thesis using assms(3) by (auto simp: steal_order_def)
  qed
  let ?P = "\<lambda>busy' (cur :: nat) (dev :: u32) (bno :: u32) (fc :: nat) (t :: ('b, 'd) bcache) (r :: nat option \<times> ('b, 'd) bcache).
    busy' = busy \<longrightarrow> cur = 0 \<longrightarrow> fc \<noteq> 0 \<longrightarrow> nxt t = nxt s \<longrightarrow> prv t = prv s \<longrightarrow> bufs t = bufs s \<longrightarrow> False"
  assume "bget_steal busy 0 dev bno fc s \<noteq> None"
  then obtain r where r: "bget_steal busy 0 dev bno fc s = Some r" by auto
  have "?P busy 0 dev bno fc s r"
  proof (rule bget_steal.raw_induct [where P = ?P, OF _ r])
    fix G :: "(nat \<Rightarrow> bool) \<Rightarrow> nat \<Rightarrow> u32 \<Rightarrow> u32 \<Rightarrow> nat \<Rightarrow> ('b, 'd) bcache \<Rightarrow> (nat option \<times> ('b, 'd) bcache) option"
      and busy' cur dev bno fc and t :: "('b, 'd) bcache" and r
    assume IH: "\<And>busy' cur dev bno fc t r. G busy' cur dev bno fc t = Some r \<Longrightarrow> ?P busy' cur dev bno fc t r"
      and e: "(if fc = cur then Some (None, t) else let f = fc mod NBUCKETS in
         if busy' f \<or> f = cur then G busy' cur dev bno (f + 1) t
         else let s1 = bcache_calls [Acquire f] t in
           scan_list (prv s1) f (\<lambda>i. refcnt (bufs s1 i) = 0) (prv s1 (Hd f)) \<bind>
           (\<lambda>found. case found of
              None \<Rightarrow> G busy' cur dev bno (f + 1) (bcache_calls [Release f] s1)
            | Some i \<Rightarrow> Some (Some i, bcache_calls [Release f, Release cur] (recycle dev bno i (link_front cur i (unlink i s1)))))) = Some r"
    show "?P busy' cur dev bno fc t r"
    proof (intro impI)
      assume c: "busy' = busy" "cur = 0" "fc \<noteq> 0" "nxt t = nxt s" "prv t = prv s" "bufs t = bufs s"
      let ?f = "fc mod NBUCKETS"
      have f: "?f < NBUCKETS" by (simp add: NBUCKETS_def)
      have "rings NBUF t L" using assms(1) rings_cong c(4,5) by metis
      from scan_bwd [OF this f] have sc: "scan_list (prv t) ?f (\<lambda>i. refcnt (bufs t i) = 0) (prv t (Hd ?f)) = Some (free_in L (bufs s) ?f)"
        using c(6) by (simp add: free_in_def)
      show False
      proof (cases "busy ?f \<or> ?f = 0")
        case True
        then have "G busy 0 dev bno (?f + 1) t = Some r" using e c by (auto simp: Let_def)
        from IH [OF this] c show False by simp
      next
        case False
        then have "free_in L (bufs s) ?f = None" using all [OF f] by auto
        then have "G busy 0 dev bno (?f + 1) (bcache_calls [Release ?f] (bcache_calls [Acquire ?f] t)) = Some r"
          using e c sc False by (auto simp: Let_def)
        from IH [OF this] c show False by simp
      qed
    qed
  qed
  then show False using assms(2) by simp
qed

lemma steal_from_None: "steal_from busy free fs = None \<Longrightarrow> f \<in> set fs \<Longrightarrow> busy f \<or> free f = None"
  by (induction fs) (auto split: if_splits option.splits)

lemma steal_from_Some: "steal_from busy free fs = Some (f, i) \<Longrightarrow> f \<in> set fs \<and> \<not> busy f \<and> free f = Some i"
  by (induction fs) (auto split: if_splits option.splits)

lemma steal_order_less: "f \<in> set (steal_order cur) \<Longrightarrow> f < NBUCKETS"
  by (auto simp: steal_order_def NBUCKETS_def)

lemma steal_order_neq: "cur < NBUCKETS \<Longrightarrow> f \<in> set (steal_order cur) \<Longrightarrow> f \<noteq> cur"
  using steal_next(1) by (fastforce simp: steal_order_def simp del: upt_rec_numeral)

lemma find_in: "find P xs = Some i \<Longrightarrow> i \<in> set xs \<and> P i"
  by (induction xs) (auto split: if_splits)

lemma free_in_mem: "free_in L B k = Some i \<Longrightarrow> i \<in> set (L k) \<and> refcnt (B i) = 0"
  by (auto simp: free_in_def dest: find_in)

lemma lock_run_steal:
  "H \<inter> set fs = {} \<Longrightarrow> lock_run H (steal_calls busy free fs) = Some H"
  by (induction fs) (auto split: option.splits)

text \<open>
  \<^verbatim>\<open>bget\<close> under the bucket locks, on every branch: the buffer and lists of the abstract cache, with every
  lock released; when there is no buffer, a panic, or no result if the block is in bucket 0.
\<close>

lemma bget_section_refines:
  assumes r: "rings NBUF s L"
  shows "case abs_bget busy dev bno (L, bufs s) of
      Some (i, L', B') \<Rightarrow> \<exists>s' cs. bget_section busy dev bno s = Some (Ok (i, s')) \<and> rings NBUF s' L' \<and> bufs s' = B' \<and>
        disk s' = disk s \<and> block_log s' = block_log s @ cs \<and> lock_run {} cs = Some {}
    | None \<Rightarrow> bget_section busy dev bno s = (if bucket_of bno = 0 then None else Some (Panic ''bget: no buffers''))"
proof -
  let ?c = "bucket_of bno" and ?A = "(L, bufs s)"
  let ?s1 = "bcache_calls [Acquire ?c] s"
  have hit: "scan_list (nxt ?s1) ?c (\<lambda>i. bdev (bufs ?s1 i) = dev \<and> blockno (bufs ?s1 i) = bno) (nxt ?s1 (Hd ?c)) = Some (cached_in dev bno ?A)"
    using scan_fwd [OF r bucket_less] by (simp add: cached_in_def)
  have free: "scan_list (prv ?s1) ?c (\<lambda>i. refcnt (bufs ?s1 i) = 0) (prv ?s1 (Hd ?c)) = Some (free_in L (bufs s) ?c)"
    using scan_bwd [OF r bucket_less] by (simp add: free_in_def)
  show ?thesis
  proof (cases "cached_in dev bno ?A")
    case (Some i)
    then show ?thesis using r hit by (simp add: bget_section_def abs_bget_def Let_def)
  next
    case n: None
    show ?thesis
    proof (cases "free_in L (bufs s) ?c")
      case (Some i)
      then show ?thesis using r hit free n by (simp add: bget_section_def abs_bget_def Let_def recycled_def)
    next
      case n2: None
      have pre: "rings NBUF ?s1 L" "(0::nat) \<le> 12" "(?c + 1) mod NBUCKETS = (?c + 1 + 0) mod NBUCKETS" "0 < 12 \<longrightarrow> ?c + 1 \<noteq> ?c"
        "(0::nat) = 12 \<and> ?c \<noteq> 0 \<longrightarrow> ?c + 1 = ?c" using r by auto
      note st = bget_steal_from [OF bucket_less pre, of busy dev bno]
      show ?thesis
      proof (cases "steal_from busy (free_in L (bufs s)) (steal_order ?c)")
        case None
        show ?thesis
        proof (cases "?c = 0")
          case True
          have "bget_steal busy ?c dev bno (?c + 1) ?s1 = None"
            unfolding True using pre(1) steal_from_None [OF None] True by (intro bget_steal_diverges) fastforce+
          then show ?thesis using hit free n n2 None True by (simp add: bget_section_def abs_bget_def Let_def)
        next
          case False
          then show ?thesis using st hit free n n2 None by (simp add: bget_section_def abs_bget_def Let_def)
        qed
      next
        case (Some fi)
        then obtain f i where fi: "steal_from busy (free_in L (bufs s)) (steal_order ?c) = Some (f, i)" by (cases fi) auto
        have f: "f < NBUCKETS" "i \<in> set (L f)" using steal_from_Some [OF fi] steal_order_less free_in_mem by blast+
        have "?c \<notin> set (steal_order ?c)" using steal_order_neq [of ?c] by auto
        then have "lock_run {?c} (steal_calls busy (free_in L (bufs s)) (steal_order ?c)) = Some {?c}"
          by (intro lock_run_steal) auto
        then show ?thesis
          using st hit free n n2 fi move_front_rings [OF r f bucket_less [of bno]]
          by (simp add: bget_section_def abs_bget_def Let_def recycled_def)
      qed
    qed
  qed
qed

section \<open>The invariant of the cache\<close>

text \<open>
  Every buffer that was given a block (device numbers start at 1) is in the bucket of the block,
  and no two buffers have the same block.
\<close>

definition keys_ok :: "nat \<Rightarrow> (nat \<Rightarrow> nat list) \<Rightarrow> (nat \<Rightarrow> 'b buf) \<Rightarrow> bool" where
  "keys_ok NBUF L B \<longleftrightarrow>
     (\<forall>i<NBUF. bdev (B i) \<noteq> 0 \<longrightarrow> i \<in> set (L (bucket_of (blockno (B i))))) \<and>
     (\<forall>i<NBUF. \<forall>j<NBUF. bdev (B i) \<noteq> 0 \<longrightarrow> i \<noteq> j \<longrightarrow> \<not> (bdev (B i) = bdev (B j) \<and> blockno (B i) = blockno (B j)))"

definition cache_ok :: "nat \<Rightarrow> ('b, 'd) bcache \<Rightarrow> bool" where
  "cache_ok NBUF s \<longleftrightarrow> (\<exists>L. rings NBUF s L \<and> keys_ok NBUF L (bufs s))"

text \<open>The two ways a buffer is obtained: by reference to a cached one, or by recycling a free one.\<close>

definition got_cached :: "u32 \<Rightarrow> u32 \<Rightarrow> nat \<Rightarrow> (nat \<Rightarrow> 'b buf) \<Rightarrow> (nat \<Rightarrow> 'b buf) \<Rightarrow> bool" where
  "got_cached dev bno i B B' \<longleftrightarrow> bdev (B i) = dev \<and> blockno (B i) = bno \<and> B' = B(i := (B i)\<lparr>refcnt := refcnt (B i) + 1\<rparr>)"

definition got_free :: "u32 \<Rightarrow> u32 \<Rightarrow> nat \<Rightarrow> (nat \<Rightarrow> 'b buf) \<Rightarrow> (nat \<Rightarrow> 'b buf) \<Rightarrow> bool" where
  "got_free dev bno i B B' \<longleftrightarrow> refcnt (B i) = 0 \<and> B' = B(i := recycled dev bno (B i))"

lemma cached_in_None: "cached_in dev bno (L, B) = None \<Longrightarrow> j \<in> set (L (bucket_of bno)) \<Longrightarrow> \<not> (bdev (B j) = dev \<and> blockno (B j) = bno)"
  by (auto simp: cached_in_def find_None_iff)

lemma rings_mem: "rings NBUF s L \<Longrightarrow> k < NBUCKETS \<Longrightarrow> i \<in> set (L k) \<Longrightarrow> i < NBUF"
  using ringsD(3) by fastforce

lemma move_front_mem: "j \<in> set (move_front k i L m) \<longleftrightarrow> (if j = i then m = k else j \<in> set (L m))"
  by (auto simp: move_front_def)

lemma bget_section_cases:
  assumes ok: "cache_ok NBUF s" and d: "dev \<noteq> 0" and g: "bget_section busy dev bno s = Some (Ok (i, s'))"
  shows "cache_ok NBUF s' \<and> disk s' = disk s \<and> i < NBUF \<and> (got_cached dev bno i (bufs s) (bufs s') \<or>
    got_free dev bno i (bufs s) (bufs s') \<and> (\<forall>j<NBUF. \<not> (bdev (bufs s j) = dev \<and> blockno (bufs s j) = bno)))"
proof -
  obtain L where L: "rings NBUF s L" "keys_ok NBUF L (bufs s)" using ok by (auto simp: cache_ok_def)
  let ?B = "bufs s" and ?c = "bucket_of bno"
  note R = bget_section_refines [OF L(1), of busy dev bno]
  have "abs_bget busy dev bno (L, ?B) \<noteq> None" using R g by (auto split: option.splits if_splits)
  then obtain i0 L' B' where a: "abs_bget busy dev bno (L, ?B) = Some (i0, L', B')" by (metis option.exhaust surj_pair)
  then have s': "i0 = i" "rings NBUF s' L'" "bufs s' = B'" "disk s' = disk s" using R g by auto
  show ?thesis
  proof (cases "cached_in dev bno (L, ?B)")
    case (Some j)
    then have h: "j = i" "L' = L" "got_cached dev bno i ?B B'" "i \<in> set (L ?c)"
      using a s'(1) by (auto simp: abs_bget_def Let_def got_cached_def cached_in_def dest: find_in)
    then have "keys_ok NBUF L B'" using L(2) by (auto simp: keys_ok_def got_cached_def)
    moreover have "i < NBUF" by (rule rings_mem [OF L(1) bucket_less h(4)])
    ultimately show ?thesis using s' h by (auto simp: cache_ok_def)
  next
    case None
    have new: "\<not> (bdev (?B j) = dev \<and> blockno (?B j) = bno)" if "j < NBUF" for j
      using cached_in_None [OF None, of j] L(2) that d by (auto simp: keys_ok_def)
    obtain f where h: "f < NBUCKETS" "i \<in> set (L f)" "got_free dev bno i ?B B'" "\<And>j m. j \<noteq> i \<Longrightarrow> j \<in> set (L m) \<Longrightarrow> j \<in> set (L' m)"
        "i \<in> set (L' ?c)"
    proof (cases "free_in L ?B ?c")
      case (Some j)
      then show thesis using that [of ?c] a None s'(1) free_in_mem [OF Some] by (auto simp: abs_bget_def Let_def got_free_def)
    next
      case n: None
      then obtain f j where fj: "steal_from busy (free_in L ?B) (steal_order ?c) = Some (f, j)"
        using a None by (auto simp: abs_bget_def Let_def split: option.splits)
      have "j \<in> set (L f)" "refcnt (?B j) = 0" "f < NBUCKETS" using steal_from_Some [OF fj] free_in_mem steal_order_less by blast+
      then show thesis using that [of f] a None n fj s'(1) by (auto simp: abs_bget_def Let_def got_free_def move_front_mem)
    qed
    have i: "i < NBUF" by (rule rings_mem [OF L(1) h(1,2)])
    have "keys_ok NBUF L' B'" unfolding keys_ok_def
    proof (intro conjI allI impI)
      fix j assume j: "j < NBUF" "bdev (B' j) \<noteq> 0"
      show "j \<in> set (L' (bucket_of (blockno (B' j))))"
        using h L(2) j by (cases "j = i") (auto simp: got_free_def recycled_def keys_ok_def)
    next
      fix j k assume j: "j < NBUF" "k < NBUF" "bdev (B' j) \<noteq> 0" "j \<noteq> k"
      show "\<not> (bdev (B' j) = bdev (B' k) \<and> blockno (B' j) = blockno (B' k))"
        using h(3) L(2) j new [of j] new [of k] by (auto simp: got_free_def recycled_def keys_ok_def)
    qed
    then show ?thesis using s' h(3) i new by (auto simp: cache_ok_def)
  qed
qed

text \<open>The other operations keep keys; only \<^verbatim>\<open>brelse\<close> changes the lists.\<close>

lemma keys_ok_cong: "(\<And>i. bdev (B' i) = bdev (B i) \<and> blockno (B' i) = blockno (B i)) \<Longrightarrow> keys_ok NBUF L B' = keys_ok NBUF L B"
  by (simp add: keys_ok_def)

lemma cache_ok_set_buf:
  "(\<And>b. bdev (f b) = bdev b \<and> blockno (f b) = blockno b) \<Longrightarrow> cache_ok NBUF (set_buf i f s) = cache_ok NBUF s"
proof -
  assume "\<And>b. bdev (f b) = bdev b \<and> blockno (f b) = blockno b"
  then have "keys_ok NBUF L (bufs (set_buf i f s)) = keys_ok NBUF L (bufs s)" for L by (intro keys_ok_cong) auto
  then show ?thesis by (simp add: cache_ok_def del: set_buf_simps)
qed

lemma cache_ok_cong: "nxt s' = nxt s \<Longrightarrow> prv s' = prv s \<Longrightarrow> bufs s' = bufs s \<Longrightarrow> cache_ok NBUF s' = cache_ok NBUF s"
  using rings_cong [of s' s] by (simp add: cache_ok_def)

lemma cache_ok_calls [simp]: "cache_ok NBUF (bcache_calls cs s) = cache_ok NBUF s"
  by (rule cache_ok_cong) simp_all

lemma bread_fill_ok: "cache_ok NBUF (bread_fill V i s) = cache_ok NBUF s"
proof -
  have "cache_ok NBUF (s\<lparr>disk := d\<rparr>) = cache_ok NBUF s" for d by (rule cache_ok_cong) simp_all
  then show ?thesis by (simp add: bread_fill_def Let_def cache_ok_set_buf split: prod.split)
qed

lemma move_front_ok:
  assumes ok: "cache_ok NBUF s" and i: "i < NBUF" "bdev (bufs s i) \<noteq> 0" and k: "k = bucket_of (blockno (bufs s i))"
  shows "cache_ok NBUF (link_front k i (unlink i s))"
proof -
  obtain L where L: "rings NBUF s L" "keys_ok NBUF L (bufs s)" using ok by (auto simp: cache_ok_def)
  have m: "i \<in> set (L k)" using L(2) i k by (simp add: keys_ok_def)
  have kb: "k < NBUCKETS" using k by simp
  have "rings NBUF (link_front k i (unlink i s)) (move_front k i L)" by (rule move_front_rings [OF L(1) kb m kb])
  moreover have "keys_ok NBUF (move_front k i L) (bufs s)"
    using L(2) k by (auto simp: keys_ok_def move_front_mem)
  ultimately show ?thesis unfolding cache_ok_def by auto
qed

lemma brelse_section_ok:
  assumes ok: "cache_ok NBUF s" and i: "i < NBUF" "bdev (bufs s i) \<noteq> 0" and k: "k = bucket_of (blockno (bufs s i))"
  shows "cache_ok NBUF (brelse_section k i s)"
    "bufs (brelse_section k i s) = (bufs s)(i := (bufs s i)\<lparr>refcnt := refcnt (bufs s i) - 1\<rparr>)"
    "disk (brelse_section k i s) = disk s"
proof -
  let ?s = "set_buf i (\<lambda>b. b\<lparr>refcnt := refcnt b - 1\<rparr>) s"
  have "cache_ok NBUF ?s" using ok by (simp add: cache_ok_set_buf)
  then have "cache_ok NBUF (link_front k i (unlink i ?s))" using i k by (intro move_front_ok) auto
  then show "cache_ok NBUF (brelse_section k i s)" using \<open>cache_ok NBUF ?s\<close> by (simp add: brelse_section_def Let_def)
  show "bufs (brelse_section k i s) = (bufs s)(i := (bufs s i)\<lparr>refcnt := refcnt (bufs s i) - 1\<rparr>)"
    "disk (brelse_section k i s) = disk s"
    by (simp_all add: brelse_section_def Let_def)
qed

section \<open>Contents\<close>

text \<open>The disk driver as documented: \<open>c d dev bno\<close> is what the disk holds.\<close>

definition virtio_ok :: "('b, 'd) virtio \<Rightarrow> ('d \<Rightarrow> u32 \<Rightarrow> u32 \<Rightarrow> 'b) \<Rightarrow> bool" where
  "virtio_ok V c \<longleftrightarrow>
     (\<forall>dev bno d. fst (disk_read V dev bno d) = c d dev bno \<and> c (snd (disk_read V dev bno d)) = c d) \<and>
     (\<forall>dev bno x d. c (disk_write V dev bno x d) = (c d)(dev := (c d dev)(bno := x)))"

text \<open>Every valid buffer has the contents of its block.\<close>

definition coherent :: "nat \<Rightarrow> ('d \<Rightarrow> u32 \<Rightarrow> u32 \<Rightarrow> 'b) \<Rightarrow> ('b, 'd) bcache \<Rightarrow> bool" where
  "coherent NBUF c s \<longleftrightarrow> (\<forall>i<NBUF. bdev (bufs s i) \<noteq> 0 \<longrightarrow> bvalid (bufs s i) \<longrightarrow>
     bdata (bufs s i) = c (disk s) (bdev (bufs s i)) (blockno (bufs s i)))"

definition holds_block :: "nat \<Rightarrow> nat \<Rightarrow> u32 \<Rightarrow> u32 \<Rightarrow> nat \<Rightarrow> ('b, 'd) bcache \<Rightarrow> bool" where
  "holds_block NBUF me dev bno i s \<longleftrightarrow> i < NBUF \<and> bdev (bufs s i) = dev \<and> blockno (bufs s i) = bno \<and>
     bowner (bufs s i) = Some me \<and> bvalid (bufs s i)"

lemma bread_result:
  assumes V: "virtio_ok V c" and ok: "cache_ok NBUF s" "coherent NBUF c s" and d: "dev \<noteq> 0"
    and b: "bread V me busy dev bno s = Some (Ok (i, s'))"
  shows "holds_block NBUF me dev bno i s'" "bdata (bufs s' i) = c (disk s) dev bno" "cache_ok NBUF s'" "coherent NBUF c s'"
    "c (disk s') = c (disk s)"
proof -
  obtain s1 s2 where g: "bget_section busy dev bno s = Some (Ok (i, s1))" "acquiresleep me i s1 = Some s2" "s' = bread_fill V i s2"
  proof -
    obtain r where r: "bget_section busy dev bno s = Some r" using b by (auto simp: bread_def bget_def bind_eq_Some_conv)
    then show thesis using b that by (cases r) (auto simp: bread_def bget_def)
  qed
  note C = bget_section_cases [OF ok(1) d g(1)]
  have s2: "s2 = set_buf i (\<lambda>b. b\<lparr>bowner := Some me\<rparr>) s1" using g(2) by (auto simp: acquiresleep_def split: if_splits)
  have i: "i < NBUF" "disk s1 = disk s" "cache_ok NBUF s1" using C by auto
  have key: "bdev (bufs s1 i) = dev" "blockno (bufs s1 i) = bno"
    using C by (auto simp: got_cached_def got_free_def recycled_def)
  have co: "coherent NBUF c s2"
    using C ok(2) s2 by (auto simp: coherent_def got_cached_def got_free_def recycled_def)
  obtain x d' where r: "disk_read V (bdev (bufs s2 i)) (blockno (bufs s2 i)) (disk s2) = (x, d')" by fastforce
  have rr: "x = c (disk s) dev bno" "c d' = c (disk s)"
  proof -
    have "bdev (bufs s2 i) = dev" "blockno (bufs s2 i) = bno" "disk s2 = disk s" using key s2 i by simp_all
    then show "x = c (disk s) dev bno" "c d' = c (disk s)" using V r unfolding virtio_ok_def by (metis fst_conv snd_conv)+
  qed
  show "cache_ok NBUF s'" using i(3) s2 g(3) by (simp add: bread_fill_ok cache_ok_set_buf)
  show "holds_block NBUF me dev bno i s'" "c (disk s') = c (disk s)"
    using i key s2 g(3) r rr by (auto simp: holds_block_def bread_fill_def Let_def)
  show "bdata (bufs s' i) = c (disk s) dev bno"
    using co i key s2 g(3) r rr d by (auto simp: coherent_def bread_fill_def)
  show "coherent NBUF c s'"
    using co i key s2 g(3) r rr d by (auto simp: coherent_def bread_fill_def)
qed

text \<open>Getting a block that a buffer has: that buffer, if its lock is free.\<close>

lemma bread_cached:
  assumes ok: "cache_ok NBUF s" and i: "i < NBUF" "bdev (bufs s i) \<noteq> 0" "bvalid (bufs s i)" "bowner (bufs s i) = None"
  shows "\<exists>s'. bread V me busy (bdev (bufs s i)) (blockno (bufs s i)) s = Some (Ok (i, s')) \<and> bdata (bufs s' i) = bdata (bufs s i)"
proof -
  let ?dev = "bdev (bufs s i)" and ?bno = "blockno (bufs s i)"
  obtain L where L: "rings NBUF s L" "keys_ok NBUF L (bufs s)" using ok by (auto simp: cache_ok_def)
  have m: "i \<in> set (L (bucket_of ?bno))" using L(2) i by (simp add: keys_ok_def)
  then obtain j where j: "cached_in ?dev ?bno (L, bufs s) = Some j"
    by (metis cached_in_None option.exhaust)
  then have "j \<in> set (L (bucket_of ?bno))" "bdev (bufs s j) = ?dev" "blockno (bufs s j) = ?bno"
    by (auto simp: cached_in_def dest: find_in)
  then have "j = i" using L(2) i rings_mem [OF L(1) bucket_less] unfolding keys_ok_def by metis
  then have "abs_bget busy ?dev ?bno (L, bufs s) = Some (i, L, (bufs s)(i := (bufs s i)\<lparr>refcnt := refcnt (bufs s i) + 1\<rparr>))"
    using j by (simp add: abs_bget_def Let_def)
  then obtain s1 where "bget_section busy ?dev ?bno s = Some (Ok (i, s1))"
      "bufs s1 = (bufs s)(i := (bufs s i)\<lparr>refcnt := refcnt (bufs s i) + 1\<rparr>)"
    using bget_section_refines [OF L(1), of busy ?dev ?bno] by auto
  then show ?thesis using i(3,4) by (simp add: bread_def bget_def acquiresleep_def bread_fill_def)
qed

section \<open>Properties\<close>

text \<open>
  C17: \<^verbatim>\<open>bget\<close> on the linked lists refines a cache of lists: it returns the buffer the list model chooses (the
  cached one, else the last free buffer of the bucket, else the last free buffer of the next bucket, moved to the
  front), leaves every list well linked and every bucket lock released. When there is no free buffer it panics;
  for a block of bucket 0 it then searches forever, with its bucket lock held.
\<close>

theorem bget_refines_lists:
  assumes r: "rings NBUF s L"
  shows "case abs_bget busy dev bno (L, bufs s) of
      Some (i, L', B') \<Rightarrow> \<exists>s' cs. bget_section busy dev bno s = Some (Ok (i, s')) \<and> rings NBUF s' L' \<and> bufs s' = B' \<and>
        disk s' = disk s \<and> block_log s' = block_log s @ cs \<and> lock_run {} cs = Some {}
    | None \<Rightarrow> bget_section busy dev bno s = (if bucket_of bno = 0 then None else Some (Panic ''bget: no buffers''))"
  by (rule bget_section_refines [OF r])

text \<open>A cache of two buffers after \<^verbatim>\<open>binit\<close>, on a disk that is a function.\<close>

definition fun_disk :: "('b, u32 \<Rightarrow> u32 \<Rightarrow> 'b) virtio" where
  "fun_disk = \<lparr>disk_read = (\<lambda>dev bno d. (d dev bno, d)), disk_write = (\<lambda>dev bno x d. d(dev := (d dev)(bno := x)))\<rparr>"

definition ex_bcache :: "(nat, u32 \<Rightarrow> u32 \<Rightarrow> nat) bcache" where
  "ex_bcache = binit 2 \<lparr>nxt = (\<lambda>_. Hd 0), prv = (\<lambda>_. Hd 0),
     bufs = (\<lambda>_. \<lparr>bvalid = False, bdev = 0, blockno = 0, refcnt = 0, bowner = None, bdata = 0\<rparr>),
     disk = (\<lambda>dev bno. unat bno + 100), block_log = []\<rparr>"

lemma ex_bcache_lists: "rings 2 ex_bcache (init_lists 2)" "init_lists 2 1 = [1]" "init_lists 2 0 = [0]"
  unfolding ex_bcache_def by (rule binit_rings) (simp_all add: numeral_2_eq_2 NBUCKETS_def)

lemma ex_bcache_bufs:
  "i < 2 \<Longrightarrow> bufs ex_bcache i = \<lparr>bvalid = False, bdev = 0, blockno = 0, refcnt = 0, bowner = None, bdata = 0\<rparr>"
  "disk ex_bcache = (\<lambda>dev bno. unat bno + 100)"
  by (simp_all add: ex_bcache_def binit_bufs)

lemma ex_bcache_ok: "cache_ok 2 ex_bcache" "coherent 2 (\<lambda>d. d) ex_bcache" "virtio_ok fun_disk (\<lambda>d. d)"
proof -
  have "keys_ok 2 (init_lists 2) (bufs ex_bcache)" using ex_bcache_bufs by (simp add: keys_ok_def)
  then show "cache_ok 2 ex_bcache" using ex_bcache_lists unfolding cache_ok_def by blast
  show "coherent 2 (\<lambda>d. d) ex_bcache" using ex_bcache_bufs by (simp add: coherent_def)
  show "virtio_ok fun_disk (\<lambda>d. d)" by (simp add: virtio_ok_def fun_disk_def)
qed

lemma ex_abs_bget:
  "\<exists>B'. abs_bget busy 1 14 (init_lists 2, bufs ex_bcache) = Some (1, init_lists 2, B') \<and> bowner (B' 1) = None \<and> bvalid (B' 1) = False"
proof -
  have "bucket_of 14 = 1" by (simp add: bucket_of_def NBUCKETS_def)
  then show ?thesis
    using ex_bcache_bufs(1) [of 1] ex_bcache_lists(2)
    by (simp add: abs_bget_def Let_def cached_in_def free_in_def recycled_def)
qed

theorem bget_refines_lists_witness:
  "\<exists>s' cs. bget_section (\<lambda>_. False) 1 14 ex_bcache = Some (Ok (1, s')) \<and> rings 2 s' (init_lists 2) \<and>
    block_log s' = block_log ex_bcache @ cs \<and> lock_run {} cs = Some {}"
  using bget_refines_lists [OF ex_bcache_lists(1), of "\<lambda>_. False" 1 14] ex_abs_bget [of "\<lambda>_. False"] by auto

text \<open>
  C8: Reading through the cache: with every valid buffer equal to its block, \<^verbatim>\<open>bread\<close> returns a buffer locked by the
  caller with the contents of the block on the disk; after changing them, \<^verbatim>\<open>bwrite\<close> puts them on the disk, \<^verbatim>\<open>brelse\<close>
  succeeds, and the next \<^verbatim>\<open>bread\<close> of the block by any process returns the same buffer with the new contents.
\<close>

theorem bread_bwrite_bread:
  assumes V: "virtio_ok V c" and ok: "cache_ok NBUF s" "coherent NBUF c s" and d: "dev \<noteq> 0"
    and b: "bread V me busy dev bno s = Some (Ok (i, s1))"
  shows "holds_block NBUF me dev bno i s1 \<and> bdata (bufs s1 i) = c (disk s) dev bno \<and>
    (\<exists>s2 s3 s4. bwrite V me i (set_buf i (\<lambda>b. b\<lparr>bdata := x\<rparr>) s1) = Ok s2 \<and>
       c (disk s2) = (c (disk s))(dev := (c (disk s) dev)(bno := x)) \<and>
       brelse me i s2 = Ok s3 \<and> cache_ok NBUF s3 \<and>
       bread V me' busy' dev bno s3 = Some (Ok (i, s4)) \<and> bdata (bufs s4 i) = x)"
proof -
  note R = bread_result [OF V ok d b]
  let ?m = "set_buf i (\<lambda>b. b\<lparr>bdata := x\<rparr>) s1"
  have h: "i < NBUF" "bdev (bufs s1 i) = dev" "blockno (bufs s1 i) = bno" "bowner (bufs s1 i) = Some me" "bvalid (bufs s1 i)"
    using R(1) by (auto simp: holds_block_def)
  let ?s2 = "?m\<lparr>disk := disk_write V dev bno x (disk ?m)\<rparr>"
  have w: "bwrite V me i ?m = Ok ?s2" using h by (simp add: bwrite_def)
  have c2: "c (disk ?s2) = (c (disk s))(dev := (c (disk s) dev)(bno := x))" using V R(5) by (simp add: virtio_ok_def)
  let ?u = "set_buf i (\<lambda>b. b\<lparr>bowner := None\<rparr>) ?s2"
  have "cache_ok NBUF ?s2 = cache_ok NBUF ?m" by (rule cache_ok_cong) simp_all
  then have "cache_ok NBUF ?u" using R(3) by (simp add: cache_ok_set_buf)
  moreover have "bdev (bufs ?u i) \<noteq> 0" "bucket_of bno = bucket_of (blockno (bufs ?u i))" using h d by simp_all
  ultimately have s3: "cache_ok NBUF (brelse_section (bucket_of bno) i ?u)"
    "bufs (brelse_section (bucket_of bno) i ?u) = (bufs ?u)(i := (bufs ?u i)\<lparr>refcnt := refcnt (bufs ?u i) - 1\<rparr>)"
    using brelse_section_ok [OF _ h(1)] by blast+
  have rel: "brelse me i ?s2 = Ok (brelse_section (bucket_of bno) i ?u)" using h by (simp add: brelse_def)
  define t where "t = brelse_section (bucket_of bno) i ?u"
  have t: "cache_ok NBUF t" "bdev (bufs t i) = dev" "blockno (bufs t i) = bno" "bvalid (bufs t i)" "bowner (bufs t i) = None"
    "bdata (bufs t i) = x"
    using s3 h by (simp_all add: t_def)
  then have "\<exists>s4. bread V me' busy' dev bno t = Some (Ok (i, s4)) \<and> bdata (bufs s4 i) = x"
    using bread_cached [OF t(1) h(1), of V me' busy'] d by simp
  then show ?thesis using R(1,2) w c2 rel t(1) unfolding t_def by blast
qed

theorem bread_bwrite_bread_witness:
  "\<exists>s1 s2 s3 s4. bread fun_disk 7 (\<lambda>_. False) 1 14 ex_bcache = Some (Ok (1, s1)) \<and> bdata (bufs s1 1) = 114 \<and>
    bwrite fun_disk 7 1 (set_buf 1 (\<lambda>b. b\<lparr>bdata := 5\<rparr>) s1) = Ok s2 \<and> brelse 7 1 s2 = Ok s3 \<and>
    bread fun_disk 8 (\<lambda>_. False) 1 14 s3 = Some (Ok (1, s4)) \<and> bdata (bufs s4 1) = 5"
proof -
  obtain B' t where t: "bget_section (\<lambda>_. False) 1 14 ex_bcache = Some (Ok (1, t))" "bufs t = B'" "bowner (B' 1) = None"
    using bget_section_refines [OF ex_bcache_lists(1), of "\<lambda>_. False" 1 14] ex_abs_bget [of "\<lambda>_. False"] by auto
  then obtain s1 where b: "bread fun_disk 7 (\<lambda>_. False) 1 14 ex_bcache = Some (Ok (1, s1))"
    by (simp add: bread_def bget_def acquiresleep_def)
  show ?thesis
    using bread_bwrite_bread [OF ex_bcache_ok(3,1,2) _ b, of 5 8 "\<lambda>_. False"] b ex_bcache_bufs(2) by auto
qed

end
