(* ===== verification/Bcache_Threads.thy ===== *)
theory Bcache_Threads
  imports Bcache_Props "HOL-Library.Multiset"
begin

text \<open>
  The buffer cache used by any number of processes: the critical sections of \<^verbatim>\<open>bget\<close>, \<^verbatim>\<open>brelse\<close>, \<^verbatim>\<open>bpin\<close> and
  \<^verbatim>\<open>bunpin\<close>, the sleep lock and the transfers of a buffer interleave in any order.
\<close>

section \<open>Interleaved steps\<close>

text \<open>
  A process that has obtained a buffer has a token for it until it has given it back: it waits for the
  sleep lock, holds it, or is between \<^verbatim>\<open>releasesleep\<close> and the end of \<^verbatim>\<open>brelse\<close>. A pin is a token as well.
  The token names the process, the buffer and the block it was obtained for.
\<close>

datatype phase = Waiting | Holding | Releasing | Pinned

type_synonym token = "phase \<times> nat \<times> nat \<times> u32 \<times> u32"

abbreviation tok_phase :: "token \<Rightarrow> phase" where "tok_phase k \<equiv> fst k"
abbreviation tok_pid :: "token \<Rightarrow> nat" where "tok_pid k \<equiv> fst (snd k)"
abbreviation tok_buf :: "token \<Rightarrow> nat" where "tok_buf k \<equiv> fst (snd (snd k))"
abbreviation tok_dev :: "token \<Rightarrow> u32" where "tok_dev k \<equiv> fst (snd (snd (snd k)))"
abbreviation tok_bno :: "token \<Rightarrow> u32" where "tok_bno k \<equiv> snd (snd (snd (snd k)))"

record ('b, 'd) users =
  cache :: "('b, 'd) bcache"
  toks :: "token multiset"

definition move_tok :: "token \<Rightarrow> phase \<Rightarrow> token multiset \<Rightarrow> token multiset" where
  "move_tok k ph M = add_mset (ph, snd k) (M - {#k#})"

inductive bstep :: "('b, 'd) virtio \<Rightarrow> ('b, 'd) users \<Rightarrow> ('b, 'd) users \<Rightarrow> bool" for V where
  get: "bget_section busy dev bno (cache u) = Some (Ok (i, s)) \<Longrightarrow> dev \<noteq> 0 \<Longrightarrow> size (toks u) + 1 < 2 ^ 32 \<Longrightarrow>
    bstep V u (u\<lparr>cache := s, toks := add_mset (Waiting, p, i, dev, bno) (toks u)\<rparr>)"
| lock: "k \<in># toks u \<Longrightarrow> tok_phase k = Waiting \<Longrightarrow> acquiresleep (tok_pid k) (tok_buf k) (cache u) = Some s \<Longrightarrow>
    bstep V u (u\<lparr>cache := s, toks := move_tok k Holding (toks u)\<rparr>)"
| fill: "k \<in># toks u \<Longrightarrow> tok_phase k = Holding \<Longrightarrow> bstep V u (u\<lparr>cache := bread_fill V (tok_buf k) (cache u)\<rparr>)"
| modify: "k \<in># toks u \<Longrightarrow> tok_phase k = Holding \<Longrightarrow>
    bstep V u (u\<lparr>cache := set_buf (tok_buf k) (\<lambda>b. b\<lparr>bdata := x\<rparr>) (cache u)\<rparr>)"
| bwrite_data: "k \<in># toks u \<Longrightarrow> tok_phase k = Holding \<Longrightarrow> bwrite V (tok_pid k) (tok_buf k) (cache u) = Ok s \<Longrightarrow>
    bstep V u (u\<lparr>cache := s\<rparr>)"
| unlock: "k \<in># toks u \<Longrightarrow> tok_phase k = Holding \<Longrightarrow>
    bstep V u (u\<lparr>cache := set_buf (tok_buf k) (\<lambda>b. b\<lparr>bowner := None\<rparr>) (cache u), toks := move_tok k Releasing (toks u)\<rparr>)"
| release: "k \<in># toks u \<Longrightarrow> tok_phase k = Releasing \<Longrightarrow>
    bstep V u (u\<lparr>cache := brelse_section (bucket_of (tok_bno k)) (tok_buf k) (cache u), toks := toks u - {#k#}\<rparr>)"
| pin: "k \<in># toks u \<Longrightarrow> tok_phase k = Holding \<Longrightarrow> size (toks u) + 1 < 2 ^ 32 \<Longrightarrow>
    bstep V u (u\<lparr>cache := bpin (tok_buf k) (cache u), toks := add_mset (Pinned, snd k) (toks u)\<rparr>)"
| unpin: "k \<in># toks u \<Longrightarrow> tok_phase k = Pinned \<Longrightarrow>
    bstep V u (u\<lparr>cache := bunpin (tok_buf k) (cache u), toks := toks u - {#k#}\<rparr>)"

inductive breach :: "('b, 'd) virtio \<Rightarrow> nat \<Rightarrow> ('b, 'd) users \<Rightarrow> bool" for V NBUF where
  init: "\<forall>i<NBUF. bdev (bufs s i) = 0 \<and> refcnt (bufs s i) = 0 \<Longrightarrow> breach V NBUF \<lparr>cache = binit NBUF s, toks = {#}\<rparr>"
| step: "breach V NBUF u \<Longrightarrow> bstep V u u' \<Longrightarrow> breach V NBUF u'"

section \<open>The invariant\<close>

text \<open>
  Every token's buffer is the buffer of its block, the reference count is the number of tokens, and the
  owner of the sleep lock is the one process that has a token in phase \<open>Holding\<close>.
\<close>

definition tok_ok :: "nat \<Rightarrow> (nat \<Rightarrow> 'b buf) \<Rightarrow> token \<Rightarrow> bool" where
  "tok_ok NBUF B k \<longleftrightarrow> tok_buf k < NBUF \<and> tok_dev k \<noteq> 0 \<and> bdev (B (tok_buf k)) = tok_dev k \<and> blockno (B (tok_buf k)) = tok_bno k \<and>
     (tok_phase k = Holding \<longrightarrow> bowner (B (tok_buf k)) = Some (tok_pid k))"

definition refs :: "nat \<Rightarrow> token multiset \<Rightarrow> token multiset" where
  "refs i M = filter_mset (\<lambda>k. tok_buf k = i) M"

definition holders :: "nat \<Rightarrow> token multiset \<Rightarrow> token multiset" where
  "holders i M = filter_mset (\<lambda>k. tok_buf k = i \<and> tok_phase k = Holding) M"

definition users_ok :: "nat \<Rightarrow> ('b, 'd) users \<Rightarrow> bool" where
  "users_ok NBUF u \<longleftrightarrow> cache_ok NBUF (cache u) \<and> size (toks u) < 2 ^ 32 \<and> (\<forall>k\<in>#toks u. tok_ok NBUF (bufs (cache u)) k) \<and>
     (\<forall>i<NBUF. unat (refcnt (bufs (cache u) i)) = size (refs i (toks u))) \<and>
     (\<forall>i<NBUF. size (holders i (toks u)) = (if bowner (bufs (cache u) i) = None then 0 else 1))"

lemma refs_simps [simp]:
  "refs i (add_mset k M) = (if tok_buf k = i then add_mset k (refs i M) else refs i M)"
  "holders i (add_mset k M) = (if tok_buf k = i \<and> tok_phase k = Holding then add_mset k (holders i M) else holders i M)"
  "refs i (M - {#k#}) = (if tok_buf k = i then refs i M - {#k#} else refs i M)"
  "holders i (M - {#k#}) = (if tok_buf k = i \<and> tok_phase k = Holding then holders i M - {#k#} else holders i M)"
  by (auto simp: refs_def holders_def filter_diff_mset)

lemma tok_ok_cong:
  "(\<And>j. bdev (B' j) = bdev (B j) \<and> blockno (B' j) = blockno (B j) \<and> bowner (B' j) = bowner (B j)) \<Longrightarrow> tok_ok NBUF B' k = tok_ok NBUF B k"
  by (simp add: tok_ok_def)

lemma tok_ok_owner:
  "tok_ok NBUF B k \<Longrightarrow> (tok_buf k = i \<Longrightarrow> tok_phase k \<noteq> Holding) \<Longrightarrow> tok_ok NBUF (B(i := (B i)\<lparr>bowner := x\<rparr>)) k"
  by (auto simp: tok_ok_def)

lemma in_refs: "k \<in># M \<Longrightarrow> k \<in># refs (tok_buf k) M" "k \<in># M \<Longrightarrow> tok_phase k = Holding \<Longrightarrow> k \<in># holders (tok_buf k) M"
  by (simp_all add: refs_def holders_def)

lemma size_remove: "k \<in># M \<Longrightarrow> size (M - {#k#}) = size M - 1" "k \<in># M \<Longrightarrow> 0 < size M"
  by (auto simp: size_Diff_singleton nonempty_has_size [symmetric])

lemma refs_le: "size (refs i M) \<le> size M"
  by (simp add: refs_def size_filter_mset_lesseq)

lemma users_okD:
  assumes "users_ok NBUF u" "k \<in># toks u"
  shows "tok_buf k < NBUF" "bdev (bufs (cache u) (tok_buf k)) = tok_dev k" "blockno (bufs (cache u) (tok_buf k)) = tok_bno k"
    "tok_dev k \<noteq> 0" "tok_phase k = Holding \<Longrightarrow> bowner (bufs (cache u) (tok_buf k)) = Some (tok_pid k)"
    "unat (refcnt (bufs (cache u) (tok_buf k))) = size (refs (tok_buf k) (toks u))"
  using assms by (auto simp: users_ok_def tok_ok_def)

text \<open>A buffer without references has no tokens.\<close>

lemma free_no_tok: "users_ok NBUF u \<Longrightarrow> i < NBUF \<Longrightarrow> refcnt (bufs (cache u) i) = 0 \<Longrightarrow> k \<in># toks u \<Longrightarrow> tok_buf k \<noteq> i"
  using users_okD(6) [of NBUF u k] in_refs(1) [of k "toks u"] by (auto simp: nonempty_has_size)

lemma unat_plus_one: "unat (w :: u32) + 1 < 2 ^ 32 \<Longrightarrow> unat (w + 1) = unat w + 1"
  by (simp add: unat_plus_if_size word_size)

lemma unat_minus_one': "0 < unat (w :: u32) \<Longrightarrow> unat (w - 1) = unat w - 1"
  by (metis unat_minus_one unat_0 less_numeral_extra(3))

text \<open>A step that changes one buffer and leaves its block and, but for the given, its owner and count.\<close>

lemma users_ok_set:
  assumes u: "users_ok NBUF u" and c: "cache_ok NBUF s" "bufs s = (bufs (cache u))(i := b)"
    and b: "bdev b = bdev (bufs (cache u) i)" "blockno b = blockno (bufs (cache u) i)"
    and M: "size M < 2 ^ 32" "\<forall>k\<in>#M. tok_ok NBUF (bufs s) k" "unat (refcnt b) = size (refs i M)"
      "size (holders i M) = (if bowner b = None then 0 else 1)"
    and other: "\<And>j. j \<noteq> i \<Longrightarrow> refs j M = refs j (toks u) \<and> holders j M = holders j (toks u)"
  shows "users_ok NBUF (u\<lparr>cache := s, toks := M\<rparr>)"
  using assms by (auto simp: users_ok_def)

lemma get_ok:
  assumes u: "users_ok NBUF u" and g: "bget_section busy dev bno (cache u) = Some (Ok (i, s))" "dev \<noteq> 0" "size (toks u) + 1 < 2 ^ 32"
  shows "users_ok NBUF (u\<lparr>cache := s, toks := add_mset (Waiting, p, i, dev, bno) (toks u)\<rparr>)"
proof -
  let ?B = "bufs (cache u)"
  have c: "cache_ok NBUF (cache u)" using u by (simp add: users_ok_def)
  note C = bget_section_cases [OF c g(2,1)]
  have i: "i < NBUF" "cache_ok NBUF s" using C by auto
  have n: "unat (refcnt (?B i)) = size (refs i (toks u))" using u i by (simp add: users_ok_def)
  from C consider "got_cached dev bno i ?B (bufs s)" | "got_free dev bno i ?B (bufs s)" by blast
  then show ?thesis
  proof cases
    case 1
    have "unat (refcnt (?B i) + 1) = size (refs i (toks u)) + 1"
      using refs_le [of i "toks u"] g(3) n by (subst unat_plus_one) auto
    then show ?thesis using 1 u i g(2,3)
      by (intro users_ok_set [OF u i(2), of i "(?B i)\<lparr>refcnt := refcnt (?B i) + 1\<rparr>"]) (auto simp: got_cached_def users_ok_def tok_ok_def)
  next
    case 2
    then have no: "tok_buf k \<noteq> i" if "k \<in># toks u" for k using free_no_tok [OF u i(1) _ that] by (simp add: got_free_def)
    have e: "refs i (toks u) = {#}" "holders i (toks u) = {#}" using no by (auto simp: refs_def holders_def)
    have "bowner (?B i) = None" using u i e(2) by (auto simp: users_ok_def split: if_splits)
    then show ?thesis using 2 u i g(2,3) no e
      by (auto simp: got_free_def recycled_def users_ok_def tok_ok_def)
  qed
qed

lemma lock_ok:
  assumes u: "users_ok NBUF u" and k: "k \<in># toks u" "tok_phase k = Waiting"
    and a: "acquiresleep (tok_pid k) (tok_buf k) (cache u) = Some s"
  shows "users_ok NBUF (u\<lparr>cache := s, toks := move_tok k Holding (toks u)\<rparr>)"
proof -
  let ?i = "tok_buf k"
  note D = users_okD [OF u k(1)]
  have o: "bowner (bufs (cache u) ?i) = None" "s = set_buf ?i (\<lambda>b. b\<lparr>bowner := Some (tok_pid k)\<rparr>) (cache u)"
    using a by (auto simp: acquiresleep_def split: if_splits)
  have h: "holders ?i (toks u) = {#}" using u D(1) o(1) unfolding users_ok_def by (metis size_eq_0_iff_empty)
  have "j \<notin># holders ?i (toks u)" for j by (simp add: h)
  then have no: "tok_phase j \<noteq> Holding" if "j \<in># toks u" "tok_buf j = ?i" for j using that by (auto simp: holders_def)
  have sz: "size (toks u - {#k#}) + 1 = size (toks u)" "size (refs ?i (toks u) - {#k#}) + 1 = size (refs ?i (toks u))"
    using k(1) in_refs(1) [OF k(1)] size_remove by (metis Suc_eq_plus1 Suc_pred')+
  have old: "\<forall>j\<in>#toks u. tok_ok NBUF (bufs (cache u)) j" "size (toks u) < 2 ^ 32" "cache_ok NBUF s"
    using u o(2) by (simp_all add: users_ok_def cache_ok_set_buf)
  have rest: "tok_ok NBUF (bufs s) j" if "j \<in># toks u - {#k#}" for j
    unfolding o(2) set_buf_simps by (rule tok_ok_owner) (use old(1) no in_diffD [OF that] in auto)
  have new: "tok_ok NBUF (bufs s) (Holding, snd k)" using D o(2) by (simp add: tok_ok_def)
  show ?thesis
    by (rule users_ok_set [OF u old(3), of ?i "(bufs (cache u) ?i)\<lparr>bowner := Some (tok_pid k)\<rparr>"])
      (use o(2) rest new D(6) h sz old(2) k in \<open>auto simp: move_tok_def\<close>)
qed

lemma hold_ok:
  assumes u: "users_ok NBUF u" and k: "k \<in># toks u" and c: "cache_ok NBUF s"
    and s: "\<And>j. bdev (bufs s j) = bdev (bufs (cache u) j) \<and> blockno (bufs s j) = blockno (bufs (cache u) j) \<and>
      refcnt (bufs s j) = refcnt (bufs (cache u) j) \<and> bowner (bufs s j) = bowner (bufs (cache u) j)"
  shows "users_ok NBUF (u\<lparr>cache := s\<rparr>)"
  using u c s by (auto simp: users_ok_def tok_ok_def)

lemma unlock_ok:
  assumes u: "users_ok NBUF u" and k: "k \<in># toks u" "tok_phase k = Holding"
  shows "users_ok NBUF (u\<lparr>cache := set_buf (tok_buf k) (\<lambda>b. b\<lparr>bowner := None\<rparr>) (cache u), toks := move_tok k Releasing (toks u)\<rparr>)"
proof -
  let ?i = "tok_buf k" and ?M = "toks u - {#k#}"
  note D = users_okD [OF u k(1)]
  have "size (holders ?i (toks u)) = 1" using u D(1) D(5) [OF k(2)] by (simp add: users_ok_def)
  then obtain j where "holders ?i (toks u) = {#j#}" using size_1_singleton_mset by blast
  then have h: "holders ?i (toks u) = {#k#}" using in_refs(2) [OF k] by simp
  then have "holders ?i ?M = {#}" using k(2) by simp
  then have no: "tok_phase j \<noteq> Holding" if "j \<in># ?M" "tok_buf j = ?i" for j
    using that unfolding holders_def filter_mset_eq_mempty_iff by blast
  have sz: "size ?M + 1 = size (toks u)" "size (refs ?i (toks u) - {#k#}) + 1 = size (refs ?i (toks u))"
    using k(1) in_refs(1) [OF k(1)] size_remove by (metis Suc_eq_plus1 Suc_pred')+
  let ?s = "set_buf ?i (\<lambda>b. b\<lparr>bowner := None\<rparr>) (cache u)"
  have old: "\<forall>j\<in>#toks u. tok_ok NBUF (bufs (cache u)) j" "size (toks u) < 2 ^ 32" "cache_ok NBUF ?s"
    using u by (simp_all add: users_ok_def cache_ok_set_buf)
  have rest: "tok_ok NBUF (bufs ?s) j" if "j \<in># ?M" for j
    unfolding set_buf_simps by (rule tok_ok_owner) (use old(1) no [OF that] in_diffD [OF that] in auto)
  have new: "tok_ok NBUF (bufs ?s) (Releasing, snd k)" using D by (simp add: tok_ok_def)
  show ?thesis
    by (rule users_ok_set [OF u old(3), of ?i "(bufs (cache u) ?i)\<lparr>bowner := None\<rparr>"])
      (use rest new D(6) h sz old(2) k in \<open>auto simp: move_tok_def\<close>)
qed

text \<open>Giving up a reference: a token in another phase than \<open>Holding\<close> disappears and the count goes down.\<close>

lemma drop_ok:
  assumes u: "users_ok NBUF u" and k: "k \<in># toks u" "tok_phase k \<noteq> Holding" and c: "cache_ok NBUF s"
    and s: "bufs s = (bufs (cache u))(tok_buf k := (bufs (cache u) (tok_buf k))\<lparr>refcnt := refcnt (bufs (cache u) (tok_buf k)) - 1\<rparr>)"
  shows "users_ok NBUF (u\<lparr>cache := s, toks := toks u - {#k#}\<rparr>)"
proof -
  let ?i = "tok_buf k"
  note D = users_okD [OF u k(1)]
  note R = in_refs(1) [OF k(1)]
  have "unat (refcnt (bufs (cache u) ?i) - 1) = size (refs ?i (toks u) - {#k#})"
    using D(6) size_remove [OF R] by (subst unat_minus_one') auto
  moreover have "size (toks u - {#k#}) < 2 ^ 32"
    using u size_remove(1) [OF k(1)] unfolding users_ok_def by linarith
  moreover have "tok_ok NBUF (bufs s) j = tok_ok NBUF (bufs (cache u)) j" for j by (rule tok_ok_cong) (simp add: s)
  moreover have "\<forall>j\<in>#toks u. tok_ok NBUF (bufs (cache u)) j"
    "size (holders ?i (toks u)) = (if bowner (bufs (cache u) ?i) = None then 0 else 1)"
    using u D by (simp_all add: users_ok_def)
  ultimately show ?thesis using k(2) by (intro users_ok_set [OF u c s]) (auto dest: in_diffD)
qed

lemma bpin_ok: "cache_ok NBUF (bpin i s) = cache_ok NBUF s" "cache_ok NBUF (bunpin i s) = cache_ok NBUF s"
  by (simp_all add: bpin_def bunpin_def Let_def cache_ok_set_buf)

lemma pin_ok:
  assumes u: "users_ok NBUF u" and k: "k \<in># toks u" "size (toks u) + 1 < 2 ^ 32"
  shows "users_ok NBUF (u\<lparr>cache := bpin (tok_buf k) (cache u), toks := add_mset (Pinned, snd k) (toks u)\<rparr>)"
proof -
  let ?i = "tok_buf k"
  note D = users_okD [OF u k(1)]
  have "unat (refcnt (bufs (cache u) ?i) + 1) = size (refs ?i (toks u)) + 1"
    using refs_le [of ?i "toks u"] k(2) D(6) by (subst unat_plus_one) auto
  moreover have "tok_ok NBUF (bufs (bpin ?i (cache u))) j = tok_ok NBUF (bufs (cache u)) j" for j
    by (rule tok_ok_cong) (simp add: bpin_def Let_def)
  moreover have "\<forall>j\<in>#toks u. tok_ok NBUF (bufs (cache u)) j" "tok_ok NBUF (bufs (cache u)) (Pinned, snd k)"
    "cache_ok NBUF (bpin ?i (cache u))" "size (holders ?i (toks u)) = (if bowner (bufs (cache u) ?i) = None then 0 else 1)"
    using u D by (simp_all add: users_ok_def bpin_ok tok_ok_def)
  ultimately show ?thesis using k(2)
    by (intro users_ok_set [OF u, of _ ?i "(bufs (cache u) ?i)\<lparr>refcnt := refcnt (bufs (cache u) ?i) + 1\<rparr>"])
      (auto simp: bpin_def Let_def)
qed

lemma bstep_ok: "bstep V u u' \<Longrightarrow> users_ok NBUF u \<Longrightarrow> users_ok NBUF u'"
proof (induction rule: bstep.induct)
  case (get busy dev bno u i s p)
  then show ?case by (intro get_ok)
next
  case (lock k u s)
  then show ?case by (intro lock_ok)
next
  case (fill k u)
  have "cache_ok NBUF (bread_fill V (tok_buf k) (cache u))" using fill.prems by (simp add: bread_fill_ok users_ok_def)
  then show ?case by (rule hold_ok [OF fill.prems fill.hyps(1)]) (simp add: bread_fill_def split: prod.split)
next
  case (modify k u x)
  have "cache_ok NBUF (set_buf (tok_buf k) (\<lambda>b. b\<lparr>bdata := x\<rparr>) (cache u))"
    using modify.prems by (simp add: cache_ok_set_buf users_ok_def)
  then show ?case by (rule hold_ok [OF modify.prems modify.hyps(1)]) simp
next
  case (bwrite_data k u s)
  obtain d where s: "s = (cache u)\<lparr>disk := d\<rparr>" using bwrite_data.hyps(3) by (auto simp: bwrite_def split: if_splits)
  have "cache_ok NBUF s = cache_ok NBUF (cache u)" unfolding s by (rule cache_ok_cong) simp_all
  then have "cache_ok NBUF s" using bwrite_data.prems by (simp add: users_ok_def)
  then show ?case by (rule hold_ok [OF bwrite_data.prems bwrite_data.hyps(1)]) (simp add: s)
next
  case (unlock k u)
  then show ?case by (intro unlock_ok)
next
  case (release k u)
  note D = users_okD [OF release.prems release.hyps(1)]
  have c: "cache_ok NBUF (cache u)" using release.prems by (simp add: users_ok_def)
  have d: "bdev (bufs (cache u) (tok_buf k)) \<noteq> 0" using D by simp
  have b: "bucket_of (tok_bno k) = bucket_of (blockno (bufs (cache u) (tok_buf k)))" using D by simp
  show ?case using brelse_section_ok [OF c D(1) d b] release by (intro drop_ok) auto
next
  case (pin k u)
  then show ?case by (intro pin_ok)
next
  case (unpin k u)
  have "cache_ok NBUF (bunpin (tok_buf k) (cache u))" using unpin.prems by (simp add: bpin_ok users_ok_def)
  then show ?case using unpin by (intro drop_ok) (auto simp: bunpin_def Let_def)
qed

lemma breach_ok: "breach V NBUF u \<Longrightarrow> users_ok NBUF u"
proof (induction rule: breach.induct)
  case (init s)
  have B: "bufs (binit NBUF s) i = (bufs s i)\<lparr>bowner := None\<rparr>" if "i < NBUF" for i by (rule binit_bufs(1) [OF that])
  have "keys_ok NBUF (init_lists NBUF) (bufs (binit NBUF s))" using init B by (simp add: keys_ok_def)
  then have "cache_ok NBUF (binit NBUF s)" using binit_rings unfolding cache_ok_def by blast
  then show ?case using B init by (simp add: users_ok_def refs_def holders_def)
next
  case (step u u')
  then show ?case using bstep_ok by blast
qed

text \<open>
  C5: Any number of processes may use the cache in any interleaving of its critical sections: no two
  buffers ever hold the same block, the buffer a process obtained stays the buffer of its block until
  the process gives it back, and at most one process holds a block.
\<close>

theorem bcache_no_aliasing:
  assumes r: "breach V NBUF u"
  shows "(\<forall>i<NBUF. \<forall>j<NBUF. bdev (bufs (cache u) i) \<noteq> 0 \<longrightarrow> bdev (bufs (cache u) i) = bdev (bufs (cache u) j) \<longrightarrow>
      blockno (bufs (cache u) i) = blockno (bufs (cache u) j) \<longrightarrow> i = j) \<and>
    (\<forall>k\<in>#toks u. bdev (bufs (cache u) (tok_buf k)) = tok_dev k \<and> blockno (bufs (cache u) (tok_buf k)) = tok_bno k) \<and>
    (\<forall>dev bno. size (filter_mset (\<lambda>k. tok_phase k = Holding \<and> tok_dev k = dev \<and> tok_bno k = bno) (toks u)) \<le> 1)"
proof -
  have u: "users_ok NBUF u" using breach_ok r by blast
  obtain L where L: "keys_ok NBUF L (bufs (cache u))" using u by (auto simp: users_ok_def cache_ok_def)
  have one: "size (filter_mset (\<lambda>k. tok_phase k = Holding \<and> tok_dev k = dev \<and> tok_bno k = bno) (toks u)) \<le> 1" (is "size ?F \<le> 1")
    for dev bno
  proof (cases "?F = {#}")
    case False
    then obtain k where k: "k \<in># ?F" by blast
    note D = users_okD [OF u]
    have "tok_buf j = tok_buf k" if "j \<in># ?F" for j
    proof -
      have jk: "j \<in># toks u" "k \<in># toks u" "tok_dev j = tok_dev k" "tok_bno j = tok_bno k" using that k by auto
      then show ?thesis using D [OF jk(1)] D [OF jk(2)] L unfolding keys_ok_def by metis
    qed
    then have "?F = filter_mset (\<lambda>k. tok_dev k = dev \<and> tok_bno k = bno) (holders (tok_buf k) (toks u))"
      unfolding holders_def filter_filter_mset by (intro filter_mset_cong) auto
    then have "size ?F \<le> size (holders (tok_buf k) (toks u))" by (metis size_filter_mset_lesseq)
    also have "\<dots> \<le> 1" using u D(1) k by (auto simp: users_ok_def)
    finally show ?thesis .
  qed (simp del: filter_mset_eq_mempty_iff)
  have "bdev (bufs (cache u) (tok_buf k)) = tok_dev k \<and> blockno (bufs (cache u) (tok_buf k)) = tok_bno k" if "k \<in># toks u" for k
    using users_okD [OF u that] by blast
  then show ?thesis using one L unfolding keys_ok_def by blast
qed

theorem bcache_no_aliasing_witness:
  "\<exists>u :: (nat, u32 \<Rightarrow> u32 \<Rightarrow> nat) users. breach fun_disk 2 u \<and> (Holding, 7, 1, 1, 14) \<in># toks u \<and>
    size (filter_mset (\<lambda>k. tok_phase k = Holding \<and> tok_dev k = 1 \<and> tok_bno k = 14) (toks u)) \<le> 1"
proof -
  obtain t where t: "bget_section (\<lambda>_. False) 1 14 ex_bcache = Some (Ok (1, t))" "bowner (bufs t 1) = None"
    using bget_section_refines [OF ex_bcache_lists(1), of "\<lambda>_. False" 1 14] ex_abs_bget [of "\<lambda>_. False"] by auto
  let ?u0 = "\<lparr>cache = ex_bcache, toks = {#}\<rparr>" and ?k = "(Waiting, 7, 1, 1, 14)"
  have 0: "breach fun_disk 2 ?u0" unfolding ex_bcache_def by (rule breach.init) simp
  let ?u1 = "?u0\<lparr>cache := t, toks := add_mset ?k (toks ?u0)\<rparr>"
  have "bstep fun_disk ?u0 ?u1" by (rule bstep.get [where busy = "\<lambda>_. False"]) (use t(1) in simp_all)
  then have 1: "breach fun_disk 2 ?u1" using 0 breach.step by blast
  let ?u2 = "?u1\<lparr>cache := set_buf 1 (\<lambda>b. b\<lparr>bowner := Some 7\<rparr>) t, toks := move_tok ?k Holding (toks ?u1)\<rparr>"
  have "bstep fun_disk ?u1 ?u2" by (rule bstep.lock) (use t(2) in \<open>simp_all add: acquiresleep_def\<close>)
  then have 2: "breach fun_disk 2 ?u2" using 1 breach.step by blast
  have "(Holding, 7, 1, 1, 14) \<in># toks ?u2" by (simp add: move_tok_def)
  then show ?thesis using bcache_no_aliasing [OF 2] 2 by blast
qed

end
