(* ===== verification/Pipe.thy ===== *)
theory Pipe
  imports Prelude Riscv
begin

text \<open>
  Pipes of lab 4 (\<^verbatim>\<open>kernel/pipe.c\<close>). The functions run under the lock of the pipe up to where they sleep or
  return; \<^verbatim>\<open>copyin_new\<close> (of a file outside the repository), \<^verbatim>\<open>copyout\<close>, the file table and the page allocator are
  arguments. The two counters are 32-bit and wrap around.
\<close>

section \<open>State\<close>

definition PIPESIZE :: nat where "PIPESIZE = 512"

record pipe =
  pdata :: "u8 list"
  nread :: u32
  nwrite :: u32
  readopen :: bool
  writeopen :: bool

text \<open>The channels the code sleeps on: \<^verbatim>\<open>&pi->nread\<close> and \<^verbatim>\<open>&pi->nwrite\<close>.\<close>

datatype pipe_chan = Nread | Nwrite

text \<open>How a run under the lock ends: with a return value, or asleep on a channel (with the loop counter).\<close>

datatype outcome = Return int | Sleep pipe_chan int

section \<open>The ring buffer\<close>

text \<open>\<^verbatim>\<open>pi->data[pi->nwrite++ % PIPESIZE] = ch\<close> and \<^verbatim>\<open>ch = pi->data[pi->nread++ % PIPESIZE]\<close>.\<close>

definition pipe_put :: "u8 \<Rightarrow> pipe \<Rightarrow> pipe" where
  "pipe_put ch p = p\<lparr>pdata := (pdata p)[unat (nwrite p) mod PIPESIZE := ch], nwrite := nwrite p + 1\<rparr>"

definition pipe_get :: "pipe \<Rightarrow> u8 \<times> pipe" where
  "pipe_get p = (pdata p ! (unat (nread p) mod PIPESIZE), p\<lparr>nread := nread p + 1\<rparr>)"

definition pipe_full :: "pipe \<Rightarrow> bool" where
  "pipe_full p \<longleftrightarrow> nwrite p = nread p + of_nat PIPESIZE"

definition pipe_empty :: "pipe \<Rightarrow> bool" where
  "pipe_empty p \<longleftrightarrow> nread p = nwrite p"

section \<open>Reading and writing\<close>

text \<open>
  The loop of \<^verbatim>\<open>pipewrite\<close> from \<open>i\<close> on. \<open>cin a\<close> is the byte \<^verbatim>\<open>copyin_new\<close> reads at user address \<open>a\<close>, \<open>None\<close> for its
  result -1. The last component are the channels woken, in order.
\<close>

function pipewrite_loop :: "bool \<Rightarrow> (u64 \<Rightarrow> u8 option) \<Rightarrow> u64 \<Rightarrow> int \<Rightarrow> int \<Rightarrow> pipe \<Rightarrow> outcome \<times> pipe \<times> pipe_chan list" where
  "pipewrite_loop killed cin addr n i p =
     (if i < n then
        if pipe_full p then
          if \<not> readopen p \<or> killed then (Return (-1), p, [])
          else (Sleep Nwrite i, p, [Nread])
        else
          (case cin (addr + word_of_int i) of
             None \<Rightarrow> (Return i, p, [Nread])
           | Some ch \<Rightarrow> pipewrite_loop killed cin addr n (i + 1) (pipe_put ch p))
      else (Return i, p, [Nread]))"
  by pat_completeness auto
termination by (relation "measure (\<lambda>(killed, cin, addr, n, i, p). nat (n - i))") auto

declare pipewrite_loop.simps [simp del]

definition pipewrite :: "bool \<Rightarrow> (u64 \<Rightarrow> u8 option) \<Rightarrow> u64 \<Rightarrow> int \<Rightarrow> pipe \<Rightarrow> outcome \<times> pipe \<times> pipe_chan list" where
  "pipewrite killed cin addr n p = pipewrite_loop killed cin addr n 0 p"

text \<open>
  The copy loop of \<^verbatim>\<open>piperead\<close>: \<open>cout a ch m\<close> is the user memory after \<^verbatim>\<open>copyout\<close> of one byte, \<open>None\<close> for its result -1. The
  byte is taken from the buffer before it is copied.
\<close>

function piperead_copy :: "(u64 \<Rightarrow> u8 \<Rightarrow> 'm \<Rightarrow> 'm option) \<Rightarrow> u64 \<Rightarrow> int \<Rightarrow> int \<Rightarrow> pipe \<Rightarrow> 'm \<Rightarrow> int \<times> pipe \<times> 'm" where
  "piperead_copy cout addr n i p m =
     (if i < n then
        if pipe_empty p then (i, p, m)
        else
          let (ch, p1) = pipe_get p in
          (case cout (addr + word_of_int i) ch m of
             None \<Rightarrow> (i, p1, m)
           | Some m1 \<Rightarrow> piperead_copy cout addr n (i + 1) p1 m1)
      else (i, p, m))"
  by pat_completeness auto
termination by (relation "measure (\<lambda>(cout, addr, n, i, p, m). nat (n - i))") auto

declare piperead_copy.simps [simp del]

definition piperead :: "bool \<Rightarrow> (u64 \<Rightarrow> u8 \<Rightarrow> 'm \<Rightarrow> 'm option) \<Rightarrow> u64 \<Rightarrow> int \<Rightarrow> pipe \<Rightarrow> 'm \<Rightarrow>
    outcome \<times> pipe \<times> 'm \<times> pipe_chan list" where
  "piperead killed cout addr n p m =
     (if pipe_empty p \<and> writeopen p then
        if killed then (Return (-1), p, m, []) else (Sleep Nread 0, p, m, [])
      else
        let (i, p1, m1) = piperead_copy cout addr n 0 p m
        in (Return i, p1, m1, [Nwrite]))"

section \<open>Opening and closing\<close>

text \<open>The pipe, whether \<^verbatim>\<open>kfree\<close> gives back its page, and the channel woken.\<close>

definition pipeclose :: "bool \<Rightarrow> pipe \<Rightarrow> pipe \<times> bool \<times> pipe_chan" where
  "pipeclose writable p =
     (let p1 = (if writable then p\<lparr>writeopen := False\<rparr> else p\<lparr>readopen := False\<rparr>);
          woken = (if writable then Nread else Nwrite)
      in (p1, \<not> readopen p1 \<and> \<not> writeopen p1, woken))"

record pfile =
  readable :: bool
  writable :: bool
  fpipe :: u64

text \<open>The kernel as \<^verbatim>\<open>pipealloc\<close> sees it: the file table and allocator (arguments), open files and pipes.\<close>

record 'k pipe_env =
  filealloc :: "'k \<Rightarrow> u64 \<times> 'k"
  fileclose :: "u64 \<Rightarrow> 'k \<Rightarrow> 'k"
  pkalloc :: "'k \<Rightarrow> u64 \<times> 'k"
  set_file :: "u64 \<Rightarrow> pfile \<Rightarrow> 'k \<Rightarrow> 'k"
  set_pipe :: "u64 \<Rightarrow> pipe \<Rightarrow> 'k \<Rightarrow> 'k"

text \<open>
  The results are the return value, \<^verbatim>\<open>*f0\<close> and \<^verbatim>\<open>*f1\<close>. The page of \<^verbatim>\<open>pi\<close> holds arbitrary bytes \<open>page\<close> when it is allocated;
  on the error path \<^verbatim>\<open>pi\<close> is always 0.
\<close>

definition pipealloc :: "'k pipe_env \<Rightarrow> u8 list \<Rightarrow> 'k \<Rightarrow> int \<times> u64 \<times> u64 \<times> 'k" where
  "pipealloc E page k =
     (let bad = (\<lambda>f0 f1 k.
            let k1 = (if f0 \<noteq> 0 then fileclose E f0 k else k);
                k2 = (if f1 \<noteq> 0 then fileclose E f1 k1 else k1)
            in (-1, f0, f1, k2));
          (f0, k1) = filealloc E k
      in if f0 = 0 then bad f0 0 k1
         else
           let (f1, k2) = filealloc E k1 in
           if f1 = 0 then bad f0 f1 k2
           else
             let (pi, k3) = pkalloc E k2 in
             if pi = 0 then bad f0 f1 k3
             else
               let p = \<lparr>pdata = page, nread = 0, nwrite = 0, readopen = True, writeopen = True\<rparr>;
                   k4 = set_pipe E pi p k3;
                   k5 = set_file E f0 \<lparr>readable = True, writable = False, fpipe = pi\<rparr> k4;
                   k6 = set_file E f1 \<lparr>readable = False, writable = True, fpipe = pi\<rparr> k5
               in (0, f0, f1, k6))"

section \<open>Bounded queues\<close>

text \<open>
  The interface of a bounded first-in first-out queue: \<open>content\<close> is what it holds, oldest first.
\<close>

locale bounded_queue =
  fixes content :: "'q \<Rightarrow> 'a list" and ok :: "'q \<Rightarrow> bool" and put :: "'a \<Rightarrow> 'q \<Rightarrow> 'q" and get :: "'q \<Rightarrow> 'a \<times> 'q"
    and full :: "'q \<Rightarrow> bool" and empty :: "'q \<Rightarrow> bool" and capacity :: nat
  assumes bound: "ok q \<Longrightarrow> length (content q) \<le> capacity"
    and full_iff: "ok q \<Longrightarrow> full q \<longleftrightarrow> length (content q) = capacity"
    and empty_iff: "ok q \<Longrightarrow> empty q \<longleftrightarrow> content q = []"
    and put_content: "ok q \<Longrightarrow> \<not> full q \<Longrightarrow> content (put x q) = content q @ [x] \<and> ok (put x q)"
    and get_content: "ok q \<Longrightarrow> \<not> empty q \<Longrightarrow> content q = fst (get q) # content (snd (get q)) \<and> ok (snd (get q))"
begin

lemma get_eqs:
  assumes "ok q" "\<not> empty q"
  shows "fst (get q) = hd (content q)" "content (snd (get q)) = tl (content q)" "ok (snd (get q))"
  using get_content [OF assms] by (metis list.sel(1,3))+

lemma room: "ok q \<Longrightarrow> \<not> full q \<Longrightarrow> length (content q) < capacity"
  using bound full_iff le_neq_implies_less by blast

end

section \<open>The ring buffer is a queue\<close>

definition pipe_content :: "pipe \<Rightarrow> u8 list" where
  "pipe_content p = map (\<lambda>j. pdata p ! (unat (nread p + of_nat j) mod PIPESIZE)) [0..<unat (nwrite p - nread p)]"

definition pipe_ok :: "pipe \<Rightarrow> bool" where
  "pipe_ok p \<longleftrightarrow> length (pdata p) = PIPESIZE \<and> unat (nwrite p - nread p) \<le> PIPESIZE"

lemma length_pipe_content [simp]: "length (pipe_content p) = unat (nwrite p - nread p)"
  by (simp add: pipe_content_def)

text \<open>The size of the buffer divides the range of the counters, so positions survive the wrap-around.\<close>

lemma unat_add_mod: "unat ((a :: u32) + of_nat j) mod PIPESIZE = (unat a + j) mod PIPESIZE"
proof -
  have "unat (a + of_nat j) = (unat a + j) mod 2 ^ 32"
    by (simp add: unat_word_ariths unat_of_nat take_bit_eq_mod mod_add_right_eq)
  moreover have "(512 :: nat) dvd 2 ^ 32" by simp
  ultimately show ?thesis by (simp add: PIPESIZE_def mod_mod_cancel)
qed

lemma ring_distinct: "i < j \<Longrightarrow> j < i + PIPESIZE \<Longrightarrow> (a + i) mod PIPESIZE \<noteq> (a + j) mod PIPESIZE"
proof
  assume ij: "i < j" "j < i + PIPESIZE" and e: "(a + i) mod PIPESIZE = (a + j) mod PIPESIZE"
  then have "PIPESIZE dvd (a + j) - (a + i)" by (metis add_le_cancel_left less_imp_le mod_eq_dvd_iff_nat)
  then have "PIPESIZE dvd j - i" by simp
  then show False using ij by (auto dest!: dvd_imp_le)
qed

lemma pipe_put_content:
  assumes ok: "pipe_ok p" and n: "\<not> pipe_full p"
  shows "pipe_content (pipe_put x p) = pipe_content p @ [x] \<and> pipe_ok (pipe_put x p)"
proof -
  define l where "l = unat (nwrite p - nread p)"
  have w: "nwrite p = nread p + of_nat l" by (simp add: l_def)
  have "l \<noteq> PIPESIZE" using n w by (auto simp: pipe_full_def)
  then have l: "l < PIPESIZE" using ok by (simp add: pipe_ok_def l_def)
  have e: "nwrite p + 1 - nread p = of_nat (Suc l)" using w by simp
  have l': "unat (nwrite p + 1 - nread p) = Suc l"
    unfolding e using l by (simp add: unat_of_nat take_bit_nat_eq_self PIPESIZE_def del: of_nat_Suc)
  have wm: "unat (nwrite p) mod PIPESIZE = (unat (nread p) + l) mod PIPESIZE" using unat_add_mod [of "nread p" l] w by simp
  have old: "pdata (pipe_put x p) ! ((unat (nread p) + j) mod PIPESIZE) = pdata p ! ((unat (nread p) + j) mod PIPESIZE)" if "j < l" for j
    using ring_distinct [of j l "unat (nread p)"] that l by (simp add: pipe_put_def wm)
  have new: "pdata (pipe_put x p) ! ((unat (nread p) + l) mod PIPESIZE) = x"
    using ok l wm by (simp add: pipe_put_def pipe_ok_def)
  have r: "nread (pipe_put x p) = nread p" "nwrite (pipe_put x p) = nwrite p + 1" by (simp_all add: pipe_put_def)
  have "pipe_content (pipe_put x p) = pipe_content p @ [x]"
    unfolding pipe_content_def r l' l_def [symmetric] unat_add_mod using old new by simp
  moreover have "pipe_ok (pipe_put x p)" using ok l' l r by (simp add: pipe_ok_def) (simp add: pipe_put_def)
  ultimately show ?thesis by blast
qed

lemma pipe_get_content:
  assumes ok: "pipe_ok p" and n: "\<not> pipe_empty p"
  shows "pipe_content p = fst (pipe_get p) # pipe_content (snd (pipe_get p)) \<and> pipe_ok (snd (pipe_get p))"
proof -
  define l where "l = unat (nwrite p - nread p)"
  have "nwrite p - nread p \<noteq> 0" using n by (auto simp: pipe_empty_def)
  then obtain k where k: "l = Suc k" unfolding l_def by (metis not0_implies_Suc unat_eq_zero)
  have e: "nwrite p - (nread p + 1) = nwrite p - nread p - 1" by simp
  have l': "unat (nwrite p - (nread p + 1)) = k"
    unfolding e using k \<open>nwrite p - nread p \<noteq> 0\<close> unat_minus_one [of "nwrite p - nread p"] by (simp add: l_def)
  have "pipe_content p = fst (pipe_get p) # pipe_content (snd (pipe_get p))"
  proof (rule nth_equalityI)
    fix j assume "j < length (pipe_content p)"
    then have j: "j < Suc k" using k by (simp add: l_def)
    have e: "pipe_content p ! j = pdata p ! ((unat (nread p) + j) mod PIPESIZE)"
      using j k by (simp add: pipe_content_def l_def [symmetric] unat_add_mod del: upt_Suc)
    show "pipe_content p ! j = (fst (pipe_get p) # pipe_content (snd (pipe_get p))) ! j"
    proof (cases j)
      case 0
      then show ?thesis using e by (simp add: pipe_get_def)
    next
      case (Suc i)
      have "nread p + 1 + of_nat i = nread p + of_nat (Suc i)" by simp
      then have h: "unat (nread p + 1 + of_nat i) mod PIPESIZE = (unat (nread p) + Suc i) mod PIPESIZE"
        using unat_add_mod [of "nread p" "Suc i"] by (simp only:)
      have "pipe_content (snd (pipe_get p)) ! i = pdata p ! ((unat (nread p) + Suc i) mod PIPESIZE)"
        using j Suc by (simp add: pipe_get_def pipe_content_def l' h)
      then show ?thesis using e Suc by simp
    qed
  qed (simp add: pipe_get_def l' k l_def [symmetric])
  moreover have "pipe_ok (snd (pipe_get p))" using ok k l' by (simp add: pipe_ok_def pipe_get_def l_def)
  ultimately show ?thesis by blast
qed

interpretation ring: bounded_queue pipe_content pipe_ok pipe_put pipe_get pipe_full pipe_empty PIPESIZE
proof unfold_locales
  fix q assume ok: "pipe_ok q"
  show "length (pipe_content q) \<le> PIPESIZE" using ok by (simp add: pipe_ok_def)
  have "unat (512 :: u32) = 512" by simp
  then have "unat (nwrite q - nread q) = 512 \<longleftrightarrow> nwrite q - nread q = 512" by (metis word_unat_eq_iff)
  moreover have "nwrite q - nread q = 512 \<longleftrightarrow> nwrite q = nread q + 512" by (metis add.commute diff_add_cancel add_diff_cancel_right')
  ultimately show "pipe_full q \<longleftrightarrow> length (pipe_content q) = PIPESIZE" by (simp add: pipe_full_def PIPESIZE_def)
  have "unat (nwrite q - nread q) = 0 \<longleftrightarrow> nread q = nwrite q" by (metis unat_eq_zero right_minus_eq)
  then show "pipe_empty q \<longleftrightarrow> pipe_content q = []" by (metis length_0_conv length_pipe_content pipe_empty_def)
qed (use pipe_put_content pipe_get_content in auto)

end
