(* ===== verification/Pipe_Props.thy ===== *)
theory Pipe_Props
  imports Pipe
begin

text \<open>
  Properties of pipes: what a run of \<^verbatim>\<open>pipewrite\<close> and \<^verbatim>\<open>piperead\<close> does to the queue of bytes, across the wrap-around of
  the counters and on every way out of the loops.
\<close>

section \<open>Writing\<close>

lemma pipe_put_flags [simp]: "readopen (pipe_put x p) = readopen p" "writeopen (pipe_put x p) = writeopen p"
  by (simp_all add: pipe_put_def)

text \<open>The bytes \<open>bs\<close> at the user addresses from \<open>addr + i\<close> on.\<close>

definition user_bytes :: "(u64 \<Rightarrow> u8 option) \<Rightarrow> u64 \<Rightarrow> int \<Rightarrow> u8 list \<Rightarrow> bool" where
  "user_bytes cin addr i bs \<longleftrightarrow> (\<forall>j<length bs. cin (addr + word_of_int (i + int j)) = Some (bs ! j))"

lemma user_bytes_Cons:
  "user_bytes cin addr i (b # bs) \<longleftrightarrow> cin (addr + word_of_int i) = Some b \<and> user_bytes cin addr (i + 1) bs"
  by (simp add: user_bytes_def All_less_Suc2 algebra_simps)

text \<open>The ways a run of the loop ends after \<open>bs\<close>.\<close>

definition write_ends :: "bool \<Rightarrow> (u64 \<Rightarrow> u8 option) \<Rightarrow> u64 \<Rightarrow> int \<Rightarrow> pipe \<Rightarrow> int \<Rightarrow> outcome \<Rightarrow> pipe_chan list \<Rightarrow> bool" where
  "write_ends killed cin addr n p' i r w \<longleftrightarrow>
     r = Return i \<and> w = [Nread] \<and> (n \<le> i \<or> cin (addr + word_of_int i) = None) \<or>
     i < n \<and> pipe_full p' \<and>
       (if \<not> readopen p' \<or> killed then r = Return (-1) \<and> w = [] else r = Sleep Nwrite i \<and> w = [Nread])"

lemma pipewrite_loop_appends:
  "pipe_ok p \<Longrightarrow> pipewrite_loop killed cin addr n i p = (r, p', w) \<Longrightarrow>
    \<exists>bs. pipe_ok p' \<and> pipe_content p' = pipe_content p @ bs \<and> user_bytes cin addr i bs \<and> int (length bs) \<le> max 0 (n - i) \<and>
      readopen p' = readopen p \<and> writeopen p' = writeopen p \<and>
      write_ends killed cin addr n p' (i + int (length bs)) r w"
proof (induction killed cin addr n i p rule: pipewrite_loop.induct)
  case (1 killed cin addr n i p)
  show ?case
  proof (cases "i < n \<and> \<not> pipe_full p \<and> cin (addr + word_of_int i) \<noteq> None")
    case False
    then have "p' = p \<and> write_ends killed cin addr n p i r w"
      using "1.prems"(2) by (subst (asm) pipewrite_loop.simps) (auto simp: write_ends_def split: if_splits option.splits)
    then show ?thesis using "1.prems"(1) by (intro exI [of _ "[]"]) (simp add: user_bytes_def)
  next
    case True
    then obtain ch where ch: "cin (addr + word_of_int i) = Some ch" by auto
    have ok: "pipe_content (pipe_put ch p) = pipe_content p @ [ch]" "pipe_ok (pipe_put ch p)"
      using ring.put_content [OF "1.prems"(1)] True by auto
    have "pipewrite_loop killed cin addr n (i + 1) (pipe_put ch p) = (r, p', w)"
      using "1.prems"(2) True ch by (subst (asm) pipewrite_loop.simps) simp
    from "1.IH" [OF _ _ ch ok(2) this] True obtain bs where
      bs: "pipe_ok p'" "pipe_content p' = pipe_content (pipe_put ch p) @ bs" "user_bytes cin addr (i + 1) bs"
        "int (length bs) \<le> max 0 (n - (i + 1))" "readopen p' = readopen p" "writeopen p' = writeopen p"
        "write_ends killed cin addr n p' (i + 1 + int (length bs)) r w" by auto
    then show ?thesis using ok ch True by (intro exI [of _ "ch # bs"]) (auto simp: user_bytes_Cons algebra_simps)
  qed
qed

section \<open>Reading\<close>

primrec store_all :: "(u64 \<Rightarrow> u8 \<Rightarrow> 'm \<Rightarrow> 'm option) \<Rightarrow> u64 \<Rightarrow> int \<Rightarrow> u8 list \<Rightarrow> 'm \<Rightarrow> 'm option" where
  "store_all cout addr i [] m = Some m"
| "store_all cout addr i (b # bs) m = Option.bind (cout (addr + word_of_int i) b m) (store_all cout addr (i + 1) bs)"

lemma piperead_copy_takes:
  "pipe_ok p \<Longrightarrow> piperead_copy cout addr n i p m = (r, p', m') \<Longrightarrow>
    \<exists>bs. pipe_ok p' \<and> store_all cout addr i bs m = Some m' \<and> r = i + int (length bs) \<and> int (length bs) \<le> max 0 (n - i) \<and>
      (pipe_content p = bs @ pipe_content p' \<and> (n \<le> r \<or> pipe_content p' = []) \<or>
       (\<exists>ch. pipe_content p = bs @ ch # pipe_content p' \<and> r < n \<and> cout (addr + word_of_int r) ch m' = None))"
proof (induction cout addr n i p m rule: piperead_copy.induct)
  case (1 cout addr n i p m)
  show ?case
  proof (cases "i < n \<and> \<not> pipe_empty p")
    case False
    then have "r = i" "p' = p" "m' = m" "n \<le> i \<or> pipe_content p = []"
      using "1.prems" ring.empty_iff by (subst (asm) piperead_copy.simps; auto split: if_splits)+
    then show ?thesis using "1.prems"(1) by (intro exI [of _ "[]"]) auto
  next
    case True
    obtain ch p1 where g: "pipe_get p = (ch, p1)" by fastforce
    have ok: "pipe_content p = ch # pipe_content p1" "pipe_ok p1"
      using ring.get_content [OF "1.prems"(1)] True g by auto
    show ?thesis
    proof (cases "cout (addr + word_of_int i) ch m")
      case None
      then have "r = i" "p' = p1" "m' = m"
        using "1.prems"(2) True g by (subst (asm) piperead_copy.simps; simp)+
      then show ?thesis using ok None True by (intro exI [of _ "[]"]) auto
    next
      case (Some m1)
      then have "piperead_copy cout addr n (i + 1) p1 m1 = (r, p', m')"
        using "1.prems"(2) True g by (subst (asm) piperead_copy.simps) simp
      from "1.IH" [OF _ _ g [symmetric] refl Some ok(2) this] True obtain bs where
        bs: "pipe_ok p'" "store_all cout addr (i + 1) bs m1 = Some m'" "r = i + 1 + int (length bs)"
          "int (length bs) \<le> max 0 (n - (i + 1))"
          "pipe_content p1 = bs @ pipe_content p' \<and> (n \<le> r \<or> pipe_content p' = []) \<or>
           (\<exists>ch. pipe_content p1 = bs @ ch # pipe_content p' \<and> r < n \<and> cout (addr + word_of_int r) ch m' = None)"
        by auto
      then show ?thesis using ok Some True by (intro exI [of _ "ch # bs"]) auto
    qed
  qed
qed

section \<open>Properties\<close>

text \<open>
  C9: A run of \<^verbatim>\<open>pipewrite\<close> under the lock, from any loop counter \<open>i\<close>, appends the next bytes of the user's buffer to the
  queue and never exceeds 512 bytes, for any values of the wrapping counters. It ends with all bytes written or the
  user's buffer unreadable (returning the count), or with the pipe full: then it sleeps with the counter of the next byte,
  or returns -1 when the reader is gone or the process is killed.
\<close>

theorem pipewrite_appends:
  assumes "pipe_ok p" "pipewrite_loop killed cin addr n i p = (r, p', w)"
  shows "\<exists>bs. pipe_ok p' \<and> pipe_content p' = pipe_content p @ bs \<and> length (pipe_content p') \<le> 512 \<and>
    (\<forall>j<length bs. cin (addr + word_of_int (i + int j)) = Some (bs ! j)) \<and>
    (r = Return (i + int (length bs)) \<and> (n \<le> i + int (length bs) \<or> cin (addr + word_of_int (i + int (length bs))) = None) \<or>
     i + int (length bs) < n \<and> length (pipe_content p') = 512 \<and>
       (if \<not> readopen p \<or> killed then r = Return (-1) else r = Sleep Nwrite (i + int (length bs))))"
proof -
  obtain bs where bs: "pipe_ok p'" "pipe_content p' = pipe_content p @ bs" "user_bytes cin addr i bs" "readopen p' = readopen p"
      "write_ends killed cin addr n p' (i + int (length bs)) r w"
    using pipewrite_loop_appends [OF assms] by blast
  have "length (pipe_content p') \<le> 512" "pipe_full p' \<longleftrightarrow> length (pipe_content p') = 512"
    using ring.bound [OF bs(1)] ring.full_iff [OF bs(1)] unfolding PIPESIZE_def by blast+
  then show ?thesis using bs by (intro exI [of _ bs]) (auto simp: user_bytes_def write_ends_def split: if_splits)
qed

text \<open>A pipe whose write counter is about to wrap.\<close>

definition ex_pipe :: pipe where
  "ex_pipe = \<lparr>pdata = replicate 512 0, nread = 0xFFFFFFFF, nwrite = 0xFFFFFFFF, readopen = True, writeopen = True\<rparr>"

lemma ex_pipe_ok: "pipe_ok ex_pipe" "pipe_content ex_pipe = []"
  by (simp_all add: pipe_ok_def ex_pipe_def PIPESIZE_def pipe_content_def)

definition ex_cin :: "u64 \<Rightarrow> u8 option" where
  "ex_cin a = (if a < 3 then Some (ucast a) else None)"

theorem pipewrite_appends_witness:
  "\<exists>r p' w bs. pipewrite_loop False ex_cin 0 9 0 ex_pipe = (r, p', w) \<and>
    pipe_content p' = bs \<and> length bs \<le> 512 \<and> (\<forall>j<length bs. ex_cin (word_of_int (int j)) = Some (bs ! j))"
proof -
  obtain r p' w where e: "pipewrite_loop False ex_cin 0 9 0 ex_pipe = (r, p', w)" by (metis prod_cases3)
  from pipewrite_appends [OF ex_pipe_ok(1) e] obtain bs where bs: "pipe_content p' = pipe_content ex_pipe @ bs"
      "length (pipe_content p') \<le> 512" "\<forall>j<length bs. ex_cin (0 + word_of_int (0 + int j)) = Some (bs ! j)"
    by (elim exE conjE) (rule that)
  then show ?thesis using e ex_pipe_ok(2) by (intro exI [of _ r] exI [of _ p'] exI [of _ w] exI [of _ bs]) simp
qed



end
