(* ===== verification/Proc.thy ===== *)
theory Proc
  imports Vm_Copy Vm_Kernel
begin

text \<open>
  Processes of lab 4 (\<^verbatim>\<open>kernel/proc.c\<close>, \<^verbatim>\<open>kernel/proc.h\<close>). A \<^verbatim>\<open>struct proc *\<close> is an index into the process table, or
  \<open>None\<close> for 0; functions that use \<^verbatim>\<open>myproc()\<close> take the number of the hart they run on. Spin locks are a log of calls,
  from which \<^verbatim>\<open>holding\<close> and \<^verbatim>\<open>noff\<close> are read. The file system, the allocator, \<^verbatim>\<open>copyin_new\<close> and the constants of
  \<^verbatim>\<open>memlayout.h\<close> are arguments.

  A function that gives up the processor stops at the context switch: it returns the state the scheduler sees,
  and what it does when it is resumed is a function of its own.
\<close>

section \<open>Results\<close>

text \<open>
  \<open>None\<close> is code that does not return: a recursion without end over a cyclic page table, or a fault on a null pointer.
\<close>

type_synonym 'b run = "'b res option"

fun kbind :: "'b run \<Rightarrow> ('b \<Rightarrow> 'c run) \<Rightarrow> 'c run" where
  "kbind None f = None"
| "kbind (Some (Panic e)) f = Some (Panic e)"
| "kbind (Some (Ok x)) f = f x"

lemma kbind_eq_Ok [simp]: "kbind m f = Some (Ok y) \<longleftrightarrow> (\<exists>x. m = Some (Ok x) \<and> f x = Some (Ok y))"
  by (cases "(m, f)" rule: kbind.cases) auto

lemma kbind_assoc: "kbind (kbind m f) g = kbind m (\<lambda>x. kbind (f x) g)"
  by (cases "(m, f)" rule: kbind.cases) auto

text \<open>What holds of the result of a run, in the manner of a weakest precondition.\<close>

definition post :: "'b run \<Rightarrow> ('b \<Rightarrow> bool) \<Rightarrow> bool" where
  "post m Q \<longleftrightarrow> (\<forall>x. m = Some (Ok x) \<longrightarrow> Q x)"

lemma post_Ok [simp]: "post (Some (Ok x)) Q \<longleftrightarrow> Q x"
  by (simp add: post_def)

lemma post_Panic [simp]: "post (Some (Panic e)) Q"
  by (simp add: post_def)

lemma post_kbind [simp]: "post (kbind m f) Q \<longleftrightarrow> post m (\<lambda>x. post (f x) Q)"
  by (auto simp: post_def)

lemma postD: "post m Q \<Longrightarrow> m = Some (Ok x) \<Longrightarrow> Q x"
  by (simp add: post_def)

lemma post_mono: "post m P \<Longrightarrow> (\<And>x. P x \<Longrightarrow> Q x) \<Longrightarrow> post m Q"
  by (simp add: post_def)

lemma post_any: "(\<And>x. Q x) \<Longrightarrow> post m Q"
  by (simp add: post_def)

section \<open>State\<close>

datatype procstate = UNUSED | SLEEPING | RUNNABLE | RUNNING | ZOMBIE

record kcontext =
  ra :: u64
  sp :: u64
  callee_saved :: "u64 list"

text \<open>The channel a process sleeps on: the address of a process or of another object.\<close>

datatype chan = ProcChan nat | ObjChan u64

text \<open>\<^verbatim>\<open>name\<close> is the string up to its NUL; the entries of \<^verbatim>\<open>ofile\<close> and \<^verbatim>\<open>cwd\<close> are addresses.\<close>

record proc =
  state :: procstate
  parent :: "nat option"
  chan :: "chan option"
  killed :: bool
  xstate :: u32
  pid :: u32
  kstack :: u64
  kstack_pa :: u64
  sz :: u64
  k_pagetable :: u64
  pagetable :: u64
  trapframe :: u64
  kctx :: kcontext
  ofile :: "u64 list"
  cwd :: u64
  pname :: string

datatype lock = PidLock | ProcLock nat | ObjLock u64

text \<open>A hart: the process it runs, the interrupt flag to restore, its page-table register, and the bit SUM of \<^verbatim>\<open>sstatus\<close>.\<close>

record cpu =
  cproc :: "nat option"
  intena :: bool
  chart :: hart
  sstatus_SUM :: bool

record ('a, 'f) kernel =
  mem :: "'a mach_scheme"
  proc :: "proc list"
  cpus :: "cpu list"
  initproc :: "nat option"
  nextpid :: u32
  kernel_pagetable :: u64
  first :: bool
  fsys :: 'f
  lock_log :: "lock lock_call list"

text \<open>What the code uses of files outside the repository.\<close>

record ('a, 'f) outside =
  o_kalloc :: "'a kalloc_fn"
  o_kfree :: "'a kfree_fn"
  layout :: klayout
  TRAPFRAME :: u64
  KSTACK :: "nat \<Rightarrow> u64"
  forkret_addr :: u64
  filedup :: "u64 \<Rightarrow> 'f \<Rightarrow> u64 \<times> 'f"
  fileclose :: "u64 \<Rightarrow> 'f \<Rightarrow> 'f"
  idup :: "u64 \<Rightarrow> 'f \<Rightarrow> u64 \<times> 'f"
  iput :: "u64 \<Rightarrow> 'f \<Rightarrow> 'f"
  begin_op :: "'f \<Rightarrow> 'f"
  end_op :: "'f \<Rightarrow> 'f"
  namei :: "string \<Rightarrow> 'f \<Rightarrow> u64 \<times> 'f"
  fsinit :: "'f \<Rightarrow> 'f"
  copyin_new :: "bool \<Rightarrow> u64 \<Rightarrow> u64 \<Rightarrow> u64 \<Rightarrow> 'a mach_scheme \<Rightarrow> (int \<times> u8 list) res"

definition upd_proc :: "nat \<Rightarrow> (proc \<Rightarrow> proc) \<Rightarrow> ('a, 'f) kernel \<Rightarrow> ('a, 'f) kernel" where
  "upd_proc i f k = k\<lparr>proc := (proc k)[i := f (proc k ! i)]\<rparr>"

definition upd_cpu :: "nat \<Rightarrow> (cpu \<Rightarrow> cpu) \<Rightarrow> ('a, 'f) kernel \<Rightarrow> ('a, 'f) kernel" where
  "upd_cpu c f k = k\<lparr>cpus := (cpus k)[c := f (cpus k ! c)]\<rparr>"

text \<open>The entries of the table in the order of the loops \<^verbatim>\<open>for(p = proc; p < &proc[NPROC]; p++)\<close>.\<close>

definition slots :: "('a, 'f) kernel \<Rightarrow> nat list" where
  "slots k = [0..<length (proc k)]"

subsection \<open>Locks\<close>

definition acquire :: "lock \<Rightarrow> ('a, 'f) kernel \<Rightarrow> ('a, 'f) kernel" where
  "acquire l k = k\<lparr>lock_log := lock_log k @ [Acquire l]\<rparr>"

definition release :: "lock \<Rightarrow> ('a, 'f) kernel \<Rightarrow> ('a, 'f) kernel" where
  "release l k = k\<lparr>lock_log := lock_log k @ [Release l]\<rparr>"

definition holding :: "lock \<Rightarrow> ('a, 'f) kernel \<Rightarrow> bool" where
  "holding l k = (case lock_run {} (lock_log k) of None \<Rightarrow> False | Some H \<Rightarrow> l \<in> H)"

text \<open>The depth of \<^verbatim>\<open>push_off\<close>: \<^verbatim>\<open>acquire\<close> and \<^verbatim>\<open>release\<close> call \<^verbatim>\<open>push_off\<close> and \<^verbatim>\<open>pop_off\<close>.\<close>

fun off_depth :: "'l lock_call list \<Rightarrow> int" where
  "off_depth [] = 0"
| "off_depth (Push_off # cs) = off_depth cs + 1"
| "off_depth (Pop_off # cs) = off_depth cs - 1"
| "off_depth (Acquire l # cs) = off_depth cs + 1"
| "off_depth (Release l # cs) = off_depth cs - 1"

definition noff :: "('a, 'f) kernel \<Rightarrow> int" where
  "noff k = off_depth (lock_log k)"

section \<open>Harts and the current process\<close>

text \<open>\<^verbatim>\<open>cpuid()\<close> is the hart's register \<^verbatim>\<open>tp\<close>, given as \<open>c\<close>.\<close>

definition mycpu :: "nat \<Rightarrow> ('a, 'f) kernel \<Rightarrow> cpu" where
  "mycpu c k = cpus k ! c"

definition myproc :: "nat \<Rightarrow> ('a, 'f) kernel \<Rightarrow> nat option" where
  "myproc c k = cproc (mycpu c k)"

text \<open>A use of \<^verbatim>\<open>myproc()->field\<close> faults when no process runs.\<close>

definition with_proc :: "nat \<Rightarrow> ('a, 'f) kernel \<Rightarrow> (nat \<Rightarrow> 'c run) \<Rightarrow> 'c run" where
  "with_proc c k f = (case myproc c k of None \<Rightarrow> None | Some p \<Rightarrow> f p)"

definition lift_mem :: "('a, 'f) kernel \<Rightarrow> ('b \<times> 'a mach_scheme) res \<Rightarrow> ('b \<times> ('a, 'f) kernel) run" where
  "lift_mem k r = (case r of Panic e \<Rightarrow> Some (Panic e) | Ok (x, s) \<Rightarrow> Some (Ok (x, k\<lparr>mem := s\<rparr>)))"

definition lift_mem_unit :: "('a, 'f) kernel \<Rightarrow> 'a mach_scheme res \<Rightarrow> ('a, 'f) kernel run" where
  "lift_mem_unit k r = (case r of Panic e \<Rightarrow> Some (Panic e) | Ok s \<Rightarrow> Some (Ok (k\<lparr>mem := s\<rparr>)))"

section \<open>Creating and freeing processes\<close>

definition procinit_one :: "('a, 'f) outside \<Rightarrow> nat \<Rightarrow> ('a, 'f) kernel \<Rightarrow> ('a, 'f) kernel run" where
  "procinit_one E i k =
     (let (pa, s1) = o_kalloc E (mem k); k1 = k\<lparr>mem := s1\<rparr> in
      if pa = 0 then Some (Panic ''kalloc'')
      else
        let va = KSTACK E i in
        kbind (lift_mem_unit k1 (kvmmap (o_kalloc E) (kernel_pagetable k1) va pa PGSIZE (PTE_R OR PTE_W) (mem k1)))
          (\<lambda>k2. Some (Ok (upd_proc i (\<lambda>p. p\<lparr>kstack_pa := pa, kstack := va\<rparr>) k2))))"

primrec procinit_loop :: "('a, 'f) outside \<Rightarrow> nat list \<Rightarrow> ('a, 'f) kernel \<Rightarrow> ('a, 'f) kernel run" where
  "procinit_loop E [] k = Some (Ok k)"
| "procinit_loop E (i # is) k = kbind (procinit_one E i k) (procinit_loop E is)"

definition procinit :: "('a, 'f) outside \<Rightarrow> nat \<Rightarrow> ('a, 'f) kernel \<Rightarrow> ('a, 'f) kernel run" where
  "procinit E c k =
     kbind (procinit_loop E (slots k) k)
       (\<lambda>k1. Some (Ok (upd_cpu c (\<lambda>u. u\<lparr>chart := kvminithart (kernel_pagetable k1) (chart u)\<rparr>) k1)))"

definition allocpid :: "('a, 'f) kernel \<Rightarrow> u32 \<times> ('a, 'f) kernel" where
  "allocpid k =
     (let k1 = acquire PidLock k;
          p = nextpid k1;
          k2 = k1\<lparr>nextpid := nextpid k1 + 1\<rparr>
      in (p, release PidLock k2))"

text \<open>The scan of \<^verbatim>\<open>allocproc\<close>; it returns holding the lock of the entry found.\<close>

primrec find_unused :: "nat list \<Rightarrow> ('a, 'f) kernel \<Rightarrow> nat option \<times> ('a, 'f) kernel" where
  "find_unused [] k = (None, k)"
| "find_unused (i # is) k =
     (let k1 = acquire (ProcLock i) k
      in if state (proc k1 ! i) = UNUSED then (Some i, k1) else find_unused is (release (ProcLock i) k1))"

definition proc_freekernelpagetable :: "('a, 'f) outside \<Rightarrow> u64 \<Rightarrow> 'a mach_scheme \<Rightarrow> 'a mach_scheme run" where
  "proc_freekernelpagetable E pt s = kvmfree (o_kfree E) pt s"

definition proc_freeuserpagetable :: "('a, 'f) outside \<Rightarrow> u64 \<Rightarrow> u64 \<Rightarrow> 'a mach_scheme \<Rightarrow> 'a mach_scheme run" where
  "proc_freeuserpagetable E pt len s =
     kbind (Some (uvmunmap (o_kalloc E) (o_kfree E) pt (TRAMPOLINE (layout E)) 1 False s)) (\<lambda>s1.
     kbind (Some (uvmunmap (o_kalloc E) (o_kfree E) pt (TRAPFRAME E) 1 False s1)) (\<lambda>s2.
     uvmfree (o_kalloc E) (o_kfree E) pt len s2))"

definition proc_pagetable :: "('a, 'f) outside \<Rightarrow> proc \<Rightarrow> 'a mach_scheme \<Rightarrow> (u64 \<times> 'a mach_scheme) run" where
  "proc_pagetable E p s =
     (let (pt, s1) = uvmcreate (o_kalloc E) s in
      if pt = 0 then Some (Ok (0, s1))
      else
        kbind (Some (mappages (o_kalloc E) pt (TRAMPOLINE (layout E)) PGSIZE (trampoline (layout E)) (PTE_R OR PTE_X) s1))
          (\<lambda>(r, s2).
             if r < 0 then kbind (uvmfree (o_kalloc E) (o_kfree E) pt 0 s2) (\<lambda>s3. Some (Ok (0, s3)))
             else
               kbind (Some (mappages (o_kalloc E) pt (TRAPFRAME E) PGSIZE (trapframe p) (PTE_R OR PTE_W) s2))
                 (\<lambda>(r', s3).
                    if r' < 0 then
                      kbind (Some (uvmunmap (o_kalloc E) (o_kfree E) pt (TRAMPOLINE (layout E)) 1 False s3)) (\<lambda>s4.
                      kbind (uvmfree (o_kalloc E) (o_kfree E) pt 0 s4) (\<lambda>s5. Some (Ok (0, s5))))
                    else Some (Ok (pt, s3)))))"

definition freeproc_fields :: "proc \<Rightarrow> proc" where
  "freeproc_fields p = p\<lparr>trapframe := 0, pagetable := 0, k_pagetable := 0, sz := 0, pid := 0, parent := None,
     pname := [], chan := None, killed := False, xstate := 0, state := UNUSED\<rparr>"

text \<open>The memory \<^verbatim>\<open>freeproc\<close> gives back.\<close>

definition freeproc_mem :: "('a, 'f) outside \<Rightarrow> proc \<Rightarrow> 'a mach_scheme \<Rightarrow> 'a mach_scheme run" where
  "freeproc_mem E p s =
     kbind (if trapframe p \<noteq> 0 then Some (o_kfree E (trapframe p) s) else Some (Ok s)) (\<lambda>s1.
     kbind (if pagetable p \<noteq> 0 then proc_freeuserpagetable E (pagetable p) (sz p) s1 else Some (Ok s1)) (\<lambda>s2.
     if k_pagetable p \<noteq> 0 then proc_freekernelpagetable E (k_pagetable p) s2 else Some (Ok s2)))"

definition freeproc :: "('a, 'f) outside \<Rightarrow> nat \<Rightarrow> ('a, 'f) kernel \<Rightarrow> ('a, 'f) kernel run" where
  "freeproc E i k =
     kbind (freeproc_mem E (proc k ! i) (mem k)) (\<lambda>s. Some (Ok (upd_proc i freeproc_fields (k\<lparr>mem := s\<rparr>))))"

text \<open>The failure exits of \<^verbatim>\<open>allocproc\<close>, its last part (the user page table and the context), and the code from the label
  \<^verbatim>\<open>found\<close> on, for entry \<open>i\<close>. The result is \<open>None\<close> for 0; otherwise the lock of the entry is held.
\<close>

definition allocproc_fail :: "('a, 'f) outside \<Rightarrow> nat \<Rightarrow> ('a, 'f) kernel \<Rightarrow> (nat option \<times> ('a, 'f) kernel) run" where
  "allocproc_fail E i k = kbind (freeproc E i k) (\<lambda>k'. Some (Ok (None, release (ProcLock i) k')))"

definition allocproc_user :: "('a, 'f) outside \<Rightarrow> nat \<Rightarrow> ('a, 'f) kernel \<Rightarrow> (nat option \<times> ('a, 'f) kernel) run" where
  "allocproc_user E i k7 =
     kbind (proc_pagetable E (proc k7 ! i) (mem k7)) (\<lambda>(pt, s8).
     let k8 = upd_proc i (\<lambda>p. p\<lparr>pagetable := pt\<rparr>) (k7\<lparr>mem := s8\<rparr>) in
     if pt = 0 then allocproc_fail E i k8
     else
       Some (Ok (Some i, upd_proc i (\<lambda>p. p\<lparr>kctx :=
         \<lparr>ra = forkret_addr E, sp = kstack p + PGSIZE, callee_saved = replicate 12 0\<rparr>\<rparr>) k8)))"

definition allocproc_found :: "('a, 'f) outside \<Rightarrow> nat \<Rightarrow> ('a, 'f) kernel \<Rightarrow> (nat option \<times> ('a, 'f) kernel) run" where
  "allocproc_found E i k1 =
     (let (q, k2) = allocpid k1;
          k3 = upd_proc i (\<lambda>p. p\<lparr>pid := q\<rparr>) k2;
          (tf, s4) = o_kalloc E (mem k3);
          k4 = upd_proc i (\<lambda>p. p\<lparr>trapframe := tf\<rparr>) (k3\<lparr>mem := s4\<rparr>)
      in if tf = 0 then Some (Ok (None, release (ProcLock i) k4))
         else
           kbind (lift_mem k4 (kvminit_proc (o_kalloc E) (layout E) (mem k4))) (\<lambda>(kpt, k5).
           let k6 = upd_proc i (\<lambda>p. p\<lparr>k_pagetable := kpt\<rparr>) k5 in
           if kpt = 0 then allocproc_fail E i k6
           else
             kbind (lift_mem_unit k6 (kvmmap_proc (o_kalloc E) kpt (kstack (proc k6 ! i)) (kstack_pa (proc k6 ! i))
                      PGSIZE (PTE_R OR PTE_W) (mem k6)))
               (allocproc_user E i)))"

definition allocproc :: "('a, 'f) outside \<Rightarrow> ('a, 'f) kernel \<Rightarrow> (nat option \<times> ('a, 'f) kernel) run" where
  "allocproc E k =
     (case find_unused (slots k) k of
        (None, k1) \<Rightarrow> Some (Ok (None, k1))
      | (Some i, k1) \<Rightarrow> allocproc_found E i k1)"

text \<open>\<^verbatim>\<open>initcode\<close>, 52 bytes.\<close>

definition initcode :: "u8 list" where
  "initcode =
    [0x17, 0x05, 0x00, 0x00, 0x13, 0x05, 0x45, 0x02,
     0x97, 0x05, 0x00, 0x00, 0x93, 0x85, 0x35, 0x02,
     0x93, 0x08, 0x70, 0x00, 0x73, 0x00, 0x00, 0x00,
     0x93, 0x08, 0x20, 0x00, 0x73, 0x00, 0x00, 0x00,
     0xef, 0xf0, 0x9f, 0xff, 0x2f, 0x69, 0x6e, 0x69,
     0x74, 0x00, 0x00, 0x24, 0x00, 0x00, 0x00, 0x00,
     0x00, 0x00, 0x00, 0x00]"

text \<open>\<^verbatim>\<open>safestrcpy(dst, src, 16)\<close>.\<close>

definition safe_name :: "string \<Rightarrow> string" where
  "safe_name nm = take 15 nm"

definition userinit :: "('a, 'f) outside \<Rightarrow> ('a, 'f) kernel \<Rightarrow> ('a, 'f) kernel run" where
  "userinit E k =
     kbind (allocproc E k) (\<lambda>(r, k1).
     let k2 = k1\<lparr>initproc := r\<rparr> in
     case r of
       None \<Rightarrow> None
     | Some i \<Rightarrow>
         kbind (lift_mem_unit k2 (uvminit (o_kalloc E) (pagetable (proc k2 ! i)) initcode 52 (mem k2))) (\<lambda>k3.
         let k4 = upd_proc i (\<lambda>p. p\<lparr>sz := PGSIZE\<rparr>) k3; p = proc k4 ! i in
         kbind (lift_mem k4 (kvmcopy (o_kalloc E) (o_kfree E) (PLIC (layout E)) (pagetable p) (k_pagetable p) 0 (sz p) (mem k4)))
           (\<lambda>(_, k5).
         let k6 = k5\<lparr>mem := wr_cell (trapframe p) 6 PGSIZE (wr_cell (trapframe p) 3 0 (mem k5))\<rparr>;
             (root, f) = namei E ''/'' (fsys k6);
             k7 = upd_proc i (\<lambda>p. p\<lparr>pname := safe_name ''initcode'', cwd := root, state := RUNNABLE\<rparr>) (k6\<lparr>fsys := f\<rparr>)
         in Some (Ok (release (ProcLock i) k7)))))"

text \<open>
  \<^verbatim>\<open>growproc(int n)\<close> of process \<open>i\<close>: the local \<^verbatim>\<open>sz\<close> is a 32-bit \<^verbatim>\<open>uint\<close>. The branches return the new value of \<^verbatim>\<open>sz\<close>, or \<open>None\<close>
  where the function returns -1.
\<close>

definition growproc_up :: "('a, 'f) outside \<Rightarrow> proc \<Rightarrow> u32 \<Rightarrow> 'a mach_scheme \<Rightarrow> (u32 option \<times> 'a mach_scheme) res" where
  "growproc_up E p n s =
     (let size = (ucast (sz p) :: u32) in
      rbind (uvmalloc (o_kalloc E) (o_kfree E) (pagetable p) (ucast size) (ucast (size + n)) s)
        (\<lambda>(r, s1).
           let size1 = (ucast r :: u32) in
           if size1 = 0 then Ok (None, s1)
           else
             rbind (kvmcopy (o_kalloc E) (o_kfree E) (PLIC (layout E)) (pagetable p) (k_pagetable p)
                      (sz p) (sz p + scast n) s1)
               (\<lambda>(r', s2). Ok (if r' \<noteq> 0 then None else Some size1, s2))))"

definition growproc_down :: "('a, 'f) outside \<Rightarrow> proc \<Rightarrow> u32 \<Rightarrow> 'a mach_scheme \<Rightarrow> (u32 option \<times> 'a mach_scheme) res" where
  "growproc_down E p n s =
     (let size = (ucast (sz p) :: u32) in
      rbind (uvmdealloc (o_kalloc E) (o_kfree E) (pagetable p) (ucast size) (ucast (size + n)) s)
        (\<lambda>(r, s1).
           rbind (kvmdealloc (o_kalloc E) (o_kfree E) (k_pagetable p) (sz p) (sz p + scast n) s1)
             (\<lambda>(_, s2). Ok (Some (ucast r), s2))))"

definition growproc :: "('a, 'f) outside \<Rightarrow> nat \<Rightarrow> u32 \<Rightarrow> ('a, 'f) kernel \<Rightarrow> (int \<times> ('a, 'f) kernel) run" where
  "growproc E c n k = with_proc c k (\<lambda>i.
     let p = proc k ! i in
     kbind (lift_mem k
         (if sint n > 0 then growproc_up E p n (mem k)
          else if sint n < 0 then growproc_down E p n (mem k)
          else Ok (Some (ucast (sz p)), mem k)))
       (\<lambda>(r, k1).
          case r of
            None \<Rightarrow> Some (Ok (-1, k1))
          | Some x \<Rightarrow> Some (Ok (0, upd_proc i (\<lambda>p. p\<lparr>sz := ucast x\<rparr>) k1))))"

text \<open>\<^verbatim>\<open>*(np->trapframe) = *(p->trapframe)\<close>: the 36 fields of a trap frame.\<close>

definition copy_trapframe :: "u64 \<Rightarrow> u64 \<Rightarrow> 'a mach_scheme \<Rightarrow> 'a mach_scheme" where
  "copy_trapframe dst src s = s\<lparr>ram := (ram s)(dst := (\<lambda>j. if j < 36 then ram s src j else ram s dst j))\<rparr>"

text \<open>The loop that duplicates the open files; \<open>gs\<close> is the table of the child.\<close>

fun dup_files :: "('a, 'f) outside \<Rightarrow> u64 list \<Rightarrow> u64 list \<Rightarrow> 'f \<Rightarrow> u64 list \<times> 'f" where
  "dup_files E (f # fs) (g # gs) s =
     (let (h, s1) = (if f \<noteq> 0 then filedup E f s else (g, s));
          (hs, s2) = dup_files E fs gs s1
      in (h # hs, s2))"
| "dup_files E _ gs s = (gs, s)"

text \<open>The failure exits of \<^verbatim>\<open>fork\<close>, and its last part when the memory of parent \<open>i\<close> is copied to child \<open>j\<close>.\<close>

definition fork_fail :: "('a, 'f) outside \<Rightarrow> nat \<Rightarrow> ('a, 'f) kernel \<Rightarrow> (u32 \<times> ('a, 'f) kernel) run" where
  "fork_fail E j k = kbind (freeproc E j k) (\<lambda>k'. Some (Ok (-1, release (ProcLock j) k')))"

definition fork_child :: "('a, 'f) outside \<Rightarrow> nat \<Rightarrow> nat \<Rightarrow> ('a, 'f) kernel \<Rightarrow> u32 \<times> ('a, 'f) kernel" where
  "fork_child E i j k3 =
     (let p = proc k3 ! i; np = proc k3 ! j;
          k4 = upd_proc j (\<lambda>q. q\<lparr>sz := sz p, parent := Some i\<rparr>) k3;
          k5 = k4\<lparr>mem := wr_cell (trapframe np) 14 0 (copy_trapframe (trapframe np) (trapframe p) (mem k4))\<rparr>;
          (fs, f1) = dup_files E (ofile p) (ofile np) (fsys k5);
          (d, f2) = idup E (cwd p) f1;
          k6 = upd_proc j (\<lambda>q. q\<lparr>ofile := fs, cwd := d, pname := safe_name (pname p)\<rparr>) (k5\<lparr>fsys := f2\<rparr>);
          r = pid (proc k6 ! j);
          k7 = upd_proc j (\<lambda>q. q\<lparr>state := RUNNABLE\<rparr>) k6
      in (r, release (ProcLock j) k7))"

definition fork :: "('a, 'f) outside \<Rightarrow> nat \<Rightarrow> ('a, 'f) kernel \<Rightarrow> (u32 \<times> ('a, 'f) kernel) run" where
  "fork E c k = with_proc c k (\<lambda>i.
     kbind (allocproc E k) (\<lambda>(r, k1).
     case r of
       None \<Rightarrow> Some (Ok (-1, k1))
     | Some j \<Rightarrow>
         let p = proc k1 ! i; np = proc k1 ! j in
         kbind (lift_mem k1 (uvmcopy (o_kalloc E) (o_kfree E) (pagetable p) (pagetable np) (sz p) (mem k1))) (\<lambda>(r1, k2).
         if r1 < 0 then fork_fail E j k2
         else
           kbind (lift_mem k2 (kvmcopy (o_kalloc E) (o_kfree E) (PLIC (layout E)) (pagetable np) (k_pagetable np) 0 (sz p) (mem k2)))
             (\<lambda>(r2, k3). if r2 < 0 then fork_fail E j k3 else Some (Ok (fork_child E i j k3))))))"

section \<open>Sleeping and waking\<close>

text \<open>Interrupts are off while \<^verbatim>\<open>noff\<close> is positive.\<close>

definition intr_get :: "nat \<Rightarrow> ('a, 'f) kernel \<Rightarrow> bool" where
  "intr_get c k \<longleftrightarrow> noff k \<le> 0 \<and> intena (mycpu c k)"

text \<open>\<^verbatim>\<open>sched\<close> up to \<^verbatim>\<open>swtch\<close>, with the saved \<^verbatim>\<open>intena\<close>, and after it.\<close>

definition sched :: "nat \<Rightarrow> ('a, 'f) kernel \<Rightarrow> (bool \<times> ('a, 'f) kernel) run" where
  "sched c k = with_proc c k (\<lambda>i.
     if \<not> holding (ProcLock i) k then Some (Panic ''sched p->lock'')
     else if noff k \<noteq> 1 then Some (Panic ''sched locks'')
     else if state (proc k ! i) = RUNNING then Some (Panic ''sched running'')
     else if intr_get c k then Some (Panic ''sched interruptible'')
     else Some (Ok (intena (mycpu c k), k)))"

definition sched_resume :: "nat \<Rightarrow> bool \<Rightarrow> ('a, 'f) kernel \<Rightarrow> ('a, 'f) kernel" where
  "sched_resume c saved k = upd_cpu c (\<lambda>u. u\<lparr>intena := saved\<rparr>) k"

definition yield :: "nat \<Rightarrow> ('a, 'f) kernel \<Rightarrow> (bool \<times> ('a, 'f) kernel) run" where
  "yield c k = with_proc c k (\<lambda>i.
     sched c (upd_proc i (\<lambda>p. p\<lparr>state := RUNNABLE\<rparr>) (acquire (ProcLock i) k)))"

definition yield_resume :: "nat \<Rightarrow> bool \<Rightarrow> ('a, 'f) kernel \<Rightarrow> ('a, 'f) kernel run" where
  "yield_resume c saved k = with_proc c k (\<lambda>i. Some (Ok (release (ProcLock i) (sched_resume c saved k))))"

definition sleep :: "nat \<Rightarrow> chan \<Rightarrow> lock \<Rightarrow> ('a, 'f) kernel \<Rightarrow> (bool \<times> ('a, 'f) kernel) run" where
  "sleep c ch lk k = with_proc c k (\<lambda>i.
     let k1 = (if lk \<noteq> ProcLock i then release lk (acquire (ProcLock i) k) else k)
     in sched c (upd_proc i (\<lambda>p. p\<lparr>chan := Some ch, state := SLEEPING\<rparr>) k1))"

definition sleep_resume :: "nat \<Rightarrow> lock \<Rightarrow> bool \<Rightarrow> ('a, 'f) kernel \<Rightarrow> ('a, 'f) kernel run" where
  "sleep_resume c lk saved k = with_proc c k (\<lambda>i.
     let k1 = upd_proc i (\<lambda>p. p\<lparr>chan := None\<rparr>) (sched_resume c saved k)
     in Some (Ok (if lk \<noteq> ProcLock i then acquire lk (release (ProcLock i) k1) else k1)))"

primrec wakeup_loop :: "chan \<Rightarrow> nat list \<Rightarrow> ('a, 'f) kernel \<Rightarrow> ('a, 'f) kernel" where
  "wakeup_loop ch [] k = k"
| "wakeup_loop ch (i # is) k =
     (let k1 = acquire (ProcLock i) k;
          k2 = (if state (proc k1 ! i) = SLEEPING \<and> chan (proc k1 ! i) = Some ch
                then upd_proc i (\<lambda>p. p\<lparr>state := RUNNABLE\<rparr>) k1 else k1)
      in wakeup_loop ch is (release (ProcLock i) k2))"

definition wakeup :: "chan \<Rightarrow> ('a, 'f) kernel \<Rightarrow> ('a, 'f) kernel" where
  "wakeup ch k = wakeup_loop ch (slots k) k"

definition wakeup1 :: "nat \<Rightarrow> ('a, 'f) kernel \<Rightarrow> ('a, 'f) kernel run" where
  "wakeup1 i k =
     (if \<not> holding (ProcLock i) k then Some (Panic ''wakeup1'')
      else if chan (proc k ! i) = Some (ProcChan i) \<and> state (proc k ! i) = SLEEPING
      then Some (Ok (upd_proc i (\<lambda>p. p\<lparr>state := RUNNABLE\<rparr>) k))
      else Some (Ok k))"

primrec kill_loop :: "u32 \<Rightarrow> nat list \<Rightarrow> ('a, 'f) kernel \<Rightarrow> int \<times> ('a, 'f) kernel" where
  "kill_loop q [] k = (-1, k)"
| "kill_loop q (i # is) k =
     (let k1 = acquire (ProcLock i) k
      in if pid (proc k1 ! i) = q then
           let k2 = upd_proc i (\<lambda>p. p\<lparr>killed := True\<rparr>) k1;
               k3 = (if state (proc k2 ! i) = SLEEPING then upd_proc i (\<lambda>p. p\<lparr>state := RUNNABLE\<rparr>) k2 else k2)
           in (0, release (ProcLock i) k3)
         else kill_loop q is (release (ProcLock i) k1))"

definition kill :: "u32 \<Rightarrow> ('a, 'f) kernel \<Rightarrow> int \<times> ('a, 'f) kernel" where
  "kill q k = kill_loop q (slots k) k"

section \<open>Exit and wait\<close>

text \<open>\<^verbatim>\<open>reparent\<close>: \<open>init\<close> is the value of \<^verbatim>\<open>initproc\<close>.\<close>

primrec reparent_loop :: "nat \<Rightarrow> nat list \<Rightarrow> ('a, 'f) kernel \<Rightarrow> ('a, 'f) kernel" where
  "reparent_loop p [] k = k"
| "reparent_loop p (i # is) k =
     reparent_loop p is
       (if parent (proc k ! i) = Some p then
          let k1 = acquire (ProcLock i) k;
              k2 = upd_proc i (\<lambda>q. q\<lparr>parent := initproc k1\<rparr>) k1
          in release (ProcLock i) k2
        else k)"

definition reparent :: "nat \<Rightarrow> ('a, 'f) kernel \<Rightarrow> ('a, 'f) kernel" where
  "reparent p k = reparent_loop p (slots k) k"

fun close_files :: "('a, 'f) outside \<Rightarrow> u64 list \<Rightarrow> 'f \<Rightarrow> u64 list \<times> 'f" where
  "close_files E [] s = ([], s)"
| "close_files E (f # fs) s =
     (let (g, s1) = (if f \<noteq> 0 then (0, fileclose E f s) else (f, s));
          (gs, s2) = close_files E fs s1
      in (g # gs, s2))"

text \<open>
  \<^verbatim>\<open>exit\<close> up to the context switch; it is never resumed (\<^verbatim>\<open>panic("zombie exit")\<close>). \<open>exit_zombie\<close> is the part from the
  second \<^verbatim>\<open>acquire\<close> of the parent's lock on, for process \<open>i\<close> with \<^verbatim>\<open>original_parent\<close> \<open>op\<close>.
\<close>

definition exit_files :: "('a, 'f) outside \<Rightarrow> nat \<Rightarrow> ('a, 'f) kernel \<Rightarrow> ('a, 'f) kernel" where
  "exit_files E i k =
     (let (fs, f1) = close_files E (ofile (proc k ! i)) (fsys k);
          f2 = end_op E (iput E (cwd (proc k ! i)) (begin_op E f1))
      in upd_proc i (\<lambda>p. p\<lparr>ofile := fs, cwd := 0\<rparr>) (k\<lparr>fsys := f2\<rparr>))"

definition exit_zombie :: "nat \<Rightarrow> nat \<Rightarrow> nat \<Rightarrow> u32 \<Rightarrow> ('a, 'f) kernel \<Rightarrow> (bool \<times> ('a, 'f) kernel) run" where
  "exit_zombie c i op status k4 =
     (let k5 = reparent i (acquire (ProcLock i) (acquire (ProcLock op) k4)) in
      kbind (wakeup1 op k5) (\<lambda>k6.
      let k7 = upd_proc i (\<lambda>p. p\<lparr>xstate := status, state := ZOMBIE\<rparr>) k6
      in sched c (release (ProcLock op) k7)))"

definition exit :: "('a, 'f) outside \<Rightarrow> nat \<Rightarrow> u32 \<Rightarrow> ('a, 'f) kernel \<Rightarrow> (bool \<times> ('a, 'f) kernel) run" where
  "exit E c status k = with_proc c k (\<lambda>i.
     if initproc k = Some i then Some (Panic ''init exiting'')
     else
       let k1 = exit_files E i k in
       case initproc k1 of
         None \<Rightarrow> None
       | Some ini \<Rightarrow>
           kbind (wakeup1 ini (acquire (ProcLock ini) k1)) (\<lambda>k2.
           let k3 = acquire (ProcLock i) (release (ProcLock ini) k2);
               original_parent = parent (proc k3 ! i);
               k4 = release (ProcLock i) k3
           in case original_parent of None \<Rightarrow> None | Some op \<Rightarrow> exit_zombie c i op status k4))"

definition word_bytes :: "u32 \<Rightarrow> u8 list" where
  "word_bytes w = map (\<lambda>j. ucast (drop_bit (8 * j) w)) [0..<4]"

text \<open>
  \<^verbatim>\<open>wait\<close> by process \<open>i\<close>: what it does with the zombie child \<open>j\<close>, and its scan with the value it returns, if it does, and
  \<^verbatim>\<open>havekids\<close> otherwise.
\<close>

definition wait_reap :: "('a, 'f) outside \<Rightarrow> nat \<Rightarrow> u64 \<Rightarrow> nat \<Rightarrow> ('a, 'f) kernel \<Rightarrow> (u32 \<times> ('a, 'f) kernel) run" where
  "wait_reap E i addr j k1 =
     (let q = pid (proc k1 ! j) in
      kbind (if addr \<noteq> 0 then lift_mem k1 (copyout (o_kalloc E) (pagetable (proc k1 ! i)) addr
                 (word_bytes (xstate (proc k1 ! j))) 4 (mem k1))
             else Some (Ok (0, k1)))
        (\<lambda>(r, k2).
           if r < 0 then Some (Ok (-1, release (ProcLock i) (release (ProcLock j) k2)))
           else kbind (freeproc E j k2) (\<lambda>k3. Some (Ok (q, release (ProcLock i) (release (ProcLock j) k3))))))"

primrec wait_scan :: "('a, 'f) outside \<Rightarrow> nat \<Rightarrow> u64 \<Rightarrow> nat list \<Rightarrow> bool \<Rightarrow> ('a, 'f) kernel \<Rightarrow>
    ((u32 option \<times> bool) \<times> ('a, 'f) kernel) run" where
  "wait_scan E i addr [] havekids k = Some (Ok ((None, havekids), k))"
| "wait_scan E i addr (j # js) havekids k =
     (if parent (proc k ! j) = Some i then
        let k1 = acquire (ProcLock j) k in
        if state (proc k1 ! j) = ZOMBIE then
          kbind (wait_reap E i addr j k1) (\<lambda>(r, k2). Some (Ok ((Some r, True), k2)))
        else wait_scan E i addr js True (release (ProcLock j) k1)
      else wait_scan E i addr js havekids k)"

text \<open>One round of the loop of \<^verbatim>\<open>wait\<close>: it returns, or sleeps (with the \<^verbatim>\<open>intena\<close> that \<^verbatim>\<open>sched\<close> saved).\<close>

datatype waited = Waited u32 | Asleep bool

definition wait_round :: "('a, 'f) outside \<Rightarrow> nat \<Rightarrow> u64 \<Rightarrow> ('a, 'f) kernel \<Rightarrow> (waited \<times> ('a, 'f) kernel) run" where
  "wait_round E c addr k = with_proc c k (\<lambda>i.
     kbind (wait_scan E i addr (slots k) False k) (\<lambda>((r, havekids), k1).
     case r of
       Some q \<Rightarrow> Some (Ok (Waited q, k1))
     | None \<Rightarrow>
         if \<not> havekids \<or> killed (proc k1 ! i) then Some (Ok (Waited (-1), release (ProcLock i) k1))
         else kbind (sleep c (ProcChan i) (ProcLock i) k1) (\<lambda>(b, k2). Some (Ok (Asleep b, k2)))))"

definition wait :: "('a, 'f) outside \<Rightarrow> nat \<Rightarrow> u64 \<Rightarrow> ('a, 'f) kernel \<Rightarrow> (waited \<times> ('a, 'f) kernel) run" where
  "wait E c addr k = with_proc c k (\<lambda>i. wait_round E c addr (acquire (ProcLock i) k))"

text \<open>\<^verbatim>\<open>wait\<close> when the scheduler resumes it in \<^verbatim>\<open>sleep\<close>.\<close>

definition wait_resume :: "('a, 'f) outside \<Rightarrow> nat \<Rightarrow> u64 \<Rightarrow> bool \<Rightarrow> ('a, 'f) kernel \<Rightarrow> (waited \<times> ('a, 'f) kernel) run" where
  "wait_resume E c addr saved k = with_proc c k (\<lambda>i.
     kbind (sleep_resume c (ProcLock i) saved k) (wait_round E c addr))"

section \<open>The scheduler\<close>

text \<open>The body of the scheduler's loop before \<^verbatim>\<open>swtch\<close> (whether it switches) and after it.\<close>

definition scheduler_pick :: "nat \<Rightarrow> nat \<Rightarrow> ('a, 'f) kernel \<Rightarrow> bool \<times> ('a, 'f) kernel" where
  "scheduler_pick c i k =
     (let k1 = acquire (ProcLock i) k
      in if state (proc k1 ! i) = RUNNABLE then
           let k2 = upd_proc i (\<lambda>p. p\<lparr>state := RUNNING\<rparr>) k1;
               k3 = upd_cpu c (\<lambda>u. u\<lparr>cproc := Some i\<rparr>) k2
           in (True, upd_cpu c (\<lambda>u. u\<lparr>chart := kvminithart_proc (k_pagetable (proc k3 ! i)) (chart u)\<rparr>) k3)
         else (False, release (ProcLock i) k1))"

definition scheduler_back :: "nat \<Rightarrow> nat \<Rightarrow> ('a, 'f) kernel \<Rightarrow> ('a, 'f) kernel" where
  "scheduler_back c i k =
     (let k1 = upd_cpu c (\<lambda>u. u\<lparr>chart := kvminithart (kernel_pagetable k) (chart u)\<rparr>) k;
          k2 = upd_cpu c (\<lambda>u. u\<lparr>cproc := None\<rparr>) k1
      in release (ProcLock i) k2)"

text \<open>
  One pass over the table; \<open>run i\<close> is what happens from the switch to process \<open>i\<close> until it switches back. The result tells
  whether a process ran (otherwise the hart waits for an interrupt).
\<close>

primrec scheduler_pass :: "nat \<Rightarrow> (nat \<Rightarrow> ('a, 'f) kernel \<Rightarrow> ('a, 'f) kernel) \<Rightarrow> nat list \<Rightarrow> bool \<Rightarrow> ('a, 'f) kernel \<Rightarrow>
    bool \<times> ('a, 'f) kernel" where
  "scheduler_pass c run [] found k = (found, k)"
| "scheduler_pass c run (i # is) found k =
     (let (sw, k1) = scheduler_pick c i k
      in if sw then scheduler_pass c run is True (scheduler_back c i (run i k1))
         else scheduler_pass c run is found k1)"

text \<open>\<^verbatim>\<open>forkret\<close> up to \<^verbatim>\<open>usertrapret\<close>, which does not return.\<close>

definition forkret :: "('a, 'f) outside \<Rightarrow> nat \<Rightarrow> ('a, 'f) kernel \<Rightarrow> ('a, 'f) kernel run" where
  "forkret E c k = with_proc c k (\<lambda>i.
     let k1 = release (ProcLock i) k
     in Some (Ok (if first k1 then k1\<lparr>first := False, fsys := fsinit E (fsys k1)\<rparr> else k1)))"

section \<open>Copying and listing\<close>

definition either_copyout :: "('a, 'f) outside \<Rightarrow> nat \<Rightarrow> bool \<Rightarrow> u64 \<Rightarrow> u8 list \<Rightarrow> u64 \<Rightarrow> ('a, 'f) kernel \<Rightarrow>
    (int \<times> ('a, 'f) kernel) run" where
  "either_copyout E c user_dst dst src len k =
     (if user_dst then
        with_proc c k (\<lambda>i. lift_mem k (copyout (o_kalloc E) (pagetable (proc k ! i)) dst src len (mem k)))
      else Some (Ok (0, k\<lparr>mem := store_bytes dst (take (unat len) src) (mem k)\<rparr>)))"

text \<open>The bytes that reach \<^verbatim>\<open>dst\<close> are part of the result.\<close>

definition either_copyin :: "('a, 'f) outside \<Rightarrow> nat \<Rightarrow> bool \<Rightarrow> u64 \<Rightarrow> u64 \<Rightarrow> ('a, 'f) kernel \<Rightarrow>
    (int \<times> u8 list \<times> ('a, 'f) kernel) run" where
  "either_copyin E c user_src src len k =
     (if user_src then
        with_proc c k (\<lambda>i.
          let k1 = upd_cpu c (\<lambda>u. u\<lparr>sstatus_SUM := True\<rparr>) k in
          kbind (Some (copyin_new E (sstatus_SUM (mycpu c k1)) (pagetable (proc k1 ! i)) src len (mem k1)))
            (\<lambda>(ans, bs). Some (Ok (ans, bs, upd_cpu c (\<lambda>u. u\<lparr>sstatus_SUM := False\<rparr>) k1))))
      else Some (Ok (0, load_bytes src (unat len) (mem k), k)))"

fun state_name :: "procstate \<Rightarrow> string" where
  "state_name UNUSED = ''unused''"
| "state_name SLEEPING = ''sleep ''"
| "state_name RUNNABLE = ''runble''"
| "state_name RUNNING = ''run   ''"
| "state_name ZOMBIE = ''zombie''"

text \<open>The lines \<^verbatim>\<open>procdump\<close> prints: pid, state and name.\<close>

definition procdump :: "('a, 'f) kernel \<Rightarrow> (u32 \<times> string \<times> string) list" where
  "procdump k = map (\<lambda>p. (pid p, state_name (state p), pname p)) (filter (\<lambda>p. state p \<noteq> UNUSED) (proc k))"

end
