(* ===== verification/Proc_Inv.thy ===== *)
theory Proc_Inv
  imports Proc
begin

text \<open>
  What the functions of \<^verbatim>\<open>proc.c\<close> do to the process table, the harts interleaved by the scheduler, and the invariant of
  every reachable state: the tree of processes is sound, pids are unique, and each hart has the page table of the
  process it runs.
\<close>

section \<open>Frames\<close>

lemma lock_fields [simp]:
  "mem (acquire l k) = mem k" "proc (acquire l k) = proc k" "cpus (acquire l k) = cpus k"
  "initproc (acquire l k) = initproc k" "nextpid (acquire l k) = nextpid k"
  "kernel_pagetable (acquire l k) = kernel_pagetable k" "fsys (acquire l k) = fsys k" "first (acquire l k) = first k"
  "mem (release l k) = mem k" "proc (release l k) = proc k" "cpus (release l k) = cpus k"
  "initproc (release l k) = initproc k" "nextpid (release l k) = nextpid k"
  "kernel_pagetable (release l k) = kernel_pagetable k" "fsys (release l k) = fsys k" "first (release l k) = first k"
  by (simp_all add: acquire_def release_def)

lemma upd_proc_fields [simp]:
  "mem (upd_proc i f k) = mem k" "proc (upd_proc i f k) = (proc k)[i := f (proc k ! i)]" "cpus (upd_proc i f k) = cpus k"
  "initproc (upd_proc i f k) = initproc k" "nextpid (upd_proc i f k) = nextpid k"
  "kernel_pagetable (upd_proc i f k) = kernel_pagetable k" "fsys (upd_proc i f k) = fsys k"
  "lock_log (upd_proc i f k) = lock_log k"
  by (simp_all add: upd_proc_def)

lemma upd_cpu_fields [simp]:
  "mem (upd_cpu c f k) = mem k" "proc (upd_cpu c f k) = proc k" "cpus (upd_cpu c f k) = (cpus k)[c := f (cpus k ! c)]"
  "initproc (upd_cpu c f k) = initproc k" "nextpid (upd_cpu c f k) = nextpid k"
  "kernel_pagetable (upd_cpu c f k) = kernel_pagetable k" "fsys (upd_cpu c f k) = fsys k"
  "lock_log (upd_cpu c f k) = lock_log k"
  by (simp_all add: upd_cpu_def)

lemma lock_log_fields [simp]:
  "lock_log (acquire l k) = lock_log k @ [Acquire l]" "lock_log (release l k) = lock_log k @ [Release l]"
  by (simp_all add: acquire_def release_def)

lemma with_proc_Ok [simp]: "with_proc c k f = Some (Ok x) \<longleftrightarrow> (\<exists>i. myproc c k = Some i \<and> f i = Some (Ok x))"
  by (simp add: with_proc_def split: option.splits)

lemma lift_mem_Ok [simp]: "lift_mem k r = Some (Ok (x, k')) \<longleftrightarrow> (\<exists>s. r = Ok (x, s) \<and> k' = k\<lparr>mem := s\<rparr>)"
  by (auto simp: lift_mem_def split: res.splits)

lemma lift_mem_unit_Ok [simp]: "lift_mem_unit k r = Some (Ok k') \<longleftrightarrow> (\<exists>s. r = Ok s \<and> k' = k\<lparr>mem := s\<rparr>)"
  by (auto simp: lift_mem_unit_def split: res.splits)

text \<open>The part of the state that memory, files and the log are not part of.\<close>

definition same_table :: "('a, 'f) kernel \<Rightarrow> ('a, 'f) kernel \<Rightarrow> bool" where
  "same_table k k' \<longleftrightarrow> cpus k' = cpus k \<and> initproc k' = initproc k \<and> kernel_pagetable k' = kernel_pagetable k \<and>
     length (proc k') = length (proc k)"

lemma slots_simps [simp]: "set (slots k) = {..<length (proc k)}" "distinct (slots k)"
  by (auto simp: slots_def)

lemma freeproc_Ok:
  assumes "freeproc E i k = Some (Ok k')"
  shows "\<exists>s. k' = upd_proc i freeproc_fields (k\<lparr>mem := s\<rparr>)"
  using assms by (auto simp: freeproc_def Let_def)

lemma find_unused_result:
  "find_unused is k = (r, k') \<Longrightarrow>
     (\<exists>ls. k' = k\<lparr>lock_log := ls\<rparr>) \<and>
     (case r of None \<Rightarrow> \<forall>i\<in>set is. state (proc k ! i) \<noteq> UNUSED | Some i \<Rightarrow> i \<in> set is \<and> state (proc k ! i) = UNUSED)"
proof (induction "is" arbitrary: k)
  case Nil
  then show ?case by (auto intro: exI [of _ "lock_log k"])
next
  case (Cons i js)
  show ?case
  proof (cases "state (proc k ! i) = UNUSED")
    case True
    with Cons.prems show ?thesis by (auto simp: acquire_def)
  next
    case False
    with Cons.prems have "find_unused js (release (ProcLock i) (acquire (ProcLock i) k)) = (r, k')" by simp
    from Cons.IH [OF this] show ?thesis using False
      by (auto simp: acquire_def release_def split: option.splits)
  qed
qed

text \<open>
  \<^verbatim>\<open>allocproc\<close>: without a free entry nothing changes; otherwise a pid is used up and only a free entry changes, which
  stays \<open>UNUSED\<close> and keeps \<^verbatim>\<open>parent\<close> (or loses it) and, on success, \<^verbatim>\<open>killed\<close> and \<^verbatim>\<open>chan\<close>.
\<close>

definition taken_slot :: "nat \<Rightarrow> ('a, 'f) kernel \<Rightarrow> ('a, 'f) kernel \<Rightarrow> bool" where
  "taken_slot i k k' \<longleftrightarrow> i < length (proc k) \<and> state (proc k ! i) = UNUSED \<and> nextpid k' = nextpid k + 1 \<and> same_table k k' \<and>
     (\<forall>j. j \<noteq> i \<longrightarrow> proc k' ! j = proc k ! j)"

definition new_entry :: "u32 \<Rightarrow> proc \<Rightarrow> proc \<Rightarrow> bool" where
  "new_entry q p p' \<longleftrightarrow> (\<exists>tf kpt pt ctx. tf \<noteq> 0 \<and> kpt \<noteq> 0 \<and> pt \<noteq> 0 \<and>
     p' = p\<lparr>pid := q, trapframe := tf, k_pagetable := kpt, pagetable := pt, kctx := ctx\<rparr>)"

lemma new_entryI:
  "tf \<noteq> 0 \<Longrightarrow> kpt \<noteq> 0 \<Longrightarrow> pt \<noteq> 0 \<Longrightarrow>
     new_entry q p (p\<lparr>pid := q, trapframe := tf, k_pagetable := kpt, pagetable := pt, kctx := ctx\<rparr>)"
  unfolding new_entry_def by blast

definition failed_entry :: "proc \<Rightarrow> proc \<Rightarrow> bool" where
  "failed_entry p p' \<longleftrightarrow> state p' = UNUSED \<and> parent p' \<in> {None, parent p}"

lemma allocproc_fail_result:
  assumes "allocproc_fail E i k0 = Some (Ok (r, k'))" "i < length (proc k)" "state (proc k ! i) = UNUSED"
    "nextpid k0 = nextpid k + 1" "same_table k k0" "\<forall>j. j \<noteq> i \<longrightarrow> proc k0 ! j = proc k ! j"
  shows "r = None \<and> taken_slot i k k' \<and> failed_entry (proc k ! i) (proc k' ! i)"
  using assms
  by (auto simp: allocproc_fail_def taken_slot_def failed_entry_def same_table_def freeproc_fields_def dest!: freeproc_Ok)

lemma allocproc_found_result:
  assumes a: "allocproc_found E i k = Some (Ok (r, k'))" and i: "i < length (proc k)" "state (proc k ! i) = UNUSED"
  shows "taken_slot i k k' \<and>
    (case r of None \<Rightarrow> failed_entry (proc k ! i) (proc k' ! i) | Some j \<Rightarrow> j = i \<and> new_entry (nextpid k) (proc k ! i) (proc k' ! i))"
proof -
  obtain tf s4 where ka: "o_kalloc E (mem k) = (tf, s4)" by fastforce
  define k4 where "k4 = upd_proc i (\<lambda>p. p\<lparr>trapframe := tf\<rparr>) ((upd_proc i (\<lambda>p. p\<lparr>pid := nextpid k\<rparr>) (snd (allocpid k)))\<lparr>mem := s4\<rparr>)"
  have k4: "nextpid k4 = nextpid k + 1" "same_table k k4" "proc k4 = (proc k)[i := (proc k ! i)\<lparr>pid := nextpid k, trapframe := tf\<rparr>]"
    using i by (auto simp: k4_def allocpid_def Let_def same_table_def)
  show ?thesis
  proof (cases "tf = 0")
    case True
    then have "r = None" "k' = release (ProcLock i) k4" using a ka by (auto simp: allocproc_found_def Let_def allocpid_def k4_def)
    then show ?thesis using i k4 by (auto simp: taken_slot_def failed_entry_def same_table_def)
  next
    case False
    from a False ka obtain kpt s5 where kpt: "kvminit_proc (o_kalloc E) (layout E) (mem k4) = Ok (kpt, s5)"
      by (auto simp: allocproc_found_def Let_def allocpid_def k4_def)
    define k6 where "k6 = upd_proc i (\<lambda>p. p\<lparr>k_pagetable := kpt\<rparr>) (k4\<lparr>mem := s5\<rparr>)"
    have k6: "nextpid k6 = nextpid k + 1" "same_table k k6" "\<forall>j. j \<noteq> i \<longrightarrow> proc k6 ! j = proc k ! j"
        "proc k6 ! i = (proc k ! i)\<lparr>pid := nextpid k, trapframe := tf, k_pagetable := kpt\<rparr>"
      using k4 i by (auto simp: k6_def same_table_def)
    show ?thesis
    proof (cases "kpt = 0")
      case True
      with a False ka kpt have "allocproc_fail E i k6 = Some (Ok (r, k'))"
        by (auto simp: allocproc_found_def Let_def allocpid_def k4_def k6_def)
      from allocproc_fail_result [OF this i k6(1-3)] show ?thesis by simp
    next
      case kn: False
      with a False ka kpt obtain s7 where "allocproc_user E i (k6\<lparr>mem := s7\<rparr>) = Some (Ok (r, k'))"
        by (auto simp: allocproc_found_def Let_def allocpid_def k4_def k6_def)
      then obtain pt s8 where last: "(if pt = 0 then allocproc_fail E i (upd_proc i (\<lambda>p. p\<lparr>pagetable := pt\<rparr>) (k6\<lparr>mem := s8\<rparr>))
           else Some (Ok (Some i, upd_proc i (\<lambda>p. p\<lparr>kctx :=
             \<lparr>ra = forkret_addr E, sp = kstack p + PGSIZE, callee_saved = replicate 12 0\<rparr>\<rparr>)
               (upd_proc i (\<lambda>p. p\<lparr>pagetable := pt\<rparr>) (k6\<lparr>mem := s8\<rparr>))))) = Some (Ok (r, k'))"
        unfolding allocproc_user_def by (auto simp: Let_def simp del: if_split split del: if_split)
      show ?thesis
      proof (cases "pt = 0")
        case True
        with last have "allocproc_fail E i (upd_proc i (\<lambda>p. p\<lparr>pagetable := pt\<rparr>) (k6\<lparr>mem := s8\<rparr>)) = Some (Ok (r, k'))" by simp
        from allocproc_fail_result [OF this i] show ?thesis using k6 by (auto simp: same_table_def)
      next
        case pn: False
        then show ?thesis using last k6 i False kn by (auto simp: taken_slot_def same_table_def intro!: new_entryI)
      qed
    qed
  qed
qed

lemma allocproc_result:
  assumes "allocproc E k = Some (Ok (r, k'))"
  shows "case r of
      None \<Rightarrow> proc k' = proc k \<and> nextpid k' = nextpid k \<and> same_table k k' \<or>
        (\<exists>i. taken_slot i k k' \<and> failed_entry (proc k ! i) (proc k' ! i))
    | Some i \<Rightarrow> taken_slot i k k' \<and> new_entry (nextpid k) (proc k ! i) (proc k' ! i)"
proof -
  obtain r1 k1 where f: "find_unused (slots k) k = (r1, k1)" by fastforce
  from find_unused_result [OF f] obtain ls where k1: "k1 = k\<lparr>lock_log := ls\<rparr>"
    and r1: "case r1 of None \<Rightarrow> \<forall>i\<in>set (slots k). state (proc k ! i) \<noteq> UNUSED | Some i \<Rightarrow> i \<in> set (slots k) \<and> state (proc k ! i) = UNUSED"
    by blast
  show ?thesis
  proof (cases r1)
    case None
    then show ?thesis using assms f k1 by (auto simp: allocproc_def same_table_def)
  next
    case (Some i)
    then have i: "i < length (proc k1)" "state (proc k1 ! i) = UNUSED" using r1 k1 by (auto simp: slots_def)
    have "allocproc_found E i k1 = Some (Ok (r, k'))" using assms f Some by (simp add: allocproc_def)
    from allocproc_found_result [OF this i] show ?thesis
      by (auto simp: k1 taken_slot_def same_table_def split: option.splits)
  qed
qed

text \<open>
  \<^verbatim>\<open>fork\<close>: on failure the table is unchanged or one free entry changed and stays free; on success the result is the pid of
  the new child.
\<close>

lemma fork_result:
  assumes a: "fork E c k = Some (Ok (r, k'))"
  obtains (none) i where "myproc c k = Some i" "r = -1" "proc k' = proc k" "nextpid k' = nextpid k" "same_table k k'"
  | (failed) i j where "myproc c k = Some i" "r = -1" "taken_slot j k k'" "failed_entry (proc k ! j) (proc k' ! j)"
  | (child) i j where "myproc c k = Some i" "r = nextpid k" "taken_slot j k k'" "state (proc k' ! j) = RUNNABLE"
      "parent (proc k' ! j) = Some i" "pid (proc k' ! j) = nextpid k" "killed (proc k' ! j) = killed (proc k ! j)"
proof -
  from a obtain i r1 k1 where i: "myproc c k = Some i" and al: "allocproc E k = Some (Ok (r1, k1))"
    by (auto simp: fork_def)
  note res = allocproc_result [OF al]
  show ?thesis
  proof (cases r1)
    case None
    then have "r = -1" "k' = k1" using a i al by (auto simp: fork_def)
    then show ?thesis using res None i none failed by (auto simp: same_table_def)
  next
    case (Some j)
    then have t: "taken_slot j k k1" and n: "new_entry (nextpid k) (proc k ! j) (proc k1 ! j)" using res by simp_all
    from a i al Some have "\<exists>s. fork_fail E j (k1\<lparr>mem := s\<rparr>) = Some (Ok (r, k')) \<or> fork_child E i j (k1\<lparr>mem := s\<rparr>) = (r, k')"
      by (auto simp: fork_def Let_def split: if_splits)
    then obtain s where "fork_fail E j (k1\<lparr>mem := s\<rparr>) = Some (Ok (r, k')) \<or> fork_child E i j (k1\<lparr>mem := s\<rparr>) = (r, k')" ..
    then show ?thesis
    proof
      assume "fork_fail E j (k1\<lparr>mem := s\<rparr>) = Some (Ok (r, k'))"
      then have "r = -1" "taken_slot j k k'" "failed_entry (proc k ! j) (proc k' ! j)"
        using t by (auto simp: fork_fail_def taken_slot_def same_table_def failed_entry_def freeproc_fields_def dest!: freeproc_Ok)
      then show ?thesis using failed i by blast
    next
      assume "fork_child E i j (k1\<lparr>mem := s\<rparr>) = (r, k')"
      then have "taken_slot j k k'" "r = nextpid k" "state (proc k' ! j) = RUNNABLE" "parent (proc k' ! j) = Some i"
          "pid (proc k' ! j) = nextpid k" "killed (proc k' ! j) = killed (proc k ! j)"
        using t n by (auto simp: fork_child_def Let_def taken_slot_def same_table_def new_entry_def split: prod.splits)
      then show ?thesis using child [OF i] by blast
    qed
  qed
qed

section \<open>Sleeping, waking and killing\<close>

lemma sched_Ok: "sched c k = Some (Ok (b, k')) \<Longrightarrow> k' = k"
  by (auto simp: sched_def split: if_splits)

text \<open>Updates of the log are written last.\<close>

lemma log_last [simp]: "k\<lparr>lock_log := ls, proc := ps\<rparr> = k\<lparr>proc := ps, lock_log := ls\<rparr>"
  "k\<lparr>lock_log := ls, mem := m\<rparr> = k\<lparr>mem := m, lock_log := ls\<rparr>"
  by simp_all

lemma yield_Ok:
  assumes "yield c k = Some (Ok (b, k'))" "myproc c k = Some i"
  shows "\<exists>ls. k' = k\<lparr>proc := (proc k)[i := (proc k ! i)\<lparr>state := RUNNABLE\<rparr>], lock_log := ls\<rparr>"
  using assms by (auto simp: yield_def acquire_def upd_proc_def dest!: sched_Ok)

lemma sleep_Ok:
  assumes "sleep c ch lk k = Some (Ok (b, k'))" "myproc c k = Some i"
  shows "\<exists>ls. k' = k\<lparr>proc := (proc k)[i := (proc k ! i)\<lparr>chan := Some ch, state := SLEEPING\<rparr>], lock_log := ls\<rparr>"
  using assms
  by (auto simp: sleep_def acquire_def release_def upd_proc_def Let_def dest!: sched_Ok split: if_splits intro: exI [of _ "lock_log k"])

lemma growproc_Ok:
  assumes "growproc E c n k = Some (Ok (r, k'))"
  obtains i s x where "myproc c k = Some i" "k' = k\<lparr>mem := s, proc := (proc k)[i := (proc k ! i)\<lparr>sz := x\<rparr>]\<rparr>"
proof -
  from assms obtain i s and r1 :: "u32 option" where i: "myproc c k = Some i"
    and k': "(case r1 of None \<Rightarrow> Some (Ok (-1, k\<lparr>mem := s\<rparr>))
      | Some x \<Rightarrow> Some (Ok (0, upd_proc i (\<lambda>p. p\<lparr>sz := ucast x\<rparr>) (k\<lparr>mem := s\<rparr>)))) = Some (Ok (r, k'))"
    by (auto simp: growproc_def Let_def simp del: if_split split del: if_split)
  show ?thesis
  proof (cases r1)
    case None
    have same: "k\<lparr>mem := s\<rparr> = k\<lparr>mem := s, proc := (proc k)[i := (proc k ! i)\<lparr>sz := sz (proc k ! i)\<rparr>]\<rparr>" by simp
    have "k' = k\<lparr>mem := s\<rparr>" using None k' by simp
    from trans [OF this same] show ?thesis by (rule that [OF i])
  next
    case (Some x)
    have "k' = k\<lparr>mem := s, proc := (proc k)[i := (proc k ! i)\<lparr>sz := ucast x\<rparr>]\<rparr>" using Some k' by (simp add: upd_proc_def)
    then show ?thesis by (rule that [OF i])
  qed
qed

definition wake_if :: "chan \<Rightarrow> proc \<Rightarrow> proc" where
  "wake_if ch p = (if state p = SLEEPING \<and> chan p = Some ch then p\<lparr>state := RUNNABLE\<rparr> else p)"

lemma map_table_loop:
  assumes "\<And>k. F [] k = k"
    and "\<And>i is k. i < length (proc k) \<Longrightarrow> \<exists>ls. F (i # is) k = F is (k\<lparr>proc := (proc k)[i := f (initproc k) (proc k ! i)], lock_log := ls\<rparr>)"
  shows "set is \<subseteq> {..<length (proc k)} \<Longrightarrow> distinct is \<Longrightarrow>
    \<exists>ls. F is k = k\<lparr>proc := map (\<lambda>i. if i \<in> set is then f (initproc k) (proc k ! i) else proc k ! i) [0..<length (proc k)], lock_log := ls\<rparr>"
proof (induction "is" arbitrary: k)
  case Nil
  have "F [] k = k\<lparr>proc := map (\<lambda>i. if i \<in> set [] then f (initproc k) (proc k ! i) else proc k ! i) [0..<length (proc k)], lock_log := lock_log k\<rparr>"
    using assms(1) [of k] by (simp add: map_nth)
  then show ?case ..
next
  case (Cons i js)
  let ?k = "\<lambda>ls. k\<lparr>proc := (proc k)[i := f (initproc k) (proc k ! i)], lock_log := ls\<rparr>"
  obtain ls where 1: "F (i # js) k = F js (?k ls)" using assms(2) [of i k js] Cons.prems by auto
  obtain ls' where 2: "F js (?k ls) = (?k ls)\<lparr>proc := map (\<lambda>j. if j \<in> set js then f (initproc (?k ls)) (proc (?k ls) ! j) else proc (?k ls) ! j)
      [0..<length (proc (?k ls))], lock_log := ls'\<rparr>"
    using Cons.IH [of "?k ls"] Cons.prems by auto
  have "map (\<lambda>j. if j \<in> set js then f (initproc (?k ls)) (proc (?k ls) ! j) else proc (?k ls) ! j) [0..<length (proc (?k ls))] =
    map (\<lambda>j. if j \<in> set (i # js) then f (initproc k) (proc k ! j) else proc k ! j) [0..<length (proc k)]"
    using Cons.prems by (auto simp: nth_list_update)
  then show ?case using 1 2 by (auto intro: exI [of _ ls'])
qed

lemma table_loop_all:
  assumes "\<And>k. F [] k = k"
    and "\<And>i is k. i < length (proc k) \<Longrightarrow> \<exists>ls. F (i # is) k = F is (k\<lparr>proc := (proc k)[i := f (initproc k) (proc k ! i)], lock_log := ls\<rparr>)"
  shows "\<exists>ls. F (slots k) k = k\<lparr>proc := map (f (initproc k)) (proc k), lock_log := ls\<rparr>"
proof -
  have "map (\<lambda>i. if i \<in> set (slots k) then f (initproc k) (proc k ! i) else proc k ! i) [0..<length (proc k)] = map (f (initproc k)) (proc k)"
    by (auto simp: slots_def intro: nth_equalityI)
  then show ?thesis using map_table_loop [of F f "slots k" k, OF assms] by (simp add: slots_def atLeast0LessThan)
qed

lemma same_log: "\<exists>ls. f k = f (k\<lparr>lock_log := ls\<rparr>)"
  by (rule exI [of _ "lock_log k"]) simp

lemma wakeup_result: "\<exists>ls. wakeup ch k = k\<lparr>proc := map (wake_if ch) (proc k), lock_log := ls\<rparr>"
  unfolding wakeup_def
  by (rule table_loop_all [of _ "\<lambda>_. wake_if ch"]) (auto simp: wake_if_def acquire_def release_def upd_proc_def Let_def)

definition adopt :: "nat \<Rightarrow> nat option \<Rightarrow> proc \<Rightarrow> proc" where
  "adopt p ini q = (if parent q = Some p then q\<lparr>parent := ini\<rparr> else q)"

lemma reparent_result: "\<exists>ls. reparent p k = k\<lparr>proc := map (adopt p (initproc k)) (proc k), lock_log := ls\<rparr>"
  unfolding reparent_def
  by (rule table_loop_all [of _ "adopt p"]) (auto simp: adopt_def acquire_def release_def upd_proc_def Let_def intro!: same_log)

definition hit :: "proc \<Rightarrow> proc" where
  "hit p = p\<lparr>killed := True, state := (if state p = SLEEPING then RUNNABLE else state p)\<rparr>"

lemma kill_loop_result:
  "set is \<subseteq> {..<length (proc k)} \<Longrightarrow> kill_loop q is k = (r, k') \<Longrightarrow>
    \<exists>ls. (case find (\<lambda>i. pid (proc k ! i) = q) is of
       None \<Rightarrow> r = -1 \<and> k' = k\<lparr>lock_log := ls\<rparr>
     | Some i \<Rightarrow> r = 0 \<and> k' = k\<lparr>proc := (proc k)[i := hit (proc k ! i)], lock_log := ls\<rparr>)"
proof (induction "is" arbitrary: k)
  case Nil
  then show ?case by (auto intro: exI [of _ "lock_log k"])
next
  case (Cons i js)
  show ?case
  proof (cases "pid (proc k ! i) = q")
    case True
    then show ?thesis using Cons.prems
      by (auto simp: Let_def acquire_def release_def upd_proc_def hit_def)
  next
    case False
    with Cons.prems have "kill_loop q js (release (ProcLock i) (acquire (ProcLock i) k)) = (r, k')" by (simp add: Let_def)
    from Cons.IH [OF _ this] Cons.prems(1) False show ?thesis
      by (auto simp: acquire_def release_def split: option.splits)
  qed
qed

lemma kill_result:
  assumes "kill q k = (r, k')"
  obtains (missing) ls where "\<forall>i<length (proc k). pid (proc k ! i) \<noteq> q" "r = -1" "k' = k\<lparr>lock_log := ls\<rparr>"
  | (found) i ls where "i < length (proc k)" "pid (proc k ! i) = q" "\<forall>j<i. pid (proc k ! j) \<noteq> q" "r = 0"
      "k' = k\<lparr>proc := (proc k)[i := hit (proc k ! i)], lock_log := ls\<rparr>"
proof -
  obtain ls where ls: "case find (\<lambda>i. pid (proc k ! i) = q) (slots k) of
       None \<Rightarrow> r = -1 \<and> k' = k\<lparr>lock_log := ls\<rparr>
     | Some i \<Rightarrow> r = 0 \<and> k' = k\<lparr>proc := (proc k)[i := hit (proc k ! i)], lock_log := ls\<rparr>"
    using kill_loop_result [of "slots k" k q r k'] assms by (auto simp: kill_def)
  show ?thesis
  proof (cases "find (\<lambda>i. pid (proc k ! i) = q) (slots k)")
    case None
    then have "\<forall>i<length (proc k). pid (proc k ! i) \<noteq> q" by (auto simp: find_None_iff)
    then show ?thesis by (rule missing [of ls]) (use ls None in simp_all)
  next
    case (Some i)
    then have "i < length (proc k)" "pid (proc k ! i) = q" "\<forall>j<i. pid (proc k ! j) \<noteq> q"
      by (auto simp: find_Some_iff slots_def)
    then show ?thesis by (rule found [of _ ls]) (use ls Some in simp_all)
  qed
qed

section \<open>Exit and wait\<close>

text \<open>
  The scan of \<^verbatim>\<open>wait\<close>: at the first zombie child it returns -1 (the status could not be copied) or frees the child and
  returns its pid; without one nothing changes.
\<close>

definition reaped :: "u64 \<Rightarrow> nat \<Rightarrow> ('a, 'f) kernel \<Rightarrow> u32 \<Rightarrow> ('a, 'f) kernel \<Rightarrow> bool" where
  "reaped addr j k r k' \<longleftrightarrow> (\<exists>s ls.
     r = pid (proc k ! j) \<and> k' = k\<lparr>mem := s, proc := (proc k)[j := freeproc_fields (proc k ! j)], lock_log := ls\<rparr> \<or>
     addr \<noteq> 0 \<and> r = -1 \<and> k' = k\<lparr>mem := s, lock_log := ls\<rparr>)"

lemma reapedI:
  "reaped addr j k (pid (proc k ! j)) (k\<lparr>mem := s, proc := (proc k)[j := freeproc_fields (proc k ! j)], lock_log := ls\<rparr>)"
  "addr \<noteq> 0 \<Longrightarrow> reaped addr j k (-1) (k\<lparr>mem := s, lock_log := ls\<rparr>)"
  unfolding reaped_def by blast+

lemma wait_reap_result:
  assumes "wait_reap E i addr j k = Some (Ok (r, k'))"
  shows "reaped addr j k r k'"
proof -
  from assms have "\<exists>s. addr \<noteq> 0 \<and> r = -1 \<and> k' = release (ProcLock i) (release (ProcLock j) (k\<lparr>mem := s\<rparr>)) \<or>
      r = pid (proc k ! j) \<and> (\<exists>k3. freeproc E j (k\<lparr>mem := s\<rparr>) = Some (Ok k3) \<and> k' = release (ProcLock i) (release (ProcLock j) k3))"
  proof (cases "addr = 0")
    case True
    with assms show ?thesis by (intro exI [of _ "mem k"]) (auto simp: wait_reap_def Let_def)
  next
    case False
    with assms show ?thesis by (auto simp: wait_reap_def Let_def split: if_splits)
  qed
  then show ?thesis
    by (auto simp: acquire_def release_def upd_proc_def dest!: freeproc_Ok intro: reapedI)
qed

lemma reaped_log: "reaped addr j (k\<lparr>lock_log := ls\<rparr>) r k' \<Longrightarrow> reaped addr j k r k'"
  by (auto simp: reaped_def)

lemma wait_scan_result:
  assumes "wait_scan E i addr js hk k = Some (Ok ((r, hk'), k'))"
  shows "case find (\<lambda>j. parent (proc k ! j) = Some i \<and> state (proc k ! j) = ZOMBIE) js of
       None \<Rightarrow> r = None \<and> (\<exists>ls. k' = k\<lparr>lock_log := ls\<rparr>) \<and> hk' = (hk \<or> (\<exists>j\<in>set js. parent (proc k ! j) = Some i))
     | Some j \<Rightarrow> \<exists>q. r = Some q \<and> reaped addr j k q k'"
  using assms
proof (induction js arbitrary: k hk)
  case Nil
  then show ?case by (auto intro: exI [of _ "lock_log k"])
next
  case (Cons j js)
  show ?case
  proof (cases "parent (proc k ! j) = Some i \<and> state (proc k ! j) = ZOMBIE")
    case True
    with Cons.prems obtain q where "r = Some q" "wait_reap E i addr j (acquire (ProcLock j) k) = Some (Ok (q, k'))"
      by (auto simp: Let_def)
    then have "reaped addr j k q k'" using reaped_log wait_reap_result unfolding acquire_def by blast
    then show ?thesis using True \<open>r = Some q\<close> by simp
  next
    case False
    then obtain ls where "wait_scan E i addr js (hk \<or> parent (proc k ! j) = Some i) (k\<lparr>lock_log := ls\<rparr>) = Some (Ok ((r, hk'), k'))"
      using Cons.prems same_log [of "wait_scan E i addr js hk" k] by (auto simp: acquire_def release_def Let_def split: if_splits)
    from Cons.IH [OF this] False show ?thesis by (auto intro: reaped_log split: option.splits)
  qed
qed

lemma wait_round_result:
  assumes w: "wait_round E c addr k = Some (Ok (r, k'))" and i: "myproc c k = Some i"
  obtains (reap) j q where "find (\<lambda>j. parent (proc k ! j) = Some i \<and> state (proc k ! j) = ZOMBIE) (slots k) = Some j"
      "r = Waited q" "reaped addr j k q k'"
  | (give_up) ls where "find (\<lambda>j. parent (proc k ! j) = Some i \<and> state (proc k ! j) = ZOMBIE) (slots k) = None"
      "r = Waited (-1)" "(\<forall>j<length (proc k). parent (proc k ! j) \<noteq> Some i) \<or> killed (proc k ! i)" "k' = k\<lparr>lock_log := ls\<rparr>"
  | (asleep) b ls where "find (\<lambda>j. parent (proc k ! j) = Some i \<and> state (proc k ! j) = ZOMBIE) (slots k) = None"
      "r = Asleep b" "\<exists>j<length (proc k). parent (proc k ! j) = Some i" "\<not> killed (proc k ! i)"
      "k' = k\<lparr>proc := (proc k)[i := (proc k ! i)\<lparr>chan := Some (ProcChan i), state := SLEEPING\<rparr>], lock_log := ls\<rparr>"
proof -
  from w i obtain r1 hk k1 where s: "wait_scan E i addr (slots k) False k = Some (Ok ((r1, hk), k1))"
    and rest: "(case r1 of Some q \<Rightarrow> Some (Ok (Waited q, k1))
     | None \<Rightarrow> if \<not> hk \<or> killed (proc k1 ! i) then Some (Ok (Waited (-1), release (ProcLock i) k1))
         else kbind (sleep c (ProcChan i) (ProcLock i) k1) (\<lambda>(b, k2). Some (Ok (Asleep b, k2)))) = Some (Ok (r, k'))"
    by (auto simp: wait_round_def)
  note res = wait_scan_result [OF s]
  show ?thesis
  proof (cases "find (\<lambda>j. parent (proc k ! j) = Some i \<and> state (proc k ! j) = ZOMBIE) (slots k)")
    case (Some j)
    then show ?thesis using res rest reap by auto
  next
    case None
    with res obtain ls where ls: "r1 = None" "k1 = k\<lparr>lock_log := ls\<rparr>" "hk = (\<exists>j<length (proc k). parent (proc k ! j) = Some i)"
      by auto
    show ?thesis
    proof (cases "\<not> hk \<or> killed (proc k ! i)")
      case True
      then show ?thesis using give_up [OF None] rest ls by (auto simp: release_def)
    next
      case False
      then obtain b where b: "r = Asleep b" "sleep c (ProcChan i) (ProcLock i) k1 = Some (Ok (b, k'))" using rest ls by auto
      have "myproc c k1 = Some i" using i ls by (simp add: myproc_def mycpu_def)
      from sleep_Ok [OF b(2) this] obtain ls' where
        "k' = k\<lparr>proc := (proc k)[i := (proc k ! i)\<lparr>chan := Some (ProcChan i), state := SLEEPING\<rparr>], lock_log := ls'\<rparr>"
        using ls by auto
      with False ls(3) show ?thesis by (intro asleep [OF None b(1)]) simp_all
    qed
  qed
qed

text \<open>\<^verbatim>\<open>exit\<close> that reaches the scheduler.\<close>

definition wake1 :: "nat \<Rightarrow> proc \<Rightarrow> proc" where
  "wake1 i p = (if chan p = Some (ProcChan i) \<and> state p = SLEEPING then p\<lparr>state := RUNNABLE\<rparr> else p)"

lemma wakeup1_Ok: "wakeup1 i k = Some (Ok k') \<Longrightarrow> k' = k\<lparr>proc := (proc k)[i := wake1 i (proc k ! i)]\<rparr>"
  by (auto simp: wakeup1_def wake1_def upd_proc_def split: if_splits)

lemma exit_zombie_result:
  assumes "exit_zombie c i op status k = Some (Ok (b, k'))" "initproc k = Some ini"
  shows "\<exists>ls. k' = k\<lparr>proc := (let ps2 = map (adopt i (Some ini)) (proc k); ps3 = ps2[op := wake1 op (ps2 ! op)]
     in ps3[i := (ps3 ! i)\<lparr>xstate := status, state := ZOMBIE\<rparr>]), lock_log := ls\<rparr>"
proof -
  let ?k = "acquire (ProcLock i) (acquire (ProcLock op) k)"
  obtain ls where r: "reparent i ?k = ?k\<lparr>proc := map (adopt i (Some ini)) (proc k), lock_log := ls\<rparr>"
    using reparent_result [of i ?k] assms(2) by auto
  from assms(1) obtain k6 where "wakeup1 op (reparent i ?k) = Some (Ok k6)"
    and s: "sched c (release (ProcLock op) (upd_proc i (\<lambda>p. p\<lparr>xstate := status, state := ZOMBIE\<rparr>) k6)) = Some (Ok (b, k'))"
    by (auto simp: exit_zombie_def Let_def)
  from wakeup1_Ok [OF this(1)] sched_Ok [OF s] show ?thesis
    unfolding r by (intro exI [of _ "ls @ [Release (ProcLock op)]"]) (simp add: Let_def acquire_def release_def upd_proc_def)
qed

lemma close_files_zero: "set (fst (close_files E fs s)) \<subseteq> {0}"
proof (induction fs arbitrary: s)
  case (Cons f fs)
  then show ?case by (simp add: Let_def case_prod_beta)
qed simp

lemma exit_result:
  assumes a: "exit E c status k = Some (Ok (b, k'))"
  obtains i ini op f fs ls ps where "myproc c k = Some i" "initproc k = Some ini" "ini \<noteq> i" "parent (proc k ! i) = Some op"
    "set fs \<subseteq> {0}" "ps = (proc k)[i := (proc k ! i)\<lparr>ofile := fs, cwd := 0\<rparr>]"
    "k' = k\<lparr>fsys := f, proc := (let ps1 = ps[ini := wake1 ini (ps ! ini)];
         ps2 = map (adopt i (Some ini)) ps1; ps3 = ps2[op := wake1 op (ps2 ! op)]
       in ps3[i := (ps3 ! i)\<lparr>xstate := status, state := ZOMBIE\<rparr>]), lock_log := ls\<rparr>"
proof -
  from a obtain i where i: "myproc c k = Some i" "initproc k \<noteq> Some i" by (auto simp: exit_def split: if_splits)
  obtain fs f where e: "set fs \<subseteq> {0}" "exit_files E i k = upd_proc i (\<lambda>p. p\<lparr>ofile := fs, cwd := 0\<rparr>) (k\<lparr>fsys := f\<rparr>)"
    using close_files_zero [of E "ofile (proc k ! i)" "fsys k"]
    by (cases "close_files E (ofile (proc k ! i)) (fsys k)") (simp add: exit_files_def)
  from a i e obtain ini where ini: "initproc k = Some ini" by (auto simp: exit_def split: option.splits)
  with i have ne: "ini \<noteq> i" by auto
  let ?k1 = "acquire (ProcLock ini) (exit_files E i k)"
  from a i ini e obtain k2 where w: "wakeup1 ini ?k1 = Some (Ok k2)" by (auto simp: exit_def)
  note k2 = wakeup1_Ok [OF w]
  let ?k4 = "release (ProcLock i) (acquire (ProcLock i) (release (ProcLock ini) k2))"
  have p: "parent (proc k2 ! i) = parent (proc k ! i)" using k2 e ne
    by (cases "i < length (proc k)") (simp_all add: list_update_beyond)
  with a i ini e w obtain op where op: "parent (proc k ! i) = Some op" "exit_zombie c i op status ?k4 = Some (Ok (b, k'))"
    by (auto simp: exit_def Let_def split: option.splits)
  have "initproc ?k4 = Some ini" using k2 e ini by simp
  from exit_zombie_result [OF op(2) this] obtain ls where
    "k' = ?k4\<lparr>proc := (let ps2 = map (adopt i (Some ini)) (proc ?k4); ps3 = ps2[op := wake1 op (ps2 ! op)]
       in ps3[i := (ps3 ! i)\<lparr>xstate := status, state := ZOMBIE\<rparr>]), lock_log := ls\<rparr>" by blast
  then have "k' = k\<lparr>fsys := f, proc := (let ps = (proc k)[i := (proc k ! i)\<lparr>ofile := fs, cwd := 0\<rparr>]; ps1 = ps[ini := wake1 ini (ps ! ini)];
         ps2 = map (adopt i (Some ini)) ps1; ps3 = ps2[op := wake1 op (ps2 ! op)]
       in ps3[i := (ps3 ! i)\<lparr>xstate := status, state := ZOMBIE\<rparr>]), lock_log := ls\<rparr>"
    using k2 e by (simp add: Let_def acquire_def release_def upd_proc_def)
  then show ?thesis using that [OF i(1) ini ne op(1) e(1) refl] by (simp add: Let_def)
qed

text \<open>The table after \<^verbatim>\<open>exit\<close> of a running process, entry by entry.\<close>

definition exited_entry :: "nat \<Rightarrow> nat \<Rightarrow> nat \<Rightarrow> nat \<Rightarrow> proc \<Rightarrow> proc" where
  "exited_entry i ini op j p = adopt i (Some ini) (if j = ini \<or> j = op then wake1 j p else p)"

lemma wake1_twice [simp]: "wake1 i (wake1 i p) = wake1 i p"
  by (simp add: wake1_def)

lemma wake1_adopt: "wake1 j (adopt i ini p) = adopt i ini (wake1 j p)"
  by (simp add: wake1_def adopt_def)

lemma adopt_files: "adopt i ini (p\<lparr>ofile := fs, cwd := d\<rparr>) = (adopt i ini p)\<lparr>ofile := fs, cwd := d\<rparr>"
  by (simp add: adopt_def)

lemma wake1_running: "state p = RUNNING \<Longrightarrow> wake1 j p = p"
  by (simp add: wake1_def)

lemma exit_entries:
  assumes e: "exit E c status k = Some (Ok (b, k'))" and i: "myproc c k = Some i" "i < length (proc k)" "state (proc k ! i) = RUNNING"
  obtains ini op fs where "initproc k = Some ini" "ini \<noteq> i" "parent (proc k ! i) = Some op" "same_table k k'" "nextpid k' = nextpid k" "mem k' = mem k" "set fs \<subseteq> {0}"
    "\<forall>j<length (proc k). j \<noteq> i \<longrightarrow> proc k' ! j = exited_entry i ini op j (proc k ! j)"
    "proc k' ! i = (adopt i (Some ini) (proc k ! i))\<lparr>ofile := fs, cwd := 0, xstate := status, state := ZOMBIE\<rparr>"
proof -
  from e obtain i' ini op f fs ls ps where x: "myproc c k = Some i'" "initproc k = Some ini" "ini \<noteq> i'" "parent (proc k ! i') = Some op" "set fs \<subseteq> {0}"
    "ps = (proc k)[i' := (proc k ! i')\<lparr>ofile := fs, cwd := 0\<rparr>]"
    "k' = k\<lparr>fsys := f, proc := (let ps1 = ps[ini := wake1 ini (ps ! ini)];
         ps2 = map (adopt i' (Some ini)) ps1; ps3 = ps2[op := wake1 op (ps2 ! op)]
       in ps3[i' := (ps3 ! i')\<lparr>xstate := status, state := ZOMBIE\<rparr>]), lock_log := ls\<rparr>"
    by (rule exit_result)
  have i': "i' = i" using x(1) i by simp
  define ps1 where "ps1 = ps[ini := wake1 ini (ps ! ini)]"
  define ps2 where "ps2 = map (adopt i (Some ini)) ps1"
  define ps3 where "ps3 = ps2[op := wake1 op (ps2 ! op)]"
  have len: "length ps = length (proc k)" "length ps1 = length (proc k)" "length ps2 = length (proc k)" "length ps3 = length (proc k)"
    by (simp_all add: x(6) ps1_def ps2_def ps3_def)
  have k': "proc k' = ps3[i := (ps3 ! i)\<lparr>xstate := status, state := ZOMBIE\<rparr>]" "same_table k k'" "nextpid k' = nextpid k" "mem k' = mem k"
    using len unfolding x(7) i' by (simp_all add: Let_def ps1_def ps2_def ps3_def same_table_def)
  have 1: "ps1 ! j = (if j = ini then wake1 j (proc k ! j) else proc k ! j)" if "j < length (proc k)" "j \<noteq> i" for j
    using that x(6) i' len by (simp add: ps1_def nth_list_update)
  have 2: "ps2 ! j = adopt i (Some ini) (ps1 ! j)" if "j < length (proc k)" for j using that len by (simp add: ps2_def)
  have 3: "ps3 ! j = (if j = op then wake1 j (ps2 ! j) else ps2 ! j)" if "j < length (proc k)" for j
    using that len by (simp add: ps3_def nth_list_update)
  have A: "proc k' ! j = exited_entry i ini op j (proc k ! j)" if "j < length (proc k)" "j \<noteq> i" for j
    using that 1 [OF that] 2 [OF that(1)] 3 [OF that(1)] by (cases "j = op"; cases "j = ini") (auto simp: k' exited_entry_def wake1_adopt)
  have B: "proc k' ! i = (adopt i (Some ini) (proc k ! i))\<lparr>ofile := fs, cwd := 0, xstate := status, state := ZOMBIE\<rparr>"
  proof -
    have "ps1 ! i = (proc k ! i)\<lparr>ofile := fs, cwd := 0\<rparr>" using x(3,6) i i' by (simp add: ps1_def)
    then have "ps2 ! i = (adopt i (Some ini) (proc k ! i))\<lparr>ofile := fs, cwd := 0\<rparr>" using 2 [OF i(2)] by (simp add: adopt_files)
    moreover have "state (ps2 ! i) = RUNNING" using i(3) unfolding calculation by (simp add: adopt_def)
    moreover from this have "ps3 ! i = ps2 ! i" using 3 [OF i(2)] by (auto simp: wake1_running)
    ultimately show ?thesis using i len by (simp add: k')
  qed
  show ?thesis by (rule that [OF x(2) _ _ k'(2-4) x(5) _ B]) (use x(3,4) i' A in auto)
qed

end
