(* ===== verification/Exec.thy ===== *)
theory Exec
  imports Proc_Inv
begin

text \<open>
  \<^verbatim>\<open>exec\<close> of lab 4 (\<^verbatim>\<open>kernel/exec.c\<close>). The inode functions and the ELF structures belong to files outside the repository: reading
  the headers and file contents are arguments. \<open>None\<close> is a run that does not return.
\<close>

section \<open>What exec uses of other files\<close>

record elfhdr =
  magic :: u32
  entry :: u64
  phoff :: u64
  phnum :: nat

record proghdr =
  ptype :: u32
  poff :: u64
  vaddr :: u64
  filesz :: u64
  memsz :: u64

text \<open>
  \<open>read_elf\<close> and \<open>read_ph\<close> are \<^verbatim>\<open>readi\<close> of a header, \<open>None\<close> for a short read; \<open>readi ip pa off n\<close> reads file contents to the physical
  address \<open>pa\<close> and returns the number of bytes.
\<close>

record ('a, 'f) exec_env =
  ilock :: "u64 \<Rightarrow> 'f \<Rightarrow> 'f"
  iunlockput :: "u64 \<Rightarrow> 'f \<Rightarrow> 'f"
  read_elf :: "u64 \<Rightarrow> 'f \<Rightarrow> elfhdr option \<times> 'f"
  read_ph :: "u64 \<Rightarrow> u32 \<Rightarrow> 'f \<Rightarrow> proghdr option \<times> 'f"
  readi :: "u64 \<Rightarrow> u64 \<Rightarrow> u32 \<Rightarrow> u32 \<Rightarrow> 'f \<times> 'a mach_scheme \<Rightarrow> u32 \<times> 'f \<times> 'a mach_scheme"
  sizeof_ph :: u32
  ELF_MAGIC :: u32
  ELF_PROG_LOAD :: u32
  MAXARG :: nat

section \<open>Loading the program\<close>

text \<open>The counter \<^verbatim>\<open>i\<close> of \<^verbatim>\<open>loadseg\<close> is a 32-bit \<^verbatim>\<open>uint\<close>, so the loop may not end.\<close>

partial_function (option) loadseg_loop :: "('a, 'f) outside \<Rightarrow> ('a, 'f) exec_env \<Rightarrow> u64 \<Rightarrow> u64 \<Rightarrow> u64 \<Rightarrow> u32 \<Rightarrow> u32 \<Rightarrow> u32 \<Rightarrow>
    ('a, 'f) kernel \<Rightarrow> (int \<times> ('a, 'f) kernel) run" where
  "loadseg_loop E X pt va ip offset len i k =
     (if i < len then
        (case walkaddr (o_kalloc E) pt (va + ucast i) (mem k) of
           Panic e \<Rightarrow> Some (Panic e)
         | Ok pa \<Rightarrow>
             if pa = 0 then Some (Panic ''loadseg: address should exist'')
             else
               let n = (if len - i < 4096 then len - i else 4096);
                   (r, f, s) = readi X ip pa (offset + i) n (fsys k, mem k);
                   k1 = k\<lparr>mem := s, fsys := f\<rparr>
               in if r \<noteq> n then Some (Ok (-1, k1)) else loadseg_loop E X pt va ip offset len (i + 4096) k1)
      else Some (Ok (0, k)))"

definition loadseg :: "('a, 'f) outside \<Rightarrow> ('a, 'f) exec_env \<Rightarrow> u64 \<Rightarrow> u64 \<Rightarrow> u64 \<Rightarrow> u32 \<Rightarrow> u32 \<Rightarrow> ('a, 'f) kernel \<Rightarrow>
    (int \<times> ('a, 'f) kernel) run" where
  "loadseg E X pt va ip offset len k =
     (if va mod PGSIZE \<noteq> 0 then Some (Panic ''loadseg: va must be page aligned'')
      else loadseg_loop E X pt va ip offset len 0 k)"

text \<open>One program header of type \<^verbatim>\<open>ELF_PROG_LOAD\<close>: whether it is loaded, and \<^verbatim>\<open>sz\<close>.\<close>

definition exec_segment :: "('a, 'f) outside \<Rightarrow> ('a, 'f) exec_env \<Rightarrow> u64 \<Rightarrow> u64 \<Rightarrow> proghdr \<Rightarrow> u64 \<Rightarrow> ('a, 'f) kernel \<Rightarrow>
    ((bool \<times> u64) \<times> ('a, 'f) kernel) run" where
  "exec_segment E X pt ip ph len k1 =
     (if memsz ph < filesz ph then Some (Ok ((False, len), k1))
      else if vaddr ph + memsz ph < vaddr ph then Some (Ok ((False, len), k1))
      else
        kbind (lift_mem k1 (uvmalloc (o_kalloc E) (o_kfree E) pt len (vaddr ph + memsz ph) (mem k1))) (\<lambda>(len1, k2).
        if len1 = 0 then Some (Ok ((False, len), k2))
        else if vaddr ph mod PGSIZE \<noteq> 0 then Some (Ok ((False, len1), k2))
        else
          kbind (loadseg E X pt (vaddr ph) ip (ucast (poff ph)) (ucast (filesz ph)) k2) (\<lambda>(r', k3).
          Some (Ok ((\<not> r' < 0, len1), k3)))))"

text \<open>The loop over the program headers, with \<open>n\<close> of them left.\<close>

primrec exec_load :: "('a, 'f) outside \<Rightarrow> ('a, 'f) exec_env \<Rightarrow> u64 \<Rightarrow> u64 \<Rightarrow> nat \<Rightarrow> u32 \<Rightarrow> u64 \<Rightarrow> ('a, 'f) kernel \<Rightarrow>
    ((bool \<times> u64) \<times> ('a, 'f) kernel) run" where
  "exec_load E X pt ip 0 off len k = Some (Ok ((True, len), k))"
| "exec_load E X pt ip (Suc n) off len k =
     (let (r, f) = read_ph X ip off (fsys k); k1 = k\<lparr>fsys := f\<rparr> in
      case r of
        None \<Rightarrow> Some (Ok ((False, len), k1))
      | Some ph \<Rightarrow>
          if ptype ph \<noteq> ELF_PROG_LOAD X then exec_load E X pt ip n (off + sizeof_ph X) len k1
          else
            kbind (exec_segment E X pt ip ph len k1) (\<lambda>((ok, len1), k2).
            if ok then exec_load E X pt ip n (off + sizeof_ph X) len1 k2 else Some (Ok ((False, len1), k2))))"

section \<open>The user stack\<close>

text \<open>The loop that pushes the argument strings: \<open>None\<close> where it goes to \<^verbatim>\<open>bad\<close>, otherwise \<^verbatim>\<open>sp\<close> and \<^verbatim>\<open>ustack\<close>.\<close>

primrec exec_push :: "('a, 'f) outside \<Rightarrow> nat \<Rightarrow> u64 \<Rightarrow> u64 \<Rightarrow> u8 list list \<Rightarrow> u64 \<Rightarrow> u64 list \<Rightarrow> 'a mach_scheme \<Rightarrow>
    ((u64 \<times> u64 list) option \<times> 'a mach_scheme) res" where
  "exec_push E maxarg pt stackbase [] stk ustack s = Ok (Some (stk, ustack), s)"
| "exec_push E maxarg pt stackbase (a # args) stk ustack s =
     (if length ustack \<ge> maxarg then Ok (None, s)
      else
        let n = of_nat (length a + 1); stk1 = stk - n; stk2 = stk1 - stk1 mod 16 in
        if stk2 < stackbase then Ok (None, s)
        else
          rbind (copyout (o_kalloc E) pt stk2 (a @ [0]) n s)
            (\<lambda>(r, s1). if r < 0 then Ok (None, s1) else exec_push E maxarg pt stackbase args stk2 (ustack @ [stk2]) s1))"

definition words_bytes :: "u64 list \<Rightarrow> u8 list" where
  "words_bytes ws = concat (map (\<lambda>w. map (\<lambda>j. get_byte j w) [0..<8]) ws)"

text \<open>The rest of the stack: \<^verbatim>\<open>sp\<close> with the array of pointers pushed.\<close>

definition exec_stack :: "('a, 'f) outside \<Rightarrow> nat \<Rightarrow> u64 \<Rightarrow> u64 \<Rightarrow> u8 list list \<Rightarrow> 'a mach_scheme \<Rightarrow> (u64 option \<times> 'a mach_scheme) res" where
  "exec_stack E maxarg pt stktop args s =
     (let stackbase = stktop - PGSIZE in
      rbind (exec_push E maxarg pt stackbase args stktop [] s) (\<lambda>(r, s1).
        case r of
          None \<Rightarrow> Ok (None, s1)
        | Some (stk, ustack) \<Rightarrow>
            let n = of_nat ((length ustack + 1) * 8); stk1 = stk - n; stk2 = stk1 - stk1 mod 16 in
            if stk2 < stackbase then Ok (None, s1)
            else
              rbind (copyout (o_kalloc E) pt stk2 (words_bytes (ustack @ [0])) n s1)
                (\<lambda>(r', s2). Ok (if r' < 0 then None else Some stk2, s2))))"

section \<open>exec\<close>

text \<open>The label \<^verbatim>\<open>bad\<close>.\<close>

definition exec_bad :: "('a, 'f) outside \<Rightarrow> ('a, 'f) exec_env \<Rightarrow> u64 \<Rightarrow> u64 \<Rightarrow> u64 \<Rightarrow> ('a, 'f) kernel \<Rightarrow> (int \<times> ('a, 'f) kernel) run" where
  "exec_bad E X pt len ip k =
     kbind (if pt \<noteq> 0 then proc_freeuserpagetable E pt len (mem k) else Some (Ok (mem k))) (\<lambda>s.
     let f = (if ip \<noteq> 0 then end_op E (iunlockput X ip (fsys k)) else fsys k)
     in Some (Ok (-1, k\<lparr>mem := s, fsys := f\<rparr>)))"

definition last_part :: "string \<Rightarrow> string" where
  "last_part path = rev (takeWhile (\<lambda>ch. ch \<noteq> CHR ''/'') (rev path))"

text \<open>From \<^verbatim>\<open>p->sz = sz\<close> on, and from \<^verbatim>\<open>p->trapframe->a1 = sp\<close> on.\<close>

definition exec_done :: "('a, 'f) outside \<Rightarrow> nat \<Rightarrow> nat \<Rightarrow> u64 \<Rightarrow> u64 \<Rightarrow> u64 \<Rightarrow> u64 \<Rightarrow> u64 \<Rightarrow> u64 \<Rightarrow> ('a, 'f) kernel \<Rightarrow> (int \<times> ('a, 'f) kernel) run" where
  "exec_done E i argc pt len oldpagetable oldsz stk ent k4 =
     (let k5 = upd_proc i (\<lambda>p. p\<lparr>sz := len\<rparr>) k4;
          tf = trapframe (proc k5 ! i);
          k6 = k5\<lparr>mem := wr_cell tf 6 stk (wr_cell tf 3 ent (mem k5))\<rparr>
      in kbind (proc_freeuserpagetable E oldpagetable oldsz (mem k6)) (\<lambda>s.
         let k7 = k6\<lparr>mem := s\<rparr> in
         kbind (if pid (proc k7 ! i) = 1 then Some (vmprint (ram (mem k7)) pt 0) else Some (Ok [])) (\<lambda>_.
         Some (Ok (int argc, k7)))))"

definition exec_commit :: "('a, 'f) outside \<Rightarrow> ('a, 'f) exec_env \<Rightarrow> nat \<Rightarrow> string \<Rightarrow> nat \<Rightarrow> u64 \<Rightarrow> u64 \<Rightarrow> u64 \<Rightarrow> u64 \<Rightarrow> u64 \<Rightarrow>
    ('a, 'f) kernel \<Rightarrow> (int \<times> ('a, 'f) kernel) run" where
  "exec_commit E X i path argc pt len oldsz stk ent k =
     (let p = proc k ! i;
          k1 = upd_proc i (\<lambda>p. p\<lparr>pname := safe_name (last_part path)\<rparr>) (k\<lparr>mem := wr_cell (trapframe p) 15 stk (mem k)\<rparr>);
          oldpagetable = pagetable p;
          k2 = upd_proc i (\<lambda>p. p\<lparr>pagetable := pt\<rparr>) k1
      in kbind (lift_mem k2 (kvmdealloc (o_kalloc E) (o_kfree E) (k_pagetable p) (sz p) 0 (mem k2))) (\<lambda>(_, k3).
         kbind (lift_mem k3 (kvmcopy (o_kalloc E) (o_kfree E) (PLIC (layout E)) pt (k_pagetable p) 0 len (mem k3))) (\<lambda>(r, k4).
         if r < 0 then exec_bad E X pt len 0 k4
         else exec_done E i argc pt len oldpagetable oldsz stk ent k4)))"

text \<open>From the second \<^verbatim>\<open>myproc()\<close> on, with the program loaded.\<close>

definition exec_image :: "('a, 'f) outside \<Rightarrow> ('a, 'f) exec_env \<Rightarrow> nat \<Rightarrow> string \<Rightarrow> u8 list list \<Rightarrow> u64 \<Rightarrow> u64 \<Rightarrow> u64 \<Rightarrow>
    ('a, 'f) kernel \<Rightarrow> (int \<times> ('a, 'f) kernel) run" where
  "exec_image E X i path argv pt len ent k =
     (let oldsz = sz (proc k ! i); len1 = PGROUNDUP len in
      kbind (lift_mem k (uvmalloc (o_kalloc E) (o_kfree E) pt len1 (len1 + 2 * PGSIZE) (mem k))) (\<lambda>(len2, k1).
      if len2 = 0 then exec_bad E X pt len1 0 k1
      else
        kbind (lift_mem_unit k1 (uvmclear (o_kalloc E) pt (len2 - 2 * PGSIZE) (mem k1))) (\<lambda>k2.
        kbind (lift_mem k2 (exec_stack E (MAXARG X) pt len2 argv (mem k2))) (\<lambda>(r, k3).
        case r of
          None \<Rightarrow> exec_bad E X pt len2 0 k3
        | Some stk \<Rightarrow> exec_commit E X i path (length argv) pt len2 oldsz stk ent k3))))"

definition exec :: "('a, 'f) outside \<Rightarrow> ('a, 'f) exec_env \<Rightarrow> nat \<Rightarrow> string \<Rightarrow> u8 list list \<Rightarrow> ('a, 'f) kernel \<Rightarrow>
    (int \<times> ('a, 'f) kernel) run" where
  "exec E X c path argv k = with_proc c k (\<lambda>i.
     let (ip, f1) = namei E path (begin_op E (fsys k)) in
     if ip = 0 then Some (Ok (-1, k\<lparr>fsys := end_op E f1\<rparr>))
     else
       let (r, f2) = read_elf X ip (ilock X ip f1); k1 = k\<lparr>fsys := f2\<rparr> in
       case r of
         None \<Rightarrow> exec_bad E X 0 0 ip k1
       | Some elf \<Rightarrow>
           if magic elf \<noteq> ELF_MAGIC X then exec_bad E X 0 0 ip k1
           else
             kbind (proc_pagetable E (proc k1 ! i) (mem k1)) (\<lambda>(pt, s).
             let k2 = k1\<lparr>mem := s\<rparr> in
             if pt = 0 then exec_bad E X 0 0 ip k2
             else
               kbind (exec_load E X pt ip (phnum elf) (ucast (phoff elf)) 0 k2) (\<lambda>((ok, len), k3).
               if \<not> ok then exec_bad E X pt len ip k3
               else exec_image E X i path argv pt len (entry elf) (k3\<lparr>fsys := end_op E (iunlockput X ip (fsys k3))\<rparr>))))"

end
