(* ===== verification/Proc_Steps.thy ===== *)
theory Proc_Steps
  imports Proc_Inv
begin

text \<open>
  The processes as a system of interleaved steps, and its invariant. The invariant is stated on the functions that give
  the state, parent, pid and page table of each entry, so that every step is an update of such functions.
\<close>

section \<open>The tree of processes\<close>

text \<open>
  Entry \<open>ini\<close> is the first process. An entry in use has a pid between that of its parent and the next pid to be given;
  its parent has not exited; pids are unique; a free entry is nobody's child.
\<close>

definition alive :: "procstate \<Rightarrow> bool" where
  "alive s \<longleftrightarrow> s \<noteq> UNUSED \<and> s \<noteq> ZOMBIE"

definition used :: "nat \<Rightarrow> nat \<Rightarrow> (nat \<Rightarrow> procstate) \<Rightarrow> (nat \<Rightarrow> nat option) \<Rightarrow> (nat \<Rightarrow> u32) \<Rightarrow> u32 \<Rightarrow> nat \<Rightarrow> bool" where
  "used N ini st par pd nx i \<longleftrightarrow> 0 < pd i \<and> pd i < nx \<and>
     (i \<noteq> ini \<longrightarrow> pd ini < pd i \<and> (\<exists>q<N. par i = Some q \<and> alive (st q) \<and> pd q < pd i))"

definition tree :: "nat \<Rightarrow> nat \<Rightarrow> (nat \<Rightarrow> procstate) \<Rightarrow> (nat \<Rightarrow> nat option) \<Rightarrow> (nat \<Rightarrow> u32) \<Rightarrow> u32 \<Rightarrow> bool" where
  "tree N ini st par pd nx \<longleftrightarrow>
     ini < N \<and> alive (st ini) \<and> par ini = None \<and>
     (\<forall>i<N. if st i = UNUSED then par i = None else used N ini st par pd nx i) \<and>
     (\<forall>i<N. \<forall>j<N. st i \<noteq> UNUSED \<and> st j \<noteq> UNUSED \<and> pd i = pd j \<longrightarrow> i = j)"

lemma treeD:
  assumes "tree N ini st par pd nx" "i < N"
  shows "st i = UNUSED \<Longrightarrow> par i = None" "st i \<noteq> UNUSED \<Longrightarrow> used N ini st par pd nx i"
    "st i \<noteq> UNUSED \<Longrightarrow> st j \<noteq> UNUSED \<Longrightarrow> j < N \<Longrightarrow> pd i = pd j \<Longrightarrow> i = j"
  using assms unfolding tree_def by metis+

lemma treeI:
  assumes "ini < N" "alive (st ini)" "par ini = None" "\<And>i. i < N \<Longrightarrow> st i = UNUSED \<Longrightarrow> par i = None"
    "\<And>i. i < N \<Longrightarrow> st i \<noteq> UNUSED \<Longrightarrow> used N ini st par pd nx i"
    "\<And>i j. i < N \<Longrightarrow> j < N \<Longrightarrow> st i \<noteq> UNUSED \<Longrightarrow> st j \<noteq> UNUSED \<Longrightarrow> pd i = pd j \<Longrightarrow> i = j"
  shows "tree N ini st par pd nx"
  using assms unfolding tree_def by simp

lemma tree_ini: "tree N ini st par pd nx \<Longrightarrow> ini < N \<and> alive (st ini) \<and> par ini = None"
  by (simp add: tree_def)

lemma used_mono:
  assumes "used N ini st par pd nx i" "pd' ini = pd ini" "pd' i = pd i" "par' i = par i" "nx \<le> nx'"
    "\<And>q. q < N \<Longrightarrow> par i = Some q \<Longrightarrow> alive (st q) \<Longrightarrow> alive (st' q) \<and> pd' q = pd q"
  shows "used N ini st' par' pd' nx' i"
  using assms unfolding used_def by fastforce

lemma tree_states:
  assumes t: "tree N ini st par pd nx" and e: "\<forall>i<N. (st' i = UNUSED \<longleftrightarrow> st i = UNUSED) \<and> (st' i = ZOMBIE \<longleftrightarrow> st i = ZOMBIE)"
    "\<forall>i<N. par' i = par i \<and> pd' i = pd i"
  shows "tree N ini st' par' pd' nx"
proof -
  have "used N ini st' par' pd' nx i" if "i < N" "st i \<noteq> UNUSED" for i
    using treeD(2) [OF t that] by (rule used_mono) (use e that tree_ini [OF t] in \<open>auto simp: alive_def\<close>)
  then show ?thesis using t e tree_ini [OF t] by (intro treeI) (auto simp: alive_def dest: treeD)
qed

text \<open>A new pid is larger than every pid in use.\<close>

lemma tree_fork:
  assumes t: "tree N ini st par pd nx" and nx: "nx < nx + 1" and j: "j < N" "st j = UNUSED" and i: "i < N" "alive (st i)"
    and new: "alive (st' j)" "par' j = Some i" "pd' j = nx"
    and old: "\<forall>k<N. k \<noteq> j \<longrightarrow> st' k = st k \<and> par' k = par k \<and> pd' k = pd k"
  shows "tree N ini st' par' pd' (nx + 1)"
proof -
  have ini: "ini < N" "ini \<noteq> j" "alive (st ini)" "par ini = None" using tree_ini [OF t] j by (auto simp: alive_def)
  have lt: "0 < pd k" "pd k < nx" if "k < N" "st k \<noteq> UNUSED" for k using treeD(2) [OF t that] by (simp_all add: used_def)
  have u: "used N ini st' par' pd' (nx + 1) k" if "k < N" "st' k \<noteq> UNUSED" for k
  proof (cases "k = j")
    case True
    have "i \<noteq> j" using i j by (auto simp: alive_def)
    then show ?thesis using True new old ini i nx lt [of ini] lt [of i] by (auto simp: used_def alive_def)
  next
    case False
    then have k: "st k \<noteq> UNUSED" using old that by auto
    show ?thesis using treeD(2) [OF t that(1) k] by (rule used_mono) (use old False ini that nx j in \<open>auto simp: alive_def\<close>)
  qed
  have inj: "k = l" if "k < N" "l < N" "st' k \<noteq> UNUSED" "st' l \<noteq> UNUSED" "pd' k = pd' l" for k l
    using that treeD(3) [OF t, of k l] old new lt [of k] lt [of l] by (cases "k = j"; cases "l = j") auto
  have un: "par' k = None" if "k < N" "st' k = UNUSED" for k
    using that treeD(1) [OF t that(1)] old new by (cases "k = j") (auto simp: alive_def)
  show ?thesis by (rule treeI [OF _ _ _ un u inj]) (use ini old in auto)
qed

lemma tree_failed:
  assumes t: "tree N ini st par pd nx" and nx: "nx < nx + 1" and j: "j < N" "st j = UNUSED" "st' j = UNUSED" "par' j = None"
    and old: "\<forall>k<N. k \<noteq> j \<longrightarrow> st' k = st k \<and> par' k = par k \<and> pd' k = pd k"
  shows "tree N ini st' par' pd' (nx + 1)"
proof -
  have ini: "ini < N" "ini \<noteq> j" "alive (st ini)" "par ini = None" using tree_ini [OF t] j by (auto simp: alive_def)
  have u: "used N ini st' par' pd' (nx + 1) k" if "k < N" "st' k \<noteq> UNUSED" for k
  proof -
    have k: "k \<noteq> j" "st k \<noteq> UNUSED" using that j old by auto
    show ?thesis using treeD(2) [OF t that(1) k(2)] by (rule used_mono) (use old ini that k nx j in \<open>auto simp: alive_def\<close>)
  qed
  have inj: "k = l" if "k < N" "l < N" "st' k \<noteq> UNUSED" "st' l \<noteq> UNUSED" "pd' k = pd' l" for k l
    using that treeD(3) [OF t, of k l] old j by (cases "k = j"; cases "l = j") auto
  have un: "par' k = None" if "k < N" "st' k = UNUSED" for k
    using that treeD(1) [OF t that(1)] old j by (cases "k = j") auto
  show ?thesis by (rule treeI [OF _ _ _ un u inj]) (use ini old in auto)
qed

lemma tree_exit:
  assumes t: "tree N ini st par pd nx" and i: "i < N" "i \<noteq> ini" "alive (st i)" "st' i = ZOMBIE"
    and old: "\<forall>k<N. k \<noteq> i \<longrightarrow> (st' k = UNUSED \<longleftrightarrow> st k = UNUSED) \<and> (st' k = ZOMBIE \<longleftrightarrow> st k = ZOMBIE)"
    and par: "\<forall>k<N. par' k = (if par k = Some i then Some ini else par k) \<and> pd' k = pd k"
  shows "tree N ini st' par' pd' nx"
proof -
  have ini: "ini < N" "alive (st ini)" "par ini = None" "alive (st' ini)" using tree_ini [OF t] i old by (auto simp: alive_def)
  have un: "st' k = UNUSED \<longleftrightarrow> st k = UNUSED" if "k < N" for k using that old i by (cases "k = i") (auto simp: alive_def)
  have u: "used N ini st' par' pd' nx k" if k: "k < N" "st k \<noteq> UNUSED" for k
  proof (cases "par k = Some i")
    case True
    then show ?thesis using treeD(2) [OF t k] par k ini by (auto simp: used_def)
  next
    case False
    show ?thesis using treeD(2) [OF t k] by (rule used_mono) (use par False k ini old in \<open>auto simp: alive_def\<close>)
  qed
  have pn: "par' k = None" if "k < N" "st' k = UNUSED" for k using that un par treeD(1) [OF t] by simp
  have inj: "k = l" if "k < N" "l < N" "st' k \<noteq> UNUSED" "st' l \<noteq> UNUSED" "pd' k = pd' l" for k l
    using that treeD(3) [OF t, of k l] un par by simp
  show ?thesis by (rule treeI [OF _ _ _ pn u inj]) (use ini par un in auto)
qed

lemma tree_reap:
  assumes t: "tree N ini st par pd nx" and j: "j < N" "st j = ZOMBIE" "st' j = UNUSED" "par' j = None"
    and old: "\<forall>k<N. k \<noteq> j \<longrightarrow> st' k = st k \<and> par' k = par k \<and> pd' k = pd k"
  shows "tree N ini st' par' pd' nx"
proof -
  have ini: "ini < N" "ini \<noteq> j" "alive (st ini)" "par ini = None" using tree_ini [OF t] j by (auto simp: alive_def)
  have u: "used N ini st' par' pd' nx k" if "k < N" "st' k \<noteq> UNUSED" for k
  proof -
    have k: "k \<noteq> j" "st k \<noteq> UNUSED" using that j old by auto
    show ?thesis using treeD(2) [OF t that(1) k(2)] by (rule used_mono) (use old ini that k j in \<open>auto simp: alive_def\<close>)
  qed
  have inj: "k = l" if "k < N" "l < N" "st' k \<noteq> UNUSED" "st' l \<noteq> UNUSED" "pd' k = pd' l" for k l
    using that treeD(3) [OF t, of k l] old j by (cases "k = j"; cases "l = j") auto
  have un: "par' k = None" if "k < N" "st' k = UNUSED" for k
    using that treeD(1) [OF t that(1)] old j by (cases "k = j") auto
  show ?thesis by (rule treeI [OF _ _ _ un u inj]) (use ini old in auto)
qed

section \<open>Harts\<close>

text \<open>
  A hart runs at most one process, which is \<open>RUNNING\<close> and runs on no other hart, with the kernel page table of the process;
  an idle hart has the global kernel page table.
\<close>

definition harts :: "nat \<Rightarrow> nat \<Rightarrow> u64 \<Rightarrow> (nat \<Rightarrow> procstate) \<Rightarrow> (nat \<Rightarrow> u64) \<Rightarrow> (nat \<Rightarrow> nat option) \<Rightarrow> (nat \<Rightarrow> u64) \<Rightarrow> bool" where
  "harts N C gp st kpt run tab \<longleftrightarrow>
     (\<forall>c<C. case run c of None \<Rightarrow> tab c = MAKE_SATP gp | Some i \<Rightarrow> i < N \<and> st i = RUNNING \<and> tab c = MAKE_SATP (kpt i)) \<and>
     (\<forall>c<C. \<forall>d<C. \<forall>i. run c = Some i \<and> run d = Some i \<longrightarrow> c = d) \<and>
     (\<forall>i<N. st i = RUNNING \<longrightarrow> (\<exists>c<C. run c = Some i))"

lemma hartsD:
  assumes "harts N C gp st kpt run tab"
  shows "c < C \<Longrightarrow> run c = None \<Longrightarrow> tab c = MAKE_SATP gp"
    "c < C \<Longrightarrow> run c = Some i \<Longrightarrow> i < N \<and> st i = RUNNING \<and> tab c = MAKE_SATP (kpt i)"
    "c < C \<Longrightarrow> d < C \<Longrightarrow> run c = Some i \<Longrightarrow> run d = Some i \<Longrightarrow> c = d"
    "i < N \<Longrightarrow> st i = RUNNING \<Longrightarrow> \<exists>c<C. run c = Some i"
proof -
  note h = assms [unfolded harts_def]
  have c: "case run c of None \<Rightarrow> tab c = MAKE_SATP gp | Some i \<Rightarrow> i < N \<and> st i = RUNNING \<and> tab c = MAKE_SATP (kpt i)" if "c < C" for c
    using h that by blast
  show "c < C \<Longrightarrow> run c = None \<Longrightarrow> tab c = MAKE_SATP gp" using c by fastforce
  show "c < C \<Longrightarrow> run c = Some i \<Longrightarrow> i < N \<and> st i = RUNNING \<and> tab c = MAKE_SATP (kpt i)" using c by fastforce
  show "c < C \<Longrightarrow> d < C \<Longrightarrow> run c = Some i \<Longrightarrow> run d = Some i \<Longrightarrow> c = d" using h by blast
  show "i < N \<Longrightarrow> st i = RUNNING \<Longrightarrow> \<exists>c<C. run c = Some i" using h by blast
qed

lemma hartsI:
  assumes "\<And>c. c < C \<Longrightarrow> run c = None \<Longrightarrow> tab c = MAKE_SATP gp"
    "\<And>c i. c < C \<Longrightarrow> run c = Some i \<Longrightarrow> i < N \<and> st i = RUNNING \<and> tab c = MAKE_SATP (kpt i)"
    "\<And>c d i. c < C \<Longrightarrow> d < C \<Longrightarrow> run c = Some i \<Longrightarrow> run d = Some i \<Longrightarrow> c = d"
    "\<And>i. i < N \<Longrightarrow> st i = RUNNING \<Longrightarrow> \<exists>c<C. run c = Some i"
  shows "harts N C gp st kpt run tab"
  using assms unfolding harts_def by (auto split: option.splits)

lemma harts_states:
  assumes h: "harts N C gp st kpt run tab"
    and "\<forall>i<N. (st' i = RUNNING \<longleftrightarrow> st i = RUNNING) \<and> (st i = RUNNING \<longrightarrow> kpt' i = kpt i)" "\<forall>c<C. run' c = run c \<and> tab' c = tab c"
  shows "harts N C gp st' kpt' run' tab'"
  by (rule hartsI) (use assms hartsD [OF h] in metis)+

lemma harts_pick:
  assumes h: "harts N C gp st kpt run tab" and c: "c < C" "run c = None" "i < N" "st i \<noteq> RUNNING" "st' i = RUNNING"
    "run' c = Some i" "tab' c = MAKE_SATP (kpt' i)" and k: "\<forall>j<N. kpt' j = kpt j"
    "\<forall>j<N. j \<noteq> i \<longrightarrow> st' j = st j" "\<forall>d<C. d \<noteq> c \<longrightarrow> run' d = run d \<and> tab' d = tab d"
  shows "harts N C gp st' kpt' run' tab'"
  by (rule hartsI) (use assms hartsD [OF h] in \<open>metis option.sel option.distinct(1)\<close>)+

lemma harts_back:
  assumes h: "harts N C gp st kpt run tab" and "c < C" "run c = Some i" "st' i \<noteq> RUNNING"
    "run' c = None" "tab' c = MAKE_SATP gp" "\<forall>j<N. kpt' j = kpt j"
    "\<forall>j<N. j \<noteq> i \<longrightarrow> (st' j = RUNNING \<longleftrightarrow> st j = RUNNING)" "\<forall>d<C. d \<noteq> c \<longrightarrow> run' d = run d \<and> tab' d = tab d"
  shows "harts N C gp st' kpt' run' tab'"
  by (rule hartsI) (use assms hartsD [OF h] in \<open>metis option.sel option.distinct(1)\<close>)+

section \<open>The invariant of the kernel\<close>

abbreviation st_of :: "('a, 'f) kernel \<Rightarrow> nat \<Rightarrow> procstate" where "st_of k i \<equiv> state (proc k ! i)"
abbreviation par_of :: "('a, 'f) kernel \<Rightarrow> nat \<Rightarrow> nat option" where "par_of k i \<equiv> parent (proc k ! i)"
abbreviation pid_of :: "('a, 'f) kernel \<Rightarrow> nat \<Rightarrow> u32" where "pid_of k i \<equiv> pid (proc k ! i)"
abbreviation kpt_of :: "('a, 'f) kernel \<Rightarrow> nat \<Rightarrow> u64" where "kpt_of k i \<equiv> k_pagetable (proc k ! i)"
abbreviation run_of :: "('a, 'f) kernel \<Rightarrow> nat \<Rightarrow> nat option" where "run_of k c \<equiv> cproc (cpus k ! c)"
abbreviation satp_of :: "('a, 'f) kernel \<Rightarrow> nat \<Rightarrow> u64" where "satp_of k c \<equiv> satp (chart (cpus k ! c))"

definition tree_inv :: "('a, 'f) kernel \<Rightarrow> bool" where
  "tree_inv k \<longleftrightarrow> (\<exists>ini. initproc k = Some ini \<and> tree (length (proc k)) ini (st_of k) (par_of k) (pid_of k) (nextpid k))"

definition hart_inv :: "('a, 'f) kernel \<Rightarrow> bool" where
  "hart_inv k \<longleftrightarrow> harts (length (proc k)) (length (cpus k)) (kernel_pagetable k) (st_of k) (kpt_of k) (run_of k) (satp_of k)"

section \<open>Steps\<close>

text \<open>
  One step is a section of a hart's work: the scheduler picking a process, a system call or the part of one up to where
  it gives up the processor (then the scheduler takes the hart back), what follows a sleep, or other kernel code that
  changes memory and files. The log of locks belongs to the hart that runs, so it may change between steps.
\<close>

inductive kstep :: "('a, 'f) outside \<Rightarrow> ('a, 'f) kernel \<Rightarrow> ('a, 'f) kernel \<Rightarrow> bool" for E where
  pick: "c < length (cpus k) \<Longrightarrow> run_of k c = None \<Longrightarrow> i < length (proc k) \<Longrightarrow> scheduler_pick c i k = (True, k') \<Longrightarrow> kstep E k k'"
| fork: "c < length (cpus k) \<Longrightarrow> fork E c k = Some (Ok (r, k')) \<Longrightarrow> kstep E k k'"
| grow: "c < length (cpus k) \<Longrightarrow> growproc E c n k = Some (Ok (r, k')) \<Longrightarrow> kstep E k k'"
| kill: "kill q k = (r, k') \<Longrightarrow> kstep E k k'"
| wakeup: "kstep E k (wakeup ch k)"
| yield: "c < length (cpus k) \<Longrightarrow> myproc c k = Some i \<Longrightarrow> yield c k = Some (Ok (b, k1)) \<Longrightarrow> kstep E k (scheduler_back c i k1)"
| sleep: "c < length (cpus k) \<Longrightarrow> myproc c k = Some i \<Longrightarrow> sleep c ch lk k = Some (Ok (b, k1)) \<Longrightarrow> kstep E k (scheduler_back c i k1)"
| awake: "c < length (cpus k) \<Longrightarrow> sleep_resume c lk b k = Some (Ok k') \<Longrightarrow> kstep E k k'"
| wait: "c < length (cpus k) \<Longrightarrow> wait_round E c addr k = Some (Ok (Waited r, k')) \<Longrightarrow> kstep E k k'"
| wait_sleep: "c < length (cpus k) \<Longrightarrow> myproc c k = Some i \<Longrightarrow> wait_round E c addr k = Some (Ok (Asleep b, k1)) \<Longrightarrow>
    kstep E k (scheduler_back c i k1)"
| exit: "c < length (cpus k) \<Longrightarrow> myproc c k = Some i \<Longrightarrow> exit E c status k = Some (Ok (b, k1)) \<Longrightarrow> kstep E k (scheduler_back c i k1)"
| other: "kstep E k (k\<lparr>mem := s, fsys := f, lock_log := ls\<rparr>)"

text \<open>
  The states reached from the one with the first process only, with the number of steps. \<open>booted\<close> is the state before
  \<^verbatim>\<open>userinit\<close>.
\<close>

definition booted :: "('a, 'f) kernel \<Rightarrow> bool" where
  "booted k \<longleftrightarrow> nextpid k = 1 \<and> (\<forall>i<length (proc k). st_of k i = UNUSED \<and> par_of k i = None) \<and>
     (\<forall>c<length (cpus k). run_of k c = None \<and> satp_of k c = MAKE_SATP (kernel_pagetable k))"

definition first_process :: "nat \<Rightarrow> ('a, 'f) kernel \<Rightarrow> bool" where
  "first_process i k \<longleftrightarrow> i < length (proc k) \<and> initproc k = Some i \<and> nextpid k = 2 \<and> pid_of k i = 1 \<and>
     (\<forall>j<length (proc k). st_of k j = (if j = i then RUNNABLE else UNUSED) \<and> par_of k j = None) \<and>
     (\<forall>c<length (cpus k). run_of k c = None \<and> satp_of k c = MAKE_SATP (kernel_pagetable k))"

inductive kreach :: "('a, 'f) outside \<Rightarrow> nat \<Rightarrow> ('a, 'f) kernel \<Rightarrow> bool" for E where
  start: "first_process i k \<Longrightarrow> kreach E 0 k"
| step: "kreach E n k \<Longrightarrow> kstep E k k' \<Longrightarrow> kreach E (Suc n) k'"

inductive_cases kreach_0: "kreach E 0 k"

end
