(* ===== verification/Proc_Keep.thy ===== *)
theory Proc_Keep
  imports Proc_Steps
begin

text \<open>Every step keeps the invariant.\<close>

definition kernel_inv :: "('a, 'f) kernel \<Rightarrow> bool" where
  "kernel_inv k \<longleftrightarrow> tree_inv k \<and> hart_inv k"

text \<open>What stays the same when only entries of the table change.\<close>

definition frame_of :: "('a, 'f) kernel \<Rightarrow> ('a, 'f) kernel \<Rightarrow> bool" where
  "frame_of k k' \<longleftrightarrow> same_table k k' \<and> nextpid k' = nextpid k"

text \<open>An entry whose state changes among \<open>SLEEPING\<close> and \<open>RUNNABLE\<close> only.\<close>

definition tame :: "proc \<Rightarrow> proc \<Rightarrow> bool" where
  "tame p p' \<longleftrightarrow> parent p' = parent p \<and> pid p' = pid p \<and> k_pagetable p' = k_pagetable p \<and>
     (state p' = state p \<or> state p \<in> {SLEEPING, RUNNABLE} \<and> state p' \<in> {SLEEPING, RUNNABLE})"

lemma tame_refl [simp]: "tame p p"
  by (simp add: tame_def)

lemma inv_tame:
  assumes k: "kernel_inv k" and f: "frame_of k k'" and t: "\<forall>i<length (proc k). tame (proc k ! i) (proc k' ! i)"
  shows "kernel_inv k'"
proof -
  from k obtain ini where ini: "initproc k = Some ini" "tree (length (proc k)) ini (st_of k) (par_of k) (pid_of k) (nextpid k)"
    by (auto simp: kernel_inv_def tree_inv_def)
  have s: "\<forall>i<length (proc k). (st_of k' i = UNUSED \<longleftrightarrow> st_of k i = UNUSED) \<and> (st_of k' i = ZOMBIE \<longleftrightarrow> st_of k i = ZOMBIE) \<and>
      (st_of k' i = RUNNING \<longleftrightarrow> st_of k i = RUNNING) \<and> par_of k' i = par_of k i \<and> pid_of k' i = pid_of k i \<and> kpt_of k' i = kpt_of k i"
    using t unfolding tame_def by fastforce
  have "tree (length (proc k)) ini (st_of k') (par_of k') (pid_of k') (nextpid k)"
    by (rule tree_states [OF ini(2)]) (use s in blast)+
  moreover have "harts (length (proc k)) (length (cpus k)) (kernel_pagetable k) (st_of k') (kpt_of k') (run_of k') (satp_of k')"
    by (rule harts_states) (use k s f in \<open>auto simp: kernel_inv_def hart_inv_def frame_of_def same_table_def\<close>)
  ultimately show ?thesis using ini f
    by (simp add: kernel_inv_def tree_inv_def hart_inv_def frame_of_def same_table_def)
qed

lemma tame_nth: "j < length ps \<Longrightarrow> tame (ps ! i) p \<Longrightarrow> tame (ps ! j) (ps[i := p] ! j)"
  by (cases "i = j") auto

lemma inv_tame_update:
  assumes "kernel_inv k" "tame (proc k ! i) p" "k' = k\<lparr>mem := s, fsys := f, proc := (proc k)[i := p], lock_log := ls\<rparr>"
  shows "kernel_inv k'"
  by (rule inv_tame [OF assms(1)]) (use assms in \<open>auto simp: frame_of_def same_table_def intro: tame_nth\<close>)

lemma inv_sched_resume: "kernel_inv k \<Longrightarrow> kernel_inv (sched_resume c b k)"
proof -
  assume k: "kernel_inv k"
  have c: "run_of (sched_resume c b k) d = run_of k d" "satp_of (sched_resume c b k) d = satp_of k d" if "d < length (cpus k)" for d
    using that by (cases "d = c"; simp add: sched_resume_def)+
  have "harts (length (proc k)) (length (cpus k)) (kernel_pagetable k) (st_of k) (kpt_of k) (run_of (sched_resume c b k)) (satp_of (sched_resume c b k))"
    by (rule harts_states [of _ _ _ "st_of k" "kpt_of k" "run_of k" "satp_of k"])
      (use k c in \<open>auto simp: kernel_inv_def hart_inv_def\<close>)
  then show ?thesis using k by (simp add: kernel_inv_def tree_inv_def hart_inv_def sched_resume_def)
qed

section \<open>Giving the processor back\<close>

lemma scheduler_back_fields [simp]:
  "proc (scheduler_back c i k) = proc k" "initproc (scheduler_back c i k) = initproc k" "nextpid (scheduler_back c i k) = nextpid k"
  "kernel_pagetable (scheduler_back c i k) = kernel_pagetable k" "length (cpus (scheduler_back c i k)) = length (cpus k)"
  "c < length (cpus k) \<Longrightarrow> run_of (scheduler_back c i k) c = None"
  "c < length (cpus k) \<Longrightarrow> satp_of (scheduler_back c i k) c = MAKE_SATP (kernel_pagetable k)"
  "d \<noteq> c \<Longrightarrow> cpus (scheduler_back c i k) ! d = cpus k ! d"
  by (simp_all add: scheduler_back_def Let_def kvminithart_def)

text \<open>A running process keeps its parent and pid and leaves the processor in another state.\<close>

lemma inv_back:
  assumes k: "kernel_inv k" and c: "c < length (cpus k)" "run_of k c = Some i" and f: "frame_of k k1"
    and i: "state (proc k1 ! i) \<in> {SLEEPING, RUNNABLE}"
    and s: "par_of k1 i = par_of k i \<and> pid_of k1 i = pid_of k i \<and> kpt_of k1 i = kpt_of k i" "\<forall>j<length (proc k). j \<noteq> i \<longrightarrow> proc k1 ! j = proc k ! j"
  shows "kernel_inv (scheduler_back c i k1)"
proof -
  from k obtain ini where ini: "initproc k = Some ini" "tree (length (proc k)) ini (st_of k) (par_of k) (pid_of k) (nextpid k)"
    and h: "harts (length (proc k)) (length (cpus k)) (kernel_pagetable k) (st_of k) (kpt_of k) (run_of k) (satp_of k)"
    by (auto simp: kernel_inv_def tree_inv_def hart_inv_def)
  have r: "st_of k i = RUNNING" "i < length (proc k)" using hartsD(2) [OF h c] by auto
  have "tree (length (proc k)) ini (st_of k1) (par_of k1) (pid_of k1) (nextpid k)"
  proof (rule tree_states [OF ini(2)]; intro allI impI)
    fix j assume "j < length (proc k)"
    then show "(st_of k1 j = UNUSED \<longleftrightarrow> st_of k j = UNUSED) \<and> (st_of k1 j = ZOMBIE \<longleftrightarrow> st_of k j = ZOMBIE)"
        "par_of k1 j = par_of k j \<and> pid_of k1 j = pid_of k j"
      using s i r by (cases "j = i"; force)+
  qed
  moreover have "harts (length (proc k)) (length (cpus k)) (kernel_pagetable k) (st_of k1) (kpt_of k1)
      (run_of (scheduler_back c i k1)) (satp_of (scheduler_back c i k1))"
    by (rule harts_back [OF h c]) (use s i f c in \<open>auto simp: frame_of_def same_table_def\<close>)
  ultimately show ?thesis using ini f
    by (simp add: kernel_inv_def tree_inv_def hart_inv_def frame_of_def same_table_def)
qed

lemma inv_back_update:
  assumes k: "kernel_inv k" and c: "c < length (cpus k)" "run_of k c = Some i" and k1: "k1 = k\<lparr>proc := (proc k)[i := p], lock_log := ls\<rparr>"
    and p: "state p \<in> {SLEEPING, RUNNABLE}" "parent p = par_of k i" "pid p = pid_of k i" "k_pagetable p = kpt_of k i"
  shows "kernel_inv (scheduler_back c i k1)"
proof -
  have "i < length (proc k)" using k c by (auto simp: kernel_inv_def hart_inv_def dest!: hartsD(2))
  then show ?thesis using p by (intro inv_back [OF k c]) (auto simp: k1 frame_of_def same_table_def)
qed

section \<open>The scheduler, fork, exit and wait\<close>

lemma inv_pick:
  assumes k: "kernel_inv k" and c: "c < length (cpus k)" "run_of k c = None" "i < length (proc k)" and p: "scheduler_pick c i k = (True, k')"
  shows "kernel_inv k'"
proof -
  have r: "st_of k i = RUNNABLE" and k': "k' = upd_cpu c (\<lambda>u. u\<lparr>chart := kvminithart_proc (kpt_of k i) (chart u)\<rparr>)
      (upd_cpu c (\<lambda>u. u\<lparr>cproc := Some i\<rparr>) (upd_proc i (\<lambda>p. p\<lparr>state := RUNNING\<rparr>) (acquire (ProcLock i) k)))"
    using p c(3) by (auto simp: scheduler_pick_def Let_def split: if_splits)
  from k obtain ini where ini: "initproc k = Some ini" "tree (length (proc k)) ini (st_of k) (par_of k) (pid_of k) (nextpid k)"
    and h: "harts (length (proc k)) (length (cpus k)) (kernel_pagetable k) (st_of k) (kpt_of k) (run_of k) (satp_of k)"
    by (auto simp: kernel_inv_def tree_inv_def hart_inv_def)
  have "tree (length (proc k)) ini (st_of k') (par_of k') (pid_of k') (nextpid k)"
    by (rule tree_states [OF ini(2)]) (use r c in \<open>auto simp: k' nth_list_update\<close>)
  moreover have "harts (length (proc k)) (length (cpus k)) (kernel_pagetable k) (st_of k') (kpt_of k') (run_of k') (satp_of k')"
    by (rule harts_pick [OF h c]) (use r c in \<open>auto simp: k' nth_list_update kvminithart_proc_def\<close>)
  ultimately show ?thesis using ini by (simp add: kernel_inv_def tree_inv_def hart_inv_def k')
qed

text \<open>A free entry is not running, so changing it concerns no hart.\<close>

lemma harts_slot:
  assumes "hart_inv k" "same_table k k'" "j < length (proc k)" "st_of k j \<noteq> RUNNING" "st_of k' j \<noteq> RUNNING"
    "\<forall>l. l \<noteq> j \<longrightarrow> proc k' ! l = proc k ! l"
  shows "hart_inv k'"
proof -
  have "harts (length (proc k)) (length (cpus k)) (kernel_pagetable k) (st_of k') (kpt_of k') (run_of k') (satp_of k')"
  proof (rule harts_states; (intro allI impI)?)
    show "harts (length (proc k)) (length (cpus k)) (kernel_pagetable k) (st_of k) (kpt_of k) (run_of k) (satp_of k)"
      using assms(1) by (simp add: hart_inv_def)
    fix i assume "i < length (proc k)"
    show "(st_of k' i = RUNNING \<longleftrightarrow> st_of k i = RUNNING) \<and> (st_of k i = RUNNING \<longrightarrow> kpt_of k' i = kpt_of k i)"
      using assms by (cases "i = j") auto
  qed (use assms in \<open>simp add: same_table_def\<close>)
  then show ?thesis using assms(2) by (simp add: hart_inv_def same_table_def)
qed

lemma inv_fork:
  assumes k: "kernel_inv k" and nx: "nextpid k < nextpid k + 1" and c: "c < length (cpus k)" and f: "fork E c k = Some (Ok (r, k'))"
  shows "kernel_inv k' \<and> nextpid k' \<in> {nextpid k, nextpid k + 1}"
proof -
  from k obtain ini where ini: "initproc k = Some ini" "tree (length (proc k)) ini (st_of k) (par_of k) (pid_of k) (nextpid k)"
    and h: "harts (length (proc k)) (length (cpus k)) (kernel_pagetable k) (st_of k) (kpt_of k) (run_of k) (satp_of k)"
    by (auto simp: kernel_inv_def tree_inv_def hart_inv_def)
  from f show ?thesis
  proof (cases rule: fork_result)
    case (none i)
    then show ?thesis using inv_tame [OF k, of k'] by (simp add: frame_of_def)
  next
    case (failed i j)
    then have j: "j < length (proc k)" "st_of k j = UNUSED" "st_of k' j = UNUSED" "par_of k' j = None"
      using treeD(1) [OF ini(2), of j] by (auto simp: taken_slot_def failed_entry_def)
    have "tree (length (proc k)) ini (st_of k') (par_of k') (pid_of k') (nextpid k + 1)"
      by (rule tree_failed [OF ini(2) nx j(1,2)]) (use j failed in \<open>simp_all add: taken_slot_def\<close>)
    then show ?thesis using ini failed(3) k harts_slot [of k k' j] j
      by (auto simp: kernel_inv_def tree_inv_def taken_slot_def same_table_def)
  next
    case (child i j)
    then have j: "j < length (proc k)" "st_of k j = UNUSED" by (simp_all add: taken_slot_def)
    have i: "i < length (proc k)" "alive (st_of k i)" using hartsD(2) [OF h c] child(1) by (auto simp: alive_def myproc_def mycpu_def)
    have a: "alive (st_of k' j)" using child by (simp add: alive_def)
    have "tree (length (proc k)) ini (st_of k') (par_of k') (pid_of k') (nextpid k + 1)"
      by (rule tree_fork [OF ini(2) nx j i]) (use a child in \<open>simp_all add: taken_slot_def\<close>)
    then show ?thesis using ini child(3,4) k harts_slot [of k k' j] j
      by (auto simp: kernel_inv_def tree_inv_def taken_slot_def same_table_def)
  qed
qed

lemma inv_reap:
  assumes k: "kernel_inv k" and j: "j < length (proc k)" "st_of k j = ZOMBIE" and r: "reaped addr j k r k'"
  shows "kernel_inv k' \<and> nextpid k' = nextpid k"
proof -
  from r obtain s ls where "k' = k\<lparr>mem := s, proc := (proc k)[j := freeproc_fields (proc k ! j)], lock_log := ls\<rparr> \<or>
      k' = k\<lparr>mem := s, lock_log := ls\<rparr>" by (auto simp: reaped_def)
  then show ?thesis
  proof
    assume k': "k' = k\<lparr>mem := s, lock_log := ls\<rparr>"
    then show ?thesis using inv_tame [OF k, of k'] by (simp add: frame_of_def same_table_def)
  next
    assume k': "k' = k\<lparr>mem := s, proc := (proc k)[j := freeproc_fields (proc k ! j)], lock_log := ls\<rparr>"
    from k obtain ini where ini: "initproc k = Some ini" "tree (length (proc k)) ini (st_of k) (par_of k) (pid_of k) (nextpid k)"
      by (auto simp: kernel_inv_def tree_inv_def)
    have "tree (length (proc k)) ini (st_of k') (par_of k') (pid_of k') (nextpid k)"
      by (rule tree_reap [OF ini(2) j]) (use j in \<open>simp_all add: k' freeproc_fields_def\<close>)
    moreover have "hart_inv k'"
      by (rule harts_slot [of k k' j]) (use k j in \<open>auto simp: kernel_inv_def k' same_table_def freeproc_fields_def\<close>)
    ultimately show ?thesis using ini by (simp add: kernel_inv_def tree_inv_def k')
  qed
qed

lemma exited_entry_fields [simp]:
  "pid (exited_entry i ini op j p) = pid p" "k_pagetable (exited_entry i ini op j p) = k_pagetable p"
  "parent (exited_entry i ini op j p) = (if parent p = Some i then Some ini else parent p)"
  "state (exited_entry i ini op j p) = UNUSED \<longleftrightarrow> state p = UNUSED" "state (exited_entry i ini op j p) = ZOMBIE \<longleftrightarrow> state p = ZOMBIE"
  "state (exited_entry i ini op j p) = RUNNING \<longleftrightarrow> state p = RUNNING"
  by (auto simp: exited_entry_def adopt_def wake1_def)

lemma inv_exit:
  assumes k: "kernel_inv k" and c: "c < length (cpus k)" "run_of k c = Some i" and e: "exit E c status k = Some (Ok (b, k1))"
  shows "kernel_inv (scheduler_back c i k1) \<and> nextpid k1 = nextpid k"
proof -
  have h: "harts (length (proc k)) (length (cpus k)) (kernel_pagetable k) (st_of k) (kpt_of k) (run_of k) (satp_of k)"
    using k by (simp add: kernel_inv_def hart_inv_def)
  have r: "st_of k i = RUNNING" "i < length (proc k)" using hartsD(2) [OF h c] by auto
  obtain ini op fs where x: "initproc k = Some ini" "ini \<noteq> i" "same_table k k1" "nextpid k1 = nextpid k"
    "\<forall>j<length (proc k). j \<noteq> i \<longrightarrow> proc k1 ! j = exited_entry i ini op j (proc k ! j)"
    "proc k1 ! i = (adopt i (Some ini) (proc k ! i))\<lparr>ofile := fs, cwd := 0, xstate := status, state := ZOMBIE\<rparr>"
    using exit_entries [OF e _ r(2,1)] c(2) unfolding myproc_def mycpu_def by metis
  have t: "tree (length (proc k)) ini (st_of k) (par_of k) (pid_of k) (nextpid k)"
    using k x(1) by (auto simp: kernel_inv_def tree_inv_def)
  have all: "pid_of k1 j = pid_of k j" "par_of k1 j = (if par_of k j = Some i then Some ini else par_of k j)" "kpt_of k1 j = kpt_of k j"
    if "j < length (proc k)" for j
    using x(5,6) that by (cases "j = i"; simp add: adopt_def)+
  have "tree (length (proc k)) ini (st_of k1) (par_of k1) (pid_of k1) (nextpid k)"
    by (rule tree_exit [OF t r(2)]) (use x(2,5,6) r all in \<open>simp_all add: alive_def\<close>)
  moreover have "harts (length (proc k)) (length (cpus k)) (kernel_pagetable k) (st_of k1) (kpt_of k1)
      (run_of (scheduler_back c i k1)) (satp_of (scheduler_back c i k1))"
    by (rule harts_back [OF h c]) (use all x(3,5,6) c in \<open>simp_all add: same_table_def\<close>)
  ultimately show ?thesis using x
    by (simp add: kernel_inv_def tree_inv_def hart_inv_def same_table_def)
qed

section \<open>All steps\<close>

lemma kstep_inv:
  assumes st: "kstep E k k'" and k: "kernel_inv k" and nx: "nextpid k < nextpid k + 1"
  shows "kernel_inv k' \<and> nextpid k' \<in> {nextpid k, nextpid k + 1}"
  using st
proof cases
  case (pick c i)
  then show ?thesis using inv_pick [OF k] by (auto simp: scheduler_pick_def Let_def split: if_splits)
next
  case (fork c r)
  then show ?thesis using inv_fork [OF k nx] by blast
next
  case (grow c n r)
  from grow(2) obtain i s x where g: "k' = k\<lparr>mem := s, proc := (proc k)[i := (proc k ! i)\<lparr>sz := x\<rparr>]\<rparr>" by (rule growproc_Ok)
  then have "k' = k\<lparr>mem := s, fsys := fsys k, proc := (proc k)[i := (proc k ! i)\<lparr>sz := x\<rparr>], lock_log := lock_log k\<rparr>" by simp
  from inv_tame_update [OF k _ this] show ?thesis using g by (simp add: tame_def)
next
  case (kill q r)
  from kill show ?thesis
  proof (cases rule: kill_result)
    case (missing ls)
    then have "k' = k\<lparr>mem := mem k, fsys := fsys k, proc := (proc k)[0 := proc k ! 0], lock_log := ls\<rparr>" by simp
    from inv_tame_update [OF k _ this] show ?thesis using missing by simp
  next
    case (found i ls)
    then have "k' = k\<lparr>mem := mem k, fsys := fsys k, proc := (proc k)[i := hit (proc k ! i)], lock_log := ls\<rparr>" by simp
    from inv_tame_update [OF k _ this] show ?thesis using found by (simp add: tame_def hit_def)
  qed
next
  case (wakeup ch)
  obtain ls where "k' = k\<lparr>proc := map (wake_if ch) (proc k), lock_log := ls\<rparr>" using wakeup wakeup_result by blast
  then show ?thesis using inv_tame [OF k, of k'] by (simp add: frame_of_def same_table_def tame_def wake_if_def)
next
  case (yield c i b k1)
  then have r: "run_of k c = Some i" by (simp add: myproc_def mycpu_def)
  from yield_Ok [OF yield(4,3)] obtain ls where "k1 = k\<lparr>proc := (proc k)[i := (proc k ! i)\<lparr>state := RUNNABLE\<rparr>], lock_log := ls\<rparr>" ..
  from inv_back_update [OF k yield(2) r this] this show ?thesis using yield(1) by simp
next
  case (sleep c i ch lk b k1)
  then have r: "run_of k c = Some i" by (simp add: myproc_def mycpu_def)
  from sleep_Ok [OF sleep(4,3)] obtain ls where
    "k1 = k\<lparr>proc := (proc k)[i := (proc k ! i)\<lparr>chan := Some ch, state := SLEEPING\<rparr>], lock_log := ls\<rparr>" ..
  from inv_back_update [OF k sleep(2) r this] this show ?thesis using sleep(1) by simp
next
  case (awake c lk b)
  then obtain i where i: "k' = (let k1 = upd_proc i (\<lambda>p. p\<lparr>chan := None\<rparr>) (sched_resume c b k)
      in if lk \<noteq> ProcLock i then acquire lk (release (ProcLock i) k1) else k1)"
    by (auto simp: sleep_resume_def Let_def)
  let ?k = "sched_resume c b k"
  have f: "frame_of ?k k'" and p: "proc k' = (proc ?k)[i := (proc ?k ! i)\<lparr>chan := None\<rparr>]"
    using i by (auto simp: frame_of_def same_table_def Let_def)
  have "tame (proc ?k ! i) ((proc ?k ! i)\<lparr>chan := None\<rparr>)" by (simp add: tame_def)
  then have "\<forall>j<length (proc ?k). tame (proc ?k ! j) (proc k' ! j)" unfolding p by (blast intro: tame_nth)
  from inv_tame [OF inv_sched_resume [OF k] f this] show ?thesis using f by (simp add: frame_of_def sched_resume_def)
next
  case (wait c addr r)
  then obtain i where i: "myproc c k = Some i" by (auto simp: wait_round_def)
  from wait(2) i show ?thesis
  proof (cases rule: wait_round_result)
    case (reap j q)
    then show ?thesis using inv_reap [OF k] by (auto simp: find_Some_iff slots_def)
  next
    case (give_up ls)
    then show ?thesis using inv_tame [OF k, of k'] by (simp add: frame_of_def same_table_def)
  qed simp
next
  case (wait_sleep c i addr b k1)
  then have r: "run_of k c = Some i" by (simp add: myproc_def mycpu_def)
  from wait_sleep(4,3) show ?thesis
  proof (cases rule: wait_round_result)
    case (asleep b' ls)
    from inv_back_update [OF k wait_sleep(2) r asleep(5)] asleep(5) show ?thesis using wait_sleep(1) by simp
  qed simp_all
next
  case (exit c i status b k1)
  then have r: "run_of k c = Some i" by (simp add: myproc_def mycpu_def)
  from inv_exit [OF k exit(2) r exit(4)] show ?thesis using exit(1) by simp
next
  case (other s f ls)
  then show ?thesis using inv_tame [OF k, of k'] by (simp add: frame_of_def same_table_def)
qed

section \<open>Reachable states\<close>

lemma userinit_first:
  assumes b: "booted k" and u: "userinit E k = Some (Ok k')"
  shows "\<exists>i. first_process i k'"
proof -
  from u obtain r k1 where al: "allocproc E k = Some (Ok (r, k1))" by (auto simp: userinit_def)
  with u have "r \<noteq> None" by (cases r) (auto simp: userinit_def Let_def)
  then obtain i where r: "r = Some i" by blast
  from allocproc_result [OF al] r have t: "taken_slot i k k1" and n: "new_entry 1 (proc k ! i) (proc k1 ! i)"
    using b by (auto simp: booted_def)
  obtain x f where nm: "namei E ''/'' (fsys k1) = (x, f)" by fastforce
  from u al r nm obtain s where k': "k' = release (ProcLock i) (upd_proc i (\<lambda>p. p\<lparr>pname := safe_name ''initcode'', cwd := x, state := RUNNABLE\<rparr>)
      ((upd_proc i (\<lambda>p. p\<lparr>sz := PGSIZE\<rparr>) (k1\<lparr>initproc := Some i\<rparr>))\<lparr>mem := s, fsys := f\<rparr>))"
    by (auto simp: userinit_def Let_def upd_proc_def)
  have i: "i < length (proc k)" "length (proc k1) = length (proc k)" "cpus k1 = cpus k" "nextpid k1 = 2" "kernel_pagetable k1 = kernel_pagetable k"
    using t b by (auto simp: taken_slot_def same_table_def booted_def)
  have e: "st_of k' j = (if j = i then RUNNABLE else UNUSED)" "par_of k' j = None" "j = i \<longrightarrow> pid_of k' j = 1"
    if "j < length (proc k)" for j
    using that t n b i by (cases "j = i"; simp add: k' taken_slot_def new_entry_def booted_def; force)+
  show ?thesis unfolding first_process_def using b i e by (intro exI [of _ i]) (simp add: k' booted_def)
qed

lemma first_process_inv:
  assumes f: "first_process i k"
  shows "kernel_inv k"
proof -
  have e: "st_of k j = (if j = i then RUNNABLE else UNUSED)" "par_of k j = None" if "j < length (proc k)" for j
    using f that by (simp_all add: first_process_def)
  have "tree (length (proc k)) i (st_of k) (par_of k) (pid_of k) (nextpid k)"
    by (rule treeI) (use f e in \<open>auto simp: first_process_def alive_def used_def split: if_splits\<close>)
  moreover have "harts (length (proc k)) (length (cpus k)) (kernel_pagetable k) (st_of k) (kpt_of k) (run_of k) (satp_of k)"
    by (rule hartsI) (use f e in \<open>auto simp: first_process_def split: if_splits\<close>)
  ultimately show ?thesis using f by (simp add: kernel_inv_def tree_inv_def hart_inv_def first_process_def)
qed

lemma kreach_inv:
  assumes "kreach E n k" "n + 2 < 2 ^ 31"
  shows "kernel_inv k \<and> unat (nextpid k) \<le> n + 2"
  using assms
proof induction
  case (start i k)
  then show ?case using first_process_inv [OF start(1)] by (simp add: first_process_def)
next
  case (step n k k')
  then have k: "kernel_inv k" "unat (nextpid k) \<le> n + 2" by simp_all
  then have lt: "unat (nextpid k) < 2 ^ 31" using step.prems by simp
  then have u: "unat (nextpid k + 1) = unat (nextpid k) + 1" by (simp add: unat_word_ariths)
  then have "nextpid k < nextpid k + 1" by (simp add: word_less_nat_alt)
  from kstep_inv [OF step.hyps(2) k(1) this] u k(2) show ?case by auto
qed

end
