(* ===== verification/Proc_Props.thy ===== *)
theory Proc_Props
  imports Proc_Keep
begin

text \<open>
  The properties of lab 4's \<^verbatim>\<open>kernel/proc.c\<close>: the invariant of all reachable states, and \<^verbatim>\<open>exit\<close>, \<^verbatim>\<open>wait\<close> and \<^verbatim>\<open>kill\<close> with the locks
  they take.
\<close>

section \<open>Locks held\<close>

definition locked :: "lock set \<Rightarrow> ('a, 'f) kernel \<Rightarrow> bool" where
  "locked H k \<longleftrightarrow> finite H \<and> lock_run {} (lock_log k) = Some H \<and> noff k = int (card H)"

lemma off_depth_append: "off_depth (xs @ ys) = off_depth xs + off_depth ys"
  by (induction xs rule: off_depth.induct) auto

lemma locked_cong: "lock_log k' = lock_log k \<Longrightarrow> locked H k' = locked H k"
  by (simp add: locked_def noff_def)

lemma locked_acquire: "locked H k \<Longrightarrow> l \<notin> H \<Longrightarrow> locked (insert l H) (acquire l k)"
  by (simp add: locked_def noff_def off_depth_append)

lemma locked_release: "locked H k \<Longrightarrow> l \<in> H \<Longrightarrow> locked (H - {l}) (release l k)"
proof -
  assume a: "locked H k" "l \<in> H"
  then have "Suc (card (H - {l})) = card H" by (intro card_Suc_Diff1) (simp_all add: locked_def)
  then have c: "int (card H) - 1 = int (card (H - {l}))" by linarith
  have "noff (release l k) = noff k - 1" by (simp add: noff_def off_depth_append)
  also have "\<dots> = int (card (H - {l}))" unfolding c [symmetric] using a by (simp add: locked_def)
  finally have "noff (release l k) = int (card (H - {l}))" .
  moreover have "lock_run {} (lock_log (release l k)) = Some (H - {l})" using a by (simp add: locked_def)
  moreover have "finite (H - {l})" using a by (simp add: locked_def)
  ultimately show ?thesis unfolding locked_def by blast
qed

lemma locked_again: "locked H k \<Longrightarrow> l \<notin> H \<Longrightarrow> locked H (release l (acquire l k))"
  using locked_release [OF locked_acquire, of H k l l] by simp

lemma locked_upd [simp]: "locked H (upd_proc i f k) = locked H k" "locked H (k\<lparr>mem := s\<rparr>) = locked H k" "locked H (k\<lparr>fsys := g\<rparr>) = locked H k"
  by (simp_all add: locked_def noff_def)

lemma holding_locked: "locked H k \<Longrightarrow> holding l k \<longleftrightarrow> l \<in> H"
  by (simp add: locked_def holding_def)

lemma locked_empty: "lock_log k = [] \<Longrightarrow> locked {} k"
  by (simp add: locked_def noff_def)

text \<open>\<^verbatim>\<open>sched\<close> does not panic when only the lock of the process is held and its state has changed.\<close>

lemma sched_locked:
  assumes "myproc c k = Some i" "locked {ProcLock i} k" "state (proc k ! i) \<noteq> RUNNING"
  shows "sched c k = Some (Ok (intena (mycpu c k), k))"
  using assms holding_locked [OF assms(2), of "ProcLock i"]
  by (simp add: sched_def with_proc_def locked_def noff_def intr_get_def)

lemma reparent_locked:
  "locked H k \<Longrightarrow> \<forall>j\<in>set is. par_of k j = Some p \<longrightarrow> ProcLock j \<notin> H \<Longrightarrow> locked H (reparent_loop p is k)"
proof (induction "is" arbitrary: k)
  case Nil
  then show ?case by simp
next
  case (Cons i js)
  let ?k = "if par_of k i = Some p then release (ProcLock i) (upd_proc i (\<lambda>q. q\<lparr>parent := initproc k\<rparr>) (acquire (ProcLock i) k)) else k"
  have "locked H ?k"
  proof (cases "par_of k i = Some p")
    case True
    then have n: "ProcLock i \<notin> H" using Cons.prems by simp
    have "locked (insert (ProcLock i) H) (upd_proc i (\<lambda>q. q\<lparr>parent := initproc k\<rparr>) (acquire (ProcLock i) k))"
      using locked_acquire [OF Cons.prems(1) n] by simp
    from locked_release [OF this, of "ProcLock i"] n True show ?thesis by simp
  qed (use Cons.prems in simp)
  moreover have "par_of ?k j = Some p \<longrightarrow> ProcLock j \<notin> H" if "j \<in> set js" for j
    using Cons.prems(2) that by (cases "j = i"; cases "i < length (proc k)") (auto simp: list_update_beyond split: if_splits)
  ultimately have "locked H (reparent_loop p js ?k)" using Cons.IH [of ?k] by blast
  then show ?case by (cases "par_of k i = Some p") (simp_all add: Let_def)
qed

lemma wakeup1_locked:
  assumes "locked H k" "ProcLock i \<in> H"
  shows "wakeup1 i k = Some (Ok (k\<lparr>proc := (proc k)[i := wake1 i (proc k ! i)]\<rparr>))"
  using holding_locked [OF assms(1), of "ProcLock i"] assms by (simp add: wakeup1_def wake1_def upd_proc_def)

section \<open>Exit\<close>

text \<open>In a tree of processes, the children of a process are neither it nor its parent.\<close>

lemma tree_children:
  assumes "kernel_inv k" "i < length (proc k)" "st_of k i \<noteq> UNUSED" "initproc k \<noteq> Some i"
  obtains op where "par_of k i = Some op" "op < length (proc k)" "op \<noteq> i" "\<forall>j<length (proc k). par_of k j = Some i \<longrightarrow> j \<noteq> i \<and> j \<noteq> op"
proof -
  from assms obtain ini where t: "initproc k = Some ini" "tree (length (proc k)) ini (st_of k) (par_of k) (pid_of k) (nextpid k)"
    by (auto simp: kernel_inv_def tree_inv_def)
  from treeD(2) [OF t(2) assms(2,3)] t(1) assms(4) obtain op where op: "op < length (proc k)" "par_of k i = Some op" "pid_of k op < pid_of k i" "alive (st_of k op)"
    by (auto simp: used_def)
  have "pid_of k i < pid_of k j" if "j < length (proc k)" "par_of k j = Some i" for j
  proof -
    have "st_of k j \<noteq> UNUSED" "j \<noteq> ini" using treeD(1) [OF t(2) that(1)] tree_ini [OF t(2)] that(2) by auto
    then show ?thesis using treeD(2) [OF t(2) that(1)] that(2) by (auto simp: used_def)
  qed
  then have "\<forall>j<length (proc k). par_of k j = Some i \<longrightarrow> j \<noteq> i \<and> j \<noteq> op" using op(3) by fastforce
  then show ?thesis using that op by auto
qed

lemma exit_zombie_ok:
  assumes k: "locked {} k" "myproc c k = Some i" "i < length (proc k)" "op \<noteq> i"
    and ch: "\<forall>j<length (proc k). par_of k j = Some i \<longrightarrow> j \<noteq> i \<and> j \<noteq> op"
  shows "\<exists>b k'. exit_zombie c i op status k = Some (Ok (b, k')) \<and> locked {ProcLock i} k'"
proof -
  let ?H = "{ProcLock i, ProcLock op}"
  let ?k = "acquire (ProcLock i) (acquire (ProcLock op) k)"
  have H: "locked ?H ?k" using locked_acquire [OF locked_acquire [OF k(1)], of "ProcLock op" "ProcLock i"] k(4) by (simp add: insert_commute)
  have "locked ?H (reparent i ?k)" unfolding reparent_def using ch by (intro reparent_locked [OF H]) (auto simp: slots_def)
  note w = wakeup1_locked [OF this, of op, simplified]
  obtain ls where r: "reparent i ?k = ?k\<lparr>proc := map (adopt i (initproc ?k)) (proc ?k), lock_log := ls\<rparr>" using reparent_result by blast
  define k7 where "k7 = upd_proc i (\<lambda>p. p\<lparr>xstate := status, state := ZOMBIE\<rparr>)
      (reparent i ?k\<lparr>proc := (proc (reparent i ?k))[op := wake1 op (proc (reparent i ?k) ! op)]\<rparr>)"
  have "locked ?H k7" using \<open>locked ?H (reparent i ?k)\<close> by (simp add: k7_def locked_def noff_def)
  from locked_release [OF this, of "ProcLock op"] have L: "locked {ProcLock i} (release (ProcLock op) k7)"
    using k(4) by (simp add: insert_Diff_if)
  have "myproc c (release (ProcLock op) k7) = Some i" "state (proc (release (ProcLock op) k7) ! i) = ZOMBIE"
    using k(2,3) by (simp_all add: k7_def r myproc_def mycpu_def)
  from sched_locked [OF this(1) L] this(2) have "sched c (release (ProcLock op) k7) = Some (Ok (intena (mycpu c (release (ProcLock op) k7)), release (ProcLock op) k7))"
    by simp
  then show ?thesis using L w by (simp add: exit_zombie_def Let_def k7_def)
qed


section \<open>Wait\<close>

lemma wait_scan_none:
  assumes "find (\<lambda>j. par_of k j = Some i \<and> st_of k j = ZOMBIE) js = None" "locked H k"
    "\<forall>j\<in>set js. par_of k j = Some i \<longrightarrow> ProcLock j \<notin> H"
  shows "\<exists>ls. wait_scan E i addr js hk k = Some (Ok ((None, hk \<or> (\<exists>j\<in>set js. par_of k j = Some i)), k\<lparr>lock_log := ls\<rparr>)) \<and>
    locked H (k\<lparr>lock_log := ls\<rparr>)"
  using assms
proof (induction js arbitrary: k hk)
  case Nil
  then show ?case by (auto intro: exI [of _ "lock_log k"])
next
  case (Cons j js)
  show ?case
  proof (cases "par_of k j = Some i")
    case True
    let ?k = "release (ProcLock j) (acquire (ProcLock j) k)"
    have z: "st_of k j \<noteq> ZOMBIE" using Cons.prems True by (auto split: if_splits)
    have "locked H ?k" using locked_again [OF Cons.prems(2)] Cons.prems(3) True by simp
    from Cons.IH [of ?k True] this Cons.prems True z show ?thesis by (auto simp: Let_def acquire_def release_def)
  next
    case False
    then show ?thesis using Cons.IH [of k hk] Cons.prems by simp
  qed
qed

lemma wait_scan_some:
  assumes "find (\<lambda>j. par_of k j = Some i \<and> st_of k j = ZOMBIE) js = Some z" "locked H k"
    "\<forall>j\<in>set js. par_of k j = Some i \<longrightarrow> ProcLock j \<notin> H"
  shows "\<exists>ls. wait_scan E i addr js hk k = kbind (wait_reap E i addr z (k\<lparr>lock_log := ls\<rparr>)) (\<lambda>(r, k2). Some (Ok ((Some r, True), k2))) \<and>
    locked (insert (ProcLock z) H) (k\<lparr>lock_log := ls\<rparr>)"
  using assms
proof (induction js arbitrary: k hk)
  case Nil
  then show ?case by simp
next
  case (Cons j js)
  show ?case
  proof (cases "par_of k j = Some i")
    case True
    show ?thesis
    proof (cases "st_of k j = ZOMBIE")
      case z: True
      then have "z = j" using Cons.prems True by simp
      then show ?thesis using True z locked_acquire [OF Cons.prems(2), of "ProcLock j"] Cons.prems(3) by (auto simp: Let_def acquire_def)
    next
      case z: False
      let ?k = "release (ProcLock j) (acquire (ProcLock j) k)"
      have "locked H ?k" using locked_again [OF Cons.prems(2)] Cons.prems(3) True by simp
      from Cons.IH [of ?k True] this Cons.prems True z show ?thesis by (auto simp: Let_def acquire_def release_def)
    qed
  next
    case False
    then show ?thesis using Cons.IH [of k hk] Cons.prems by simp
  qed
qed

text \<open>
  How \<^verbatim>\<open>wait\<close> by \<open>i\<close> deals with its zombie child \<open>z\<close>: the exit status is copied to \<open>addr\<close>, if that is not 0; if this fails the
  result is -1 and the child stays; otherwise its memory is given back and its entry is free, and the result is its pid.
\<close>

definition reap :: "('a, 'f) outside \<Rightarrow> nat \<Rightarrow> u64 \<Rightarrow> nat \<Rightarrow> lock lock_call list \<Rightarrow> ('a, 'f) kernel \<Rightarrow> (u32 \<times> ('a, 'f) kernel) run" where
  "reap E i addr z ls k =
     kbind (if addr \<noteq> 0 then Some (copyout (o_kalloc E) (pagetable (proc k ! i)) addr (word_bytes (xstate (proc k ! z))) 4 (mem k))
            else Some (Ok (0, mem k)))
       (\<lambda>(r, s). if r < 0 then Some (Ok (-1, k\<lparr>mem := s, lock_log := ls\<rparr>))
          else kbind (freeproc_mem E (proc k ! z) s)
            (\<lambda>s'. Some (Ok (pid (proc k ! z), k\<lparr>mem := s', proc := (proc k)[z := freeproc_fields (proc k ! z)], lock_log := ls\<rparr>))))"

lemma wait_reap_eq:
  assumes "locked {ProcLock i, ProcLock z} k" "z \<noteq> i"
  shows "\<exists>ls. wait_reap E i addr z k = reap E i addr z ls k \<and> locked {} (k\<lparr>lock_log := ls\<rparr>)"
proof (intro exI conjI)
  have "locked {} (release (ProcLock i) (release (ProcLock z) k))"
    using locked_release [OF locked_release [OF assms(1), of "ProcLock z"], of "ProcLock i"] assms(2) by (simp add: insert_Diff_if)
  then show "locked {} (k\<lparr>lock_log := lock_log k @ [Release (ProcLock z), Release (ProcLock i)]\<rparr>)" by (simp add: locked_def noff_def)
  show "wait_reap E i addr z k = reap E i addr z (lock_log k @ [Release (ProcLock z), Release (ProcLock i)]) k"
    by (cases "copyout (o_kalloc E) (pagetable (proc k ! i)) addr (word_bytes (xstate (proc k ! z))) 4 (mem k)")
      (auto simp: wait_reap_def reap_def Let_def lift_mem_def freeproc_def kbind_assoc release_def upd_proc_def)
qed

lemma reap_log: "reap E i addr z ls (k\<lparr>lock_log := ls'\<rparr>) = reap E i addr z ls k"
  by (simp add: reap_def cong: if_cong)

text \<open>
  C12: \<^verbatim>\<open>wait\<close> of a running process: with an exited child, the first one in the table is reaped; with no child, or when it is
  killed, it returns -1 and changes nothing; otherwise it goes to sleep on its own channel, holding only its own lock.
  Every lock taken is released and none is taken twice.
\<close>

theorem wait_reaps_or_sleeps:
  assumes k: "kernel_inv k" and c: "c < length (cpus k)" "run_of k c = Some i" and l: "lock_log k = []"
  shows "case find (\<lambda>j. parent (proc k ! j) = Some i \<and> state (proc k ! j) = ZOMBIE) [0..<length (proc k)] of
      Some z \<Rightarrow> \<exists>ls. wait E c addr k = kbind (reap E i addr z ls k) (\<lambda>(r, k'). Some (Ok (Waited r, k'))) \<and> lock_run {} ls = Some {}
    | None \<Rightarrow>
        if (\<forall>j<length (proc k). parent (proc k ! j) \<noteq> Some i) \<or> killed (proc k ! i)
        then \<exists>ls. wait E c addr k = Some (Ok (Waited (-1), k\<lparr>lock_log := ls\<rparr>)) \<and> lock_run {} ls = Some {}
        else \<exists>b ls. wait E c addr k = Some (Ok (Asleep b, k\<lparr>proc := (proc k)[i := (proc k ! i)\<lparr>chan := Some (ProcChan i), state := SLEEPING\<rparr>],
          lock_log := ls\<rparr>)) \<and> lock_run {} ls = Some {ProcLock i}"
proof -
  have r: "i < length (proc k)" "st_of k i = RUNNING" using k c by (auto simp: kernel_inv_def hart_inv_def dest!: hartsD(2))
  have ch: "\<forall>j<length (proc k). par_of k j = Some i \<longrightarrow> j \<noteq> i"
  proof (cases "initproc k = Some i")
    case True
    then show ?thesis using k by (auto simp: kernel_inv_def tree_inv_def dest!: tree_ini)
  next
    case False
    then show ?thesis using tree_children [OF k r(1)] r(2) by (metis procstate.distinct(5))
  qed
  have me: "myproc c k = Some i" using c by (simp add: myproc_def mycpu_def)
  let ?k = "acquire (ProcLock i) k"
  have L: "locked {ProcLock i} ?k" using locked_acquire [OF locked_empty [OF l]] by simp
  have C: "\<forall>j\<in>set (slots ?k). par_of ?k j = Some i \<longrightarrow> ProcLock j \<notin> {ProcLock i}" using ch by simp
  have me': "myproc c ?k = Some i" using me by (simp add: myproc_def mycpu_def)
  have sl: "slots ?k = slots k" by (simp add: slots_def)
  have w: "wait E c addr k = wait_round E c addr ?k" using me by (simp add: wait_def with_proc_def)
  let ?f = "find (\<lambda>j. par_of k j = Some i \<and> st_of k j = ZOMBIE) (slots k)"
  show ?thesis
  proof (cases ?f)
    case (Some z)
    then have z: "z \<noteq> i" using ch by (auto simp: find_Some_iff slots_def)
    obtain ls where s: "wait_scan E i addr (slots ?k) False ?k = kbind (wait_reap E i addr z (?k\<lparr>lock_log := ls\<rparr>)) (\<lambda>(r, k2). Some (Ok ((Some r, True), k2)))"
        "locked {ProcLock z, ProcLock i} (?k\<lparr>lock_log := ls\<rparr>)"
      using wait_scan_some [OF _ L C, of z E addr False] Some sl by auto
    then have "locked {ProcLock i, ProcLock z} (?k\<lparr>lock_log := ls\<rparr>)" by (simp add: insert_commute)
    from wait_reap_eq [OF this z, of E addr] obtain ls' where
      e: "wait_reap E i addr z (?k\<lparr>lock_log := ls\<rparr>) = reap E i addr z ls' k" "lock_run {} ls' = Some {}"
      by (auto simp: acquire_def reap_log locked_def)
    have "wait E c addr k = kbind (reap E i addr z ls' k) (\<lambda>(r, k'). Some (Ok (Waited r, k')))"
      unfolding w using me' s(1) e(1) by (simp add: wait_round_def with_proc_def kbind_assoc case_prod_beta' sl)
    then show ?thesis using Some e(2) by (auto simp: slots_def)
  next
    case None
    then have n: "find (\<lambda>j. par_of ?k j = Some i \<and> st_of ?k j = ZOMBIE) (slots ?k) = None" using sl by simp
    have bx: "(\<exists>j\<in>set (slots ?k). par_of ?k j = Some i) = (\<exists>j<length (proc k). par_of k j = Some i)" by auto
    obtain ls where s: "wait_scan E i addr (slots ?k) False ?k = Some (Ok ((None, \<exists>j<length (proc k). par_of k j = Some i), ?k\<lparr>lock_log := ls\<rparr>))"
        "locked {ProcLock i} (?k\<lparr>lock_log := ls\<rparr>)"
      using wait_scan_none [OF n L C, of E addr False, unfolded bx] by (simp only: simp_thms) blast
    let ?k1 = "?k\<lparr>lock_log := ls\<rparr>"
    show ?thesis
    proof (cases "(\<forall>j<length (proc k). par_of k j \<noteq> Some i) \<or> killed (proc k ! i)")
      case True
      have "locked {} (release (ProcLock i) ?k1)" using locked_release [OF s(2)] by simp
      then have "lock_run {} (ls @ [Release (ProcLock i)]) = Some {}" by (simp add: locked_def)
      moreover have "wait E c addr k = Some (Ok (Waited (-1), k\<lparr>lock_log := ls @ [Release (ProcLock i)]\<rparr>))"
        unfolding w using me' s(1) True sl by (auto simp: wait_round_def with_proc_def acquire_def release_def)
      ultimately show ?thesis using None True by (auto simp: slots_def)
    next
      case False
      define k2 where "k2 = upd_proc i (\<lambda>p. p\<lparr>chan := Some (ProcChan i), state := SLEEPING\<rparr>) ?k1"
      have "locked {ProcLock i} k2" "state (proc k2 ! i) \<noteq> RUNNING" "myproc c k2 = Some i"
        using s(2) r me by (simp_all add: k2_def myproc_def mycpu_def)
      from sched_locked [OF this(3,1,2)] have "sleep c (ProcChan i) (ProcLock i) ?k1 = Some (Ok (intena (mycpu c k2), k2))"
        using me by (simp add: sleep_def with_proc_def k2_def myproc_def mycpu_def)
      then have "wait E c addr k = Some (Ok (Asleep (intena (mycpu c k2)), k2))"
        unfolding w using me' s(1) False sl by (auto simp: wait_round_def with_proc_def acquire_def)
      then show ?thesis using None False \<open>locked {ProcLock i} k2\<close> by (auto simp: slots_def k2_def upd_proc_def acquire_def locked_def)
    qed
  qed
qed

section \<open>Kill\<close>

lemma kill_locked:
  "locked {} k \<Longrightarrow> locked {} (snd (kill_loop q is k))"
proof (induction "is" arbitrary: k)
  case (Cons i js)
  have "locked {} (release (ProcLock i) (f (acquire (ProcLock i) k)))" if "\<And>k. lock_log (f k) = lock_log k" for f
    using locked_again [OF Cons.prems, of "ProcLock i"] that [of "acquire (ProcLock i) k"] by (simp add: locked_def noff_def)
  from this [of id] this [of "\<lambda>k. upd_proc i (\<lambda>p. p\<lparr>state := RUNNABLE\<rparr>) (upd_proc i (\<lambda>p. p\<lparr>killed := True\<rparr>) k)"]
    this [of "\<lambda>k. upd_proc i (\<lambda>p. p\<lparr>killed := True\<rparr>) k"] Cons.IH
  show ?case by (simp add: Let_def)
qed simp

text \<open>
  C36: \<^verbatim>\<open>kill\<close> marks the first entry of the table with the given pid as killed, wakes it if it sleeps, and returns 0; without
  such an entry it returns -1 and changes nothing. Free entries count: \<^verbatim>\<open>kill(0)\<close> marks a free entry, and \<^verbatim>\<open>allocproc\<close>
  leaves the mark in place for the next process.
\<close>

theorem kill_marks_first_match:
  assumes "lock_log k = []"
  shows "\<exists>ls. lock_run {} ls = Some {} \<and> kill q k =
    (case find (\<lambda>i. pid (proc k ! i) = q) [0..<length (proc k)] of
       None \<Rightarrow> (-1, k\<lparr>lock_log := ls\<rparr>)
     | Some i \<Rightarrow> (0, k\<lparr>proc := (proc k)[i := (proc k ! i)\<lparr>killed := True,
         state := (if state (proc k ! i) = SLEEPING then RUNNABLE else state (proc k ! i))\<rparr>], lock_log := ls\<rparr>))"
proof -
  obtain r k' where e: "kill_loop q (slots k) k = (r, k')" by fastforce
  have "locked {} k'" using kill_locked [OF locked_empty [OF assms], of q "slots k"] e by simp
  moreover from kill_loop_result [OF _ e] obtain ls where "case find (\<lambda>i. pid (proc k ! i) = q) (slots k) of
       None \<Rightarrow> r = -1 \<and> k' = k\<lparr>lock_log := ls\<rparr>
     | Some i \<Rightarrow> r = 0 \<and> k' = k\<lparr>proc := (proc k)[i := hit (proc k ! i)], lock_log := ls\<rparr>" by auto
  ultimately show ?thesis using e
    by (intro exI [of _ ls]) (simp add: kill_def slots_def hit_def locked_def split: option.splits)
qed

section \<open>The invariant\<close>

text \<open>
  C1: In every state reached from the first process by fewer than \<^verbatim>\<open>INT_MAX\<close> steps of any number of harts: pids of entries
  in use are positive and distinct; every process but the first has a parent that has not exited, with a smaller pid; a
  free entry has no parent; a process is \<open>RUNNING\<close> exactly when a hart runs it, and then one hart only; and a hart has the kernel
  page table of the process it runs, or the global one when it runs none.
\<close>

theorem process_table_invariant:
  assumes "kreach E n k" "n + 2 < 2 ^ 31"
  shows "(\<forall>i<length (proc k). \<forall>j<length (proc k).
      state (proc k ! i) \<noteq> UNUSED \<and> state (proc k ! j) \<noteq> UNUSED \<and> pid (proc k ! i) = pid (proc k ! j) \<longrightarrow> i = j) \<and>
    (\<forall>i<length (proc k). if state (proc k ! i) = UNUSED then parent (proc k ! i) = None
      else 0 < pid (proc k ! i) \<and> (initproc k = Some i \<or>
        (\<exists>p<length (proc k). parent (proc k ! i) = Some p \<and> state (proc k ! p) \<notin> {UNUSED, ZOMBIE} \<and> pid (proc k ! p) < pid (proc k ! i)))) \<and>
    (\<forall>i<length (proc k). state (proc k ! i) = RUNNING \<longleftrightarrow> (\<exists>c<length (cpus k). cproc (cpus k ! c) = Some i)) \<and>
    (\<forall>c<length (cpus k). \<forall>d<length (cpus k). \<forall>i. cproc (cpus k ! c) = Some i \<and> cproc (cpus k ! d) = Some i \<longrightarrow> c = d) \<and>
    (\<forall>c<length (cpus k). satp (chart (cpus k ! c)) = MAKE_SATP (case cproc (cpus k ! c) of
      None \<Rightarrow> kernel_pagetable k | Some i \<Rightarrow> k_pagetable (proc k ! i)))"
proof -
  from kreach_inv [OF assms] obtain ini where t: "initproc k = Some ini" "tree (length (proc k)) ini (st_of k) (par_of k) (pid_of k) (nextpid k)"
    and h: "harts (length (proc k)) (length (cpus k)) (kernel_pagetable k) (st_of k) (kpt_of k) (run_of k) (satp_of k)"
    by (auto simp: kernel_inv_def tree_inv_def hart_inv_def)
  show ?thesis
  proof (intro conjI allI impI)
    fix i assume i: "i < length (proc k)"
    show "if state (proc k ! i) = UNUSED then parent (proc k ! i) = None
      else 0 < pid (proc k ! i) \<and> (initproc k = Some i \<or>
        (\<exists>p<length (proc k). parent (proc k ! i) = Some p \<and> state (proc k ! p) \<notin> {UNUSED, ZOMBIE} \<and> pid (proc k ! p) < pid (proc k ! i)))"
      using treeD(1,2) [OF t(2) i] t(1) by (auto simp: used_def alive_def)
    show "state (proc k ! i) = RUNNING \<longleftrightarrow> (\<exists>c<length (cpus k). cproc (cpus k ! c) = Some i)"
      using hartsD(2,4) [OF h] i by blast
  next
    fix c assume "c < length (cpus k)"
    then show "satp (chart (cpus k ! c)) = MAKE_SATP (case cproc (cpus k ! c) of None \<Rightarrow> kernel_pagetable k | Some i \<Rightarrow> k_pagetable (proc k ! i))"
      using hartsD(1,2) [OF h, of c] by (auto split: option.splits)
  qed (use treeD(3) [OF t(2)] hartsD(3) [OF h] in blast)+
qed

section \<open>A small machine\<close>

text \<open>Two harts and four entries: the first process (entry 0, asleep in \<^verbatim>\<open>wait\<close>), its child (entry 1), which runs on hart 0,
  a child of the child (entry 2), and a free entry.\<close>

definition ex_proc :: "procstate \<Rightarrow> nat option \<Rightarrow> u32 \<Rightarrow> proc" where
  "ex_proc st par q = \<lparr>state = st, parent = par, chan = None, killed = False, xstate = 0, pid = q, kstack = 0, kstack_pa = 0, sz = 0,
     k_pagetable = 0, pagetable = 0, trapframe = 0, kctx = \<lparr>ra = 0, sp = 0, callee_saved = []\<rparr>, ofile = [7, 0], cwd = 9, pname = []\<rparr>"

definition ex_cpu :: "nat option \<Rightarrow> cpu" where
  "ex_cpu r = \<lparr>cproc = r, intena = False, chart = \<lparr>satp = MAKE_SATP 0, fences = 0\<rparr>, sstatus_SUM = False\<rparr>"

definition ex_kernel :: "proc list \<Rightarrow> nat option \<Rightarrow> (unit, nat) kernel" where
  "ex_kernel ps r = \<lparr>mem = \<lparr>ram = (\<lambda>_ _. 0)\<rparr>, proc = ps, cpus = [ex_cpu r, ex_cpu None], initproc = Some 0, nextpid = 4, kernel_pagetable = 0,
     first = False, fsys = 0, lock_log = []\<rparr>"

definition ex_ps :: "proc list" where
  "ex_ps = [(ex_proc SLEEPING None 1)\<lparr>chan := Some (ProcChan 0)\<rparr>, ex_proc RUNNING (Some 0) 2, ex_proc RUNNABLE (Some 1) 3, ex_proc UNUSED None 0]"

definition ex_outside :: "(unit, nat) outside" where
  "ex_outside = \<lparr>o_kalloc = (\<lambda>s. (0, s)), o_kfree = (\<lambda>_ s. Ok s),
     layout = \<lparr>kend = 0, PHYSTOP = 0, UART0 = 0, VIRTIO0 = 0, CLINT = 0, PLIC = 0, KERNBASE = 0, TRAMPOLINE = 0, etext = 0, trampoline = 0\<rparr>,
     TRAPFRAME = 0, KSTACK = (\<lambda>_. 0), forkret_addr = 0, filedup = (\<lambda>f s. (f, s)), fileclose = (\<lambda>f s. s + 1), idup = (\<lambda>d s. (d, s)),
     iput = (\<lambda>d s. s), begin_op = (\<lambda>s. s), end_op = (\<lambda>s. s), namei = (\<lambda>p s. (1, s)), fsinit = (\<lambda>s. s), copyin_new = (\<lambda>b pt src n s. Ok (-1, []))\<rparr>"

lemma all_less_4: "(\<forall>i<4. P i) \<longleftrightarrow> P 0 \<and> P 1 \<and> P 2 \<and> P (3 :: nat)"
  by (auto simp: less_Suc_eq numeral_eq_Suc)

lemma ex_inv: "kernel_inv (ex_kernel ex_ps (Some 1))"
proof -
  have "tree 4 0 (\<lambda>i. state (ex_ps ! i)) (\<lambda>i. parent (ex_ps ! i)) (\<lambda>i. pid (ex_ps ! i)) 4"
    unfolding tree_def used_def all_less_4 by (auto simp: ex_ps_def ex_proc_def alive_def)
  moreover have "harts 4 2 0 (\<lambda>i. state (ex_ps ! i)) (\<lambda>i. k_pagetable (ex_ps ! i)) (\<lambda>c. cproc ([ex_cpu (Some 1), ex_cpu None] ! c))
      (\<lambda>c. satp (chart ([ex_cpu (Some 1), ex_cpu None] ! c)))"
    unfolding harts_def all_less_4 by (auto simp: ex_ps_def ex_proc_def ex_cpu_def less_2_cases_iff)
  moreover have "length ex_ps = 4" by (simp add: ex_ps_def)
  ultimately show ?thesis by (simp add: kernel_inv_def tree_inv_def hart_inv_def ex_kernel_def numeral_2_eq_2)
qed


text \<open>The first process runs and waits; its child has exited.\<close>

definition ex_ps2 :: "proc list" where
  "ex_ps2 = [ex_proc RUNNING None 1, (ex_proc ZOMBIE (Some 0) 2)\<lparr>xstate := 5\<rparr>, ex_proc UNUSED None 0, ex_proc UNUSED None 0]"

lemma ex_inv2: "kernel_inv (ex_kernel ex_ps2 (Some 0))"
proof -
  have "tree 4 0 (\<lambda>i. state (ex_ps2 ! i)) (\<lambda>i. parent (ex_ps2 ! i)) (\<lambda>i. pid (ex_ps2 ! i)) 4"
    unfolding tree_def used_def all_less_4 by (auto simp: ex_ps2_def ex_proc_def alive_def)
  moreover have "harts 4 2 0 (\<lambda>i. state (ex_ps2 ! i)) (\<lambda>i. k_pagetable (ex_ps2 ! i)) (\<lambda>c. cproc ([ex_cpu (Some 0), ex_cpu None] ! c))
      (\<lambda>c. satp (chart ([ex_cpu (Some 0), ex_cpu None] ! c)))"
    unfolding harts_def all_less_4 by (auto simp: ex_ps2_def ex_proc_def ex_cpu_def less_2_cases_iff)
  moreover have "length ex_ps2 = 4" by (simp add: ex_ps2_def)
  ultimately show ?thesis by (simp add: kernel_inv_def tree_inv_def hart_inv_def ex_kernel_def numeral_2_eq_2)
qed

theorem wait_reaps_or_sleeps_witness:
  "\<exists>k'. wait ex_outside 0 0 (ex_kernel ex_ps2 (Some 0)) = Some (Ok (Waited 2, k')) \<and> state (proc k' ! 1) = UNUSED \<and> pid (proc k' ! 1) = 0"
proof -
  have f: "find (\<lambda>j. parent (ex_ps2 ! j) = Some 0 \<and> state (ex_ps2 ! j) = ZOMBIE) [0..<length ex_ps2] = Some 1"
    by (simp add: ex_ps2_def ex_proc_def upt_rec)
  have "\<exists>ls. wait ex_outside 0 0 (ex_kernel ex_ps2 (Some 0)) =
      kbind (reap ex_outside 0 0 1 ls (ex_kernel ex_ps2 (Some 0))) (\<lambda>(r, k'). Some (Ok (Waited r, k')))"
    using wait_reaps_or_sleeps [OF ex_inv2, of 0 0 ex_outside 0] f unfolding ex_kernel_def by (simp add: ex_cpu_def) blast
  then show ?thesis by (auto simp: reap_def ex_kernel_def ex_ps2_def ex_proc_def freeproc_mem_def freeproc_fields_def)
qed

theorem kill_marks_first_match_witness:
  "fst (kill 0 (ex_kernel ex_ps (Some 1))) = 0 \<and> killed (proc (snd (kill 0 (ex_kernel ex_ps (Some 1)))) ! 3) \<and>
   state (proc (snd (kill 0 (ex_kernel ex_ps (Some 1)))) ! 3) = UNUSED"
proof -
  have f: "find (\<lambda>i. pid (ex_ps ! i) = 0) [0..<length ex_ps] = Some 3" by (simp add: ex_ps_def ex_proc_def upt_rec)
  show ?thesis using kill_marks_first_match [of "ex_kernel ex_ps (Some 1)" 0] f
    by (auto simp: ex_kernel_def) (simp_all add: ex_ps_def ex_proc_def)
qed

text \<open>The first process just created, and then picked by hart 0.\<close>

definition ex_ps0 :: "proc list" where
  "ex_ps0 = [(ex_proc RUNNABLE None 1)\<lparr>k_pagetable := 0x80001000\<rparr>, ex_proc UNUSED None 0]"

theorem process_table_invariant_witness:
  "\<exists>k. kreach ex_outside 1 k \<and> cproc (cpus k ! 0) = Some 0 \<and> satp (chart (cpus k ! 0)) = MAKE_SATP 0x80001000 \<and> state (proc k ! 0) = RUNNING"
proof -
  let ?k = "(ex_kernel ex_ps0 None)\<lparr>nextpid := 2\<rparr>"
  have "first_process 0 ?k"
    by (auto simp: first_process_def ex_kernel_def ex_ps0_def ex_proc_def ex_cpu_def less_Suc_eq numeral_2_eq_2)
  then have 0: "kreach ex_outside 0 ?k" by (rule kreach.start)
  obtain k where k: "scheduler_pick 0 0 ?k = (True, k)" "cproc (cpus k ! 0) = Some 0" "length (cpus k) = 2" "length (proc k) = 2"
      "k_pagetable (proc k ! 0) = 0x80001000"
    by (auto simp: scheduler_pick_def ex_kernel_def ex_ps0_def ex_proc_def Let_def)
  have "kstep ex_outside ?k k" by (rule kstep.pick [of 0 _ 0]) (use k in \<open>auto simp: ex_kernel_def ex_ps0_def ex_cpu_def\<close>)
  from kreach.step [OF 0 this] have r: "kreach ex_outside 1 k" by simp
  have n: "1 + 2 < (2 :: nat) ^ 31" by simp
  note inv = process_table_invariant [OF r n, THEN conjunct2, THEN conjunct2]
  have "state (proc k ! 0) = RUNNING \<longleftrightarrow> (\<exists>c<length (cpus k). cproc (cpus k ! c) = Some 0)"
    using inv [THEN conjunct1, rule_format, of 0] k by simp
  moreover have "satp (chart (cpus k ! 0)) = MAKE_SATP 0x80001000"
    using inv [THEN conjunct2, THEN conjunct2, rule_format, of 0] k by simp
  ultimately show ?thesis using r k by (intro exI [of _ k]) auto
qed

end
