(* ===== verification/Exec_Props.thy ===== *)
theory Exec_Props
  imports Exec Proc_Props
begin

text \<open>What \<^verbatim>\<open>exec\<close> does to the process that calls it.\<close>

lemma loadseg_loop_keeps:
  assumes "loadseg_loop E X pt va ip offset len i k = Some (Ok (r, k'))"
  shows "proc k' = proc k"
proof -
  have "\<forall>r k'. y = Ok (r, k') \<longrightarrow> proc k' = proc k" if "loadseg_loop E X pt va ip offset len i k = Some y" for y
    by (rule loadseg_loop.raw_induct [where P = "\<lambda>E X pt va ip offset len i k y. \<forall>r k'. y = Ok (r, k') \<longrightarrow> proc k' = proc k", OF _ that])
      (fastforce split: if_splits res.splits prod.splits simp: Let_def)
  then show ?thesis using assms by blast
qed

lemma loadseg_keeps: "loadseg E X pt va ip offset len k = Some (Ok (r, k')) \<Longrightarrow> proc k' = proc k"
  by (auto simp: loadseg_def split: if_splits dest: loadseg_loop_keeps)

lemma post_lift_mem [simp]: "post (lift_mem k r) Q \<longleftrightarrow> (\<forall>x s. r = Ok (x, s) \<longrightarrow> Q (x, k\<lparr>mem := s\<rparr>))"
  by (auto simp: post_def)

lemma post_lift_mem_unit [simp]: "post (lift_mem_unit k r) Q \<longleftrightarrow> (\<forall>s. r = Ok s \<longrightarrow> Q (k\<lparr>mem := s\<rparr>))"
  by (auto simp: post_def)

lemma post_keeps:
  assumes "post m (\<lambda>(r, k'). proc k' = p)" "\<And>r k'. proc k' = p \<Longrightarrow> Q (r, k')"
  shows "post m Q"
  using assms unfolding post_def by auto

lemma loadseg_post: "post (loadseg E X pt va ip offset len k) (\<lambda>(r, k'). proc k' = proc k)"
  by (auto simp: post_def dest: loadseg_keeps)

lemma exec_segment_post: "post (exec_segment E X pt ip ph len k) (\<lambda>(r, k'). proc k' = proc k)"
  unfolding exec_segment_def by (auto intro: post_keeps [OF loadseg_post])

lemma exec_load_post: "proc k = p \<Longrightarrow> post (exec_load E X pt ip n off len k) (\<lambda>(r, k'). proc k' = p)"
proof (induction n arbitrary: off len k)
  case (Suc n)
  obtain ph f where ph: "read_ph X ip off (fsys k) = (ph, f)" by fastforce
  show ?case
  proof (cases ph)
    case None
    then show ?thesis using Suc.prems ph by auto
  next
    case (Some h)
    have "post (exec_segment E X pt ip h len (k\<lparr>fsys := f\<rparr>)) (\<lambda>((ok, len1), k2).
      post (if ok then exec_load E X pt ip n (off + sizeof_ph X) len1 k2 else Some (Ok ((False, len1), k2))) (\<lambda>(r, k'). proc k' = p))"
      by (rule post_keeps [OF exec_segment_post]) (use Suc in auto)
    then show ?thesis using Suc ph Some by (auto simp: Let_def case_prod_beta')
  qed
qed simp

lemma exec_bad_post: "proc k = p \<Longrightarrow> post (exec_bad E X pt len ip k) (\<lambda>(r, k'). r = -1 \<and> proc k' = p)"
  unfolding exec_bad_def by (auto simp: post_def Let_def)

text \<open>Past the commit point, a failing \<^verbatim>\<open>kvmcopy\<close> frees the page table the process already has.\<close>

definition image_set :: "string \<Rightarrow> u64 \<Rightarrow> proc \<Rightarrow> proc" where
  "image_set path pt p = p\<lparr>pname := safe_name (last_part path), pagetable := pt\<rparr>"

definition exec_outcome :: "('a, 'f) outside \<Rightarrow> nat \<Rightarrow> string \<Rightarrow> nat \<Rightarrow> ('a, 'f) kernel \<Rightarrow> int \<Rightarrow> ('a, 'f) kernel \<Rightarrow> bool" where
  "exec_outcome E i path argc k r k' \<longleftrightarrow> (\<exists>pt len. pt \<noteq> 0 \<and>
     (r = int argc \<and> proc k' = (proc k)[i := (image_set path pt (proc k ! i))\<lparr>sz := len\<rparr>] \<or>
      r = -1 \<and> proc k' = (proc k)[i := image_set path pt (proc k ! i)] \<and> (\<exists>s. proc_freeuserpagetable E pt len s = Some (Ok (mem k')))))"

lemma exec_commit_Ok:
  assumes "exec_commit E X i path argc pt len oldsz stk ent k = Some (Ok (r, k'))" "pt \<noteq> 0" "i < length (proc k)"
  shows "exec_outcome E i path argc k r k'"
proof -
  define k2 where "k2 = upd_proc i (\<lambda>p. p\<lparr>pagetable := pt\<rparr>) (upd_proc i (\<lambda>p. p\<lparr>pname := safe_name (last_part path)\<rparr>)
      (k\<lparr>mem := wr_cell (trapframe (proc k ! i)) 15 stk (mem k)\<rparr>))"
  have p2: "proc k2 = (proc k)[i := image_set path pt (proc k ! i)]" using assms(3) by (simp add: k2_def image_set_def)
  from assms(1) have "\<exists>s4. exec_bad E X pt len 0 (k2\<lparr>mem := s4\<rparr>) = Some (Ok (r, k')) \<or>
      exec_done E i argc pt len (pagetable (proc k ! i)) oldsz stk ent (k2\<lparr>mem := s4\<rparr>) = Some (Ok (r, k'))"
    unfolding exec_commit_def Let_def k2_def [symmetric] by (auto split: if_splits)
  then obtain s4 where "exec_bad E X pt len 0 (k2\<lparr>mem := s4\<rparr>) = Some (Ok (r, k')) \<or>
      exec_done E i argc pt len (pagetable (proc k ! i)) oldsz stk ent (k2\<lparr>mem := s4\<rparr>) = Some (Ok (r, k'))" ..
  then show ?thesis
  proof
    assume "exec_bad E X pt len 0 (k2\<lparr>mem := s4\<rparr>) = Some (Ok (r, k'))"
    then have "r = -1" "proc k' = proc k2" "proc_freeuserpagetable E pt len s4 = Some (Ok (mem k'))"
      using assms(2) by (auto simp: exec_bad_def Let_def)
    then show ?thesis using assms(2) p2 unfolding exec_outcome_def by metis
  next
    assume "exec_done E i argc pt len (pagetable (proc k ! i)) oldsz stk ent (k2\<lparr>mem := s4\<rparr>) = Some (Ok (r, k'))"
    then have "r = int argc" "proc k' = (proc k2)[i := (proc k2 ! i)\<lparr>sz := len\<rparr>]" by (auto simp: exec_done_def Let_def)
    then have "r = int argc" "proc k' = (proc k)[i := (image_set path pt (proc k ! i))\<lparr>sz := len\<rparr>]" using assms(3) p2 by simp_all
    then show ?thesis using assms(2) unfolding exec_outcome_def by blast
  qed
qed

lemma exec_outcome_cong: "proc k0 = proc k \<Longrightarrow> exec_outcome E i path argc k0 r k' \<Longrightarrow> exec_outcome E i path argc k r k'"
  by (simp add: exec_outcome_def)

lemma exec_commit_post:
  assumes "proc k = p" "pt \<noteq> 0" "i < length p"
  shows "post (exec_commit E X i path argc pt len oldsz stk ent k)
    (\<lambda>(r, k'). \<exists>k0. proc k0 = p \<and> exec_outcome E i path argc k0 r k')"
  unfolding post_def using exec_commit_Ok assms by blast

text \<open>The result of the whole call for a process table \<open>p\<close>.\<close>

definition exec_result :: "('a, 'f) outside \<Rightarrow> nat \<Rightarrow> string \<Rightarrow> nat \<Rightarrow> proc list \<Rightarrow> int \<times> ('a, 'f) kernel \<Rightarrow> bool" where
  "exec_result E i path argc p = (\<lambda>(r, k'). r = -1 \<and> proc k' = p \<or> (\<exists>k0. proc k0 = p \<and> exec_outcome E i path argc k0 r k'))"

lemma exec_result_early: "proc k' = p \<Longrightarrow> exec_result E i path argc p (-1, k')"
  by (simp add: exec_result_def)

lemma exec_bad_result: "proc k = p \<Longrightarrow> post (exec_bad E X pt len ip k) (exec_result E i path argc p)"
  using exec_bad_post [of k p E X pt len ip] by (auto simp: exec_result_def post_def)

lemma exec_commit_result:
  "proc k = p \<Longrightarrow> pt \<noteq> 0 \<Longrightarrow> i < length p \<Longrightarrow> post (exec_commit E X i path argc pt len oldsz stk ent k) (exec_result E i path argc p)"
  using exec_commit_post [of k p pt i E X path argc len oldsz stk ent] by (auto simp: exec_result_def post_def)

lemma exec_image_result:
  assumes "proc k = p" "pt \<noteq> 0" "i < length p"
  shows "post (exec_image E X i path argv pt len ent k) (exec_result E i path (length argv) p)"
  unfolding exec_image_def Let_def
  by (auto simp: assms intro!: exec_bad_result exec_commit_result split: option.split)

lemma exec_result_of_exec:
  assumes "myproc c k = Some i" "i < length (proc k)"
  shows "post (exec E X c path argv k) (exec_result E i path (length argv) (proc k))"
proof -
  have load: "post (kbind (exec_load E X pt ip n off 0 (k\<lparr>fsys := f, mem := s\<rparr>)) (\<lambda>((ok, len), k3).
      if \<not> ok then exec_bad E X pt len ip k3
      else exec_image E X i path argv pt len ent (k3\<lparr>fsys := end_op E (iunlockput X ip (fsys k3))\<rparr>))) (exec_result E i path (length argv) (proc k))"
    if "pt \<noteq> 0" for pt ip n off f s ent
    unfolding post_kbind by (rule post_keeps [OF exec_load_post])
      (use assms that in \<open>auto intro!: exec_bad_result exec_image_result\<close>)
  have build: "post (kbind (proc_pagetable E q s0) (\<lambda>(pt, s). let k2 = k\<lparr>fsys := f, mem := s\<rparr> in
      if pt = 0 then exec_bad E X 0 0 ip k2
      else kbind (exec_load E X pt ip n off 0 k2) (\<lambda>((ok, len), k3). if \<not> ok then exec_bad E X pt len ip k3
        else exec_image E X i path argv pt len ent (k3\<lparr>fsys := end_op E (iunlockput X ip (fsys k3))\<rparr>)))) (exec_result E i path (length argv) (proc k))"
    for q s0 f ip n off ent
    unfolding post_kbind [of "proc_pagetable E q s0"] Let_def by (rule post_any) (use load in \<open>auto intro!: exec_bad_result simp del: post_kbind\<close>)
  obtain ip f1 where ip: "namei E path (begin_op E (fsys k)) = (ip, f1)" by fastforce
  obtain r f2 where r: "read_elf X ip (ilock X ip f1) = (r, f2)" by fastforce
  show ?thesis
    unfolding exec_def with_proc_def assms(1) option.case ip r Let_def case_prod_conv
    using build [unfolded Let_def]
    by (auto intro!: exec_bad_result exec_result_early simp del: post_kbind split: option.split)
qed


text \<open>A program that does not exist: the process keeps everything.\<close>

definition ex_exec_env :: "(unit, nat) exec_env" where
  "ex_exec_env = \<lparr>ilock = \<lambda>_ f. f, iunlockput = \<lambda>_ f. f, read_elf = \<lambda>_ f. (None, f), read_ph = \<lambda>_ _ f. (None, f),
     readi = \<lambda>_ _ _ n (f, s). (n, f, s), sizeof_ph = 56, ELF_MAGIC = 0x464C457F, ELF_PROG_LOAD = 1, MAXARG = 32\<rparr>"




end
