(* ===== verification/Syscall_Sum.thy ===== *)
theory Syscall_Sum
  imports Proc_Props
begin

text \<open>
  Lab 4's \<^verbatim>\<open>kernel/syscall.c\<close>: fetching arguments with \<^verbatim>\<open>copyin_new\<close> and \<^verbatim>\<open>copyinstr_new\<close>, which read user memory through the kernel page
  table while the bit \<^verbatim>\<open>SUM\<close> of \<^verbatim>\<open>sstatus\<close> is set, and the dispatcher. Both functions belong to files outside the
  repository; they are arguments that are told the bit. The handlers are an argument of the dispatcher.
\<close>

section \<open>Arguments\<close>

text \<open>\<^verbatim>\<open>w_sstatus(r_sstatus() | SSTATUS_SUM)\<close> and \<^verbatim>\<open>w_sstatus(r_sstatus() & ~SSTATUS_SUM)\<close>.\<close>

definition set_SUM :: "nat \<Rightarrow> bool \<Rightarrow> ('a, 'f) kernel \<Rightarrow> ('a, 'f) kernel" where
  "set_SUM c b = upd_cpu c (\<lambda>u. u\<lparr>sstatus_SUM := b\<rparr>)"

text \<open>The bytes read come with the result.\<close>

definition fetchaddr :: "('a, 'f) outside \<Rightarrow> nat \<Rightarrow> u64 \<Rightarrow> ('a, 'f) kernel \<Rightarrow> (int \<times> u8 list \<times> ('a, 'f) kernel) run" where
  "fetchaddr E c addr k = with_proc c k (\<lambda>i.
     let p = proc k ! i in
     if addr \<ge> sz p \<or> addr + 8 > sz p then Some (Ok (-1, [], k))
     else
       let k1 = set_SUM c True k in
       kbind (Some (copyin_new E (sstatus_SUM (mycpu c k1)) (pagetable p) addr 8 (mem k1))) (\<lambda>(r, bs).
       if r \<noteq> 0 then Some (Ok (-1, bs, set_SUM c False k1)) else Some (Ok (0, bs, set_SUM c False k1))))"

text \<open>\<open>cstr\<close> is \<^verbatim>\<open>copyinstr_new\<close>: its result and the string in the buffer.\<close>

definition fetchstr :: "(bool \<Rightarrow> u64 \<Rightarrow> u64 \<Rightarrow> int \<Rightarrow> 'a mach_scheme \<Rightarrow> (int \<times> string) res) \<Rightarrow> nat \<Rightarrow> u64 \<Rightarrow> int \<Rightarrow> ('a, 'f) kernel \<Rightarrow>
    (int \<times> string \<times> ('a, 'f) kernel) run" where
  "fetchstr cstr c addr mx k = with_proc c k (\<lambda>i.
     let k1 = set_SUM c True k in
     kbind (Some (cstr (sstatus_SUM (mycpu c k1)) (pagetable (proc k ! i)) addr mx (mem k1))) (\<lambda>(err, buf).
     let k2 = set_SUM c False k1
     in Some (Ok (if err < 0 then err else int (length buf), buf, k2))))"

text \<open>The fields \<^verbatim>\<open>a0\<close> to \<^verbatim>\<open>a7\<close> of the trap frame are its cells 14 to 21.\<close>

definition argraw :: "nat \<Rightarrow> nat \<Rightarrow> ('a, 'f) kernel \<Rightarrow> u64 run" where
  "argraw c n k = with_proc c k (\<lambda>i. if n \<le> 5 then Some (Ok (ram (mem k) (trapframe (proc k ! i)) (14 + n))) else Some (Panic ''argraw''))"

definition argint :: "nat \<Rightarrow> nat \<Rightarrow> ('a, 'f) kernel \<Rightarrow> (int \<times> u32) run" where
  "argint c n k = kbind (argraw c n k) (\<lambda>x. Some (Ok (0, ucast x)))"

definition argaddr :: "nat \<Rightarrow> nat \<Rightarrow> ('a, 'f) kernel \<Rightarrow> (int \<times> u64) run" where
  "argaddr c n k = kbind (argraw c n k) (\<lambda>x. Some (Ok (0, x)))"

definition argstr :: "(bool \<Rightarrow> u64 \<Rightarrow> u64 \<Rightarrow> int \<Rightarrow> 'a mach_scheme \<Rightarrow> (int \<times> string) res) \<Rightarrow> nat \<Rightarrow> nat \<Rightarrow> int \<Rightarrow> ('a, 'f) kernel \<Rightarrow>
    (int \<times> string \<times> ('a, 'f) kernel) run" where
  "argstr cstr c n mx k = kbind (argaddr c n k) (\<lambda>(r, addr). if r < 0 then Some (Ok (-1, [], k)) else fetchstr cstr c addr mx k)"

section \<open>The dispatcher\<close>

text \<open>The line for an unknown call: pid, name and number. \<open>nelem\<close> is the length of the table.\<close>

definition syscall :: "int \<Rightarrow> (nat \<Rightarrow> (nat \<Rightarrow> ('a, 'f) kernel \<Rightarrow> (u64 \<times> ('a, 'f) kernel) run) option) \<Rightarrow> nat \<Rightarrow> ('a, 'f) kernel \<Rightarrow>
    ((u32 \<times> string \<times> u32) list \<times> ('a, 'f) kernel) run" where
  "syscall nelem syscalls c k = with_proc c k (\<lambda>i.
     let p = proc k ! i;
         num = (ucast (ram (mem k) (trapframe p) 21) :: u32)
     in if sint num > 0 \<and> sint num < nelem \<and> syscalls (unat num) \<noteq> None then
          kbind (the (syscalls (unat num)) c k) (\<lambda>(r, k1). Some (Ok ([], k1\<lparr>mem := wr_cell (trapframe (proc k1 ! i)) 14 r (mem k1)\<rparr>)))
        else Some (Ok ([(pid p, pname p, num)], k\<lparr>mem := wr_cell (trapframe p) 14 (-1) (mem k)\<rparr>)))"

section \<open>User memory is open to the kernel only during the copies\<close>

lemma set_SUM_mycpu: "c < length (cpus k) \<Longrightarrow> sstatus_SUM (mycpu c (set_SUM c b k)) = b"
  by (simp add: set_SUM_def upd_cpu_def mycpu_def)

lemma set_SUM_back:
  assumes "c < length (cpus k)" "\<not> sstatus_SUM (mycpu c k)"
  shows "set_SUM c False (set_SUM c True k) = k"
proof -
  have "(cpus k ! c)\<lparr>sstatus_SUM := False\<rparr> = cpus k ! c" using assms(2) by (cases "cpus k ! c") (simp add: mycpu_def)
  then show ?thesis using assms(1) by (cases k) (simp add: set_SUM_def upd_cpu_def)
qed

lemma set_SUM_frame [simp]: "mem (set_SUM c b k) = mem k" "proc (set_SUM c b k) = proc k"
  by (simp_all add: set_SUM_def upd_cpu_def)

lemma below_size:
  assumes "n \<le> MAXVA"
  shows "\<not> (addr \<ge> n \<or> addr + 8 > n) \<longleftrightarrow> unat addr + 8 \<le> unat n"
proof (cases "addr < n")
  case True
  have "unat n \<le> 2 ^ 38" using assms by (simp add: word_le_nat_alt MAXVA_def)
  then have "unat addr + 8 < 2 ^ 64" using True by (simp add: word_less_nat_alt)
  then have "unat (addr + 8) = unat addr + 8" by (simp add: unat_word_ariths)
  then show ?thesis using True by (auto simp: word_less_nat_alt word_le_nat_alt)
qed (auto simp: word_less_nat_alt word_le_nat_alt)

text \<open>
  C19: \<^verbatim>\<open>fetchaddr\<close>, \<^verbatim>\<open>fetchstr\<close> and \<^verbatim>\<open>either_copyin\<close> of user memory call the copying function with \<^verbatim>\<open>SUM\<close> set and return, on every path, in exactly the state they
  were called in, with \<^verbatim>\<open>SUM\<close> cleared; \<^verbatim>\<open>fetchaddr\<close> does not copy at all unless the eight bytes lie below the size of the process.
\<close>

theorem user_access_bracketed:
  assumes "c < length (cpus k)" "\<not> sstatus_SUM (mycpu c k)" "myproc c k = Some i" "sz (proc k ! i) \<le> MAXVA"
  shows "(\<forall>r bs k'. fetchaddr E c addr k = Some (Ok (r, bs, k')) \<longrightarrow> k' = k \<and>
      (if unat addr + 8 \<le> unat (sz (proc k ! i)) then \<exists>q. copyin_new E True (pagetable (proc k ! i)) addr 8 (mem k) = Ok (q, bs) \<and> r = (if q = 0 then 0 else -1)
       else r = -1 \<and> bs = [])) \<and>
    (\<forall>r buf k'. fetchstr cstr c addr mx k = Some (Ok (r, buf, k')) \<longrightarrow> k' = k \<and>
      (\<exists>q. cstr True (pagetable (proc k ! i)) addr mx (mem k) = Ok (q, buf) \<and> r = (if q < 0 then q else int (length buf)))) \<and>
    (\<forall>r bs k'. either_copyin E c True addr len k = Some (Ok (r, bs, k')) \<longrightarrow> k' = k \<and>
      copyin_new E True (pagetable (proc k ! i)) addr len (mem k) = Ok (r, bs))"
proof -
  note range = below_size [OF assms(4), of addr]
  have a: "\<forall>r bs k'. fetchaddr E c addr k = Some (Ok (r, bs, k')) \<longrightarrow> k' = k \<and>
      (if unat addr + 8 \<le> unat (sz (proc k ! i)) then \<exists>q. copyin_new E True (pagetable (proc k ! i)) addr 8 (mem k) = Ok (q, bs) \<and> r = (if q = 0 then 0 else -1)
       else r = -1 \<and> bs = [])"
    using set_SUM_back [OF assms(1,2)] set_SUM_mycpu [OF assms(1), of True] assms(3) unfolding range [symmetric]
    by (auto simp: fetchaddr_def with_proc_def Let_def split: if_splits)
  have b: "\<forall>r buf k'. fetchstr cstr c addr mx k = Some (Ok (r, buf, k')) \<longrightarrow> k' = k \<and>
      (\<exists>q. cstr True (pagetable (proc k ! i)) addr mx (mem k) = Ok (q, buf) \<and> r = (if q < 0 then q else int (length buf)))"
    using set_SUM_back [OF assms(1,2)] set_SUM_mycpu [OF assms(1), of True] assms(3)
    by (auto simp: fetchstr_def with_proc_def Let_def)
  have e: "\<forall>r bs k'. either_copyin E c True addr len k = Some (Ok (r, bs, k')) \<longrightarrow> k' = k \<and>
      copyin_new E True (pagetable (proc k ! i)) addr len (mem k) = Ok (r, bs)"
    using set_SUM_back [OF assms(1,2)] set_SUM_mycpu [OF assms(1), of True] assms(3) set_SUM_frame [of c True k]
    unfolding either_copyin_def set_SUM_def [symmetric] by (auto simp: with_proc_def Let_def)
  from a b e show ?thesis by blast
qed

text \<open>Process 1 of the example runs on hart 0 and passes the address 8 of its 4096 bytes.\<close>

theorem user_access_bracketed_witness:
  "\<exists>k'. fetchaddr (ex_outside\<lparr>copyin_new := \<lambda>b pt a n s. Ok (if b then 0 else -1, [1])\<rparr>) 0 8 (ex_kernel (map (\<lambda>p. p\<lparr>sz := 4096\<rparr>) ex_ps) (Some 1)) = Some (Ok (0, [1], k')) \<and>
    k' = ex_kernel (map (\<lambda>p. p\<lparr>sz := 4096\<rparr>) ex_ps) (Some 1)"
proof -
  let ?k = "ex_kernel (map (\<lambda>p. p\<lparr>sz := 4096\<rparr>) ex_ps) (Some 1)" and ?E = "ex_outside\<lparr>copyin_new := \<lambda>b pt a n s. Ok (if b then 0 else -1, [1])\<rparr>"
  have c: "0 < length (cpus ?k)" "\<not> sstatus_SUM (mycpu 0 ?k)" "myproc 0 ?k = Some 1" "sz (proc ?k ! 1) = 4096"
    by (simp_all add: ex_kernel_def ex_cpu_def mycpu_def myproc_def ex_ps_def)
  then have m: "sz (proc ?k ! 1) \<le> MAXVA" by (simp add: MAXVA_def)
  have "\<exists>r bs k'. fetchaddr ?E 0 8 ?k = Some (Ok (r, bs, k'))" using c by (simp add: fetchaddr_def with_proc_def Let_def)
  then obtain r bs k' where f: "fetchaddr ?E 0 8 ?k = Some (Ok (r, bs, k'))" by blast
  then have "k' = ?k \<and> (\<exists>q. copyin_new ?E True (pagetable (proc ?k ! 1)) 8 8 (mem ?k) = Ok (q, bs) \<and> r = (if q = 0 then 0 else -1))"
    using user_access_bracketed [OF c(1-3) m, of ?E 8] c(4) by simp
  then show ?thesis using f by auto
qed

end
