(* ===== verification/Syscall.thy ===== *)
theory Syscall
  imports Kalloc_Single Proc
begin

text \<open>
  System calls of lab 2: the dispatcher and its argument fetching (\<^verbatim>\<open>kernel/syscall.c\<close>), tracing and \<^verbatim>\<open>sysinfo\<close>
  (\<^verbatim>\<open>trace\<close>, \<^verbatim>\<open>info\<close>, \<^verbatim>\<open>infonproc\<close>, \<^verbatim>\<open>infofreefd\<close> of \<^verbatim>\<open>kernel/proc.c\<close>) and the handlers of \<^verbatim>\<open>kernel/sysproc.c\<close> that use them. The
  table of handlers is an argument of the dispatcher; \<^verbatim>\<open>copyin\<close>, \<^verbatim>\<open>copyinstr\<close>, \<^verbatim>\<open>copyout\<close> and the layout of \<^verbatim>\<open>struct sysinfo\<close>
  belong to files outside the repository.
\<close>

section \<open>State\<close>

text \<open>
  \<^verbatim>\<open>struct proc\<close>; a process is an index into the table. The contents of the trap frame are kept in the process: \<open>sregs\<close> are its
  fields \<^verbatim>\<open>a0\<close> to \<^verbatim>\<open>a7\<close>, \<open>sframe\<close> are \<^verbatim>\<open>epc\<close>, \<^verbatim>\<open>sp\<close> and the others.
\<close>

datatype schan = ProcC nat | TicksC | ObjC u64

datatype slock = PidL | ProcL nat | TicksL | ObjL u64

record tframe =
  tepc :: u64
  tsp :: u64
  tothers :: "u64 list"

record sproc =
  sstate :: procstate
  sparent :: "nat option"
  schan :: "schan option"
  skilled :: bool
  sxstate :: u32
  spid :: u32
  skstack :: u64
  ssz :: u64
  spagetable :: u64
  strapframe :: u64
  sregs :: "u64 list"
  sframe :: tframe
  sctx :: kcontext
  sofile :: "u64 list"
  scwd :: u64
  sname :: string
  smask :: u32

datatype line = Trace_line u32 string u32 u64 | Unknown_line u32 string u32

text \<open>A hart: its process and the interrupt flag to restore.\<close>

record scpu =
  scur :: "nat option"
  sintena :: bool

record 'f skernel =
  sproc :: "sproc list"
  scpus :: "scpu list"
  sinitproc :: "nat option"
  snextpid :: u32
  sfirst :: bool
  skmem :: kmem
  sfsys :: 'f
  sticks :: u32
  slocks :: "slock lock_call list"
  sconsole :: "line list"

record sysinfo =
  freemem :: u64
  nproc :: u64
  freefd :: u64

definition upd_sproc :: "nat \<Rightarrow> (sproc \<Rightarrow> sproc) \<Rightarrow> 'f skernel \<Rightarrow> 'f skernel" where
  "upd_sproc i f k = k\<lparr>sproc := (sproc k)[i := f (sproc k ! i)]\<rparr>"

section \<open>Arguments\<close>

text \<open>\<open>cin\<close> is \<^verbatim>\<open>copyin\<close> of one \<^verbatim>\<open>uint64\<close>: its result and the value read. The result of \<open>fetchaddr\<close> carries the value it stores.\<close>

definition fetchaddr :: "(u64 \<Rightarrow> u64 \<Rightarrow> int \<times> u64) \<Rightarrow> u64 \<Rightarrow> sproc \<Rightarrow> int \<times> u64 option" where
  "fetchaddr cin addr p =
     (if addr \<ge> ssz p \<or> addr + 8 > ssz p then (-1, None)
      else
        let (r, x) = cin (spagetable p) addr
        in if r \<noteq> 0 then (-1, Some x) else (0, Some x))"

text \<open>\<open>cstr\<close> is \<^verbatim>\<open>copyinstr\<close> with its result and the string in the buffer.\<close>

definition fetchstr :: "(u64 \<Rightarrow> u64 \<Rightarrow> int \<Rightarrow> int \<times> string) \<Rightarrow> u64 \<Rightarrow> int \<Rightarrow> sproc \<Rightarrow> int \<times> string" where
  "fetchstr cstr addr mx p =
     (let (err, buf) = cstr (spagetable p) addr mx
      in if err < 0 then (err, buf) else (int (length buf), buf))"

definition argraw :: "nat \<Rightarrow> sproc \<Rightarrow> u64 res" where
  "argraw n p = (if n \<le> 5 then Ok (sregs p ! n) else Panic ''argraw'')"

definition argint :: "nat \<Rightarrow> sproc \<Rightarrow> (int \<times> u32) res" where
  "argint n p = rbind (argraw n p) (\<lambda>x. Ok (0, ucast x))"

definition argaddr :: "nat \<Rightarrow> sproc \<Rightarrow> (int \<times> u64) res" where
  "argaddr n p = rbind (argraw n p) (\<lambda>x. Ok (0, x))"

definition argstr :: "(u64 \<Rightarrow> u64 \<Rightarrow> int \<Rightarrow> int \<times> string) \<Rightarrow> nat \<Rightarrow> int \<Rightarrow> sproc \<Rightarrow> (int \<times> string) res" where
  "argstr cstr n mx p = rbind (argaddr n p) (\<lambda>(r, addr). if r < 0 then Ok (-1, []) else Ok (fetchstr cstr addr mx p))"

section \<open>Tracing\<close>

text \<open>The C operators on \<^verbatim>\<open>int\<close>: arithmetic shift to the right, and the remainder with the sign of the dividend.\<close>

definition shift_right :: "u32 \<Rightarrow> nat \<Rightarrow> int" where
  "shift_right m n = sint m div 2 ^ n"

definition c_rem :: "int \<Rightarrow> int \<Rightarrow> int" where
  "c_rem a b = (if a < 0 then - ((- a) mod b) else a mod b)"

definition trace :: "u32 \<Rightarrow> nat \<Rightarrow> 'f skernel \<Rightarrow> 'f skernel" where
  "trace m i k = upd_sproc i (\<lambda>p. p\<lparr>smask := m\<rparr>) k"

definition syscallsName :: "string list" where
  "syscallsName = [[], ''sys_fork'', ''sys_exit'', ''sys_wait'', ''sys_pipe'', ''sys_read'', ''sys_kill'', ''sys_exec'',
     ''sys_fstat'', ''sys_chdir'', ''sys_dup'', ''sys_getpid'', ''sys_sbrk'', ''sys_sleep'', ''sys_uptime'', ''sys_open'',
     ''sys_write'', ''sys_mknod'', ''sys_unlink'', ''sys_link'', ''sys_mkdir'', ''sys_close'', ''sys_trace'', ''sys_sysinfo'']"

type_synonym 'f handler = "nat \<Rightarrow> 'f skernel \<Rightarrow> (u64 \<times> 'f skernel) run"

text \<open>
  The dispatcher for process \<open>i\<close>. \<open>syscalls\<close> has an entry for each of the numbers 1 to 23, as the array has; the arrays have
  24 elements.
\<close>

definition syscall :: "(nat \<Rightarrow> 'f handler option) \<Rightarrow> nat \<Rightarrow> 'f skernel \<Rightarrow> 'f skernel run" where
  "syscall syscalls i k =
     (let p = sproc k ! i;
          num = (ucast (sregs p ! 7) :: u32)
      in if sint num > 0 \<and> sint num < 24 \<and> syscalls (unat num) \<noteq> None then
           kbind (Some (argint 0 p)) (\<lambda>(_, arg0).
           kbind (the (syscalls (unat num)) i k) (\<lambda>(r, k1).
           let k2 = upd_sproc i (\<lambda>p. p\<lparr>sregs := (sregs p)[0 := r]\<rparr>) k1;
               q = sproc k2 ! i
           in Some (Ok (if c_rem (shift_right (smask q) (unat num)) 2 = 1
                then k2\<lparr>sconsole := sconsole k2 @ [Trace_line (spid q) (syscallsName ! unat num) arg0 (sregs q ! 0)]\<rparr>
                else k2))))
         else
           let k1 = k\<lparr>sconsole := sconsole k @ [Unknown_line (spid p) (sname p) num]\<rparr>
           in Some (Ok (upd_sproc i (\<lambda>p. p\<lparr>sregs := (sregs p)[0 := -1]\<rparr>) k1)))"

section \<open>Counting\<close>

fun infonproc_loop :: "sproc list \<Rightarrow> u64 \<Rightarrow> u64" where
  "infonproc_loop [] n = n"
| "infonproc_loop (p # ps) n = infonproc_loop ps (if sstate p = UNUSED then n + 1 else n)"

definition infonproc :: "'f skernel \<Rightarrow> u64" where
  "infonproc k = infonproc_loop (sproc k) 0"

fun infofreefd_fds :: "u64 list \<Rightarrow> u64 \<Rightarrow> u64" where
  "infofreefd_fds [] n = n"
| "infofreefd_fds (f # fs) n = infofreefd_fds fs (if f = 0 then n + 1 else n)"

fun infofreefd_loop :: "sproc list \<Rightarrow> u64 \<Rightarrow> u64" where
  "infofreefd_loop [] n = n"
| "infofreefd_loop (p # ps) n = infofreefd_loop ps (infofreefd_fds (sofile p) n)"

definition infofreefd :: "'f skernel \<Rightarrow> u64" where
  "infofreefd k = infofreefd_loop (sproc k) 0"

text \<open>\<open>cout\<close> is \<^verbatim>\<open>copyout\<close> of a \<^verbatim>\<open>struct sysinfo\<close>.\<close>

definition info :: "(u64 \<Rightarrow> u64 \<Rightarrow> sysinfo \<Rightarrow> kmem \<Rightarrow> int \<times> kmem) \<Rightarrow> u64 \<Rightarrow> nat \<Rightarrow> 'f skernel \<Rightarrow> (int \<times> 'f skernel) run" where
  "info cout addr i k =
     (case infofreemem (skmem k) of
        None \<Rightarrow> None
      | Some (n, s1) \<Rightarrow>
          let v = \<lparr>freemem = n, nproc = infonproc k, freefd = infofreefd k\<rparr>;
              (r, s2) = cout (spagetable (sproc k ! i)) addr v s1
          in Some (Ok (if r < 0 then -1 else 0, k\<lparr>skmem := s2\<rparr>)))"

section \<open>Handlers\<close>

definition sys_getpid :: "'f handler" where
  "sys_getpid i k = Some (Ok (scast (spid (sproc k ! i)), k))"

definition sys_uptime :: "'f handler" where
  "sys_uptime i k = Some (Ok (ucast (sticks k), k\<lparr>slocks := slocks k @ [Acquire TicksL, Release TicksL]\<rparr>))"

definition sys_trace :: "'f handler" where
  "sys_trace i k =
     kbind (Some (argint 0 (sproc k ! i))) (\<lambda>(r, m). if r < 0 then Some (Ok (-1, k)) else Some (Ok (0, trace m i k)))"

definition sys_sysinfo :: "(u64 \<Rightarrow> u64 \<Rightarrow> sysinfo \<Rightarrow> kmem \<Rightarrow> int \<times> kmem) \<Rightarrow> 'f handler" where
  "sys_sysinfo cout i k =
     kbind (Some (argaddr 0 (sproc k ! i))) (\<lambda>(r, a).
       if r < 0 then Some (Ok (-1, k)) else kbind (info cout a i k) (\<lambda>(x, k1). Some (Ok (word_of_int x, k1))))"

end
