(* ===== verification/Sysfile.thy ===== *)
theory Sysfile
  imports Syscall
begin

text \<open>
  The file system calls of lab 2 (\<^verbatim>\<open>kernel/sysfile.c\<close>). The functions of \<^verbatim>\<open>fs.c\<close>, \<^verbatim>\<open>log.c\<close>, \<^verbatim>\<open>file.c\<close>, \<^verbatim>\<open>pipe.c\<close> and \<^verbatim>\<open>exec.c\<close> that they
  call are outside the repository's lab 2 and are arguments. Each call of such a function that takes or gives back a
  transaction, a lock or a reference is recorded in \<open>events\<close>, so that a run can be audited. \<open>None\<close> is a run that does not
  return.
\<close>

section \<open>State\<close>

record inode =
  itype :: "16 word"
  idev :: u32
  iinum :: u32
  inlink :: "16 word"
  iisize :: u32
  imajor :: "16 word"
  iminor :: "16 word"

datatype filetype = FD_NONE | FD_PIPE | FD_INODE | FD_DEVICE

record kfile =
  ftype :: filetype
  freadable :: bool
  fwritable :: bool
  fip :: u64
  foff :: u32
  fmajor :: "16 word"

record 'w filesys =
  inodes :: "u64 \<Rightarrow> inode"
  filetab :: "u64 \<Rightarrow> kfile"
  world :: 'w

text \<open>
  Calls, and three notes: \<open>Ref\<close> and \<open>Fref\<close> for an inode or file reference that a call returned, \<open>Own\<close> for an inode reference
  stored in a file. \<open>Page\<close> and \<open>Unpage\<close> are pages taken from \<^verbatim>\<open>kalloc\<close> and given to \<^verbatim>\<open>kfree\<close>.
\<close>

datatype event =
    Begin_op | End_op
  | Ref u64 | Ilock u64 | Iunlock u64 | Iunlockput u64 | Iput u64 | Iupdate u64 | Itrunc u64 | Own u64
  | Fref u64 | Filedup u64 | Fileclose u64
  | Page u64 | Unpage u64

record 'w fkernel =
  fproc :: sproc
  fs :: "'w filesys"
  fmem :: kmem
  events :: "event list"

text \<open>
  The functions outside: \<open>effect\<close> is what a call of \<open>event\<close> does to the file system. \<open>x_readde\<close> and \<open>x_clearde\<close> are \<^verbatim>\<open>readi\<close> and \<^verbatim>\<open>writei\<close> of a
  directory entry: its inode number, \<open>None\<close> for a short read; whether the whole entry was written.
\<close>

record 'w fs_env =
  effect :: "event \<Rightarrow> 'w filesys \<Rightarrow> 'w filesys"
  x_namei :: "string \<Rightarrow> 'w filesys \<Rightarrow> u64 \<times> 'w filesys"
  x_nameiparent :: "string \<Rightarrow> 'w filesys \<Rightarrow> (u64 \<times> string) \<times> 'w filesys"
  x_dirlookup :: "u64 \<Rightarrow> string \<Rightarrow> 'w filesys \<Rightarrow> (u64 \<times> u32) \<times> 'w filesys"
  x_dirlink :: "u64 \<Rightarrow> string \<Rightarrow> u32 \<Rightarrow> 'w filesys \<Rightarrow> int \<times> 'w filesys"
  x_ialloc :: "u32 \<Rightarrow> 16 word \<Rightarrow> 'w filesys \<Rightarrow> u64 \<times> 'w filesys"
  x_readde :: "u64 \<Rightarrow> u32 \<Rightarrow> 'w filesys \<Rightarrow> 16 word option \<times> 'w filesys"
  x_clearde :: "u64 \<Rightarrow> u32 \<Rightarrow> 'w filesys \<Rightarrow> bool \<times> 'w filesys"
  x_filealloc :: "'w filesys \<Rightarrow> u64 \<times> 'w filesys"
  x_fileread :: "u64 \<Rightarrow> u64 \<Rightarrow> u32 \<Rightarrow> 'w filesys \<Rightarrow> int \<times> 'w filesys"
  x_filewrite :: "u64 \<Rightarrow> u64 \<Rightarrow> u32 \<Rightarrow> 'w filesys \<Rightarrow> int \<times> 'w filesys"
  x_filestat :: "u64 \<Rightarrow> u64 \<Rightarrow> 'w filesys \<Rightarrow> int \<times> 'w filesys"
  x_pipealloc :: "'w filesys \<Rightarrow> (int \<times> u64 \<times> u64) \<times> 'w filesys"
  x_copyout :: "u64 \<Rightarrow> u64 \<Rightarrow> u32 \<Rightarrow> 'w filesys \<Rightarrow> int \<times> 'w filesys"
  x_exec :: "string \<Rightarrow> string list \<Rightarrow> 'w filesys \<Rightarrow> int \<times> 'w filesys"
  x_copyin :: "u64 \<Rightarrow> u64 \<Rightarrow> int \<times> u64"
  x_copyinstr :: "u64 \<Rightarrow> u64 \<Rightarrow> int \<Rightarrow> int \<times> string"
  x_namecmp :: "string \<Rightarrow> string \<Rightarrow> bool"
  x_layout :: memlayout
  T_DIR :: "16 word"
  T_FILE :: "16 word"
  T_DEVICE :: "16 word"
  NDEV :: nat
  MAXPATH :: int
  MAXARG :: nat
  O_RDONLY :: u32
  O_WRONLY :: u32
  O_RDWR :: u32
  O_CREATE :: u32
  O_TRUNC :: u32

section \<open>Calls and notes\<close>

definition audit :: "event \<Rightarrow> 'w fkernel \<Rightarrow> 'w fkernel" where
  "audit e k = k\<lparr>events := events k @ [e]\<rparr>"

definition fscall :: "'w fs_env \<Rightarrow> event \<Rightarrow> 'w fkernel \<Rightarrow> 'w fkernel" where
  "fscall X e k = audit e (k\<lparr>fs := effect X e (fs k)\<rparr>)"

definition inode_at :: "'w fkernel \<Rightarrow> u64 \<Rightarrow> inode" where
  "inode_at k ip = inodes (fs k) ip"

definition upd_inode :: "u64 \<Rightarrow> (inode \<Rightarrow> inode) \<Rightarrow> 'w fkernel \<Rightarrow> 'w fkernel" where
  "upd_inode ip f k = k\<lparr>fs := (fs k)\<lparr>inodes := (inodes (fs k))(ip := f (inodes (fs k) ip))\<rparr>\<rparr>"

definition upd_file :: "u64 \<Rightarrow> (kfile \<Rightarrow> kfile) \<Rightarrow> 'w fkernel \<Rightarrow> 'w fkernel" where
  "upd_file p f k = k\<lparr>fs := (fs k)\<lparr>filetab := (filetab (fs k))(p := f (filetab (fs k) p))\<rparr>\<rparr>"

definition upd_fproc :: "(sproc \<Rightarrow> sproc) \<Rightarrow> 'w fkernel \<Rightarrow> 'w fkernel" where
  "upd_fproc f k = k\<lparr>fproc := f (fproc k)\<rparr>"

definition on_fs :: "('w filesys \<Rightarrow> 'b \<times> 'w filesys) \<Rightarrow> 'w fkernel \<Rightarrow> 'b \<times> 'w fkernel" where
  "on_fs f k = (let (r, s) = f (fs k) in (r, k\<lparr>fs := s\<rparr>))"

text \<open>The calls that return an inode return it with a reference.\<close>

definition got :: "u64 \<Rightarrow> 'w fkernel \<Rightarrow> 'w fkernel" where
  "got ip k = (if ip = 0 then k else audit (Ref ip) k)"

definition namei :: "'w fs_env \<Rightarrow> string \<Rightarrow> 'w fkernel \<Rightarrow> u64 \<times> 'w fkernel" where
  "namei X path k = (let (ip, k1) = on_fs (x_namei X path) k in (ip, got ip k1))"

definition nameiparent :: "'w fs_env \<Rightarrow> string \<Rightarrow> 'w fkernel \<Rightarrow> u64 \<times> string \<times> 'w fkernel" where
  "nameiparent X path k = (let ((dp, name), k1) = on_fs (x_nameiparent X path) k in (dp, name, got dp k1))"

definition dirlookup :: "'w fs_env \<Rightarrow> u64 \<Rightarrow> string \<Rightarrow> 'w fkernel \<Rightarrow> u64 \<times> u32 \<times> 'w fkernel" where
  "dirlookup X dp name k = (let ((ip, off), k1) = on_fs (x_dirlookup X dp name) k in (ip, off, got ip k1))"

definition ialloc :: "'w fs_env \<Rightarrow> u32 \<Rightarrow> 16 word \<Rightarrow> 'w fkernel \<Rightarrow> u64 \<times> 'w fkernel" where
  "ialloc X dev ty k = (let (ip, k1) = on_fs (x_ialloc X dev ty) k in (ip, got ip k1))"

section \<open>Descriptors\<close>

definition argfd :: "nat \<Rightarrow> 'w fkernel \<Rightarrow> (nat \<times> u64) option res" where
  "argfd n k = rbind (argint n (fproc k)) (\<lambda>(r, fd).
     Ok (if r < 0 then None
         else if sint fd < 0 \<or> sint fd \<ge> int (length (sofile (fproc k))) \<or> sofile (fproc k) ! nat (sint fd) = 0 then None
         else Some (nat (sint fd), sofile (fproc k) ! nat (sint fd))))"

fun fdalloc_loop :: "u64 list \<Rightarrow> nat \<Rightarrow> nat option" where
  "fdalloc_loop [] fd = None"
| "fdalloc_loop (g # gs) fd = (if g = 0 then Some fd else fdalloc_loop gs (fd + 1))"

definition set_fd :: "nat \<Rightarrow> u64 \<Rightarrow> 'w fkernel \<Rightarrow> 'w fkernel" where
  "set_fd fd f = upd_fproc (\<lambda>p. p\<lparr>sofile := (sofile p)[fd := f]\<rparr>)"

definition fdalloc :: "u64 \<Rightarrow> 'w fkernel \<Rightarrow> int \<times> 'w fkernel" where
  "fdalloc f k =
     (case fdalloc_loop (sofile (fproc k)) 0 of
        None \<Rightarrow> (-1, k)
      | Some fd \<Rightarrow> (int fd, set_fd fd f k))"

type_synonym 'w fhandler = "'w fkernel \<Rightarrow> (int \<times> 'w fkernel) run"

definition sys_dup :: "'w fs_env \<Rightarrow> 'w fhandler" where
  "sys_dup X k = kbind (Some (argfd 0 k)) (\<lambda>a.
     case a of
       None \<Rightarrow> Some (Ok (-1, k))
     | Some (_, f) \<Rightarrow>
         let (fd, k1) = fdalloc f k
         in if fd < 0 then Some (Ok (-1, k1)) else Some (Ok (fd, fscall X (Filedup f) k1)))"

definition sys_rw :: "(u64 \<Rightarrow> u64 \<Rightarrow> u32 \<Rightarrow> 'w filesys \<Rightarrow> int \<times> 'w filesys) \<Rightarrow> 'w fhandler" where
  "sys_rw io k = kbind (Some (argfd 0 k)) (\<lambda>a.
     case a of
       None \<Rightarrow> Some (Ok (-1, k))
     | Some (_, f) \<Rightarrow>
         kbind (Some (argint 2 (fproc k))) (\<lambda>(r1, n).
         if r1 < 0 then Some (Ok (-1, k))
         else
           kbind (Some (argaddr 1 (fproc k))) (\<lambda>(r2, p).
           if r2 < 0 then Some (Ok (-1, k)) else Some (Ok (on_fs (io f p n) k)))))"

definition sys_read :: "'w fs_env \<Rightarrow> 'w fhandler" where
  "sys_read X = sys_rw (x_fileread X)"

definition sys_write :: "'w fs_env \<Rightarrow> 'w fhandler" where
  "sys_write X = sys_rw (x_filewrite X)"

definition sys_close :: "'w fs_env \<Rightarrow> 'w fhandler" where
  "sys_close X k = kbind (Some (argfd 0 k)) (\<lambda>a.
     case a of
       None \<Rightarrow> Some (Ok (-1, k))
     | Some (fd, f) \<Rightarrow> Some (Ok (0, fscall X (Fileclose f) (set_fd fd 0 k))))"

definition sys_fstat :: "'w fs_env \<Rightarrow> 'w fhandler" where
  "sys_fstat X k = kbind (Some (argfd 0 k)) (\<lambda>a.
     case a of
       None \<Rightarrow> Some (Ok (-1, k))
     | Some (_, f) \<Rightarrow>
         kbind (Some (argaddr 1 (fproc k))) (\<lambda>(r, st).
         if r < 0 then Some (Ok (-1, k)) else Some (Ok (on_fs (x_filestat X f st) k))))"

section \<open>Links\<close>

definition path_arg :: "'w fs_env \<Rightarrow> nat \<Rightarrow> 'w fkernel \<Rightarrow> (int \<times> string) run" where
  "path_arg X n k = Some (argstr (x_copyinstr X) n (MAXPATH X) (fproc k))"

text \<open>The label \<^verbatim>\<open>bad\<close> of \<^verbatim>\<open>sys_link\<close>.\<close>

definition link_bad :: "'w fs_env \<Rightarrow> u64 \<Rightarrow> 'w fhandler" where
  "link_bad X ip k =
     (let k1 = upd_inode ip (\<lambda>i. i\<lparr>inlink := inlink i - 1\<rparr>) (fscall X (Ilock ip) k)
      in Some (Ok (-1, fscall X End_op (fscall X (Iunlockput ip) (fscall X (Iupdate ip) k1)))))"

definition link_new :: "'w fs_env \<Rightarrow> u64 \<Rightarrow> string \<Rightarrow> 'w fhandler" where
  "link_new X ip new k =
     (let (dp, name, k1) = nameiparent X new k in
      if dp = 0 then link_bad X ip k1
      else
        let k2 = fscall X (Ilock dp) k1 in
        if idev (inode_at k2 dp) \<noteq> idev (inode_at k2 ip) then link_bad X ip (fscall X (Iunlockput dp) k2)
        else
          let (r, k3) = on_fs (x_dirlink X dp name (iinum (inode_at k2 ip))) k2 in
          if r < 0 then link_bad X ip (fscall X (Iunlockput dp) k3)
          else Some (Ok (0, fscall X End_op (fscall X (Iput ip) (fscall X (Iunlockput dp) k3)))))"

definition sys_link :: "'w fs_env \<Rightarrow> 'w fhandler" where
  "sys_link X k =
     kbind (path_arg X 0 k) (\<lambda>(r, old).
     if r < 0 then Some (Ok (-1, k))
     else
       kbind (path_arg X 1 k) (\<lambda>(r', new).
       if r' < 0 then Some (Ok (-1, k))
       else
         let (ip, k1) = namei X old (fscall X Begin_op k) in
         if ip = 0 then Some (Ok (-1, fscall X End_op k1))
         else
           let k2 = fscall X (Ilock ip) k1 in
           if itype (inode_at k2 ip) = T_DIR X then Some (Ok (-1, fscall X End_op (fscall X (Iunlockput ip) k2)))
           else
             let k3 = upd_inode ip (\<lambda>i. i\<lparr>inlink := inlink i + 1\<rparr>) k2
             in link_new X ip new (fscall X (Iunlock ip) (fscall X (Iupdate ip) k3))))"

text \<open>The offset is a 32-bit number that may wrap around. A directory entry has 16 bytes.\<close>

partial_function (option) isdirempty_loop :: "'w fs_env \<Rightarrow> u64 \<Rightarrow> u32 \<Rightarrow> 'w fkernel \<Rightarrow> (bool \<times> 'w fkernel) run" where
  "isdirempty_loop X dp off k =
     (if off < iisize (inode_at k dp) then
        let (r, k1) = on_fs (x_readde X dp off) k in
        case r of
          None \<Rightarrow> Some (Panic ''isdirempty: readi'')
        | Some n \<Rightarrow> if n \<noteq> 0 then Some (Ok (False, k1)) else isdirempty_loop X dp (off + 16) k1
      else Some (Ok (True, k)))"

definition isdirempty :: "'w fs_env \<Rightarrow> u64 \<Rightarrow> 'w fkernel \<Rightarrow> (bool \<times> 'w fkernel) run" where
  "isdirempty X dp k = isdirempty_loop X dp 32 k"

definition unlink_bad :: "'w fs_env \<Rightarrow> u64 \<Rightarrow> 'w fhandler" where
  "unlink_bad X dp k = Some (Ok (-1, fscall X End_op (fscall X (Iunlockput dp) k)))"

text \<open>From the write of the empty entry on.\<close>

definition unlink_entry :: "'w fs_env \<Rightarrow> u64 \<Rightarrow> u64 \<Rightarrow> u32 \<Rightarrow> 'w fhandler" where
  "unlink_entry X dp ip off k =
     (let (ok, k1) = on_fs (x_clearde X dp off) k in
      if \<not> ok then Some (Panic ''unlink: writei'')
      else
        let k2 = (if itype (inode_at k1 ip) = T_DIR X
                  then fscall X (Iupdate dp) (upd_inode dp (\<lambda>i. i\<lparr>inlink := inlink i - 1\<rparr>) k1) else k1);
            k3 = upd_inode ip (\<lambda>i. i\<lparr>inlink := inlink i - 1\<rparr>) (fscall X (Iunlockput dp) k2)
        in Some (Ok (0, fscall X End_op (fscall X (Iunlockput ip) (fscall X (Iupdate ip) k3)))))"

definition sys_unlink :: "'w fs_env \<Rightarrow> 'w fhandler" where
  "sys_unlink X k =
     kbind (path_arg X 0 k) (\<lambda>(r, path).
     if r < 0 then Some (Ok (-1, k))
     else
       let (dp, name, k1) = nameiparent X path (fscall X Begin_op k) in
       if dp = 0 then Some (Ok (-1, fscall X End_op k1))
       else
         let k2 = fscall X (Ilock dp) k1 in
         if x_namecmp X name ''.'' \<or> x_namecmp X name ''..'' then unlink_bad X dp k2
         else
           let (ip, off, k3) = dirlookup X dp name k2 in
           if ip = 0 then unlink_bad X dp k3
           else
             let k4 = fscall X (Ilock ip) k3 in
             if sint (inlink (inode_at k4 ip)) < 1 then Some (Panic ''unlink: nlink < 1'')
             else if itype (inode_at k4 ip) = T_DIR X then
               kbind (isdirempty X ip k4) (\<lambda>(empty, k5).
                 if \<not> empty then unlink_bad X dp (fscall X (Iunlockput ip) k5) else unlink_entry X dp ip off k5)
             else unlink_entry X dp ip off k4)"


section \<open>Creating and opening\<close>

text \<open>The entries \<^verbatim>\<open>.\<close> and \<^verbatim>\<open>..\<close> of a new directory.\<close>

definition create_dots :: "'w fs_env \<Rightarrow> u64 \<Rightarrow> u64 \<Rightarrow> 'w fkernel \<Rightarrow> 'w fkernel run" where
  "create_dots X dp ip k =
     (let k1 = fscall X (Iupdate dp) (upd_inode dp (\<lambda>i. i\<lparr>inlink := inlink i + 1\<rparr>) k);
          (r1, k2) = on_fs (x_dirlink X ip ''.'' (iinum (inode_at k1 ip))) k1
      in if r1 < 0 then Some (Panic ''create dots'')
         else
           let (r2, k3) = on_fs (x_dirlink X ip ''..'' (iinum (inode_at k2 dp))) k2
           in if r2 < 0 then Some (Panic ''create dots'') else Some (Ok k3))"

definition create_new :: "'w fs_env \<Rightarrow> u64 \<Rightarrow> string \<Rightarrow> 16 word \<Rightarrow> 16 word \<Rightarrow> 16 word \<Rightarrow> 'w fkernel \<Rightarrow> (u64 \<times> 'w fkernel) run" where
  "create_new X dp name ty major minor k =
     (let (ip, k1) = ialloc X (idev (inode_at k dp)) ty k in
      if ip = 0 then Some (Panic ''create: ialloc'')
      else
        let k2 = upd_inode ip (\<lambda>i. i\<lparr>imajor := major, iminor := minor, inlink := 1\<rparr>) (fscall X (Ilock ip) k1);
            k3 = fscall X (Iupdate ip) k2
        in kbind (if ty = T_DIR X then create_dots X dp ip k3 else Some (Ok k3)) (\<lambda>k4.
           let (r, k5) = on_fs (x_dirlink X dp name (iinum (inode_at k4 ip))) k4 in
           if r < 0 then Some (Panic ''create: dirlink'') else Some (Ok (ip, fscall X (Iunlockput dp) k5))))"

text \<open>The inode is returned locked, or 0.\<close>

definition create :: "'w fs_env \<Rightarrow> string \<Rightarrow> 16 word \<Rightarrow> 16 word \<Rightarrow> 16 word \<Rightarrow> 'w fkernel \<Rightarrow> (u64 \<times> 'w fkernel) run" where
  "create X path ty major minor k =
     (let (dp, name, k1) = nameiparent X path k in
      if dp = 0 then Some (Ok (0, k1))
      else
        let k2 = fscall X (Ilock dp) k1; (ip, _, k3) = dirlookup X dp name k2 in
        if ip \<noteq> 0 then
          let k4 = fscall X (Ilock ip) (fscall X (Iunlockput dp) k3); t = itype (inode_at k4 ip) in
          if ty = T_FILE X \<and> (t = T_FILE X \<or> t = T_DEVICE X) then Some (Ok (ip, k4))
          else Some (Ok (0, fscall X (Iunlockput ip) k4))
        else create_new X dp name ty major minor k3)"

text \<open>\<^verbatim>\<open>iunlockput(ip); end_op(); return -1\<close>.\<close>

definition open_fail :: "'w fs_env \<Rightarrow> u64 \<Rightarrow> 'w fhandler" where
  "open_fail X ip k = Some (Ok (-1, fscall X End_op (fscall X (Iunlockput ip) k)))"

definition filealloc :: "'w fs_env \<Rightarrow> 'w fkernel \<Rightarrow> u64 \<times> 'w fkernel" where
  "filealloc X k = (let (f, k1) = on_fs (x_filealloc X) k in (f, if f = 0 then k1 else audit (Fref f) k1))"

text \<open>From \<^verbatim>\<open>if(ip->type == T_DEVICE ...)\<close> on; the inode is locked.\<close>

definition open_file :: "'w fs_env \<Rightarrow> u32 \<Rightarrow> u64 \<Rightarrow> int \<Rightarrow> u64 \<Rightarrow> 'w fhandler" where
  "open_file X omode ip fd f k =
     (let k1 = (if itype (inode_at k ip) = T_DEVICE X
                then upd_file f (\<lambda>g. g\<lparr>ftype := FD_DEVICE, fmajor := imajor (inode_at k ip)\<rparr>) k
                else upd_file f (\<lambda>g. g\<lparr>ftype := FD_INODE, foff := 0\<rparr>) k);
          k2 = audit (Own ip) (upd_file f (\<lambda>g. g\<lparr>fip := ip, freadable := omode AND O_WRONLY X = 0,
                 fwritable := omode AND O_WRONLY X \<noteq> 0 \<or> omode AND O_RDWR X \<noteq> 0\<rparr>) k1);
          k3 = (if omode AND O_TRUNC X \<noteq> 0 \<and> itype (inode_at k2 ip) = T_FILE X then fscall X (Itrunc ip) k2 else k2)
      in Some (Ok (fd, fscall X End_op (fscall X (Iunlock ip) k3))))"

definition open_inode :: "'w fs_env \<Rightarrow> u32 \<Rightarrow> u64 \<Rightarrow> 'w fhandler" where
  "open_inode X omode ip k =
     (if itype (inode_at k ip) = T_DEVICE X \<and> (sint (imajor (inode_at k ip)) < 0 \<or> sint (imajor (inode_at k ip)) \<ge> int (NDEV X))
      then open_fail X ip k
      else
        let (f, k1) = filealloc X k in
        if f = 0 then open_fail X ip k1
        else
          let (fd, k2) = fdalloc f k1 in
          if fd < 0 then open_fail X ip (fscall X (Fileclose f) k2) else open_file X omode ip fd f k2)"

definition sys_open :: "'w fs_env \<Rightarrow> 'w fhandler" where
  "sys_open X k =
     kbind (path_arg X 0 k) (\<lambda>(n, path).
     if n < 0 then Some (Ok (-1, k))
     else
       kbind (Some (argint 1 (fproc k))) (\<lambda>(r, omode).
       if r < 0 then Some (Ok (-1, k))
       else
         let k1 = fscall X Begin_op k in
         if omode AND O_CREATE X \<noteq> 0 then
           kbind (create X path (T_FILE X) 0 0 k1) (\<lambda>(ip, k2).
           if ip = 0 then Some (Ok (-1, fscall X End_op k2)) else open_inode X omode ip k2)
         else
           let (ip, k2) = namei X path k1 in
           if ip = 0 then Some (Ok (-1, fscall X End_op k2))
           else
             let k3 = fscall X (Ilock ip) k2 in
             if itype (inode_at k3 ip) = T_DIR X \<and> omode \<noteq> O_RDONLY X then open_fail X ip k3
             else open_inode X omode ip k3))"

text \<open>The common end of \<^verbatim>\<open>sys_mkdir\<close> and \<^verbatim>\<open>sys_mknod\<close>.\<close>

definition create_only :: "'w fs_env \<Rightarrow> string \<Rightarrow> 16 word \<Rightarrow> 16 word \<Rightarrow> 16 word \<Rightarrow> 'w fhandler" where
  "create_only X path ty major minor k =
     kbind (create X path ty major minor k) (\<lambda>(ip, k1).
     if ip = 0 then Some (Ok (-1, fscall X End_op k1))
     else Some (Ok (0, fscall X End_op (fscall X (Iunlockput ip) k1))))"

definition sys_mkdir :: "'w fs_env \<Rightarrow> 'w fhandler" where
  "sys_mkdir X k =
     (let k1 = fscall X Begin_op k in
      kbind (path_arg X 0 k1) (\<lambda>(r, path).
      if r < 0 then Some (Ok (-1, fscall X End_op k1)) else create_only X path (T_DIR X) 0 0 k1))"

definition sys_mknod :: "'w fs_env \<Rightarrow> 'w fhandler" where
  "sys_mknod X k =
     (let k1 = fscall X Begin_op k in
      kbind (path_arg X 0 k1) (\<lambda>(r, path).
      if r < 0 then Some (Ok (-1, fscall X End_op k1))
      else
        kbind (Some (argint 1 (fproc k1))) (\<lambda>(r1, major).
        if r1 < 0 then Some (Ok (-1, fscall X End_op k1))
        else
          kbind (Some (argint 2 (fproc k1))) (\<lambda>(r2, minor).
          if r2 < 0 then Some (Ok (-1, fscall X End_op k1))
          else create_only X path (T_DEVICE X) (ucast major) (ucast minor) k1))))"

definition sys_chdir :: "'w fs_env \<Rightarrow> 'w fhandler" where
  "sys_chdir X k =
     (let k1 = fscall X Begin_op k in
      kbind (path_arg X 0 k1) (\<lambda>(r, path).
      if r < 0 then Some (Ok (-1, fscall X End_op k1))
      else
        let (ip, k2) = namei X path k1 in
        if ip = 0 then Some (Ok (-1, fscall X End_op k2))
        else
          let k3 = fscall X (Ilock ip) k2 in
          if itype (inode_at k3 ip) \<noteq> T_DIR X then open_fail X ip k3
          else
            let k4 = fscall X End_op (fscall X (Iput (scwd (fproc k3))) (fscall X (Iunlock ip) k3))
            in Some (Ok (0, upd_fproc (\<lambda>p. p\<lparr>scwd := ip\<rparr>) k4))))"

section \<open>Running programs and pipes\<close>

text \<open>\<^verbatim>\<open>kalloc\<close> and \<^verbatim>\<open>kfree\<close> of lab 2; the contents of a page of \<^verbatim>\<open>argv\<close> are kept beside it as a string.\<close>

definition page_alloc :: "'w fkernel \<Rightarrow> u64 \<times> 'w fkernel" where
  "page_alloc k = (let (pa, s) = kalloc (fmem k); k1 = k\<lparr>fmem := s\<rparr> in (pa, if pa = 0 then k1 else audit (Page pa) k1))"

fun free_pages :: "'w fs_env \<Rightarrow> u64 list \<Rightarrow> 'w fkernel \<Rightarrow> 'w fkernel run" where
  "free_pages X [] k = Some (Ok k)"
| "free_pages X (pa # pas) k =
     (case kfree (x_layout X) pa (fmem k) of
        Panic e \<Rightarrow> Some (Panic e)
      | Ok s \<Rightarrow> free_pages X pas (audit (Unpage pa) (k\<lparr>fmem := s\<rparr>)))"

text \<open>The loop that fetches the arguments, with \<open>n\<close> entries of \<^verbatim>\<open>argv\<close> left: whether it got to the null pointer, and the pages.\<close>

primrec fetch_args :: "'w fs_env \<Rightarrow> nat \<Rightarrow> u64 \<Rightarrow> nat \<Rightarrow> (u64 \<times> string) list \<Rightarrow> 'w fkernel \<Rightarrow> bool \<times> (u64 \<times> string) list \<times> 'w fkernel" where
  "fetch_args X 0 uargv i argv k = (False, argv, k)"
| "fetch_args X (Suc n) uargv i argv k =
     (let (r, uarg) = fetchaddr (x_copyin X) (uargv + 8 * of_nat i) (fproc k) in
      if r < 0 then (False, argv, k)
      else if uarg = Some 0 then (True, argv, k)
      else
        let (pa, k1) = page_alloc k in
        if pa = 0 then (False, argv, k1)
        else
          let (r', str) = fetchstr (x_copyinstr X) (the uarg) 4096 (fproc k1) in
          if r' < 0 then (False, argv @ [(pa, str)], k1)
          else fetch_args X n uargv (i + 1) (argv @ [(pa, str)]) k1)"

definition sys_exec :: "'w fs_env \<Rightarrow> 'w fhandler" where
  "sys_exec X k =
     kbind (path_arg X 0 k) (\<lambda>(r, path).
     if r < 0 then Some (Ok (-1, k))
     else
       kbind (Some (argaddr 1 (fproc k))) (\<lambda>(r', uargv).
       if r' < 0 then Some (Ok (-1, k))
       else
         let (ok, argv, k1) = fetch_args X (MAXARG X) uargv 0 [] k in
         if ok then
           let (ret, k2) = on_fs (x_exec X path (map snd argv)) k1
           in kbind (free_pages X (map fst argv) k2) (\<lambda>k3. Some (Ok (ret, k3)))
         else kbind (free_pages X (map fst argv) k1) (\<lambda>k2. Some (Ok (-1, k2)))))"

definition pipealloc :: "'w fs_env \<Rightarrow> 'w fkernel \<Rightarrow> int \<times> u64 \<times> u64 \<times> 'w fkernel" where
  "pipealloc X k =
     (let ((r, rfile, wfile), k1) = on_fs (x_pipealloc X) k
      in (r, rfile, wfile, if r < 0 then k1 else audit (Fref wfile) (audit (Fref rfile) k1)))"

definition close_both :: "'w fs_env \<Rightarrow> u64 \<Rightarrow> u64 \<Rightarrow> 'w fhandler" where
  "close_both X rfile wfile k = Some (Ok (-1, fscall X (Fileclose wfile) (fscall X (Fileclose rfile) k)))"

definition sys_pipe :: "'w fs_env \<Rightarrow> 'w fhandler" where
  "sys_pipe X k =
     kbind (Some (argaddr 0 (fproc k))) (\<lambda>(r, fdarray).
     if r < 0 then Some (Ok (-1, k))
     else
       let (r1, rfile, wfile, k1) = pipealloc X k in
       if r1 < 0 then Some (Ok (-1, k1))
       else
         let (fd0, k2) = fdalloc rfile k1 in
         if fd0 < 0 then close_both X rfile wfile k2
         else
           let (fd1, k3) = fdalloc wfile k2 in
           if fd1 < 0 then close_both X rfile wfile (set_fd (nat fd0) 0 k3)
           else
             let (c0, k4) = on_fs (x_copyout X (spagetable (fproc k3)) fdarray (word_of_int fd0)) k3 in
             if c0 < 0 then close_both X rfile wfile (set_fd (nat fd1) 0 (set_fd (nat fd0) 0 k4))
             else
               let (c1, k5) = on_fs (x_copyout X (spagetable (fproc k3)) (fdarray + 4) (word_of_int fd1)) k4 in
               if c1 < 0 then close_both X rfile wfile (set_fd (nat fd1) 0 (set_fd (nat fd0) 0 k5))
               else Some (Ok (0, k5)))"

end
