(* ===== verification/Call_Table.thy ===== *)
theory Call_Table
  imports Proc
begin

text \<open>
  Sequences of system calls of one process, for any table of handlers: what each handler keeps holds after every sequence of
  calls that return, with changes by the user program between them.
\<close>

inductive calls_reach :: "('s \<Rightarrow> ('r \<times> 's) run) set \<Rightarrow> ('s \<Rightarrow> 's \<Rightarrow> bool) \<Rightarrow> 's \<Rightarrow> 's \<Rightarrow> bool" for H U k0 where
  start: "calls_reach H U k0 k0"
| syscall: "calls_reach H U k0 k \<Longrightarrow> h \<in> H \<Longrightarrow> h k = Some (Ok (r, k')) \<Longrightarrow> calls_reach H U k0 k'"
| user: "calls_reach H U k0 k \<Longrightarrow> U k k' \<Longrightarrow> calls_reach H U k0 k'"

locale call_table =
  fixes H :: "('s \<Rightarrow> ('r \<times> 's) run) set"
    and U :: "'s \<Rightarrow> 's \<Rightarrow> bool"
    and inv :: "'s \<Rightarrow> bool"
    and kept :: "'s \<Rightarrow> 'r \<times> 's \<Rightarrow> bool"
  assumes handler: "h \<in> H \<Longrightarrow> inv k \<Longrightarrow> post (h k) (\<lambda>(r, k'). inv k' \<and> kept k (r, k'))"
    and user_inv: "U k k' \<Longrightarrow> inv k \<Longrightarrow> inv k'"
begin

lemma reach_inv: "calls_reach H U k0 k \<Longrightarrow> inv k0 \<Longrightarrow> inv k"
proof (induction rule: calls_reach.induct)
  case (syscall k h r k')
  then show ?case using postD [OF handler, of h k "(r, k')"] by simp
qed (auto intro: user_inv)

lemma reach_kept: "calls_reach H U k0 k \<Longrightarrow> inv k0 \<Longrightarrow> h \<in> H \<Longrightarrow> h k = Some (Ok (r, k')) \<Longrightarrow> kept k (r, k')"
  using postD [OF handler, of h k "(r, k')"] reach_inv by simp

end

end
