(* ===== verification/Sysfile_Props.thy ===== *)
theory Sysfile_Props
  imports Sysfile First_Fit Call_Table "HOL-Library.Multiset"
begin

text \<open>
  What the file system calls do with transactions, inode locks, inode references, file references and pages: an account is
  kept over the recorded events, and every call of every handler leaves it balanced.
\<close>

section \<open>The account\<close>

record account =
  in_op :: bool
  held :: "u64 multiset"
  irefs :: "u64 multiset"
  frefs :: "u64 multiset"
  pages :: "u64 multiset"

text \<open>
  What a call may do: inodes are locked, changed and put inside a transaction only, with a reference; changes need the lock;
  a lock, a reference or a page is given back only by its holder; a transaction ends without locks. \<open>None\<close> is a violation.
\<close>

fun book :: "event \<Rightarrow> account \<Rightarrow> account option" where
  "book Begin_op a = (if in_op a then None else Some (a\<lparr>in_op := True\<rparr>))"
| "book End_op a = (if in_op a \<and> held a = {#} then Some (a\<lparr>in_op := False\<rparr>) else None)"
| "book (Ref ip) a = (if in_op a then Some (a\<lparr>irefs := add_mset ip (irefs a)\<rparr>) else None)"
| "book (Ilock ip) a = (if in_op a \<and> ip \<in># irefs a then Some (a\<lparr>held := add_mset ip (held a)\<rparr>) else None)"
| "book (Iunlock ip) a = (if ip \<in># held a then Some (a\<lparr>held := held a - {#ip#}\<rparr>) else None)"
| "book (Iunlockput ip) a =
     (if in_op a \<and> ip \<in># held a \<and> ip \<in># irefs a then Some (a\<lparr>held := held a - {#ip#}, irefs := irefs a - {#ip#}\<rparr>) else None)"
| "book (Iput ip) a = (if in_op a \<and> ip \<in># irefs a then Some (a\<lparr>irefs := irefs a - {#ip#}\<rparr>) else None)"
| "book (Iupdate ip) a = (if in_op a \<and> ip \<in># held a then Some a else None)"
| "book (Itrunc ip) a = (if in_op a \<and> ip \<in># held a then Some a else None)"
| "book (Own ip) a = (if ip \<in># irefs a then Some (a\<lparr>irefs := irefs a - {#ip#}\<rparr>) else None)"
| "book (Fref f) a = Some (a\<lparr>frefs := add_mset f (frefs a)\<rparr>)"
| "book (Filedup f) a = (if f \<in># frefs a then Some (a\<lparr>frefs := add_mset f (frefs a)\<rparr>) else None)"
| "book (Fileclose f) a = (if f \<in># frefs a then Some (a\<lparr>frefs := frefs a - {#f#}\<rparr>) else None)"
| "book (Page p) a = Some (a\<lparr>pages := add_mset p (pages a)\<rparr>)"
| "book (Unpage p) a = (if p \<in># pages a then Some (a\<lparr>pages := pages a - {#p#}\<rparr>) else None)"

fun books :: "event list \<Rightarrow> account \<Rightarrow> account option" where
  "books [] a = Some a"
| "books (e # es) a = (case book e a of None \<Rightarrow> None | Some b \<Rightarrow> books es b)"

lemma books_append: "books (es @ es2) a = (case books es a of None \<Rightarrow> None | Some b \<Rightarrow> books es2 b)"
  by (induction es arbitrary: a) (auto split: option.splits)

text \<open>The account of a kernel, from the account \<open>a0\<close> on.\<close>

definition account_of :: "account \<Rightarrow> 'w fkernel \<Rightarrow> account option" where
  "account_of a0 k = books (events k) a0"

lemma account_audit [simp]: "account_of a0 (audit e k) = (case account_of a0 k of None \<Rightarrow> None | Some a \<Rightarrow> book e a)"
  by (auto simp: account_of_def audit_def books_append split: option.splits)

lemma account_fscall [simp]: "account_of a0 (fscall X e k) = (case account_of a0 k of None \<Rightarrow> None | Some a \<Rightarrow> book e a)"
  by (auto simp: account_of_def audit_def fscall_def books_append split: option.splits)

lemma account_frame [simp]:
  "account_of a0 (k\<lparr>fs := s\<rparr>) = account_of a0 k"
  "account_of a0 (k\<lparr>fmem := mm\<rparr>) = account_of a0 k"
  "account_of a0 (upd_inode ip f k) = account_of a0 k"
  "account_of a0 (upd_file g h k) = account_of a0 k"
  "account_of a0 (upd_fproc q k) = account_of a0 k"
  "account_of a0 (set_fd fd g k) = account_of a0 k"
  by (simp_all add: account_of_def upd_inode_def upd_file_def upd_fproc_def set_fd_def)

lemma fproc_frame [simp]:
  "fproc (audit e k) = fproc k"
  "fproc (fscall X e k) = fproc k"
  "fproc (upd_inode ip f k) = fproc k"
  "fproc (upd_file g h k) = fproc k"
  "fproc (upd_fproc q k) = q (fproc k)"
  by (simp_all add: audit_def fscall_def upd_inode_def upd_file_def upd_fproc_def)

lemma on_fs_eq: "on_fs f k = (fst (f (fs k)), k\<lparr>fs := snd (f (fs k))\<rparr>)"
  by (simp add: on_fs_def case_prod_beta' Let_def)

text \<open>Between calls of the process.\<close>

definition open_files :: "sproc \<Rightarrow> u64 multiset" where
  "open_files p = mset (filter (\<lambda>f. f \<noteq> 0) (sofile p))"

definition resting :: "sproc \<Rightarrow> account" where
  "resting p = \<lparr>in_op = False, held = {#}, irefs = {#scwd p#}, frefs = open_files p, pages = {#}\<rparr>"

definition balanced :: "account \<Rightarrow> 'w fkernel \<Rightarrow> bool" where
  "balanced a0 k \<longleftrightarrow> account_of a0 k = Some (resting (fproc k))"

lemma mset_update_free: "fd < length ofs \<Longrightarrow> ofs ! fd = 0 \<Longrightarrow> f \<noteq> 0 \<Longrightarrow>
  mset (filter (\<lambda>g. g \<noteq> 0) (ofs[fd := f])) = add_mset f (mset (filter (\<lambda>g. g \<noteq> 0) ofs))" for f :: u64
  by (induction ofs arbitrary: fd) (auto split: nat.splits)

lemma mset_update_close: "fd < length ofs \<Longrightarrow> ofs ! fd \<noteq> 0 \<Longrightarrow>
  mset (filter (\<lambda>g. g \<noteq> 0) (ofs[fd := 0])) = mset (filter (\<lambda>g. g \<noteq> 0) ofs) - {#ofs ! fd#}" for ofs :: "u64 list"
proof -
  assume a: "fd < length ofs" "ofs ! fd \<noteq> 0"
  have "mset (filter (\<lambda>g. g \<noteq> 0) ((ofs[fd := 0])[fd := ofs ! fd])) = add_mset (ofs ! fd) (mset (filter (\<lambda>g. g \<noteq> 0) (ofs[fd := 0])))"
    by (rule mset_update_free) (use a in auto)
  then show ?thesis by simp
qed

lemma fdalloc_loop_Some: "fdalloc_loop ofs n = Some fd \<Longrightarrow> n \<le> fd \<and> fd - n < length ofs \<and> ofs ! (fd - n) = 0 \<and> (\<forall>j<fd - n. ofs ! j \<noteq> 0)"
proof (induction ofs n rule: fdalloc_loop.induct)
  case (2 g gs n)
  show ?case
  proof (cases "g = 0")
    case False
    then have "n + 1 \<le> fd \<and> fd - (n + 1) < length gs \<and> gs ! (fd - (n + 1)) = 0 \<and> (\<forall>j<fd - (n + 1). gs ! j \<noteq> 0)" using 2 by simp
    moreover from this have "fd - n = Suc (fd - (n + 1))" by linarith
    ultimately show ?thesis using False by (auto simp: nth_Cons less_Suc_eq_0_disj)
  qed (use 2 in auto)
qed simp

lemma fdalloc_open_files:
  assumes "fdalloc f k = (fd, k1)" "f \<noteq> 0"
  shows "if fd < 0 then fd = -1 \<and> k1 = k
    else k1 = set_fd (nat fd) f k \<and> nat fd < length (sofile (fproc k)) \<and> sofile (fproc k) ! nat fd = 0 \<and> open_files (fproc k1) = add_mset f (open_files (fproc k))"
  using assms fdalloc_loop_Some [of "sofile (fproc k)" 0]
  by (auto simp: fdalloc_def open_files_def set_fd_def mset_update_free simp del: mset_filter split: option.splits)


section \<open>Handlers on descriptors\<close>

lemma argfd_Some:
  "argfd n k = Ok (Some (fd, f)) \<Longrightarrow> fd < length (sofile (fproc k)) \<and> sofile (fproc k) ! fd = f \<and> f \<noteq> 0"
  by (auto simp: argfd_def split: if_splits)

lemma open_files_member: "fd < length (sofile p) \<Longrightarrow> sofile p ! fd = f \<Longrightarrow> f \<noteq> 0 \<Longrightarrow> f \<in># open_files p"
  by (auto simp: open_files_def)

text \<open>
  A handler keeps the account balanced, and changes neither descriptors nor the current directory when it returns -1.
\<close>

definition good :: "account \<Rightarrow> 'w fkernel \<Rightarrow> int \<times> 'w fkernel \<Rightarrow> bool" where
  "good a0 k = (\<lambda>(r, k'). balanced a0 k' \<and> (r = -1 \<longrightarrow> sofile (fproc k') = sofile (fproc k) \<and> scwd (fproc k') = scwd (fproc k)))"

lemma good_same: "balanced a0 k \<Longrightarrow> good a0 k (r, k)"
  by (simp add: good_def)

lemma args_Ok [simp]:
  "n \<le> 5 \<Longrightarrow> argint n p = Ok (0, ucast (sregs p ! n))"
  "n \<le> 5 \<Longrightarrow> argaddr n p = Ok (0, sregs p ! n)"
  by (simp_all add: argint_def argaddr_def argraw_def)

lemma path_arg_Ok [simp]: "n \<le> 5 \<Longrightarrow> path_arg X n k = Some (Ok (fetchstr (x_copyinstr X) (sregs (fproc k) ! n) (MAXPATH X) (fproc k)))"
  by (simp add: path_arg_def argstr_def)

lemma post_argfd:
  assumes "Q None" "\<And>fd f. fd < length (sofile (fproc k)) \<Longrightarrow> sofile (fproc k) ! fd = f \<Longrightarrow> f \<noteq> 0 \<Longrightarrow> Q (Some (fd, f))"
  shows "post (Some (argfd n k)) Q"
  unfolding post_def
proof (intro allI impI)
  fix x assume "Some (argfd n k) = Some (Ok x)"
  then show "Q x" using assms argfd_Some [of n k] by (cases x) auto
qed

lemma balanced_on_fs: "balanced a0 k \<Longrightarrow> good a0 k (on_fs f k)"
  by (simp add: on_fs_eq good_def balanced_def)

lemma sys_dup_good:
  assumes "balanced a0 k"
  shows "post (sys_dup X k) (good a0 k)"
  unfolding sys_dup_def post_kbind
proof (rule post_argfd)
  fix fd f assume f: "fd < length (sofile (fproc k))" "sofile (fproc k) ! fd = f" "f \<noteq> 0"
  obtain n k1 where a: "fdalloc f k = (n, k1)" by fastforce
  have m: "f \<in># open_files (fproc k)" using open_files_member f by blast
  show "post (case Some (fd, f) of None \<Rightarrow> Some (Ok (- 1, k)) | Some (uu, f) \<Rightarrow> let (fd, k1) = fdalloc f k in
      if fd < 0 then Some (Ok (- 1, k1)) else Some (Ok (fd, fscall X (Filedup f) k1))) (good a0 k)"
    using fdalloc_open_files [OF a f(3)] a m assms
    by (auto simp: good_def balanced_def resting_def set_fd_def)
qed (use assms good_same in auto)

lemma sys_rw_good: "balanced a0 k \<Longrightarrow> post (sys_rw io k) (good a0 k)"
  unfolding sys_rw_def post_kbind by (rule post_argfd) (auto intro: good_same balanced_on_fs)

lemma sys_fstat_good: "balanced a0 k \<Longrightarrow> post (sys_fstat X k) (good a0 k)"
  unfolding sys_fstat_def post_kbind by (rule post_argfd) (auto intro: good_same balanced_on_fs)

lemma sys_close_good:
  assumes "balanced a0 k"
  shows "post (sys_close X k) (good a0 k)"
  unfolding sys_close_def post_kbind
proof (rule post_argfd)
  fix fd f assume f: "fd < length (sofile (fproc k))" "sofile (fproc k) ! fd = f" "f \<noteq> 0"
  have "open_files (fproc (set_fd fd 0 k)) = open_files (fproc k) - {#f#}"
    using mset_update_close [of fd "sofile (fproc k)"] f by (simp add: open_files_def set_fd_def del: mset_filter)
  then show "post (case Some (fd, f) of None \<Rightarrow> Some (Ok (- 1, k)) | Some (fd, f) \<Rightarrow> Some (Ok (0, fscall X (Fileclose f) (set_fd fd 0 k)))) (good a0 k)"
    using open_files_member [OF f] assms by (simp add: good_def balanced_def resting_def) (simp add: set_fd_def)
qed (use assms good_same in auto)


section \<open>Handlers on paths\<close>

text \<open>During a call: the account has the locks \<open>h\<close> and references \<open>i\<close> of the call, in a transaction.\<close>

definition during :: "account \<Rightarrow> 'w fkernel \<Rightarrow> u64 multiset \<Rightarrow> u64 multiset \<Rightarrow> 'w fkernel \<Rightarrow> bool" where
  "during a0 k h i k' \<longleftrightarrow> fproc k' = fproc k \<and>
     account_of a0 k' = Some \<lparr>in_op = True, held = h, irefs = add_mset (scwd (fproc k)) i, frefs = open_files (fproc k), pages = {#}\<rparr>"

lemma during_begin: "balanced a0 k \<Longrightarrow> during a0 k {#} {#} (fscall X Begin_op k)"
  by (simp add: during_def balanced_def resting_def)

lemma during_end: "during a0 k {#} {#} k' \<Longrightarrow> good a0 k (r, fscall X End_op k')"
  by (simp add: during_def balanced_def resting_def good_def)

lemma during_step:
  "during a0 k h i k' \<Longrightarrow> ip \<in># i \<Longrightarrow> during a0 k (add_mset ip h) i (fscall X (Ilock ip) k')"
  "during a0 k (add_mset ip h) i k' \<Longrightarrow> during a0 k h i (fscall X (Iunlock ip) k')"
  "during a0 k (add_mset ip h) (add_mset ip i) k' \<Longrightarrow> during a0 k h i (fscall X (Iunlockput ip) k')"
  "during a0 k h (add_mset ip i) k' \<Longrightarrow> during a0 k h i (fscall X (Iput ip) k')"
  "during a0 k h i k' \<Longrightarrow> ip \<in># h \<Longrightarrow> during a0 k h i (fscall X (Iupdate ip) k')"
  "during a0 k h i k' \<Longrightarrow> ip \<in># h \<Longrightarrow> during a0 k h i (fscall X (Itrunc ip) k')"
  by (simp_all add: during_def add_mset_commute)

lemma during_frame [simp]:
  "during a0 k h i (k'\<lparr>fs := s\<rparr>) = during a0 k h i k'"
  "during a0 k h i (upd_inode ip f k') = during a0 k h i k'"
  "during a0 k h i (upd_file p g k') = during a0 k h i k'"
  by (simp_all add: during_def)

lemma during_on_fs: "during a0 k h i k' \<Longrightarrow> on_fs f k' = (r, k'') \<Longrightarrow> during a0 k h i k''"
  by (auto simp: on_fs_eq)

definition one_ref :: "u64 \<Rightarrow> u64 multiset \<Rightarrow> u64 multiset" where
  "one_ref ip i = (if ip = 0 then i else add_mset ip i)"

lemma during_got: "during a0 k h i k' \<Longrightarrow> during a0 k h (one_ref ip i) (got ip k')"
  by (auto simp: during_def got_def one_ref_def add_mset_commute)

lemma during_lookup:
  "during a0 k h i k' \<Longrightarrow> namei X path k' = (ip, k1) \<Longrightarrow> during a0 k h (one_ref ip i) k1"
  "during a0 k h i k' \<Longrightarrow> nameiparent X path k' = (ip, name, k1) \<Longrightarrow> during a0 k h (one_ref ip i) k1"
  "during a0 k h i k' \<Longrightarrow> dirlookup X dp nm k' = (ip, off, k1) \<Longrightarrow> during a0 k h (one_ref ip i) k1"
  "during a0 k h i k' \<Longrightarrow> ialloc X dev ty k' = (ip, k1) \<Longrightarrow> during a0 k h (one_ref ip i) k1"
  by (auto simp: namei_def nameiparent_def dirlookup_def ialloc_def on_fs_eq case_prod_beta' Let_def intro: during_got)

lemma one_ref_simps [simp]: "one_ref 0 i = i" "ip \<noteq> 0 \<Longrightarrow> one_ref ip i = add_mset ip i"
  by (simp_all add: one_ref_def)

lemma link_bad_good:
  assumes "during a0 k {#} {#ip#} k'"
  shows "post (link_bad X ip k') (good a0 k)"
  unfolding link_bad_def Let_def post_Ok
  by (intro during_end during_step) (use assms in \<open>auto intro!: during_step\<close>)

lemma link_new_good:
  assumes "during a0 k {#} {#ip#} k'"
  shows "post (link_new X ip new k') (good a0 k)"
proof -
  obtain dp name k1 where p: "nameiparent X new k' = (dp, name, k1)" by (metis prod_cases3)
  let ?k2 = "fscall X (Ilock dp) k1"
  obtain r k3 where l: "on_fs (x_dirlink X dp name (iinum (inode_at ?k2 ip))) ?k2 = (r, k3)" by fastforce
  have d1: "during a0 k {#} (one_ref dp {#ip#}) k1" using during_lookup(2) assms p by blast
  show ?thesis
  proof (cases "dp = 0")
    case True
    then show ?thesis using d1 p link_bad_good by (simp add: link_new_def)
  next
    case False
    then have d2: "during a0 k {#dp#} {#dp, ip#} ?k2" using d1 by (intro during_step) auto
    note d3 = during_on_fs [OF d2 l]
    have "post (link_bad X ip (fscall X (Iunlockput dp) ?k2)) (good a0 k)" "post (link_bad X ip (fscall X (Iunlockput dp) k3)) (good a0 k)"
      by (rule link_bad_good, rule during_step(3), use d2 d3 in simp)+
    moreover have "good a0 k (0, fscall X End_op (fscall X (Iput ip) (fscall X (Iunlockput dp) k3)))"
      by (intro during_end during_step) (use d3 in simp)
    ultimately show ?thesis using p l False by (simp add: link_new_def Let_def)
  qed
qed

lemma sys_link_good:
  assumes "balanced a0 k"
  shows "post (sys_link X k) (good a0 k)"
proof -
  have d0: "during a0 k {#} {#} (fscall X Begin_op k)" using during_begin assms by blast
  have "post (let (ip, k1) = namei X old (fscall X Begin_op k) in
         if ip = 0 then Some (Ok (-1, fscall X End_op k1))
         else
           let k2 = fscall X (Ilock ip) k1 in
           if itype (inode_at k2 ip) = T_DIR X then Some (Ok (-1, fscall X End_op (fscall X (Iunlockput ip) k2)))
           else
             let k3 = upd_inode ip (\<lambda>i. i\<lparr>inlink := inlink i + 1\<rparr>) k2
             in link_new X ip new (fscall X (Iunlock ip) (fscall X (Iupdate ip) k3))) (good a0 k)" for old new
  proof -
    obtain ip k1 where n: "namei X old (fscall X Begin_op k) = (ip, k1)" by fastforce
    have d1: "during a0 k {#} (one_ref ip {#}) k1" using during_lookup(1) d0 n by blast
    show ?thesis
    proof (cases "ip = 0")
      case True
      then show ?thesis using d1 n during_end by simp
    next
      case False
      then have d2: "during a0 k {#ip#} {#ip#} (fscall X (Ilock ip) k1)" using d1 by (intro during_step) auto
      then have "good a0 k (-1, fscall X End_op (fscall X (Iunlockput ip) (fscall X (Ilock ip) k1)))" by (intro during_end during_step(3))
      moreover have "during a0 k {#} {#ip#} (fscall X (Iunlock ip) (fscall X (Iupdate ip) (upd_inode ip (\<lambda>i. i\<lparr>inlink := inlink i + 1\<rparr>) (fscall X (Ilock ip) k1))))"
        by (intro during_step) (use d2 in auto)
      ultimately show ?thesis using n False by (auto simp: Let_def intro!: link_new_good)
    qed
  qed
  then show ?thesis using assms unfolding sys_link_def by (auto simp: case_prod_beta' intro: good_same)
qed

lemma isdirempty_during:
  assumes "isdirempty X dp k1 = Some (Ok (r, k2))" "during a0 k h i k1"
  shows "during a0 k h i k2"
proof -
  have "\<forall>r k2. y = Ok (r, k2) \<longrightarrow> during a0 k h i k1 \<longrightarrow> during a0 k h i k2" if "isdirempty_loop X dp off k1 = Some y" for off y
    by (rule isdirempty_loop.raw_induct [where P = "\<lambda>X dp off k1 y. \<forall>r k2. y = Ok (r, k2) \<longrightarrow> during a0 k h i k1 \<longrightarrow> during a0 k h i k2", OF _ that])
      (fastforce simp: on_fs_eq Let_def split: if_splits option.splits)
  then show ?thesis using assms unfolding isdirempty_def by blast
qed

lemma unlink_bad_good: "during a0 k {#dp#} {#dp#} k' \<Longrightarrow> post (unlink_bad X dp k') (good a0 k)"
  unfolding unlink_bad_def post_Ok by (intro during_end during_step)

lemma unlink_entry_good:
  assumes "during a0 k {#dp, ip#} {#dp, ip#} k'"
  shows "post (unlink_entry X dp ip off k') (good a0 k)"
proof -
  obtain ok k1 where c: "on_fs (x_clearde X dp off) k' = (ok, k1)" by fastforce
  note d1 = during_on_fs [OF assms c]
  have "good a0 k (0, fscall X End_op (fscall X (Iunlockput ip) (fscall X (Iupdate ip) (upd_inode ip f (fscall X (Iunlockput dp) k2)))))"
    if "during a0 k {#dp, ip#} {#dp, ip#} k2" for k2 f
    by (intro during_end during_step) (use that in \<open>auto intro: during_step\<close>)
  moreover have "during a0 k {#dp, ip#} {#dp, ip#} (fscall X (Iupdate dp) (upd_inode dp f k1))" for f
    by (intro during_step) (use d1 in auto)
  ultimately show ?thesis using c d1 unfolding unlink_entry_def by (simp add: Let_def) 
qed

lemma sys_unlink_good:
  assumes "balanced a0 k"
  shows "post (sys_unlink X k) (good a0 k)"
proof -
  have "post (let (dp, name, k1) = nameiparent X path (fscall X Begin_op k) in
       if dp = 0 then Some (Ok (-1, fscall X End_op k1))
       else
         let k2 = fscall X (Ilock dp) k1 in
         if x_namecmp X name ''.'' \<or> x_namecmp X name ''..'' then unlink_bad X dp k2
         else
           let (ip, off, k3) = dirlookup X dp name k2 in
           if ip = 0 then unlink_bad X dp k3
           else
             let k4 = fscall X (Ilock ip) k3 in
             if sint (inlink (inode_at k4 ip)) < 1 then Some (Panic ''unlink: nlink < 1'')
             else if itype (inode_at k4 ip) = T_DIR X then
               kbind (isdirempty X ip k4) (\<lambda>(empty, k5).
                 if \<not> empty then unlink_bad X dp (fscall X (Iunlockput ip) k5) else unlink_entry X dp ip off k5)
             else unlink_entry X dp ip off k4) (good a0 k)" for path
  proof -
    obtain dp name k1 where p: "nameiparent X path (fscall X Begin_op k) = (dp, name, k1)" by (metis prod_cases3)
    let ?k2 = "fscall X (Ilock dp) k1"
    obtain ip off k3 where l: "dirlookup X dp name ?k2 = (ip, off, k3)" by (metis prod_cases3)
    let ?k4 = "fscall X (Ilock ip) k3"
    have d1: "during a0 k {#} (one_ref dp {#}) k1" by (rule during_lookup(2) [OF during_begin [OF assms] p])
    show ?thesis
    proof (cases "dp = 0")
      case True
      then show ?thesis using d1 p during_end by simp
    next
      case dp: False
      then have d2: "during a0 k {#dp#} {#dp#} ?k2" using d1 by (intro during_step) auto
      have d3: "during a0 k {#dp#} (one_ref ip {#dp#}) k3" by (rule during_lookup(3) [OF d2 l])
      show ?thesis
      proof (cases "ip = 0")
        case True
        then show ?thesis using d2 d3 p l dp by (simp add: Let_def unlink_bad_good)
      next
        case False
        have d4: "during a0 k {#dp, ip#} {#dp, ip#} ?k4" "during a0 k {#ip, dp#} {#ip, dp#} ?k4"
          using during_step(1) [of a0 k "{#dp#}" "{#ip, dp#}" k3 ip X] d3 False by (simp_all add: add_mset_commute)
        have "post (isdirempty X ip ?k4) (\<lambda>(empty, k5). during a0 k {#dp, ip#} {#dp, ip#} k5 \<and> during a0 k {#ip, dp#} {#ip, dp#} k5)"
          unfolding post_def using isdirempty_during d4 by auto
        then have "post (isdirempty X ip ?k4) (\<lambda>(empty, k5).
            (\<not> empty \<longrightarrow> post (unlink_bad X dp (fscall X (Iunlockput ip) k5)) (good a0 k)) \<and> (empty \<longrightarrow> post (unlink_entry X dp ip off k5) (good a0 k)))"
          by (rule post_mono) (auto intro!: unlink_entry_good unlink_bad_good during_step(3))
        then show ?thesis using p l dp False d2 d4(1) by (simp add: Let_def case_prod_beta' unlink_bad_good unlink_entry_good)
      qed
    qed
  qed
  then show ?thesis using assms unfolding sys_unlink_def by (auto simp: case_prod_beta' intro: good_same)
qed

section \<open>Creating and opening\<close>

text \<open>\<^verbatim>\<open>create\<close> returns the inode locked, with a reference, or 0 with neither.\<close>

definition created :: "account \<Rightarrow> 'w fkernel \<Rightarrow> u64 \<times> 'w fkernel \<Rightarrow> bool" where
  "created a0 k = (\<lambda>(ip, k'). during a0 k (one_ref ip {#}) (one_ref ip {#}) k')"

lemma create_dots_during:
  assumes "during a0 k h i k'" "dp \<in># h"
  shows "post (create_dots X dp ip k') (during a0 k h i)"
proof -
  have "during a0 k h i (fscall X (Iupdate dp) (upd_inode dp (\<lambda>i. i\<lparr>inlink := inlink i + 1\<rparr>) k'))"
    by (rule during_step(5)) (use assms in auto)
  then show ?thesis unfolding create_dots_def Let_def by (simp add: on_fs_eq)
qed

lemma create_new_created:
  assumes "during a0 k {#dp#} {#dp#} k'"
  shows "post (create_new X dp name ty major minor k') (created a0 k)"
proof -
  obtain ip k1 where a: "ialloc X (idev (inode_at k' dp)) ty k' = (ip, k1)" by fastforce
  have d1: "during a0 k {#dp#} (one_ref ip {#dp#}) k1" by (rule during_lookup(4) [OF assms a])
  define k3 where "k3 = fscall X (Iupdate ip) (upd_inode ip (\<lambda>i. i\<lparr>imajor := major, iminor := minor, inlink := 1\<rparr>) (fscall X (Ilock ip) k1))"
  have d3: "during a0 k {#ip, dp#} {#ip, dp#} k3" if "ip \<noteq> 0"
    unfolding k3_def by (intro during_step(5)) (use d1 that in \<open>auto intro!: during_step(1)\<close>)
  have dots: "post (if ty = T_DIR X then create_dots X dp ip k3 else Some (Ok k3)) (during a0 k {#ip, dp#} {#ip, dp#})" if "ip \<noteq> 0"
    using d3 that by (auto intro!: create_dots_during)
  have "created a0 k (ip, fscall X (Iunlockput dp) (k4\<lparr>fs := s\<rparr>))" if "during a0 k {#ip, dp#} {#ip, dp#} k4" "ip \<noteq> 0" for k4 s
    using during_step(3) [of a0 k dp "{#ip#}" "{#ip#}" "k4\<lparr>fs := s\<rparr>" X] that by (simp add: created_def add_mset_commute)
  then have "post (if ty = T_DIR X then create_dots X dp ip k3 else Some (Ok k3)) (\<lambda>k4.
      post (let (r, k5) = on_fs (x_dirlink X dp name (iinum (inode_at k4 ip))) k4 in
        if r < 0 then Some (Panic ''create: dirlink'') else Some (Ok (ip, fscall X (Iunlockput dp) k5))) (created a0 k))" if "ip \<noteq> 0"
    using dots [OF that] that unfolding post_def [of "if ty = T_DIR X then create_dots X dp ip k3 else Some (Ok k3)"]
    by (auto simp: on_fs_eq)
  then show ?thesis using a unfolding create_new_def by (auto simp: Let_def k3_def)
qed

lemma create_created:
  assumes "during a0 k {#} {#} k'"
  shows "post (create X path ty major minor k') (created a0 k)"
proof -
  obtain dp name k1 where p: "nameiparent X path k' = (dp, name, k1)" by (metis prod_cases3)
  let ?k2 = "fscall X (Ilock dp) k1"
  obtain ip off k3 where l: "dirlookup X dp name ?k2 = (ip, off, k3)" by (metis prod_cases3)
  let ?k4 = "fscall X (Ilock ip) (fscall X (Iunlockput dp) k3)"
  have d1: "during a0 k {#} (one_ref dp {#}) k1" by (rule during_lookup(2) [OF assms p])
  show ?thesis
  proof (cases "dp = 0")
    case True
    then show ?thesis using d1 p by (simp add: create_def created_def)
  next
    case dp: False
    then have d2: "during a0 k {#dp#} {#dp#} ?k2" using d1 by (intro during_step) auto
    have d3: "during a0 k {#dp#} (one_ref ip {#dp#}) k3" by (rule during_lookup(3) [OF d2 l])
    show ?thesis
    proof (cases "ip = 0")
      case True
      then show ?thesis using d3 p l dp by (simp add: create_def Let_def create_new_created)
    next
      case False
      have "during a0 k {#} {#ip#} (fscall X (Iunlockput dp) k3)"
        by (rule during_step(3)) (use d3 False in \<open>simp add: add_mset_commute\<close>)
      then have d4: "during a0 k {#ip#} {#ip#} ?k4" by (intro during_step(1)) auto
      then have "during a0 k {#} {#} (fscall X (Iunlockput ip) ?k4)" by (rule during_step(3))
      then show ?thesis using d4 p l dp False by (auto simp: create_def created_def Let_def)
    qed
  qed
qed

lemma open_fail_good: "during a0 k {#ip#} {#ip#} k' \<Longrightarrow> post (open_fail X ip k') (good a0 k)"
  unfolding open_fail_def post_Ok by (intro during_end during_step(3))

lemma open_file_good:
  assumes "during a0 (set_fd n f k) {#ip#} {#ip#} k'" "0 \<le> fd"
  shows "post (open_file X omode ip fd f k') (good a0 k)"
  using assms by (auto simp: open_file_def Let_def good_def balanced_def resting_def during_def)

lemma open_inode_good:
  assumes d: "during a0 k {#ip#} {#ip#} k'"
  shows "post (open_inode X omode ip k') (good a0 k)"
proof -
  obtain f k1 where f: "filealloc X k' = (f, k1)" by fastforce
  obtain fd k2 where fd: "fdalloc f k1 = (fd, k2)" by fastforce
  show ?thesis
  proof (cases "f = 0")
    case True
    then have "during a0 k {#ip#} {#ip#} k1" using d f by (auto simp: filealloc_def on_fs_eq)
    then show ?thesis using d f True by (simp add: open_inode_def open_fail_good)
  next
    case False
    have p1: "fproc k1 = fproc k" and a1: "account_of a0 k1 = Some \<lparr>in_op = True, held = {#ip#}, irefs = {#scwd (fproc k), ip#},
        frefs = add_mset f (open_files (fproc k)), pages = {#}\<rparr>"
      using d f False by (auto simp: filealloc_def on_fs_eq during_def add_mset_commute)
    note t = fdalloc_open_files [OF fd False]
    show ?thesis
    proof (cases "fd < 0")
      case True
      then have "k2 = k1" using t by simp
      then have "during a0 k {#ip#} {#ip#} (fscall X (Fileclose f) k2)" using p1 a1 by (simp add: during_def add_mset_commute)
      then show ?thesis using d f fd False True by (simp add: open_inode_def open_fail_good)
    next
      case pos: False
      then have "during a0 (set_fd (nat fd) f k) {#ip#} {#ip#} k2" using t p1 a1
        by (auto simp: during_def add_mset_commute set_fd_def)
      then show ?thesis using d f fd False pos by (simp add: open_inode_def open_fail_good open_file_good)
    qed
  qed
qed

lemma sys_open_good:
  assumes "balanced a0 k"
  shows "post (sys_open X k) (good a0 k)"
proof -
  have d0: "during a0 k {#} {#} (fscall X Begin_op k)" using during_begin assms by blast
  have cr: "post (create X path (T_FILE X) 0 0 (fscall X Begin_op k)) (\<lambda>(ip, k2).
      (ip = 0 \<longrightarrow> good a0 k (-1, fscall X End_op k2)) \<and> (ip \<noteq> 0 \<longrightarrow> post (open_inode X omode ip k2) (good a0 k)))" for path omode
    by (rule post_mono [OF create_created [OF d0]]) (auto simp: created_def intro: during_end open_inode_good)
  have nm: "post (let (ip, k2) = namei X path (fscall X Begin_op k) in
           if ip = 0 then Some (Ok (-1, fscall X End_op k2))
           else
             let k3 = fscall X (Ilock ip) k2 in
             if itype (inode_at k3 ip) = T_DIR X \<and> omode \<noteq> O_RDONLY X then open_fail X ip k3
             else open_inode X omode ip k3) (good a0 k)" for path omode
  proof -
    obtain ip k2 where n: "namei X path (fscall X Begin_op k) = (ip, k2)" by fastforce
    have d1: "during a0 k {#} (one_ref ip {#}) k2" by (rule during_lookup(1) [OF d0 n])
    have "during a0 k {#ip#} {#ip#} (fscall X (Ilock ip) k2)" if "ip \<noteq> 0" using d1 that by (intro during_step) auto
    then show ?thesis using n d1 by (auto simp: Let_def intro: during_end open_fail_good open_inode_good)
  qed
  show ?thesis using assms cr nm unfolding sys_open_def by (auto simp: case_prod_beta' Let_def intro: good_same)
qed

lemma create_only_good:
  assumes "during a0 k {#} {#} k'"
  shows "post (create_only X path ty major minor k') (good a0 k)"
proof -
  have "post (create X path ty major minor k') (\<lambda>(ip, k1). (ip = 0 \<longrightarrow> good a0 k (-1, fscall X End_op k1)) \<and>
      (ip \<noteq> 0 \<longrightarrow> good a0 k (0, fscall X End_op (fscall X (Iunlockput ip) k1))))"
    by (rule post_mono [OF create_created [OF assms]]) (auto simp: created_def intro!: during_end during_step(3))
  then show ?thesis unfolding create_only_def by (auto simp: case_prod_beta')
qed

lemma sys_mkdir_good: "balanced a0 k \<Longrightarrow> post (sys_mkdir X k) (good a0 k)"
  unfolding sys_mkdir_def Let_def by (auto simp: case_prod_beta' intro: create_only_good during_end during_begin)

lemma sys_mknod_good: "balanced a0 k \<Longrightarrow> post (sys_mknod X k) (good a0 k)"
  unfolding sys_mknod_def Let_def by (auto simp: case_prod_beta' intro: create_only_good during_end during_begin)

lemma sys_chdir_good:
  assumes "balanced a0 k"
  shows "post (sys_chdir X k) (good a0 k)"
proof -
  have d0: "during a0 k {#} {#} (fscall X Begin_op k)" using during_begin assms by blast
  have "post (let (ip, k2) = namei X path (fscall X Begin_op k) in
        if ip = 0 then Some (Ok (-1, fscall X End_op k2))
        else
          let k3 = fscall X (Ilock ip) k2 in
          if itype (inode_at k3 ip) \<noteq> T_DIR X then open_fail X ip k3
          else
            let k4 = fscall X End_op (fscall X (Iput (scwd (fproc k3))) (fscall X (Iunlock ip) k3))
            in Some (Ok (0, upd_fproc (\<lambda>p. p\<lparr>scwd := ip\<rparr>) k4))) (good a0 k)" for path
  proof -
    obtain ip k2 where n: "namei X path (fscall X Begin_op k) = (ip, k2)" by fastforce
    have d1: "during a0 k {#} (one_ref ip {#}) k2" by (rule during_lookup(1) [OF d0 n])
    have d2: "during a0 k {#ip#} {#ip#} (fscall X (Ilock ip) k2)" if "ip \<noteq> 0" using d1 that by (intro during_step) auto
    have "good a0 k (0, upd_fproc (\<lambda>p. p\<lparr>scwd := ip\<rparr>) (fscall X End_op (fscall X (Iput (scwd (fproc (fscall X (Ilock ip) k2)))) (fscall X (Iunlock ip) (fscall X (Ilock ip) k2)))))"
      if "ip \<noteq> 0" using d1 that by (simp add: good_def balanced_def resting_def during_def open_files_def)
    then show ?thesis using n d1 d2 by (auto simp: Let_def intro: during_end open_fail_good simp del: fproc_frame)
  qed
  then show ?thesis using assms unfolding sys_chdir_def Let_def by (auto simp: case_prod_beta' intro: during_end during_begin simp del: fproc_frame)
qed

section \<open>Running programs and pipes\<close>

text \<open>Outside transactions, with the pages \<open>ps\<close> taken.\<close>

definition with_pages :: "account \<Rightarrow> 'w fkernel \<Rightarrow> u64 multiset \<Rightarrow> 'w fkernel \<Rightarrow> bool" where
  "with_pages a0 k ps k' \<longleftrightarrow> fproc k' = fproc k \<and> account_of a0 k' = Some ((resting (fproc k))\<lparr>pages := ps\<rparr>)"

lemma with_pages_alloc:
  "with_pages a0 k ps k' \<Longrightarrow> page_alloc k' = (pa, k1) \<Longrightarrow> with_pages a0 k (if pa = 0 then ps else add_mset pa ps) k1"
  by (auto simp: page_alloc_def with_pages_def case_prod_beta' Let_def)

lemma fetch_args_pages:
  "with_pages a0 k (mset (map fst argv)) k' \<Longrightarrow> fetch_args X n uargv i argv k' = (ok, argv', k1) \<Longrightarrow> with_pages a0 k (mset (map fst argv')) k1"
proof (induction n arbitrary: i argv k')
  case (Suc n)
  obtain r u where a: "fetchaddr (x_copyin X) (uargv + 8 * of_nat i) (fproc k') = (r, u)" by fastforce
  obtain pa k2 where p: "page_alloc k' = (pa, k2)" by fastforce
  obtain r' str where f: "fetchstr (x_copyinstr X) (the u) 4096 (fproc k2) = (r', str)" by fastforce
  have w: "with_pages a0 k (if pa = 0 then mset (map fst argv) else mset (map fst (argv @ [(pa, str)]))) k2"
    using with_pages_alloc [OF Suc.prems(1) p] by (simp split: if_splits)
  show ?case using Suc.IH [of "argv @ [(pa, str)]" k2 "i + 1"] Suc.prems a p f w by (auto simp: Let_def split: if_splits)
qed simp

lemma free_pages_done:
  "with_pages a0 k (mset pas) k' \<Longrightarrow> post (free_pages X pas k') (with_pages a0 k {#})"
proof (induction pas arbitrary: k')
  case (Cons pa pas)
  show ?case
  proof (cases "kfree (x_layout X) pa (fmem k')")
    case (Ok s)
    have "with_pages a0 k (mset pas) (audit (Unpage pa) (k'\<lparr>fmem := s\<rparr>))" using Cons.prems by (simp add: with_pages_def)
    then show ?thesis using Cons.IH Ok by simp
  qed simp
qed simp

lemma with_pages_balanced: "balanced a0 k \<Longrightarrow> with_pages a0 k {#} k"
  by (simp add: with_pages_def balanced_def resting_def)

lemma with_pages_good: "with_pages a0 k {#} k' \<Longrightarrow> good a0 k (r, k')"
  by (simp add: with_pages_def good_def balanced_def resting_def)

lemma sys_exec_good:
  assumes "balanced a0 k"
  shows "post (sys_exec X k) (good a0 k)"
proof -
  have free: "post (free_pages X pas k') (\<lambda>k3. good a0 k (r, k3))" if "with_pages a0 k (mset pas) k'" for pas k' r
    by (rule post_mono [OF free_pages_done [OF that]]) (rule with_pages_good)
  have "post (let (ok, argv, k1) = fetch_args X n uargv 0 [] k in
         if ok then
           let (ret, k2) = on_fs (x_exec X path (map snd argv)) k1
           in kbind (free_pages X (map fst argv) k2) (\<lambda>k3. Some (Ok (ret, k3)))
         else kbind (free_pages X (map fst argv) k1) (\<lambda>k2. Some (Ok (-1, k2)))) (good a0 k)" for n uargv path
  proof -
    obtain ok argv k1 where f: "fetch_args X n uargv 0 [] k = (ok, argv, k1)" by (metis prod_cases3)
    have "with_pages a0 k (mset (map fst argv)) k1" by (rule fetch_args_pages [OF _ f]) (use with_pages_balanced [OF assms] in simp)
    moreover from this have "with_pages a0 k (mset (map fst argv)) (k1\<lparr>fs := s\<rparr>)" for s by (simp add: with_pages_def)
    ultimately show ?thesis using f by (simp add: on_fs_eq free)
  qed
  then show ?thesis using assms unfolding sys_exec_def by (auto simp: case_prod_beta' intro: good_same)
qed

text \<open>\<^verbatim>\<open>pipealloc\<close> that succeeds returns two files.\<close>

definition pipealloc_ok :: "'w fs_env \<Rightarrow> bool" where
  "pipealloc_ok X \<longleftrightarrow> (\<forall>s r f g s'. x_pipealloc X s = ((r, f, g), s') \<longrightarrow> 0 \<le> r \<longrightarrow> f \<noteq> 0 \<and> g \<noteq> 0)"

text \<open>With the files \<open>gs\<close> referenced beyond those in the table of descriptors.\<close>

definition with_files :: "account \<Rightarrow> u64 \<Rightarrow> u64 multiset \<Rightarrow> 'w fkernel \<Rightarrow> bool" where
  "with_files a0 d gs k' \<longleftrightarrow> scwd (fproc k') = d \<and> account_of a0 k' = Some ((resting (fproc k'))\<lparr>frefs := open_files (fproc k') + gs\<rparr>)"

lemma with_files_fdalloc:
  assumes "with_files a0 d (add_mset f gs) k" "fdalloc f k = (fd, k1)" "f \<noteq> 0" "\<not> fd < 0"
  shows "with_files a0 d gs k1"
  using fdalloc_open_files [OF assms(2,3)] assms(1,4) by (auto simp: with_files_def resting_def set_fd_def)

lemma with_files_unset:
  assumes "with_files a0 d gs k" "fd < length (sofile (fproc k))" "sofile (fproc k) ! fd = f" "f \<noteq> 0"
  shows "with_files a0 d (add_mset f gs) (set_fd fd 0 k)"
proof -
  have "open_files (fproc (set_fd fd 0 k)) = open_files (fproc k) - {#f#}"
    using mset_update_close [of fd "sofile (fproc k)"] assms(2-4) by (simp add: open_files_def set_fd_def del: mset_filter)
  moreover have "f \<in># open_files (fproc k)" by (rule open_files_member [OF assms(2-4)])
  ultimately have "open_files (fproc (set_fd fd 0 k)) + add_mset f gs = open_files (fproc k) + gs"
    by (metis insert_DiffM2 union_mset_add_mset_left union_mset_add_mset_right add_mset_add_single)
  then show ?thesis using assms(1) by (auto simp: with_files_def resting_def set_fd_def)
qed

lemma close_both_good:
  assumes "with_files a0 d {#f, g#} k'" "sofile (fproc k') = sofile (fproc k)" "scwd (fproc k) = d"
  shows "post (close_both X f g k') (good a0 k)"
proof -
  have "open_files (fproc k') + {#f, g#} - {#f#} - {#g#} = open_files (fproc k')" by simp
  then show ?thesis using assms by (simp add: close_both_def good_def balanced_def with_files_def resting_def)
qed

text \<open>Both descriptors of a pipe, set and taken back.\<close>

lemma pipe_fds_undone:
  fixes k :: "'w fkernel"
  assumes "with_files a0 d {#f, g#} k" "fdalloc f k = (a, k1)" "\<not> a < 0" "fdalloc g k1 = (b, k2)" "f \<noteq> 0" "g \<noteq> 0"
  shows "if b < 0 then with_files a0 d {#f, g#} (set_fd (nat a) 0 k2) \<and> sofile (fproc (set_fd (nat a) 0 k2)) = sofile (fproc k)
    else with_files a0 d {#} k2 \<and>
      (\<forall>k3 :: 'w fkernel. fproc k3 = fproc k2 \<longrightarrow> account_of a0 k3 = account_of a0 k2 \<longrightarrow> with_files a0 d {#f, g#} (set_fd (nat b) 0 (set_fd (nat a) 0 k3)) \<and>
        sofile (fproc (set_fd (nat b) 0 (set_fd (nat a) 0 k3))) = sofile (fproc k))"
proof -
  let ?o = "sofile (fproc k)"
  note A = fdalloc_open_files [OF assms(2,5)] and B = fdalloc_open_files [OF assms(4,6)]
  have w1: "with_files a0 d {#g#} k1" by (rule with_files_fdalloc [OF assms(1,2,5,3)])
  have o1: "sofile (fproc k1) = ?o[nat a := f]" and a: "nat a < length ?o" "?o ! nat a = 0" using A assms(3) by (auto simp: set_fd_def)
  have u1: "with_files a0 d {#f, g#} (set_fd (nat a) 0 k1)" by (rule with_files_unset [OF w1]) (use o1 a assms(5) in auto)
  show ?thesis
  proof (cases "b < 0")
    case True
    then have "k2 = k1" using B by simp
    then show ?thesis using True u1 o1 a by (simp add: set_fd_def) (metis list_update_id)
  next
    case False
    have w2: "with_files a0 d {#} k2" by (rule with_files_fdalloc [OF _ assms(4,6) False]) (use w1 in simp)
    have o2: "sofile (fproc k2) = ?o[nat a := f, nat b := g]" and b: "nat b < length ?o" "?o[nat a := f] ! nat b = 0"
      using B False o1 by (auto simp: set_fd_def)
    have ne: "nat a \<noteq> nat b" using b(2) a(1) assms(5) by auto
    then have ob: "?o ! nat b = 0" using b(2) by simp
    have o3: "?o[nat a := f, nat b := g, nat a := 0, nat b := 0] = ?o"
      using a b(1) ob ne by (metis list_update_id list_update_overwrite list_update_swap)
    have "with_files a0 d {#f, g#} (set_fd (nat b) 0 (set_fd (nat a) 0 k3)) \<and> sofile (fproc (set_fd (nat b) 0 (set_fd (nat a) 0 k3))) = ?o"
      if k3: "fproc k3 = fproc k2" "account_of a0 k3 = account_of a0 k2" for k3 :: "'w fkernel"
    proof -
      have "with_files a0 d {#} k3" using w2 k3 by (simp add: with_files_def)
      then have "with_files a0 d {#f#} (set_fd (nat a) 0 k3)" by (rule with_files_unset) (use k3 o2 a ne assms(5) in auto)
      then have "with_files a0 d {#g, f#} (set_fd (nat b) 0 (set_fd (nat a) 0 k3))"
        by (rule with_files_unset) (use k3 o2 b ne assms(6) in \<open>auto simp: set_fd_def\<close>)
      then show ?thesis using k3 o2 o3 by (simp add: set_fd_def add_mset_commute)
    qed
    then show ?thesis using False w2 by simp
  qed
qed

lemma sys_pipe_good:
  assumes "balanced a0 k" "pipealloc_ok X"
  shows "post (sys_pipe X k) (good a0 k)"
proof -
  obtain r f g s where pa: "x_pipealloc X (fs k) = ((r, f, g), s)" by (metis prod_cases3 surj_pair)
  show ?thesis
  proof (cases "r < 0")
    case True
    then show ?thesis using assms(1) pa by (simp add: sys_pipe_def pipealloc_def on_fs_eq good_def balanced_def)
  next
    case r: False
    then have "0 \<le> r" by simp
    then have fg: "f \<noteq> 0" "g \<noteq> 0" using assms(2) pa unfolding pipealloc_ok_def by blast+
    define k1 where "k1 = audit (Fref g) (audit (Fref f) (k\<lparr>fs := s\<rparr>))"
    have p: "pipealloc X k = (r, f, g, k1)" using pa r by (simp add: pipealloc_def on_fs_eq k1_def)
    have w1: "with_files a0 (scwd (fproc k)) {#f, g#} k1" and o1: "sofile (fproc k1) = sofile (fproc k)"
      using assms(1) by (simp_all add: k1_def with_files_def balanced_def resting_def)
    obtain a k2 where a: "fdalloc f k1 = (a, k2)" by fastforce
    obtain b k3 where b: "fdalloc g k2 = (b, k3)" by fastforce
    show ?thesis
    proof (cases "a < 0")
      case True
      then have "k2 = k1" using fdalloc_open_files [OF a fg(1)] by simp
      then show ?thesis using p r a True w1 o1 by (simp add: sys_pipe_def close_both_good)
    next
      case na: False
      note U = pipe_fds_undone [OF w1 a na b fg]
      have ok: "good a0 k (0, k3\<lparr>fs := s'\<rparr>)" if "\<not> b < 0" for s'
        using U that by (simp add: good_def balanced_def with_files_def resting_def)
      have undo: "post (close_both X f g (set_fd (nat b) 0 (set_fd (nat a) 0 (k3\<lparr>fs := s'\<rparr>)))) (good a0 k)" if "\<not> b < 0" for s'
        by (rule close_both_good) (use U that o1 in auto)
      have "post (close_both X f g (set_fd (nat a) 0 k3)) (good a0 k)" if "b < 0"
        by (rule close_both_good) (use U that o1 in auto)
      then show ?thesis using p r a b na ok undo by (simp add: sys_pipe_def on_fs_eq Let_def)
    qed
  qed
qed

section \<open>Sequences of system calls\<close>

definition sysfile_handlers :: "'w fs_env \<Rightarrow> 'w fhandler list" where
  "sysfile_handlers X = [sys_dup X, sys_read X, sys_write X, sys_close X, sys_fstat X, sys_link X, sys_unlink X, sys_open X, sys_mkdir X, sys_mknod X,
     sys_chdir X, sys_exec X, sys_pipe X]"

lemma handlers_good: "h \<in> set (sysfile_handlers X) \<Longrightarrow> balanced a0 k \<Longrightarrow> pipealloc_ok X \<Longrightarrow> post (h k) (good a0 k)"
  by (auto simp: sysfile_handlers_def sys_read_def sys_write_def intro: sys_dup_good sys_rw_good sys_close_good sys_fstat_good sys_link_good sys_unlink_good
    sys_open_good sys_mkdir_good sys_mknod_good sys_chdir_good sys_exec_good sys_pipe_good)

text \<open>A process makes system calls that return, and between them puts any arguments into its registers.\<close>

definition new_args :: "'w fkernel \<Rightarrow> 'w fkernel \<Rightarrow> bool" where
  "new_args k k' \<longleftrightarrow> (\<exists>rs. k' = upd_fproc (\<lambda>p. p\<lparr>sregs := rs\<rparr>) k)"

lemma balanced_user: "new_args k k' \<Longrightarrow> balanced a0 k \<Longrightarrow> balanced a0 k'"
  by (auto simp: new_args_def balanced_def resting_def open_files_def)

interpretation files: call_table "set (sysfile_handlers X)" new_args "\<lambda>k. pipealloc_ok X \<longrightarrow> balanced a0 k" "\<lambda>k rk. pipealloc_ok X \<longrightarrow> good a0 k rk" for X a0
proof (unfold_locales, goal_cases)
  case (1 h k)
  then show ?case using handlers_good [of h X a0 k] by (cases "pipealloc_ok X") (auto simp: post_def good_def)
qed (use balanced_user in auto)

lemma balanced_start: "events k = [] \<Longrightarrow> balanced (resting (fproc k)) k"
  by (simp add: balanced_def account_of_def)


text \<open>
  C18: a file system call that returns -1, at whichever check, has left the table of descriptors and the current directory of the process as they were.
\<close>

theorem sysfile_error_keeps:
  assumes "calls_reach (set (sysfile_handlers X)) new_args k0 k" "events k0 = []" "pipealloc_ok X" "h \<in> set (sysfile_handlers X)" "h k = Some (Ok (-1, k'))"
  shows "sofile (fproc k') = sofile (fproc k) \<and> scwd (fproc k') = scwd (fproc k)"
  using files.reach_kept [OF assms(1) _ assms(4,5), of "resting (fproc k0)"] assms(2,3) balanced_start [of k0] by (simp add: good_def)

section \<open>Descriptors\<close>

text \<open>The table of descriptors keeps the contract of \<open>first_fit\<close>.\<close>

definition fd_alloc :: "u64 \<Rightarrow> u64 list \<Rightarrow> (nat \<times> u64 list) option" where
  "fd_alloc f ofs = map_option (\<lambda>fd. (fd, ofs[fd := f])) (fdalloc_loop ofs 0)"

definition free_fds :: "u64 list \<Rightarrow> nat set" where
  "free_fds ofs = {fd. fd < length ofs \<and> ofs ! fd = 0}"

lemma fdalloc_loop_None: "fdalloc_loop ofs n = None \<longleftrightarrow> 0 \<notin> set ofs"
  by (induction ofs n rule: fdalloc_loop.induct) auto

interpretation fds: first_fit fd_alloc free_fds "\<lambda>f. f \<noteq> 0"
proof (unfold_locales, goal_cases)
  case (2 f ofs fd ofs')
  then have "fdalloc_loop ofs 0 = Some fd" "ofs' = ofs[fd := f]" by (auto simp: fd_alloc_def)
  then show ?case using fdalloc_loop_Some [of ofs 0 fd] 2(1) by (auto simp: free_fds_def nth_list_update not_less [symmetric])
qed (auto simp: free_fds_def fd_alloc_def fdalloc_loop_None in_set_conv_nth)

text \<open>\<^verbatim>\<open>fdalloc\<close> for each of several files, until one of them fails.\<close>

fun fdallocs :: "u64 list \<Rightarrow> 'w fkernel \<Rightarrow> (nat list \<times> 'w fkernel) option" where
  "fdallocs [] k = Some ([], k)"
| "fdallocs (f # fls) k =
     (let (fd, k1) = fdalloc f k
      in if fd < 0 then None else map_option (\<lambda>(fds, k2). (nat fd # fds, k2)) (fdallocs fls k1))"

lemma fdallocs_allocs:
  "map_option (\<lambda>(fds, k'). (fds, sofile (fproc k'))) (fdallocs fls k) = allocs fd_alloc fls (sofile (fproc k))"
proof (induction fls arbitrary: k)
  case (Cons f fls)
  show ?case
  proof (cases "fdalloc_loop (sofile (fproc k)) 0")
    case (Some fd)
    have "sofile (fproc (set_fd fd f k)) = (sofile (fproc k))[fd := f]" by (simp add: set_fd_def)
    then have "allocs fd_alloc fls ((sofile (fproc k))[fd := f]) = map_option (\<lambda>(fds, k'). (fds, sofile (fproc k'))) (fdallocs fls (set_fd fd f k))"
      using Cons.IH [of "set_fd fd f k"] by simp
    moreover have "fd_alloc f (sofile (fproc k)) = Some (fd, (sofile (fproc k))[fd := f])" using Some by (simp add: fd_alloc_def)
    ultimately show ?thesis using Some by (simp add: fdalloc_def option.map_comp o_def case_prod_beta')
  qed (simp add: fdalloc_def fd_alloc_def)
qed simp

text \<open>
  opening files one after the other gives them the lowest free descriptors in ascending order, and one of them fails exactly when
  there are more files than free descriptors; then exactly those are no longer free.
\<close>

theorem fdalloc_lowest:
  assumes "\<forall>f\<in>set fls. f \<noteq> 0"
  shows "case fdallocs fls k of
      None \<Rightarrow> card {fd. fd < length (sofile (fproc k)) \<and> sofile (fproc k) ! fd = 0} < length fls
    | Some (fds, k') \<Rightarrow> fds = take (length fls) (sorted_list_of_set {fd. fd < length (sofile (fproc k)) \<and> sofile (fproc k) ! fd = 0}) \<and>
        length fds = length fls \<and>
        {fd. fd < length (sofile (fproc k')) \<and> sofile (fproc k') ! fd = 0} = {fd. fd < length (sofile (fproc k)) \<and> sofile (fproc k) ! fd = 0} - set fds"
proof (cases "fdallocs fls k")
  case None
  then show ?thesis using fds.allocs_lowest [OF assms, of "sofile (fproc k)"] fdallocs_allocs [of fls k, symmetric] by (simp add: free_fds_def)
next
  case (Some r)
  then show ?thesis using fds.allocs_lowest [OF assms, of "sofile (fproc k)"] fdallocs_allocs [of fls k, symmetric] by (cases r) (simp add: free_fds_def)
qed

section \<open>An open file\<close>

definition ex_fs_env :: "unit fs_env" where
  "ex_fs_env = \<lparr>effect = (\<lambda>_ s. s), x_namei = (\<lambda>p s. (if p = ''a'' then 5 else 0, s)), x_nameiparent = (\<lambda>_ s. ((0, []), s)),
     x_dirlookup = (\<lambda>_ _ s. ((0, 0), s)), x_dirlink = (\<lambda>_ _ _ s. (-1, s)), x_ialloc = (\<lambda>_ _ s. (0, s)), x_readde = (\<lambda>_ _ s. (None, s)),
     x_clearde = (\<lambda>_ _ s. (False, s)), x_filealloc = (\<lambda>s. (9, s)), x_fileread = (\<lambda>_ _ _ s. (0, s)), x_filewrite = (\<lambda>_ _ _ s. (0, s)),
     x_filestat = (\<lambda>_ _ s. (0, s)), x_pipealloc = (\<lambda>s. ((-1, 0, 0), s)), x_copyout = (\<lambda>_ _ _ s. (0, s)), x_exec = (\<lambda>_ _ s. (-1, s)),
     x_copyin = (\<lambda>_ _. (0, 0)), x_copyinstr = (\<lambda>_ a _. (0, if a = 1 then ''a'' else ''b'')), x_namecmp = (=), x_layout = ex_layout,
     T_DIR = 1, T_FILE = 2, T_DEVICE = 3, NDEV = 10, MAXPATH = 128, MAXARG = 32, O_RDONLY = 0, O_WRONLY = 1, O_RDWR = 2, O_CREATE = 0x200, O_TRUNC = 0x400\<rparr>"

definition ex_fkernel :: "unit fkernel" where
  "ex_fkernel = \<lparr>fproc = \<lparr>sstate = RUNNING, sparent = None, schan = None, skilled = False, sxstate = 0, spid = 3, skstack = 0, ssz = 4096, spagetable = 0, strapframe = 0,
       sregs = [1, 0, 0, 0, 0, 0, 0, 15], sframe = \<lparr>tepc = 0, tsp = 0, tothers = []\<rparr>, sctx = \<lparr>ra = 0, sp = 0, callee_saved = []\<rparr>, sofile = [7, 0], scwd = 4, sname = ''sh'', smask = 0\<rparr>,
     fs = \<lparr>inodes = (\<lambda>_. \<lparr>itype = 2, idev = 1, iinum = 8, inlink = 1, iisize = 0, imajor = 0, iminor = 0\<rparr>),
       filetab = (\<lambda>_. \<lparr>ftype = FD_NONE, freadable = False, fwritable = False, fip = 0, foff = 0, fmajor = 0\<rparr>), world = ()\<rparr>,
     fmem = ex_kmem 0x80001000, events = []\<rparr>"

lemmas open_defs = sys_open_def path_arg_def argstr_def fetchstr_def namei_def on_fs_def got_def audit_def fscall_def inode_at_def open_inode_def filealloc_def
  fdalloc_def set_fd_def upd_fproc_def upd_file_def open_file_def open_fail_def ex_fs_env_def ex_fkernel_def

lemma ex_open: "\<exists>k. sys_open ex_fs_env ex_fkernel = Some (Ok (1, k)) \<and> sofile (fproc k) = [7, 9] \<and> scwd (fproc k) = 4 \<and>
    events k = [Begin_op, Ref 5, Ilock 5, Fref 9, Own 5, Iunlock 5, End_op]"
  by (simp add: open_defs Let_def)

lemma ex_pipealloc: "pipealloc_ok ex_fs_env"
  by (simp add: pipealloc_ok_def ex_fs_env_def)


theorem sysfile_error_keeps_witness:
  "\<exists>k k'. calls_reach (set (sysfile_handlers ex_fs_env)) new_args ex_fkernel k \<and> sys_open ex_fs_env k = Some (Ok (-1, k')) \<and> sofile (fproc k') = [7, 0] \<and> events k' = [Begin_op, End_op]"
proof -
  let ?k = "upd_fproc (\<lambda>p. p\<lparr>sregs := [2, 0, 0, 0, 0, 0, 0, 15]\<rparr>) ex_fkernel"
  have r: "calls_reach (set (sysfile_handlers ex_fs_env)) new_args ex_fkernel ?k" by (rule calls_reach.user [OF calls_reach.start]) (auto simp: new_args_def)
  have "\<exists>k'. sys_open ex_fs_env ?k = Some (Ok (-1, k')) \<and> events k' = [Begin_op, End_op]" by (simp add: open_defs Let_def)
  then obtain k' where k': "sys_open ex_fs_env ?k = Some (Ok (-1, k'))" "events k' = [Begin_op, End_op]" by blast
  have "sofile (fproc k') = sofile (fproc ?k) \<and> scwd (fproc k') = scwd (fproc ?k)"
    by (rule sysfile_error_keeps [where h = "sys_open ex_fs_env", OF r _ ex_pipealloc _ k'(1)]) (simp add: ex_fkernel_def, simp add: sysfile_handlers_def)
  moreover have "sofile (fproc ?k) = [7, 0]" by (simp add: ex_fkernel_def)
  ultimately show ?thesis using r k' by metis
qed


text \<open>Two files, with descriptor 1 in use.\<close>

theorem fdalloc_lowest_witness:
  "\<exists>k'. fdallocs [5, 6] (upd_fproc (\<lambda>p. p\<lparr>sofile := [0, 7, 0, 0]\<rparr>) ex_fkernel) = Some ([0, 2], k')"
proof -
  let ?k = "upd_fproc (\<lambda>p. p\<lparr>sofile := [0, 7, 0, 0]\<rparr>) ex_fkernel"
  have t: "sofile (fproc ?k) = [0, 7, 0, 0]" by simp
  have "fd < length [0, 7, 0, 0 :: u64] \<longleftrightarrow> fd = 0 \<or> fd = 1 \<or> fd = 2 \<or> fd = 3" for fd by auto
  then have "(fd < length [0, 7, 0, 0 :: u64] \<and> [0, 7, 0, 0 :: u64] ! fd = 0) \<longleftrightarrow> fd \<in> {0, 2, 3}" for fd
    by (cases "fd = 0 \<or> fd = 1 \<or> fd = 2 \<or> fd = 3") (elim disjE, simp_all)
  then have free: "{fd. fd < length (sofile (fproc ?k)) \<and> sofile (fproc ?k) ! fd = 0} = {0, 2, 3}" unfolding t by blast
  have s: "sorted_list_of_set {0, 2, 3 :: nat} = [0, 2, 3]" by (simp add: sorted_list_of_set_insert_remove)
  have "\<forall>f\<in>set [5, 6 :: u64]. f \<noteq> 0" by simp
  from fdalloc_lowest [OF this, of ?k] show ?thesis
    unfolding free s by (auto simp: card_insert_if split: option.splits)
qed

end
