(* ===== verification/Syscall_Props.thy ===== *)
theory Syscall_Props
  imports Syscall
begin

text \<open>The properties of lab 2's dispatcher, tracing and \<^verbatim>\<open>sysinfo\<close>.\<close>

section \<open>The mask\<close>

lemma sint_nonneg_uint: "0 \<le> sint (m :: u32) \<Longrightarrow> sint m = uint m"
  using sint_lt [of m] by (simp add: uint_sint take_bit_int_eq_self)

text \<open>
  With a mask that is not negative, the test of the dispatcher reads the bit; with a negative mask the remainder is 0
  or -1 and no call is traced.
\<close>

lemma traced_bit:
  "n < 32 \<Longrightarrow> c_rem (shift_right m n) 2 = 1 \<longleftrightarrow> 0 \<le> sint m \<and> bit m n"
proof (cases "0 \<le> sint m")
  case True
  then have "shift_right m n = uint m div 2 ^ n" by (simp add: shift_right_def sint_nonneg_uint)
  moreover have "0 \<le> uint m div 2 ^ n" by (intro pos_imp_zdiv_nonneg_iff [THEN iffD2]) simp_all
  moreover assume "n < 32"
  then have "bit m n \<longleftrightarrow> odd (uint m div 2 ^ n)" by (simp add: bit_uint_iff flip: bit_iff_odd)
  ultimately show ?thesis using True by (simp add: c_rem_def odd_iff_mod_2_eq_one)
next
  case False
  then have "shift_right m n < 0" by (simp add: shift_right_def pos_imp_zdiv_neg_iff)
  moreover have "0 \<le> (- shift_right m n) mod 2" by simp
  ultimately have "c_rem (shift_right m n) 2 \<le> 0" by (simp add: c_rem_def)
  then have "c_rem (shift_right m n) 2 \<noteq> 1" by linarith
  then show ?thesis using False by simp
qed

section \<open>Counting\<close>

lemma less_imp_le_minus: "m < n \<Longrightarrow> m \<le> n - (1 :: nat)"
  by simp


lemma infonproc_loop_count: "infonproc_loop ps n = n + of_nat (length (filter (\<lambda>p. sstate p = UNUSED) ps))"
  by (induction ps arbitrary: n) (auto simp: algebra_simps)

lemma infofreefd_fds_count: "infofreefd_fds fs n = n + of_nat (length (filter (\<lambda>f. f = 0) fs))"
  by (induction fs arbitrary: n) (auto simp: algebra_simps)

lemma infofreefd_loop_count: "infofreefd_loop ps n = n + of_nat (sum_list (map (\<lambda>p. length (filter (\<lambda>f. f = 0) (sofile p))) ps))"
  by (induction ps arbitrary: n) (auto simp: algebra_simps infofreefd_fds_count)

lemma unat_small: "n < 2 ^ 64 \<Longrightarrow> unat (of_nat n :: u64) = n"
  by (simp add: unat_of_nat take_bit_nat_eq_self)

text \<open>
  C37: a system call with a number in the table runs its handler, stores the result in \<^verbatim>\<open>a0\<close> and prints a line exactly when
  the bit of the call is set in the mask the process has afterwards and the mask is not negative; the line has the pid,
  the name of the call, its first argument and its result. The handler's other effects stay.
\<close>

theorem syscall_traces_mask:
  fixes num :: u32
  assumes num: "num = ucast (sregs (sproc k ! i) ! 7)" "0 < sint num" "sint num < 24" "T (unat num) = Some h"
    and run: "h i k = Some (Ok (r, k1))" "i < length (sproc k1)" "sregs (sproc k1 ! i) \<noteq> []"
  shows "\<exists>k'. syscall T i k = Some (Ok k') \<and> skmem k' = skmem k1 \<and>
    sproc k' = (sproc k1)[i := (sproc k1 ! i)\<lparr>sregs := (sregs (sproc k1 ! i))[0 := r]\<rparr>] \<and>
    sconsole k' = sconsole k1 @
      (if 0 \<le> sint (smask (sproc k1 ! i)) \<and> bit (smask (sproc k1 ! i)) (unat num)
       then [Trace_line (spid (sproc k1 ! i)) (syscallsName ! unat num) (ucast (sregs (sproc k ! i) ! 0)) r] else [])"
proof -
  have "uint num < 24" using num(2,3) sint_nonneg_uint [of num] by linarith
  then have "unat num < 32" unfolding unat_eq_nat_uint by linarith
  note b = traced_bit [OF this, of "smask (sproc k1 ! i)"]
  have q: "sproc (upd_sproc i (\<lambda>p. p\<lparr>sregs := (sregs p)[0 := r]\<rparr>) k1) ! i = (sproc k1 ! i)\<lparr>sregs := (sregs (sproc k1 ! i))[0 := r]\<rparr>"
    using run(2) by (simp add: upd_sproc_def)
  have "(sregs (sproc k1 ! i))[0 := r] ! 0 = r" using run(3) by simp
  then show ?thesis using num run b
    by (simp add: syscall_def argint_def argraw_def Let_def q) (simp add: upd_sproc_def)
qed

text \<open>
  C38: \<^verbatim>\<open>sysinfo\<close> hands \<^verbatim>\<open>copyout\<close> the size of the free memory, the number of free entries of the process table and the number of
  unused file descriptors of all entries, none of them wrapped around, and returns -1 exactly when \<^verbatim>\<open>copyout\<close> fails.
\<close>

theorem info_reports_counts:
  assumes inv: "kmem_inv L (skmem k)" and small: "length (sproc k) < 2 ^ 32" "\<forall>p\<in>set (sproc k). length (sofile p) < 2 ^ 32"
  shows "\<exists>v s1 r s2. unat (freemem v) = 4096 * card (kmem_free (skmem k)) \<and>
    unat (nproc v) = length (filter (\<lambda>p. sstate p = UNUSED) (sproc k)) \<and>
    unat (freefd v) = (\<Sum>p\<leftarrow>sproc k. length (filter (\<lambda>f. f = 0) (sofile p))) \<and>
    ram s1 = ram (skmem k) \<and> freelist s1 = freelist (skmem k) \<and> cout (spagetable (sproc k ! i)) addr v s1 = (r, s2) \<and>
    info cout addr i k = Some (Ok (if r < 0 then -1 else 0, k\<lparr>skmem := s2\<rparr>))"
proof -
  obtain n s1 where f: "infofreemem (skmem k) = Some (n, s1)" "unat n = 4096 * card (kmem_free (skmem k))" "ram s1 = ram (skmem k)"
      "freelist s1 = freelist (skmem k)" using infofreemem_counts [OF inv] by blast
  let ?v = "\<lparr>freemem = n, nproc = infonproc k, freefd = infofreefd k\<rparr>"
  obtain r s2 where c: "cout (spagetable (sproc k ! i)) addr ?v s1 = (r, s2)" by fastforce
  have "length (filter (\<lambda>p. sstate p = UNUSED) (sproc k)) < 2 ^ 64"
    using le_less_trans [OF length_filter_le small(1), of "\<lambda>p. sstate p = UNUSED"] by simp
  then have np: "unat (infonproc k) = length (filter (\<lambda>p. sstate p = UNUSED) (sproc k))"
    by (simp add: infonproc_def infonproc_loop_count unat_small)
  have le: "(\<Sum>p\<leftarrow>sproc k. length (filter (\<lambda>f. f = 0) (sofile p))) \<le> (\<Sum>p\<leftarrow>sproc k. (2 ^ 32 - 1 :: nat))"
  proof (rule sum_list_mono)
    fix p assume "p \<in> set (sproc k)"
    then have "length (sofile p) < 2 ^ 32" using small(2) by blast
    then have "length (sofile p) \<le> 2 ^ 32 - 1" by (rule less_imp_le_minus)
    then show "length (filter (\<lambda>f. f = 0) (sofile p)) \<le> 2 ^ 32 - 1" using length_filter_le [of "\<lambda>f. f = 0" "sofile p"] by linarith
  qed
  also have "\<dots> = length (sproc k) * (2 ^ 32 - 1)" by (simp add: sum_list_triv)
  also have "\<dots> < 2 ^ 32 * 2 ^ 32" using small(1) by (intro mult_less_le_imp_less) auto
  finally have "(\<Sum>p\<leftarrow>sproc k. length (filter (\<lambda>f. f = 0) (sofile p))) < 2 ^ 64" by simp
  then have fd: "unat (infofreefd k) = (\<Sum>p\<leftarrow>sproc k. length (filter (\<lambda>f. f = 0) (sofile p)))"
    by (simp add: infofreefd_def infofreefd_loop_count unat_small)
  show ?thesis using f c np fd
    by (intro exI [of _ ?v] exI [of _ s1] exI [of _ r] exI [of _ s2]) (simp add: info_def)
qed

section \<open>A process that traces itself\<close>

text \<open>Process 0 calls \<^verbatim>\<open>trace\<close> (number 22) with the mask of that call.\<close>

definition ex_sproc :: "u64 list \<Rightarrow> sproc" where
  "ex_sproc rs = \<lparr>sstate = RUNNING, sparent = None, schan = None, skilled = False, sxstate = 0, spid = 3, skstack = 0, ssz = 4096, spagetable = 0, strapframe = 0,
     sregs = rs, sframe = \<lparr>tepc = 0, tsp = 0, tothers = []\<rparr>, sctx = \<lparr>ra = 0, sp = 0, callee_saved = []\<rparr>, sofile = [7, 0, 0], scwd = 0, sname = ''sh'', smask = 0\<rparr>"

definition ex_skernel :: "unit skernel" where
  "ex_skernel = \<lparr>sproc = [ex_sproc [2 ^ 22, 0, 0, 0, 0, 0, 0, 22], (ex_sproc [])\<lparr>sstate := UNUSED\<rparr>],
     scpus = [\<lparr>scur = Some 0, sintena = False\<rparr>], sinitproc = Some 0, snextpid = 4, sfirst = False,
     skmem = ex_kmem 0x80001000, sfsys = (), sticks = 0, slocks = [], sconsole = []\<rparr>"

theorem syscall_traces_mask_witness:
  "\<exists>k'. syscall [22 \<mapsto> sys_trace] 0 ex_skernel = Some (Ok k') \<and> smask (sproc k' ! 0) = 2 ^ 22 \<and>
    sconsole k' = [Trace_line 3 ''sys_trace'' (2 ^ 22) 0]"
proof -
  let ?k1 = "trace (2 ^ 22) 0 ex_skernel"
  have h: "sys_trace 0 ex_skernel = Some (Ok (0, ?k1))"
    by (simp add: sys_trace_def argint_def argraw_def ex_skernel_def ex_sproc_def)
  have n: "(22 :: u32) = ucast (sregs (sproc ex_skernel ! 0) ! 7)" "0 < sint (22 :: u32)" "sint (22 :: u32) < 24"
      "[22 \<mapsto> sys_trace] (unat (22 :: u32)) = Some sys_trace" by (simp_all add: ex_skernel_def ex_sproc_def)
  have p: "sproc ?k1 ! 0 = (ex_sproc [2 ^ 22, 0, 0, 0, 0, 0, 0, 22])\<lparr>smask := 2 ^ 22\<rparr>" "0 < length (sproc ?k1)" "sconsole ?k1 = []"
    by (simp_all add: trace_def upd_sproc_def ex_skernel_def)
  then have "sregs (sproc ?k1 ! 0) \<noteq> []" by (simp add: ex_sproc_def)
  from syscall_traces_mask [of 22 ex_skernel 0 "[22 \<mapsto> sys_trace]" sys_trace 0 ?k1, OF n h p(2) this]
  obtain k' where k': "syscall [22 \<mapsto> sys_trace] 0 ex_skernel = Some (Ok k')"
      "sproc k' = (sproc ?k1)[0 := (sproc ?k1 ! 0)\<lparr>sregs := (sregs (sproc ?k1 ! 0))[0 := 0]\<rparr>]"
      "sconsole k' = sconsole ?k1 @ (if 0 \<le> sint (smask (sproc ?k1 ! 0)) \<and> bit (smask (sproc ?k1 ! 0)) (unat (22 :: u32))
         then [Trace_line (spid (sproc ?k1 ! 0)) (syscallsName ! unat (22 :: u32)) (ucast (sregs (sproc ex_skernel ! 0) ! 0)) 0] else [])"
    by blast
  have "bit ((2 :: u32) ^ 22) 22" by (simp add: bit_exp_iff)
  then have "sconsole k' = [Trace_line 3 ''sys_trace'' (2 ^ 22) 0]" using k'(3) unfolding p
    by (simp add: ex_sproc_def ex_skernel_def syscallsName_def)
  moreover have "smask (sproc k' ! 0) = 2 ^ 22" using k'(2) p by simp
  ultimately show ?thesis using k'(1) by blast
qed

definition ex_cout :: "u64 \<Rightarrow> u64 \<Rightarrow> sysinfo \<Rightarrow> kmem \<Rightarrow> int \<times> kmem" where
  "ex_cout pt a v s = (if a = 0 then -1 else 0, s)"

theorem info_reports_counts_witness:
  "\<exists>(v :: sysinfo) s1. unat (freemem v) = 4096 \<and> unat (nproc v) = 1 \<and> unat (freefd v) = 4 \<and>
    info ex_cout 64 0 ex_skernel = Some (Ok (0, ex_skernel\<lparr>skmem := s1\<rparr>))"
proof -
  have "kmem_inv ex_layout (skmem ex_skernel)" using ex_kmem_inv by (simp add: ex_skernel_def)
  moreover have "length (sproc ex_skernel) < 2 ^ 32" "\<forall>p\<in>set (sproc ex_skernel). length (sofile p) < 2 ^ 32"
    by (simp_all add: ex_skernel_def ex_sproc_def)
  ultimately obtain v :: sysinfo and s1 r s2 where v: "unat (freemem v) = 4096 * card (kmem_free (skmem ex_skernel))"
      "unat (nproc v) = length (filter (\<lambda>p. sstate p = UNUSED) (sproc ex_skernel))"
      "unat (freefd v) = (\<Sum>p\<leftarrow>sproc ex_skernel. length (filter (\<lambda>f. f = 0) (sofile p)))"
      "ex_cout (spagetable (sproc ex_skernel ! 0)) 64 v s1 = (r, s2)"
      "info ex_cout 64 0 ex_skernel = Some (Ok (if r < 0 then -1 else 0, ex_skernel\<lparr>skmem := s2\<rparr>))"
    using info_reports_counts [of ex_layout ex_skernel ex_cout 0 64] by blast
  have "kmem_free (skmem ex_skernel) = {0x80001000}" using kmem_free_eq [OF ex_kmem_free_list] by (simp add: ex_skernel_def)
  then have "unat (freemem v) = 4096" "unat (nproc v) = 1" "unat (freefd v) = 4" using v(1-3) by (simp_all add: ex_skernel_def ex_sproc_def)
  moreover have "info ex_cout 64 0 ex_skernel = Some (Ok (0, ex_skernel\<lparr>skmem := s2\<rparr>))"
    using v(4,5) by (auto simp: ex_cout_def)
  ultimately show ?thesis by blast
qed

end
