(* ===== verification/Lab2_Proc.thy ===== *)
theory Lab2_Proc
  imports Syscall
begin

text \<open>
  Processes of lab 2 (\<^verbatim>\<open>kernel/proc.c\<close>) and the system calls of \<^verbatim>\<open>kernel/sysproc.c\<close>, on the kernel of \<^verbatim>\<open>Syscall\<close>. The code is near to lab 4's
  \<^verbatim>\<open>kernel/proc.c\<close> (theory \<^verbatim>\<open>Proc\<close>), without kernel page tables and with a trace mask; names carry a 2. The page allocator is lab 2's own; its
  \<^verbatim>\<open>vm.c\<close> and the file system are outside the repository and arguments. A function that gives up the processor stops at the
  context switch; what it does when it is resumed is a function of its own.
\<close>

section \<open>What the code uses of other files\<close>

record 'f lab2 =
  l_layout :: memlayout
  v_create :: "kmem \<Rightarrow> u64 \<times> kmem"
  v_map :: "u64 \<Rightarrow> u64 \<Rightarrow> u64 \<Rightarrow> u64 \<Rightarrow> u64 \<Rightarrow> kmem \<Rightarrow> (int \<times> kmem) res"
  v_unmap :: "u64 \<Rightarrow> u64 \<Rightarrow> u64 \<Rightarrow> bool \<Rightarrow> kmem \<Rightarrow> kmem res"
  v_free :: "u64 \<Rightarrow> u64 \<Rightarrow> kmem \<Rightarrow> kmem res"
  v_init :: "u64 \<Rightarrow> u8 list \<Rightarrow> u32 \<Rightarrow> kmem \<Rightarrow> kmem res"
  v_alloc :: "u64 \<Rightarrow> u64 \<Rightarrow> u64 \<Rightarrow> kmem \<Rightarrow> (u64 \<times> kmem) res"
  v_dealloc :: "u64 \<Rightarrow> u64 \<Rightarrow> u64 \<Rightarrow> kmem \<Rightarrow> (u64 \<times> kmem) res"
  v_copy :: "u64 \<Rightarrow> u64 \<Rightarrow> u64 \<Rightarrow> kmem \<Rightarrow> (int \<times> kmem) res"
  v_kmap :: "u64 \<Rightarrow> u64 \<Rightarrow> u64 \<Rightarrow> u64 \<Rightarrow> kmem \<Rightarrow> kmem res"
  v_inithart :: "kmem \<Rightarrow> kmem"
  v_copyout :: "u64 \<Rightarrow> u64 \<Rightarrow> u8 list \<Rightarrow> u64 \<Rightarrow> kmem \<Rightarrow> (int \<times> kmem) res"
  v_copyin :: "u64 \<Rightarrow> u64 \<Rightarrow> u64 \<Rightarrow> kmem \<Rightarrow> (int \<times> u8 list) res"
  l_trampoline :: u64
  l_TRAMPOLINE :: u64
  l_TRAPFRAME :: u64
  l_KSTACK :: "nat \<Rightarrow> u64"
  l_forkret :: u64
  l_filedup :: "u64 \<Rightarrow> 'f \<Rightarrow> u64 \<times> 'f"
  l_fileclose :: "u64 \<Rightarrow> 'f \<Rightarrow> 'f"
  l_idup :: "u64 \<Rightarrow> 'f \<Rightarrow> u64 \<times> 'f"
  l_iput :: "u64 \<Rightarrow> 'f \<Rightarrow> 'f"
  l_begin_op :: "'f \<Rightarrow> 'f"
  l_end_op :: "'f \<Rightarrow> 'f"
  l_namei :: "string \<Rightarrow> 'f \<Rightarrow> u64 \<times> 'f"
  l_fsinit :: "'f \<Rightarrow> 'f"

section \<open>Locks, harts and memory\<close>

definition acquire2 :: "slock \<Rightarrow> 'f skernel \<Rightarrow> 'f skernel" where
  "acquire2 l k = k\<lparr>slocks := slocks k @ [Acquire l]\<rparr>"

definition release2 :: "slock \<Rightarrow> 'f skernel \<Rightarrow> 'f skernel" where
  "release2 l k = k\<lparr>slocks := slocks k @ [Release l]\<rparr>"

definition holding2 :: "slock \<Rightarrow> 'f skernel \<Rightarrow> bool" where
  "holding2 l k = (case lock_run {} (slocks k) of None \<Rightarrow> False | Some H \<Rightarrow> l \<in> H)"

definition noff2 :: "'f skernel \<Rightarrow> int" where
  "noff2 k = off_depth (slocks k)"

definition upd_scpu :: "nat \<Rightarrow> (scpu \<Rightarrow> scpu) \<Rightarrow> 'f skernel \<Rightarrow> 'f skernel" where
  "upd_scpu c f k = k\<lparr>scpus := (scpus k)[c := f (scpus k ! c)]\<rparr>"

text \<open>\<^verbatim>\<open>cpuid()\<close> is given as \<open>c\<close>.\<close>

definition mycpu2 :: "nat \<Rightarrow> 'f skernel \<Rightarrow> scpu" where
  "mycpu2 c k = scpus k ! c"

definition myproc2 :: "nat \<Rightarrow> 'f skernel \<Rightarrow> nat option" where
  "myproc2 c k = scur (mycpu2 c k)"

definition with_cur :: "nat \<Rightarrow> 'f skernel \<Rightarrow> (nat \<Rightarrow> 'c run) \<Rightarrow> 'c run" where
  "with_cur c k f = (case myproc2 c k of None \<Rightarrow> None | Some i \<Rightarrow> f i)"

definition entries :: "'f skernel \<Rightarrow> nat list" where
  "entries k = [0..<length (sproc k)]"

definition lift_km :: "'f skernel \<Rightarrow> ('b \<times> kmem) res \<Rightarrow> ('b \<times> 'f skernel) run" where
  "lift_km k r = (case r of Panic e \<Rightarrow> Some (Panic e) | Ok (x, s) \<Rightarrow> Some (Ok (x, k\<lparr>skmem := s\<rparr>)))"

definition lift_km_unit :: "'f skernel \<Rightarrow> kmem res \<Rightarrow> 'f skernel run" where
  "lift_km_unit k r = (case r of Panic e \<Rightarrow> Some (Panic e) | Ok s \<Rightarrow> Some (Ok (k\<lparr>skmem := s\<rparr>)))"

section \<open>Creating and freeing processes\<close>

primrec procinit_loop2 :: "'f lab2 \<Rightarrow> nat list \<Rightarrow> 'f skernel \<Rightarrow> 'f skernel run" where
  "procinit_loop2 E [] k = Some (Ok k)"
| "procinit_loop2 E (i # is) k =
     (let (pa, s1) = kalloc (skmem k); k1 = k\<lparr>skmem := s1\<rparr>; va = l_KSTACK E i in
      if pa = 0 then Some (Panic ''kalloc'')
      else
        kbind (lift_km_unit k1 (v_kmap E va pa PGSIZE (PTE_R OR PTE_W) (skmem k1))) (\<lambda>k2.
        procinit_loop2 E is (upd_sproc i (\<lambda>p. p\<lparr>skstack := va\<rparr>) k2)))"

definition procinit2 :: "'f lab2 \<Rightarrow> 'f skernel \<Rightarrow> 'f skernel run" where
  "procinit2 E k = kbind (procinit_loop2 E (entries k) k) (\<lambda>k1. Some (Ok (k1\<lparr>skmem := v_inithart E (skmem k1)\<rparr>)))"

definition allocpid2 :: "'f skernel \<Rightarrow> u32 \<times> 'f skernel" where
  "allocpid2 k =
     (let k1 = acquire2 PidL k; q = snextpid k1; k2 = k1\<lparr>snextpid := snextpid k1 + 1\<rparr>
      in (q, release2 PidL k2))"

primrec find_unused2 :: "nat list \<Rightarrow> 'f skernel \<Rightarrow> nat option \<times> 'f skernel" where
  "find_unused2 [] k = (None, k)"
| "find_unused2 (i # is) k =
     (let k1 = acquire2 (ProcL i) k
      in if sstate (sproc k1 ! i) = UNUSED then (Some i, k1) else find_unused2 is (release2 (ProcL i) k1))"

definition proc_pagetable2 :: "'f lab2 \<Rightarrow> sproc \<Rightarrow> kmem \<Rightarrow> (u64 \<times> kmem) res" where
  "proc_pagetable2 E p s =
     (let (pt, s1) = v_create E s in
      if pt = 0 then Ok (0, s1)
      else
        rbind (v_map E pt (l_TRAMPOLINE E) PGSIZE (l_trampoline E) (PTE_R OR PTE_X) s1) (\<lambda>(r, s2).
        if r < 0 then rbind (v_free E pt 0 s2) (\<lambda>s3. Ok (0, s3))
        else
          rbind (v_map E pt (l_TRAPFRAME E) PGSIZE (strapframe p) (PTE_R OR PTE_W) s2) (\<lambda>(r', s3).
          if r' < 0 then rbind (v_unmap E pt (l_TRAMPOLINE E) 1 False s3) (\<lambda>s4. rbind (v_free E pt 0 s4) (\<lambda>s5. Ok (0, s5)))
          else Ok (pt, s3))))"

definition proc_freepagetable :: "'f lab2 \<Rightarrow> u64 \<Rightarrow> u64 \<Rightarrow> kmem \<Rightarrow> kmem res" where
  "proc_freepagetable E pt len s =
     rbind (v_unmap E pt (l_TRAMPOLINE E) 1 False s) (\<lambda>s1. rbind (v_unmap E pt (l_TRAPFRAME E) 1 False s1) (v_free E pt len))"

definition freeproc2 :: "'f lab2 \<Rightarrow> nat \<Rightarrow> 'f skernel \<Rightarrow> 'f skernel run" where
  "freeproc2 E i k =
     (let p = sproc k ! i in
      kbind (lift_km_unit k (if strapframe p \<noteq> 0 then kfree (l_layout E) (strapframe p) (skmem k) else Ok (skmem k))) (\<lambda>k1.
      kbind (lift_km_unit k1 (if spagetable p \<noteq> 0 then proc_freepagetable E (spagetable p) (ssz p) (skmem k1) else Ok (skmem k1))) (\<lambda>k2.
      Some (Ok (upd_sproc i (\<lambda>p. p\<lparr>strapframe := 0, spagetable := 0, ssz := 0, spid := 0, sparent := None, sname := [], smask := 0, schan := None,
        skilled := False, sxstate := 0, sstate := UNUSED\<rparr>) k2)))))"

text \<open>A trap frame page that \<^verbatim>\<open>kalloc\<close> has filled with 5s.\<close>

definition junk_word :: u64 where
  "junk_word = 0x0505050505050505"

definition new_trapframe :: "u64 \<Rightarrow> sproc \<Rightarrow> sproc" where
  "new_trapframe tf p =
     (if tf = 0 then p\<lparr>strapframe := 0\<rparr>
      else p\<lparr>strapframe := tf, sregs := replicate 8 junk_word, sframe := \<lparr>tepc = junk_word, tsp = junk_word, tothers = replicate 26 junk_word\<rparr>\<rparr>)"

definition allocproc_found2 :: "'f lab2 \<Rightarrow> nat \<Rightarrow> 'f skernel \<Rightarrow> (nat option \<times> 'f skernel) run" where
  "allocproc_found2 E i k1 =
     (let (q, k2) = allocpid2 k1;
          k3 = upd_sproc i (\<lambda>p. p\<lparr>spid := q\<rparr>) k2;
          (tf, s4) = kalloc (skmem k3);
          k4 = upd_sproc i (new_trapframe tf) (k3\<lparr>skmem := s4\<rparr>)
      in if tf = 0 then Some (Ok (None, release2 (ProcL i) k4))
         else
           kbind (lift_km k4 (proc_pagetable2 E (sproc k4 ! i) (skmem k4))) (\<lambda>(pt, k5).
           let k6 = upd_sproc i (\<lambda>p. p\<lparr>spagetable := pt\<rparr>) k5 in
           if pt = 0 then kbind (freeproc2 E i k6) (\<lambda>k7. Some (Ok (None, release2 (ProcL i) k7)))
           else Some (Ok (Some i, upd_sproc i (\<lambda>p. p\<lparr>sctx := \<lparr>ra = l_forkret E, sp = skstack p + PGSIZE, callee_saved = replicate 12 0\<rparr>\<rparr>) k6))))"

definition allocproc2 :: "'f lab2 \<Rightarrow> 'f skernel \<Rightarrow> (nat option \<times> 'f skernel) run" where
  "allocproc2 E k =
     (case find_unused2 (entries k) k of
        (None, k1) \<Rightarrow> Some (Ok (None, k1))
      | (Some i, k1) \<Rightarrow> allocproc_found2 E i k1)"

definition initcode2 :: "u8 list" where
  "initcode2 =
    [0x17, 0x05, 0x00, 0x00, 0x13, 0x05, 0x45, 0x02,
     0x97, 0x05, 0x00, 0x00, 0x93, 0x85, 0x35, 0x02,
     0x93, 0x08, 0x70, 0x00, 0x73, 0x00, 0x00, 0x00,
     0x93, 0x08, 0x20, 0x00, 0x73, 0x00, 0x00, 0x00,
     0xef, 0xf0, 0x9f, 0xff, 0x2f, 0x69, 0x6e, 0x69,
     0x74, 0x00, 0x00, 0x24, 0x00, 0x00, 0x00, 0x00,
     0x00, 0x00, 0x00, 0x00]"

definition userinit_run2 :: "'f lab2 \<Rightarrow> nat \<Rightarrow> 'f skernel \<Rightarrow> 'f skernel run" where
  "userinit_run2 E i k2 =
     kbind (lift_km_unit k2 (v_init E (spagetable (sproc k2 ! i)) initcode2 52 (skmem k2))) (\<lambda>k3.
     let (root, f) = l_namei E ''/'' (sfsys k3);
         k4 = upd_sproc i (\<lambda>p. p\<lparr>ssz := PGSIZE, sframe := (sframe p)\<lparr>tepc := 0, tsp := PGSIZE\<rparr>, sname := safe_name ''initcode'', scwd := root, sstate := RUNNABLE\<rparr>)
           (k3\<lparr>sfsys := f\<rparr>)
     in Some (Ok (release2 (ProcL i) k4)))"

definition userinit2 :: "'f lab2 \<Rightarrow> 'f skernel \<Rightarrow> 'f skernel run" where
  "userinit2 E k =
     kbind (allocproc2 E k) (\<lambda>(r, k1).
     let k2 = k1\<lparr>sinitproc := r\<rparr> in
     case r of None \<Rightarrow> None | Some i \<Rightarrow> userinit_run2 E i k2)"

text \<open>The local \<^verbatim>\<open>sz\<close> is a 32-bit \<^verbatim>\<open>uint\<close>.\<close>

definition growproc2 :: "'f lab2 \<Rightarrow> nat \<Rightarrow> u32 \<Rightarrow> 'f skernel \<Rightarrow> (int \<times> 'f skernel) run" where
  "growproc2 E c n k = with_cur c k (\<lambda>i.
     let p = sproc k ! i; len = (ucast (ssz p) :: u32) in
     kbind (lift_km k
         (if sint n > 0 then
            rbind (v_alloc E (spagetable p) (ucast len) (ucast (len + n)) (skmem k))
              (\<lambda>(r, s). Ok (if (ucast r :: u32) = 0 then None else Some (ucast r :: u32), s))
          else if sint n < 0 then rbind (v_dealloc E (spagetable p) (ucast len) (ucast (len + n)) (skmem k)) (\<lambda>(r, s). Ok (Some (ucast r), s))
          else Ok (Some len, skmem k)))
       (\<lambda>(r, k1).
          case r of
            None \<Rightarrow> Some (Ok (-1, k1))
          | Some x \<Rightarrow> Some (Ok (0, upd_sproc i (\<lambda>p. p\<lparr>ssz := ucast x\<rparr>) k1))))"

fun dup_files2 :: "'f lab2 \<Rightarrow> u64 list \<Rightarrow> u64 list \<Rightarrow> 'f \<Rightarrow> u64 list \<times> 'f" where
  "dup_files2 E (f # fs) (g # gs) s =
     (let (h, s1) = (if f \<noteq> 0 then l_filedup E f s else (g, s)); (hs, s2) = dup_files2 E fs gs s1 in (h # hs, s2))"
| "dup_files2 E _ gs s = (gs, s)"

definition fork_child2 :: "'f lab2 \<Rightarrow> nat \<Rightarrow> nat \<Rightarrow> 'f skernel \<Rightarrow> u32 \<times> 'f skernel" where
  "fork_child2 E i j k =
     (let p = sproc k ! i; np = sproc k ! j;
          k1 = upd_sproc j (\<lambda>q. q\<lparr>ssz := ssz p, sparent := Some i, sregs := (sregs p)[0 := 0], sframe := sframe p, smask := smask p\<rparr>) k;
          (fs, f1) = dup_files2 E (sofile p) (sofile np) (sfsys k1);
          (d, f2) = l_idup E (scwd p) f1;
          k2 = upd_sproc j (\<lambda>q. q\<lparr>sofile := fs, scwd := d, sname := safe_name (sname p)\<rparr>) (k1\<lparr>sfsys := f2\<rparr>);
          r = spid (sproc k2 ! j)
      in (r, release2 (ProcL j) (upd_sproc j (\<lambda>q. q\<lparr>sstate := RUNNABLE\<rparr>) k2)))"

definition fork2 :: "'f lab2 \<Rightarrow> nat \<Rightarrow> 'f skernel \<Rightarrow> (u32 \<times> 'f skernel) run" where
  "fork2 E c k = with_cur c k (\<lambda>i.
     kbind (allocproc2 E k) (\<lambda>(r, k1).
     case r of
       None \<Rightarrow> Some (Ok (-1, k1))
     | Some j \<Rightarrow>
         kbind (lift_km k1 (v_copy E (spagetable (sproc k1 ! i)) (spagetable (sproc k1 ! j)) (ssz (sproc k1 ! i)) (skmem k1))) (\<lambda>(x, k2).
         if x < 0 then kbind (freeproc2 E j k2) (\<lambda>k3. Some (Ok (-1, release2 (ProcL j) k3)))
         else Some (Ok (fork_child2 E i j k2)))))"

section \<open>Sleeping and waking\<close>

definition intr_get2 :: "nat \<Rightarrow> 'f skernel \<Rightarrow> bool" where
  "intr_get2 c k \<longleftrightarrow> noff2 k \<le> 0 \<and> sintena (mycpu2 c k)"

definition sched2 :: "nat \<Rightarrow> 'f skernel \<Rightarrow> (bool \<times> 'f skernel) run" where
  "sched2 c k = with_cur c k (\<lambda>i.
     if \<not> holding2 (ProcL i) k then Some (Panic ''sched p->lock'')
     else if noff2 k \<noteq> 1 then Some (Panic ''sched locks'')
     else if sstate (sproc k ! i) = RUNNING then Some (Panic ''sched running'')
     else if intr_get2 c k then Some (Panic ''sched interruptible'')
     else Some (Ok (sintena (mycpu2 c k), k)))"

definition sched_resume2 :: "nat \<Rightarrow> bool \<Rightarrow> 'f skernel \<Rightarrow> 'f skernel" where
  "sched_resume2 c saved k = upd_scpu c (\<lambda>u. u\<lparr>sintena := saved\<rparr>) k"

definition yield2 :: "nat \<Rightarrow> 'f skernel \<Rightarrow> (bool \<times> 'f skernel) run" where
  "yield2 c k = with_cur c k (\<lambda>i. sched2 c (upd_sproc i (\<lambda>p. p\<lparr>sstate := RUNNABLE\<rparr>) (acquire2 (ProcL i) k)))"

definition yield_resume2 :: "nat \<Rightarrow> bool \<Rightarrow> 'f skernel \<Rightarrow> 'f skernel run" where
  "yield_resume2 c saved k = with_cur c k (\<lambda>i. Some (Ok (release2 (ProcL i) (sched_resume2 c saved k))))"

definition sleep2 :: "nat \<Rightarrow> schan \<Rightarrow> slock \<Rightarrow> 'f skernel \<Rightarrow> (bool \<times> 'f skernel) run" where
  "sleep2 c ch lk k = with_cur c k (\<lambda>i.
     let k1 = (if lk \<noteq> ProcL i then release2 lk (acquire2 (ProcL i) k) else k)
     in sched2 c (upd_sproc i (\<lambda>p. p\<lparr>schan := Some ch, sstate := SLEEPING\<rparr>) k1))"

definition sleep_resume2 :: "nat \<Rightarrow> slock \<Rightarrow> bool \<Rightarrow> 'f skernel \<Rightarrow> 'f skernel run" where
  "sleep_resume2 c lk saved k = with_cur c k (\<lambda>i.
     let k1 = upd_sproc i (\<lambda>p. p\<lparr>schan := None\<rparr>) (sched_resume2 c saved k)
     in Some (Ok (if lk \<noteq> ProcL i then acquire2 lk (release2 (ProcL i) k1) else k1)))"

primrec wakeup_loop2 :: "schan \<Rightarrow> nat list \<Rightarrow> 'f skernel \<Rightarrow> 'f skernel" where
  "wakeup_loop2 ch [] k = k"
| "wakeup_loop2 ch (i # is) k =
     (let k1 = acquire2 (ProcL i) k;
          k2 = (if sstate (sproc k1 ! i) = SLEEPING \<and> schan (sproc k1 ! i) = Some ch then upd_sproc i (\<lambda>p. p\<lparr>sstate := RUNNABLE\<rparr>) k1 else k1)
      in wakeup_loop2 ch is (release2 (ProcL i) k2))"

definition wakeup2 :: "schan \<Rightarrow> 'f skernel \<Rightarrow> 'f skernel" where
  "wakeup2 ch k = wakeup_loop2 ch (entries k) k"

definition wakeup12 :: "nat \<Rightarrow> 'f skernel \<Rightarrow> 'f skernel run" where
  "wakeup12 i k =
     (if \<not> holding2 (ProcL i) k then Some (Panic ''wakeup1'')
      else if schan (sproc k ! i) = Some (ProcC i) \<and> sstate (sproc k ! i) = SLEEPING then Some (Ok (upd_sproc i (\<lambda>p. p\<lparr>sstate := RUNNABLE\<rparr>) k))
      else Some (Ok k))"

primrec kill_loop2 :: "u32 \<Rightarrow> nat list \<Rightarrow> 'f skernel \<Rightarrow> int \<times> 'f skernel" where
  "kill_loop2 q [] k = (-1, k)"
| "kill_loop2 q (i # is) k =
     (let k1 = acquire2 (ProcL i) k
      in if spid (sproc k1 ! i) = q then
           let k2 = upd_sproc i (\<lambda>p. p\<lparr>skilled := True\<rparr>) k1;
               k3 = (if sstate (sproc k2 ! i) = SLEEPING then upd_sproc i (\<lambda>p. p\<lparr>sstate := RUNNABLE\<rparr>) k2 else k2)
           in (0, release2 (ProcL i) k3)
         else kill_loop2 q is (release2 (ProcL i) k1))"

definition kill2 :: "u32 \<Rightarrow> 'f skernel \<Rightarrow> int \<times> 'f skernel" where
  "kill2 q k = kill_loop2 q (entries k) k"

section \<open>Exit and wait\<close>

primrec reparent_loop2 :: "nat \<Rightarrow> nat list \<Rightarrow> 'f skernel \<Rightarrow> 'f skernel" where
  "reparent_loop2 p [] k = k"
| "reparent_loop2 p (i # is) k =
     reparent_loop2 p is
       (if sparent (sproc k ! i) = Some p
        then release2 (ProcL i) (upd_sproc i (\<lambda>q. q\<lparr>sparent := sinitproc k\<rparr>) (acquire2 (ProcL i) k)) else k)"

definition reparent2 :: "nat \<Rightarrow> 'f skernel \<Rightarrow> 'f skernel" where
  "reparent2 p k = reparent_loop2 p (entries k) k"

fun close_files2 :: "'f lab2 \<Rightarrow> u64 list \<Rightarrow> 'f \<Rightarrow> u64 list \<times> 'f" where
  "close_files2 E [] s = ([], s)"
| "close_files2 E (f # fs) s =
     (let (g, s1) = (if f \<noteq> 0 then (0, l_fileclose E f s) else (f, s)); (gs, s2) = close_files2 E fs s1 in (g # gs, s2))"

definition exit_files2 :: "'f lab2 \<Rightarrow> nat \<Rightarrow> 'f skernel \<Rightarrow> 'f skernel" where
  "exit_files2 E i k =
     (let (fs, f1) = close_files2 E (sofile (sproc k ! i)) (sfsys k);
          f2 = l_end_op E (l_iput E (scwd (sproc k ! i)) (l_begin_op E f1))
      in upd_sproc i (\<lambda>p. p\<lparr>sofile := fs, scwd := 0\<rparr>) (k\<lparr>sfsys := f2\<rparr>))"

definition exit_zombie2 :: "nat \<Rightarrow> nat \<Rightarrow> nat \<Rightarrow> u32 \<Rightarrow> 'f skernel \<Rightarrow> (bool \<times> 'f skernel) run" where
  "exit_zombie2 c i op status k4 =
     (let k5 = reparent2 i (acquire2 (ProcL i) (acquire2 (ProcL op) k4)) in
      kbind (wakeup12 op k5) (\<lambda>k6.
      sched2 c (release2 (ProcL op) (upd_sproc i (\<lambda>p. p\<lparr>sxstate := status, sstate := ZOMBIE\<rparr>) k6))))"

definition exit2 :: "'f lab2 \<Rightarrow> nat \<Rightarrow> u32 \<Rightarrow> 'f skernel \<Rightarrow> (bool \<times> 'f skernel) run" where
  "exit2 E c status k = with_cur c k (\<lambda>i.
     if sinitproc k = Some i then Some (Panic ''init exiting'')
     else
       let k1 = exit_files2 E i k in
       case sinitproc k1 of
         None \<Rightarrow> None
       | Some ini \<Rightarrow>
           kbind (wakeup12 ini (acquire2 (ProcL ini) k1)) (\<lambda>k2.
           let k3 = acquire2 (ProcL i) (release2 (ProcL ini) k2);
               original_parent = sparent (sproc k3 ! i);
               k4 = release2 (ProcL i) k3
           in case original_parent of None \<Rightarrow> None | Some op \<Rightarrow> exit_zombie2 c i op status k4))"

definition wait_reap2 :: "'f lab2 \<Rightarrow> nat \<Rightarrow> u64 \<Rightarrow> nat \<Rightarrow> 'f skernel \<Rightarrow> (u32 \<times> 'f skernel) run" where
  "wait_reap2 E i addr j k1 =
     (let q = spid (sproc k1 ! j) in
      kbind (if addr \<noteq> 0 then lift_km k1 (v_copyout E (spagetable (sproc k1 ! i)) addr (word_bytes (sxstate (sproc k1 ! j))) 4 (skmem k1))
             else Some (Ok (0, k1)))
        (\<lambda>(r, k2).
           if r < 0 then Some (Ok (-1, release2 (ProcL i) (release2 (ProcL j) k2)))
           else kbind (freeproc2 E j k2) (\<lambda>k3. Some (Ok (q, release2 (ProcL i) (release2 (ProcL j) k3))))))"

primrec wait_scan2 :: "'f lab2 \<Rightarrow> nat \<Rightarrow> u64 \<Rightarrow> nat list \<Rightarrow> bool \<Rightarrow> 'f skernel \<Rightarrow> ((u32 option \<times> bool) \<times> 'f skernel) run" where
  "wait_scan2 E i addr [] havekids k = Some (Ok ((None, havekids), k))"
| "wait_scan2 E i addr (j # js) havekids k =
     (if sparent (sproc k ! j) = Some i then
        let k1 = acquire2 (ProcL j) k in
        if sstate (sproc k1 ! j) = ZOMBIE then kbind (wait_reap2 E i addr j k1) (\<lambda>(r, k2). Some (Ok ((Some r, True), k2)))
        else wait_scan2 E i addr js True (release2 (ProcL j) k1)
      else wait_scan2 E i addr js havekids k)"

definition wait_round2 :: "'f lab2 \<Rightarrow> nat \<Rightarrow> u64 \<Rightarrow> 'f skernel \<Rightarrow> (waited \<times> 'f skernel) run" where
  "wait_round2 E c addr k = with_cur c k (\<lambda>i.
     kbind (wait_scan2 E i addr (entries k) False k) (\<lambda>((r, havekids), k1).
     case r of
       Some q \<Rightarrow> Some (Ok (Waited q, k1))
     | None \<Rightarrow>
         if \<not> havekids \<or> skilled (sproc k1 ! i) then Some (Ok (Waited (-1), release2 (ProcL i) k1))
         else kbind (sleep2 c (ProcC i) (ProcL i) k1) (\<lambda>(b, k2). Some (Ok (Asleep b, k2)))))"

definition wait2 :: "'f lab2 \<Rightarrow> nat \<Rightarrow> u64 \<Rightarrow> 'f skernel \<Rightarrow> (waited \<times> 'f skernel) run" where
  "wait2 E c addr k = with_cur c k (\<lambda>i. wait_round2 E c addr (acquire2 (ProcL i) k))"

definition wait_resume2 :: "'f lab2 \<Rightarrow> nat \<Rightarrow> u64 \<Rightarrow> bool \<Rightarrow> 'f skernel \<Rightarrow> (waited \<times> 'f skernel) run" where
  "wait_resume2 E c addr saved k = with_cur c k (\<lambda>i. kbind (sleep_resume2 c (ProcL i) saved k) (wait_round2 E c addr))"

section \<open>The scheduler\<close>

definition scheduler_pick2 :: "nat \<Rightarrow> nat \<Rightarrow> 'f skernel \<Rightarrow> bool \<times> 'f skernel" where
  "scheduler_pick2 c i k =
     (let k1 = acquire2 (ProcL i) k
      in if sstate (sproc k1 ! i) = RUNNABLE then (True, upd_scpu c (\<lambda>u. u\<lparr>scur := Some i\<rparr>) (upd_sproc i (\<lambda>p. p\<lparr>sstate := RUNNING\<rparr>) k1))
         else (False, release2 (ProcL i) k1))"

definition scheduler_back2 :: "nat \<Rightarrow> nat \<Rightarrow> 'f skernel \<Rightarrow> 'f skernel" where
  "scheduler_back2 c i k = release2 (ProcL i) (upd_scpu c (\<lambda>u. u\<lparr>scur := None\<rparr>) k)"

text \<open>A hart that enters the scheduler, and one pass over the table; \<open>go\<close> is what happens between \<^verbatim>\<open>swtch\<close> and the return from it.\<close>

definition scheduler_start2 :: "nat \<Rightarrow> 'f skernel \<Rightarrow> 'f skernel" where
  "scheduler_start2 c k = upd_scpu c (\<lambda>u. u\<lparr>scur := None\<rparr>) k"

primrec scheduler_pass2 :: "nat \<Rightarrow> (nat \<Rightarrow> 'f skernel \<Rightarrow> 'f skernel) \<Rightarrow> nat list \<Rightarrow> bool \<Rightarrow> 'f skernel \<Rightarrow> bool \<times> 'f skernel" where
  "scheduler_pass2 c go [] found k = (found, k)"
| "scheduler_pass2 c go (i # is) found k =
     (let (sw, k1) = scheduler_pick2 c i k
      in if sw then scheduler_pass2 c go is True (scheduler_back2 c i (go i k1))
         else scheduler_pass2 c go is found k1)"

definition forkret2 :: "'f lab2 \<Rightarrow> nat \<Rightarrow> 'f skernel \<Rightarrow> 'f skernel run" where
  "forkret2 E c k = with_cur c k (\<lambda>i.
     let k1 = release2 (ProcL i) k
     in Some (Ok (if sfirst k1 then k1\<lparr>sfirst := False, sfsys := l_fsinit E (sfsys k1)\<rparr> else k1)))"

section \<open>Copying and listing\<close>

definition either_copyout2 :: "'f lab2 \<Rightarrow> nat \<Rightarrow> bool \<Rightarrow> u64 \<Rightarrow> u8 list \<Rightarrow> u64 \<Rightarrow> 'f skernel \<Rightarrow> (int \<times> 'f skernel) run" where
  "either_copyout2 E c user_dst dst src len k =
     (if user_dst then with_cur c k (\<lambda>i. lift_km k (v_copyout E (spagetable (sproc k ! i)) dst src len (skmem k)))
      else Some (Ok (0, k\<lparr>skmem := store_bytes dst (take (unat len) src) (skmem k)\<rparr>)))"

definition either_copyin2 :: "'f lab2 \<Rightarrow> nat \<Rightarrow> bool \<Rightarrow> u64 \<Rightarrow> u64 \<Rightarrow> 'f skernel \<Rightarrow> (int \<times> u8 list) run" where
  "either_copyin2 E c user_src src len k =
     (if user_src then with_cur c k (\<lambda>i. Some (v_copyin E (spagetable (sproc k ! i)) src len (skmem k)))
      else Some (Ok (0, load_bytes src (unat len) (skmem k))))"

definition procdump2 :: "'f skernel \<Rightarrow> (u32 \<times> string \<times> string) list" where
  "procdump2 k = map (\<lambda>p. (spid p, state_name (sstate p), sname p)) (filter (\<lambda>p. sstate p \<noteq> UNUSED) (sproc k))"

section \<open>System calls\<close>

text \<open>The process runs on hart \<open>c\<close>. A handler that reaches the scheduler stops there, with \<open>Asleep\<close> or \<open>Napping\<close> and the interrupt flag \<^verbatim>\<open>sched\<close> has saved.\<close>

definition sys_exit :: "'f lab2 \<Rightarrow> nat \<Rightarrow> 'f skernel \<Rightarrow> (waited \<times> 'f skernel) run" where
  "sys_exit E c k = with_cur c k (\<lambda>i.
     kbind (Some (argint 0 (sproc k ! i))) (\<lambda>(r, n).
     if r < 0 then Some (Ok (Waited (-1), k))
     else kbind (exit2 E c n k) (\<lambda>(b, k1). Some (Ok (Asleep b, k1)))))"

definition sys_fork :: "'f lab2 \<Rightarrow> nat \<Rightarrow> 'f skernel \<Rightarrow> (u64 \<times> 'f skernel) run" where
  "sys_fork E c k = kbind (fork2 E c k) (\<lambda>(r, k1). Some (Ok (scast r, k1)))"

definition sys_wait :: "'f lab2 \<Rightarrow> nat \<Rightarrow> 'f skernel \<Rightarrow> (waited \<times> 'f skernel) run" where
  "sys_wait E c k = with_cur c k (\<lambda>i. kbind (Some (argaddr 0 (sproc k ! i))) (\<lambda>(r, a). if r < 0 then Some (Ok (Waited (-1), k)) else wait2 E c a k))"

definition sys_sbrk :: "'f lab2 \<Rightarrow> nat \<Rightarrow> 'f skernel \<Rightarrow> (u64 \<times> 'f skernel) run" where
  "sys_sbrk E c k = with_cur c k (\<lambda>i.
     kbind (Some (argint 0 (sproc k ! i))) (\<lambda>(r, n).
     if r < 0 then Some (Ok (-1, k))
     else
       let addr = (ucast (ssz (sproc k ! i)) :: u32) in
       kbind (growproc2 E c n k) (\<lambda>(g, k1). Some (Ok (if g < 0 then -1 else scast addr, k1)))))"

text \<open>
  The loop of \<^verbatim>\<open>sys_sleep\<close>: it returns, or sleeps with \<^verbatim>\<open>ticks0\<close>, \<^verbatim>\<open>n\<close> and the flag \<^verbatim>\<open>sched\<close> saved. \<^verbatim>\<open>ticks - ticks0 < n\<close> compares unsigned numbers.
\<close>

datatype slept = Slept int | Napping bool

definition sleep_round :: "nat \<Rightarrow> u32 \<Rightarrow> u32 \<Rightarrow> 'f skernel \<Rightarrow> (slept \<times> 'f skernel) run" where
  "sleep_round c ticks0 n k =
     (if sticks k - ticks0 < n then
        with_cur c k (\<lambda>i.
          if skilled (sproc k ! i) then Some (Ok (Slept (-1), release2 TicksL k))
          else kbind (sleep2 c TicksC TicksL k) (\<lambda>(b, k1). Some (Ok (Napping b, k1))))
      else Some (Ok (Slept 0, release2 TicksL k)))"

definition sys_sleep :: "nat \<Rightarrow> 'f skernel \<Rightarrow> (slept \<times> 'f skernel) run" where
  "sys_sleep c k = with_cur c k (\<lambda>i.
     kbind (Some (argint 0 (sproc k ! i))) (\<lambda>(r, n).
     if r < 0 then Some (Ok (Slept (-1), k))
     else let k1 = acquire2 TicksL k in sleep_round c (sticks k1) n k1))"

definition sys_sleep_resume :: "nat \<Rightarrow> u32 \<Rightarrow> u32 \<Rightarrow> bool \<Rightarrow> 'f skernel \<Rightarrow> (slept \<times> 'f skernel) run" where
  "sys_sleep_resume c ticks0 n saved k = kbind (sleep_resume2 c TicksL saved k) (sleep_round c ticks0 n)"

definition sys_kill :: "nat \<Rightarrow> 'f skernel \<Rightarrow> (int \<times> 'f skernel) run" where
  "sys_kill c k = with_cur c k (\<lambda>i. kbind (Some (argint 0 (sproc k ! i))) (\<lambda>(r, q). Some (Ok (if r < 0 then (-1, k) else kill2 q k))))"

end
