(* ===== verification/Lab2_Tasks.thy ===== *)
theory Lab2_Tasks
  imports Lab2_Proc
begin

text \<open>
  What a process of lab 2 is to the scheduler and to \<^verbatim>\<open>trace\<close>: an entry of the table is free, off the processors or on one, and carries a trace mask. Each
  function of \<^verbatim>\<open>kernel/proc.c\<close> is described by what it does to this view of the kernel.
\<close>

section \<open>The view\<close>

datatype task = Free u32 | Off u32 | On u32

definition task_of :: "sproc \<Rightarrow> task" where
  "task_of p = (case sstate p of UNUSED \<Rightarrow> Free (smask p) | RUNNING \<Rightarrow> On (smask p) | _ \<Rightarrow> Off (smask p))"

definition tasks :: "'f skernel \<Rightarrow> task list" where
  "tasks k = map task_of (sproc k)"

definition harts :: "'f skernel \<Rightarrow> nat option list" where
  "harts k = map scur (scpus k)"

definition same_tasks :: "'f skernel \<Rightarrow> 'f skernel \<Rightarrow> bool" where
  "same_tasks k k' \<longleftrightarrow> tasks k' = tasks k \<and> harts k' = harts k"

lemma task_of_cases:
  "sstate p = UNUSED \<Longrightarrow> task_of p = Free (smask p)" "sstate p = RUNNING \<Longrightarrow> task_of p = On (smask p)"
  "sstate p \<noteq> UNUSED \<Longrightarrow> sstate p \<noteq> RUNNING \<Longrightarrow> task_of p = Off (smask p)"
  by (cases "sstate p"; simp add: task_of_def)+

lemma task_of_eq:
  "task_of p = Free m \<longleftrightarrow> sstate p = UNUSED \<and> smask p = m" "task_of p = On m \<longleftrightarrow> sstate p = RUNNING \<and> smask p = m"
  "task_of p = Off m \<longleftrightarrow> sstate p \<noteq> UNUSED \<and> sstate p \<noteq> RUNNING \<and> smask p = m"
  by (cases "sstate p"; simp add: task_of_def)+

lemma task_of_cong: "sstate p = sstate q \<Longrightarrow> smask p = smask q \<Longrightarrow> task_of p = task_of q"
  by (simp add: task_of_def split: procstate.split)

lemma same_tasks_refl [simp]: "same_tasks k k"
  by (simp add: same_tasks_def)

lemma length_tasks [simp]: "length (tasks k) = length (sproc k)" "length (harts k) = length (scpus k)"
  by (simp_all add: tasks_def harts_def)

lemma nth_tasks: "i < length (sproc k) \<Longrightarrow> tasks k ! i = task_of (sproc k ! i)"
  by (simp add: tasks_def)

lemma nth_harts: "c < length (scpus k) \<Longrightarrow> harts k ! c = myproc2 c k"
  by (simp add: harts_def myproc2_def mycpu2_def)

lemma tasks_other [simp]:
  "tasks (k\<lparr>skmem := s\<rparr>) = tasks k" "tasks (k\<lparr>sfsys := f\<rparr>) = tasks k" "tasks (k\<lparr>slocks := l\<rparr>) = tasks k" "tasks (k\<lparr>snextpid := q\<rparr>) = tasks k"
  "tasks (k\<lparr>sinitproc := r\<rparr>) = tasks k" "tasks (k\<lparr>sfirst := b\<rparr>) = tasks k" "tasks (k\<lparr>sticks := t\<rparr>) = tasks k" "tasks (upd_scpu c g k) = tasks k"
  "harts (k\<lparr>skmem := s\<rparr>) = harts k" "harts (k\<lparr>sfsys := f\<rparr>) = harts k" "harts (k\<lparr>slocks := l\<rparr>) = harts k" "harts (k\<lparr>snextpid := q\<rparr>) = harts k"
  "harts (k\<lparr>sinitproc := r\<rparr>) = harts k" "harts (k\<lparr>sfirst := b\<rparr>) = harts k" "harts (k\<lparr>sticks := t\<rparr>) = harts k" "harts (upd_sproc i h k) = harts k"
  "tasks (acquire2 lk k) = tasks k" "harts (acquire2 lk k) = harts k" "tasks (release2 lk k) = tasks k" "harts (release2 lk k) = harts k"
  by (simp_all add: tasks_def harts_def upd_scpu_def upd_sproc_def acquire2_def release2_def)

lemma sproc_other [simp]:
  "sproc (acquire2 lk k) = sproc k" "sproc (release2 lk k) = sproc k" "sproc (upd_scpu c g k) = sproc k"
  "sinitproc (upd_sproc i f k) = sinitproc k" "sinitproc (acquire2 lk k) = sinitproc k" "sinitproc (release2 lk k) = sinitproc k"
  by (simp_all add: acquire2_def release2_def upd_scpu_def upd_sproc_def)

lemma length_upd_sproc [simp]: "length (sproc (upd_sproc i f k)) = length (sproc k)"
  by (simp add: upd_sproc_def)

lemma nth_upd_sproc: "i < length (sproc k) \<Longrightarrow> sproc (upd_sproc i f k) ! j = (if j = i then f (sproc k ! i) else sproc k ! j)"
  by (simp add: upd_sproc_def nth_list_update)

lemma myproc2_same: "harts k' = harts k \<Longrightarrow> c < length (scpus k) \<Longrightarrow> myproc2 c k' = myproc2 c k"
  by (metis length_tasks(2) nth_harts)

lemma tasks_upd: "tasks (upd_sproc i f k) = (tasks k)[i := task_of (f (sproc k ! i))]"
  by (simp add: tasks_def upd_sproc_def map_update)

lemma tasks_same: "task_of (f (sproc k ! i)) = task_of (sproc k ! i) \<Longrightarrow> tasks (upd_sproc i f k) = tasks k"
  by (cases "i < length (sproc k)") (simp_all add: upd_sproc_def tasks_def map_update list_update_same_conv list_update_beyond)

lemma tasks_keep [simp]:
  "sstate (f (sproc k ! i)) = sstate (sproc k ! i) \<Longrightarrow> smask (f (sproc k ! i)) = smask (sproc k ! i) \<Longrightarrow> tasks (upd_sproc i f k) = tasks k"
  by (intro tasks_same task_of_cong)

lemma harts_upd: "harts (upd_scpu c g k) = (harts k)[c := scur (g (scpus k ! c))]"
  by (simp add: harts_def upd_scpu_def map_update)

lemma harts_keep [simp]: "scur (g (scpus k ! c)) = scur (scpus k ! c) \<Longrightarrow> harts (upd_scpu c g k) = harts k"
  by (cases "c < length (scpus k)") (simp_all add: upd_scpu_def harts_def map_update list_update_same_conv list_update_beyond)

section \<open>Weakest preconditions\<close>

lemma post_None [simp]: "post None Q"
  by (simp add: post_def)

lemma post_with_cur [simp]: "post (with_cur c k f) Q \<longleftrightarrow> (\<forall>i. myproc2 c k = Some i \<longrightarrow> post (f i) Q)"
  by (simp add: with_cur_def split: option.split)

lemma post_lift_km: "(\<And>x s. Q (x, k\<lparr>skmem := s\<rparr>)) \<Longrightarrow> post (lift_km k r) Q"
  by (auto simp: lift_km_def split: res.split)

lemma post_lift_km_unit: "(\<And>s. Q (k\<lparr>skmem := s\<rparr>)) \<Longrightarrow> post (lift_km_unit k r) Q"
  by (auto simp: lift_km_unit_def split: res.split)

section \<open>Creating and freeing\<close>

lemma post_freeproc2: "post (freeproc2 E i k) (\<lambda>k'. tasks k' = (tasks k)[i := Free 0] \<and> harts k' = harts k)"
  unfolding freeproc2_def Let_def post_kbind
  by (rule post_lift_km_unit, rule post_lift_km_unit) (simp add: tasks_upd task_of_def)

definition free_masks :: "'f skernel \<Rightarrow> bool" where
  "free_masks k \<longleftrightarrow> (\<forall>m. Free m \<in> set (tasks k) \<longrightarrow> m = 0)"

lemma free_masksD: "free_masks k \<Longrightarrow> i < length (sproc k) \<Longrightarrow> sstate (sproc k ! i) = UNUSED \<Longrightarrow> tasks k ! i = Free 0 \<and> smask (sproc k ! i) = 0"
  by (metis free_masks_def length_tasks(1) nth_mem nth_tasks task_of_cases(1))

lemma find_unused2_tasks:
  "find_unused2 is k = (r, k') \<Longrightarrow> tasks k' = tasks k \<and> harts k' = harts k \<and> sproc k' = sproc k \<and> (\<forall>i. r = Some i \<longrightarrow> i \<in> set is \<and> sstate (sproc k ! i) = UNUSED)"
  by (induction "is" arbitrary: k) (force simp: Let_def split: if_splits)+

lemma new_trapframe_task [simp]: "sstate (new_trapframe tf p) = sstate p" "smask (new_trapframe tf p) = smask p"
  by (simp_all add: new_trapframe_def)

lemma allocpid2_tasks: "allocpid2 k = (q, k') \<Longrightarrow> tasks k' = tasks k \<and> harts k' = harts k \<and> sproc k' = sproc k"
  by (auto simp: allocpid2_def Let_def)

lemma post_allocproc_found2:
  assumes "free_masks k" "i < length (sproc k)" "sstate (sproc k ! i) = UNUSED"
  shows "post (allocproc_found2 E i k) (\<lambda>(r, k'). same_tasks k k' \<and> (\<forall>j. r = Some j \<longrightarrow> j < length (sproc k) \<and> sstate (sproc k ! j) = UNUSED))"
proof -
  obtain q k2 where q: "allocpid2 k = (q, k2)" by fastforce
  note q' = allocpid2_tasks [OF q]
  have f: "tasks k ! i = Free 0" using free_masksD [OF assms] by simp
  have u: "(tasks k)[i := Free 0] = tasks k" using f by (metis list_update_id)
  show ?thesis unfolding allocproc_found2_def Let_def q case_prod_beta fst_conv snd_conv
    using q' assms by (auto simp: same_tasks_def u intro!: post_lift_km intro: post_mono [OF post_freeproc2])
qed

lemma post_allocproc2:
  assumes "free_masks k"
  shows "post (allocproc2 E k) (\<lambda>(r, k'). same_tasks k k' \<and> (\<forall>j. r = Some j \<longrightarrow> j < length (sproc k) \<and> sstate (sproc k ! j) = UNUSED))"
proof -
  obtain r k1 where f: "find_unused2 (entries k) k = (r, k1)" by fastforce
  note f' = find_unused2_tasks [OF f]
  have "free_masks k1" using f' assms by (simp add: free_masks_def)
  show ?thesis
  proof (cases r)
    case None
    then show ?thesis using f' by (simp add: allocproc2_def f same_tasks_def)
  next
    case (Some i)
    then have i: "i < length (sproc k1)" "sstate (sproc k1 ! i) = UNUSED" using f' by (auto simp: entries_def)
    show ?thesis unfolding allocproc2_def f Some prod.case option.case
      by (rule post_mono [OF post_allocproc_found2 [OF \<open>free_masks k1\<close> i]]) (use f' in \<open>auto simp: same_tasks_def\<close>)
  qed
qed

lemma tasks_free_same: "tasks k' = tasks k \<Longrightarrow> j < length (sproc k) \<Longrightarrow> free_masks k \<Longrightarrow> sstate (sproc k ! j) = UNUSED \<Longrightarrow> (tasks k')[j := Free 0] = tasks k"
  by (metis free_masksD list_update_id)

lemma task_of_same: "tasks k' = tasks k \<Longrightarrow> i < length (sproc k) \<Longrightarrow> task_of (sproc k' ! i) = task_of (sproc k ! i)"
  by (metis length_tasks(1) nth_tasks)

lemma fork_child2_tasks:
  assumes "fork_child2 E i j k = (q, k')" "j < length (sproc k)" "i \<noteq> j"
  shows "tasks k' = (tasks k)[j := Off (smask (sproc k ! i))] \<and> harts k' = harts k"
proof -
  obtain fs f1 where f: "dup_files2 E (sofile (sproc k ! i)) (sofile (sproc k ! j)) (sfsys k) = (fs, f1)" by fastforce
  obtain d f2 where d: "l_idup E (scwd (sproc k ! i)) f1 = (d, f2)" by fastforce
  show ?thesis using assms by (auto simp: fork_child2_def Let_def f d upd_sproc_def tasks_def harts_def release2_def map_update task_of_def)
qed

text \<open>A fork either changes no task or makes a free entry a task with the mask of the caller.\<close>

lemma post_fork2:
  assumes "free_masks k" "myproc2 c k = Some i" "i < length (sproc k)" "tasks k ! i = On m"
  shows "post (fork2 E c k) (\<lambda>(q, k'). harts k' = harts k \<and> (tasks k' = tasks k \<or> (\<exists>j<length (sproc k). tasks k ! j = Free 0 \<and> tasks k' = (tasks k)[j := Off m])))"
proof -
  have alloc: "post (case r of None \<Rightarrow> Some (Ok (-1, k1))
     | Some j \<Rightarrow>
         kbind (lift_km k1 (v_copy E (spagetable (sproc k1 ! i)) (spagetable (sproc k1 ! j)) (ssz (sproc k1 ! i)) (skmem k1))) (\<lambda>(x, k2).
         if x < 0 then kbind (freeproc2 E j k2) (\<lambda>k3. Some (Ok (-1, release2 (ProcL j) k3)))
         else Some (Ok (fork_child2 E i j k2))))
       (\<lambda>(q, k'). harts k' = harts k \<and> (tasks k' = tasks k \<or> (\<exists>j<length (sproc k). tasks k ! j = Free 0 \<and> tasks k' = (tasks k)[j := Off m])))"
    if st: "same_tasks k k1" and r: "\<forall>j. r = Some j \<longrightarrow> j < length (sproc k) \<and> sstate (sproc k ! j) = UNUSED" for r k1
  proof (cases r)
    case None
    then show ?thesis using st by (simp add: same_tasks_def)
  next
    case (Some j)
    then have j: "j < length (sproc k)" "sstate (sproc k ! j) = UNUSED" using r by auto
    have l: "length (sproc k1) = length (sproc k)" using st by (metis length_tasks(1) same_tasks_def)
    have f: "tasks k ! j = Free 0" using free_masksD [OF assms(1) j] by simp
    then have ij: "i \<noteq> j" using assms by auto
    have m: "smask (sproc k1 ! i) = m" using st assms by (metis l nth_tasks same_tasks_def task_of_eq(2))
    have u: "(tasks k1)[j := Free 0] = tasks k" using st j assms(1) by (intro tasks_free_same) (simp_all add: same_tasks_def)
    have child: "harts k' = harts k \<and> tasks k' = (tasks k)[j := Off m]" if "fork_child2 E i j (k1\<lparr>skmem := s\<rparr>) = (q, k')" for s q k'
      using fork_child2_tasks [OF that] j ij l m st by (auto simp: same_tasks_def)
    have undo: "post (freeproc2 E j (k1\<lparr>skmem := s\<rparr>)) (\<lambda>k'. harts k' = harts k \<and> tasks k' = tasks k)" for s
      by (rule post_mono [OF post_freeproc2]) (use u st in \<open>simp add: same_tasks_def\<close>)
    show ?thesis unfolding Some option.case post_kbind
      using f j by (intro post_lift_km) (auto dest: child intro: post_mono [OF undo])
  qed
  show ?thesis unfolding fork2_def
    using assms alloc by (auto intro!: post_mono [OF post_allocproc2 [OF assms(1)]] simp del: post_None)
qed

section \<open>Waking\<close>

lemma task_of_awake: "sstate p = SLEEPING \<Longrightarrow> task_of (p\<lparr>sstate := RUNNABLE\<rparr>) = task_of p"
  by (simp add: task_of_def)

lemma wakeup_loop2_tasks: "same_tasks k (wakeup_loop2 ch is k)"
  by (induction "is" arbitrary: k) (simp_all add: Let_def same_tasks_def tasks_same task_of_awake)

lemma post_wakeup12: "post (wakeup12 i k) (\<lambda>k'. same_tasks k k' \<and> sinitproc k' = sinitproc k)"
  by (auto simp: wakeup12_def same_tasks_def tasks_same task_of_awake)

lemma kill_loop2_tasks: "same_tasks k (snd (kill_loop2 q is k))"
proof (induction "is" arbitrary: k)
  case (Cons i "is")
  let ?k = "upd_sproc i (\<lambda>p. p\<lparr>skilled := True\<rparr>) (acquire2 (ProcL i) k)"
  have "tasks (upd_sproc i (\<lambda>p. p\<lparr>sstate := RUNNABLE\<rparr>) ?k) = tasks ?k" if "sstate (sproc ?k ! i) = SLEEPING"
    by (rule tasks_same) (simp add: task_of_awake that)
  then show ?case using Cons [of "release2 (ProcL i) (acquire2 (ProcL i) k)"] by (auto simp: Let_def same_tasks_def)
qed simp

lemma reparent_loop2_tasks: "same_tasks k (reparent_loop2 p is k)"
  by (induction "is" arbitrary: k) (simp_all add: same_tasks_def)

section \<open>Giving up the processor\<close>

lemma post_sched2: "post (sched2 c k) (\<lambda>(b, k'). k' = k)"
  by (simp add: sched2_def)

text \<open>\<open>stops i k k'\<close>: task \<open>i\<close> was on a processor and is off in \<open>k'\<close>, which the scheduler sees.\<close>

definition stops :: "nat \<Rightarrow> 'f skernel \<Rightarrow> 'f skernel \<Rightarrow> bool" where
  "stops i k k' \<longleftrightarrow> tasks k' = (tasks k)[i := Off (smask (sproc k ! i))] \<and> harts k' = harts k"

lemma stops_same: "same_tasks k k1 \<Longrightarrow> i < length (sproc k) \<Longrightarrow> tasks k ! i = On m \<Longrightarrow> stops i k1 k' \<Longrightarrow> stops i k k'"
  using task_of_same [of k1 k i] nth_tasks [of i k] task_of_eq(2) [of "sproc k ! i" m] task_of_eq(2) [of "sproc k1 ! i" m] by (simp add: same_tasks_def stops_def)

lemma stops_upd: "sstate (f (sproc k ! i)) \<noteq> UNUSED \<Longrightarrow> sstate (f (sproc k ! i)) \<noteq> RUNNING \<Longrightarrow> smask (f (sproc k ! i)) = smask (sproc k ! i) \<Longrightarrow> stops i k (upd_sproc i f k)"
  by (simp add: stops_def tasks_upd task_of_cases)

lemma stops_release2 [simp]: "stops i k (release2 lk k') = stops i k k'" "stops i (release2 lk k) k' = stops i k k'" "stops i (acquire2 lk k) k' = stops i k k'"
  by (simp_all add: stops_def)

lemma post_yield2: "myproc2 c k = Some i \<Longrightarrow> post (yield2 c k) (\<lambda>(b, k'). stops i k k')"
  unfolding yield2_def post_with_cur
  by (auto intro!: post_mono [OF post_sched2] simp: stops_upd [of _ "acquire2 (ProcL i) k", simplified])

lemma post_sleep2: "myproc2 c k = Some i \<Longrightarrow> post (sleep2 c ch lk k) (\<lambda>(b, k'). stops i k k')"
  unfolding sleep2_def post_with_cur Let_def
  by (auto intro!: post_mono [OF post_sched2] simp: stops_upd [of _ "release2 lk (acquire2 (ProcL i) k)", simplified] stops_upd)

lemma post_sleep_resume2: "post (sleep_resume2 c lk b k) (same_tasks k)"
  unfolding sleep_resume2_def by (simp add: Let_def same_tasks_def sched_resume2_def)

lemma exit_files2_tasks: "same_tasks k (exit_files2 E i k) \<and> sinitproc (exit_files2 E i k) = sinitproc k"
proof -
  obtain fs f1 where "close_files2 E (sofile (sproc k ! i)) (sfsys k) = (fs, f1)" by fastforce
  then show ?thesis by (simp add: exit_files2_def Let_def same_tasks_def)
qed

lemma same_tasks_trans: "same_tasks k k1 \<Longrightarrow> same_tasks k1 k2 \<Longrightarrow> same_tasks k k2"
  by (simp add: same_tasks_def)

lemma same_tasks_locks [simp]: "same_tasks k (acquire2 lk k') = same_tasks k k'" "same_tasks k (release2 lk k') = same_tasks k k'"
  "same_tasks (acquire2 lk k) k' = same_tasks k k'" "same_tasks (release2 lk k) k' = same_tasks k k'"
  by (simp_all add: same_tasks_def)

lemma post_exit_zombie2:
  assumes "i < length (sproc k)" "tasks k ! i = On m"
  shows "post (exit_zombie2 c i op status k) (\<lambda>(b, k'). stops i k k')"
proof -
  let ?k5 = "reparent2 i (acquire2 (ProcL i) (acquire2 (ProcL op) k))"
  have k5: "same_tasks k ?k5" using reparent_loop2_tasks [of "acquire2 (ProcL i) (acquire2 (ProcL op) k)" i] by (simp add: reparent2_def)
  have "post (sched2 c (release2 (ProcL op) (upd_sproc i (\<lambda>p. p\<lparr>sxstate := status, sstate := ZOMBIE\<rparr>) k6))) (\<lambda>(b, k'). stops i k k')"
    if "same_tasks ?k5 k6" for k6
    using stops_same [OF same_tasks_trans [OF k5 that] assms stops_upd] by (auto intro!: post_mono [OF post_sched2])
  then show ?thesis unfolding exit_zombie2_def Let_def post_kbind by (intro post_mono [OF post_wakeup12]) blast
qed

lemma post_exit2:
  assumes "myproc2 c k = Some i" "i < length (sproc k)" "tasks k ! i = On m"
  shows "post (exit2 E c status k) (\<lambda>(b, k'). stops i k k')"
proof -
  let ?k1 = "exit_files2 E i k"
  have zombie: "post (exit_zombie2 c i op status (release2 (ProcL i) (acquire2 (ProcL i) (release2 (ProcL ini) k2)))) (\<lambda>(b, k'). stops i k k')"
    (is "post (exit_zombie2 _ _ _ _ ?k4) _") if "same_tasks (acquire2 (ProcL ini) ?k1) k2" for ini op k2
  proof -
    have s: "same_tasks k ?k4" using that same_tasks_trans [of k ?k1 k2] exit_files2_tasks [of k E i] by simp
    have "i < length (sproc ?k4)" "tasks ?k4 ! i = On m" using s assms by (metis length_tasks(1) same_tasks_def)+
    from post_exit_zombie2 [OF this] show ?thesis by (rule post_mono) (use s assms stops_same in blast)
  qed
  show ?thesis unfolding exit2_def post_with_cur Let_def
    using assms by (auto split: option.split intro!: post_mono [OF post_wakeup12] zombie)
qed

section \<open>Waiting\<close>

text \<open>\<open>reaps k k'\<close>: some task that is off became free with no mask.\<close>

definition reaps :: "'f skernel \<Rightarrow> 'f skernel \<Rightarrow> bool" where
  "reaps k k' \<longleftrightarrow> harts k' = harts k \<and> (\<exists>j<length (sproc k). (\<exists>m. tasks k ! j = Off m) \<and> tasks k' = (tasks k)[j := Free 0])"

lemma reaps_same: "same_tasks k k1 \<Longrightarrow> reaps k1 k' \<Longrightarrow> reaps k k'"
  unfolding reaps_def same_tasks_def by (metis length_tasks(1))

lemma post_wait_reap2:
  assumes "j < length (sproc k)" "sstate (sproc k ! j) = ZOMBIE"
  shows "post (wait_reap2 E i addr j k) (\<lambda>(q, k'). same_tasks k k' \<or> reaps k k')"
proof -
  have off: "\<exists>m. tasks k ! j = Off m" using assms by (simp add: nth_tasks task_of_cases(3))
  have "post (freeproc2 E j k2) (\<lambda>k'. reaps k k')" if "tasks k2 = tasks k" "harts k2 = harts k" for k2
    by (rule post_mono [OF post_freeproc2]) (use that off assms in \<open>auto simp: reaps_def\<close>)
  note free = post_mono [OF this]
  show ?thesis unfolding wait_reap2_def Let_def
    by (auto intro!: post_lift_km free simp: same_tasks_def reaps_def)
qed

lemma post_wait_scan2:
  "set js \<subseteq> {..<length (sproc k)} \<Longrightarrow>
   post (wait_scan2 E i addr js h k) (\<lambda>((r, h'), k'). same_tasks k k' \<or> r \<noteq> None \<and> reaps k k')"
proof (induction js arbitrary: h k)
  case (Cons j js)
  let ?k = "acquire2 (ProcL j) k"
  have "post (wait_reap2 E i addr j ?k) (\<lambda>(q, k'). same_tasks k k' \<or> reaps k k')" if "sstate (sproc k ! j) = ZOMBIE"
    using post_wait_reap2 [of j ?k E i addr] that Cons.prems by (auto simp: reaps_def elim: post_mono)
  note reap = post_mono [OF this]
  have "post (wait_scan2 E i addr js True (release2 (ProcL j) ?k)) (\<lambda>((r, h'), k'). same_tasks k k' \<or> r \<noteq> None \<and> reaps k k')"
    using Cons.IH [of "release2 (ProcL j) ?k" True] Cons.prems by (auto simp: reaps_def elim: post_mono)
  then show ?case using Cons by (auto simp: Let_def intro!: reap)
qed simp

text \<open>What a round of \<^verbatim>\<open>wait\<close> does: it returns, perhaps with a task reaped, or sleeps.\<close>

lemma post_wait_round2:
  assumes c: "myproc2 c k = Some i" "c < length (scpus k)" and i: "i < length (sproc k)" "tasks k ! i = On m"
  shows "post (wait_round2 E c addr k) (\<lambda>(w, k'). case w of Waited q \<Rightarrow> same_tasks k k' \<or> reaps k k' | Asleep b \<Rightarrow> stops i k k')"
proof -
  have nap: "post (sleep2 c (ProcC i) (ProcL i) k1) (\<lambda>(b, k'). stops i k k')" if "same_tasks k k1" for k1
  proof -
    have "myproc2 c k1 = Some i" using that c myproc2_same [of k1 k c] by (simp add: same_tasks_def)
    from post_sleep2 [OF this] show ?thesis by (rule post_mono) (use that i stops_same in blast)
  qed
  show ?thesis unfolding wait_round2_def post_with_cur
    using c by (auto simp: entries_def reaps_def split: option.split intro!: post_mono [OF post_wait_scan2] post_mono [OF nap])
qed

end
