(* ===== verification/Lab2_Props.thy ===== *)
theory Lab2_Props
  imports Lab2_Tasks
begin

text \<open>
  The processes of lab 2 as a system of interleaved steps, and its refinement to tasks with trace masks: a child inherits the mask, \<^verbatim>\<open>trace\<close> sets only the
  caller's, a reused entry starts without one.
\<close>

section \<open>Specification\<close>

type_synonym system = "task list \<times> nat option list"

inductive task_step :: "system \<Rightarrow> system \<Rightarrow> bool" where
  start: "j < length V \<Longrightarrow> V ! j = Free 0 \<Longrightarrow> task_step (V, C) (V[j := Off 0], C)"
| inherit: "i < length V \<Longrightarrow> V ! i = On m \<Longrightarrow> j < length V \<Longrightarrow> V ! j = Free 0 \<Longrightarrow> task_step (V, C) (V[j := Off m], C)"
| set_mask: "i < length V \<Longrightarrow> V ! i = On x \<Longrightarrow> task_step (V, C) (V[i := On m], C)"
| take_hart: "c < length C \<Longrightarrow> C ! c = None \<Longrightarrow> i < length V \<Longrightarrow> V ! i = Off m \<Longrightarrow> task_step (V, C) (V[i := On m], C[c := Some i])"
| leave_hart: "c < length C \<Longrightarrow> C ! c = Some i \<Longrightarrow> i < length V \<Longrightarrow> V ! i = On m \<Longrightarrow> task_step (V, C) (V[i := Off m], C[c := None])"
| reap: "j < length V \<Longrightarrow> V ! j = Off m \<Longrightarrow> task_step (V, C) (V[j := Free 0], C)"

text \<open>A free entry has no mask; the tasks on processors are those of the harts, each on one.\<close>

fun tasks_ok :: "system \<Rightarrow> bool" where
  "tasks_ok (V, C) \<longleftrightarrow>
     (\<forall>m. Free m \<in> set V \<longrightarrow> m = 0) \<and>
     (\<forall>i m. i < length V \<longrightarrow> V ! i = On m \<longrightarrow> (\<exists>c<length C. C ! c = Some i)) \<and>
     (\<forall>c i. c < length C \<longrightarrow> C ! c = Some i \<longrightarrow> i < length V \<and> (\<exists>m. V ! i = On m)) \<and>
     (\<forall>c d i. c < length C \<longrightarrow> d < length C \<longrightarrow> C ! c = Some i \<longrightarrow> C ! d = Some i \<longrightarrow> c = d)"

lemma Free_update: "Free m \<in> set (V[i := t]) \<Longrightarrow> t = Free m \<or> Free m \<in> set V"
  using set_update_subset_insert [of V i t] by auto

lemma tasks_ok_update:
  assumes "tasks_ok (V, C)" "j < length V" "(\<exists>m. t = On m) \<longleftrightarrow> (\<exists>m. V ! j = On m)" "\<And>m. t = Free m \<Longrightarrow> m = 0"
  shows "tasks_ok (V[j := t], C)"
  using assms by (auto simp: nth_list_update dest!: Free_update)

lemma tasks_okD:
  assumes "tasks_ok (V, C)"
  shows "Free m \<in> set V \<Longrightarrow> m = 0" "i < length V \<Longrightarrow> V ! i = On m \<Longrightarrow> \<exists>c<length C. C ! c = Some i"
    "c < length C \<Longrightarrow> C ! c = Some i \<Longrightarrow> i < length V \<and> (\<exists>m. V ! i = On m)"
    "c < length C \<Longrightarrow> d < length C \<Longrightarrow> C ! c = Some i \<Longrightarrow> C ! d = Some i \<Longrightarrow> c = d"
  using assms unfolding tasks_ok.simps by blast+

lemma tasks_okI:
  assumes "\<And>m. Free m \<in> set V \<Longrightarrow> m = 0" "\<And>i m. i < length V \<Longrightarrow> V ! i = On m \<Longrightarrow> \<exists>c<length C. C ! c = Some i"
    "\<And>c i. c < length C \<Longrightarrow> C ! c = Some i \<Longrightarrow> i < length V \<and> (\<exists>m. V ! i = On m)"
    "\<And>c d i. c < length C \<Longrightarrow> d < length C \<Longrightarrow> C ! c = Some i \<Longrightarrow> C ! d = Some i \<Longrightarrow> c = d"
  shows "tasks_ok (V, C)"
  unfolding tasks_ok.simps using assms by blast

declare tasks_ok.simps [simp del]

lemma tasks_ok_take:
  assumes ok: "tasks_ok (V, C)" and c: "c < length C" "C ! c = None" and i: "i < length V" "V ! i = Off m"
  shows "tasks_ok (V[i := On m], C[c := Some i])"
proof (rule tasks_okI)
  have n: "C ! d \<noteq> Some i" if "d < length C" for d using tasks_okD(3) [OF ok that, of i] i by auto
  show "x = 0" if "Free x \<in> set (V[i := On m])" for x using Free_update [OF that] tasks_okD(1) [OF ok] by auto
  show "\<exists>d<length (C[c := Some i]). C[c := Some i] ! d = Some k" if k: "k < length (V[i := On m])" "V[i := On m] ! k = On x" for k x
  proof (cases "k = i")
    case False
    then obtain d where d: "d < length C" "C ! d = Some k" using tasks_okD(2) [OF ok, of k x] k by auto
    then show ?thesis using c by (intro exI [of _ d]) (auto simp: nth_list_update)
  qed (use c in auto)
  show "k < length (V[i := On m]) \<and> (\<exists>x. V[i := On m] ! k = On x)" if "d < length (C[c := Some i])" "C[c := Some i] ! d = Some k" for d k
    using that i tasks_okD(3) [OF ok, of d k] by (cases "d = c") (auto simp: nth_list_update)
  show "d = e" if "d < length (C[c := Some i])" "e < length (C[c := Some i])" "C[c := Some i] ! d = Some k" "C[c := Some i] ! e = Some k" for d e k
    using that c n tasks_okD(4) [OF ok, of d e k] by (auto simp: nth_list_update split: if_splits)
qed

lemma tasks_ok_leave:
  assumes ok: "tasks_ok (V, C)" and c: "c < length C" "C ! c = Some i" and i: "i < length V" "V ! i = On m"
  shows "tasks_ok (V[i := Off m], C[c := None])"
proof (rule tasks_okI)
  show "x = 0" if "Free x \<in> set (V[i := Off m])" for x using Free_update [OF that] tasks_okD(1) [OF ok] by auto
  show "\<exists>d<length (C[c := None]). C[c := None] ! d = Some k" if k0: "k < length (V[i := Off m])" "V[i := Off m] ! k = On x" for k x
  proof -
    have k: "k \<noteq> i" "V ! k = On x" using k0 i by (auto simp: nth_list_update split: if_splits)
    then obtain d where d: "d < length C" "C ! d = Some k" using tasks_okD(2) [OF ok, of k x] k0 by auto
    then show ?thesis using c k by (intro exI [of _ d]) (auto simp: nth_list_update)
  qed
  show "k < length (V[i := Off m]) \<and> (\<exists>x. V[i := Off m] ! k = On x)" if d: "d < length (C[c := None])" "C[c := None] ! d = Some k" for d k
  proof -
    have e: "d \<noteq> c" "C ! d = Some k" using d c by (auto simp: nth_list_update split: if_splits)
    then have "k \<noteq> i" using tasks_okD(4) [OF ok, of c d i] c d by auto
    then show ?thesis using tasks_okD(3) [OF ok, of d k] d e by auto
  qed
  show "d = e" if "d < length (C[c := None])" "e < length (C[c := None])" "C[c := None] ! d = Some k" "C[c := None] ! e = Some k" for d e k
    using that c tasks_okD(4) [OF ok, of d e k] by (auto simp: nth_list_update split: if_splits)
qed

lemma task_step_ok: "task_step S S' \<Longrightarrow> tasks_ok S \<Longrightarrow> tasks_ok S'"
  by (induction rule: task_step.induct) (rule tasks_ok_update tasks_ok_take tasks_ok_leave; simp)+

section \<open>The system\<close>

text \<open>
  A step of the kernel: boot, a hart that takes a process, a system call or an interrupt of a process on a hart. A call that switches is followed by the rest of the scheduler's
  loop; what it does when resumed is a step of its own. \<open>other\<close> stands for the file system, memory and locks changed by other code.
\<close>

inductive lab2_step :: "'f lab2 \<Rightarrow> (u64 \<Rightarrow> u64 \<Rightarrow> sysinfo \<Rightarrow> kmem \<Rightarrow> int \<times> kmem) \<Rightarrow> 'f skernel \<Rightarrow> 'f skernel \<Rightarrow> bool" for E cout where
  boot: "userinit2 E k = Some (Ok k') \<Longrightarrow> lab2_step E cout k k'"
| pick: "c < length (scpus k) \<Longrightarrow> myproc2 c k = None \<Longrightarrow> i < length (sproc k) \<Longrightarrow> scheduler_pick2 c i k = (b, k') \<Longrightarrow> lab2_step E cout k k'"
| first_run: "forkret2 E c k = Some (Ok k') \<Longrightarrow> lab2_step E cout k k'"
| fork: "c < length (scpus k) \<Longrightarrow> sys_fork E c k = Some (Ok (r, k')) \<Longrightarrow> lab2_step E cout k k'"
| sbrk: "sys_sbrk E c k = Some (Ok (r, k')) \<Longrightarrow> lab2_step E cout k k'"
| kill: "sys_kill c k = Some (Ok (x, k')) \<Longrightarrow> lab2_step E cout k k'"
| trace: "c < length (scpus k) \<Longrightarrow> myproc2 c k = Some i \<Longrightarrow> sys_trace i k = Some (Ok (r, k')) \<Longrightarrow> lab2_step E cout k k'"
| info: "sys_sysinfo cout i k = Some (Ok (r, k')) \<Longrightarrow> lab2_step E cout k k'"
| exit: "c < length (scpus k) \<Longrightarrow> myproc2 c k = Some i \<Longrightarrow> sys_exit E c k = Some (Ok (Asleep b, k1)) \<Longrightarrow> lab2_step E cout k (scheduler_back2 c i k1)"
| wait: "c < length (scpus k) \<Longrightarrow> sys_wait E c k = Some (Ok (Waited q, k')) \<Longrightarrow> lab2_step E cout k k'"
| wait_sleep: "c < length (scpus k) \<Longrightarrow> myproc2 c k = Some i \<Longrightarrow> sys_wait E c k = Some (Ok (Asleep b, k1)) \<Longrightarrow> lab2_step E cout k (scheduler_back2 c i k1)"
| wait_again: "c < length (scpus k) \<Longrightarrow> wait_resume2 E c addr b k = Some (Ok (Waited q, k')) \<Longrightarrow> lab2_step E cout k k'"
| wait_again_sleep: "c < length (scpus k) \<Longrightarrow> myproc2 c k = Some i \<Longrightarrow> wait_resume2 E c addr b k = Some (Ok (Asleep b', k1)) \<Longrightarrow>
    lab2_step E cout k (scheduler_back2 c i k1)"
| slept: "sys_sleep c k = Some (Ok (Slept x, k')) \<Longrightarrow> lab2_step E cout k k'"
| sleep: "c < length (scpus k) \<Longrightarrow> myproc2 c k = Some i \<Longrightarrow> sys_sleep c k = Some (Ok (Napping b, k1)) \<Longrightarrow> lab2_step E cout k (scheduler_back2 c i k1)"
| woken: "c < length (scpus k) \<Longrightarrow> sys_sleep_resume c t n b k = Some (Ok (Slept x, k')) \<Longrightarrow> lab2_step E cout k k'"
| sleep_again: "c < length (scpus k) \<Longrightarrow> myproc2 c k = Some i \<Longrightarrow> sys_sleep_resume c t n b k = Some (Ok (Napping b', k1)) \<Longrightarrow>
    lab2_step E cout k (scheduler_back2 c i k1)"
| yield: "c < length (scpus k) \<Longrightarrow> myproc2 c k = Some i \<Longrightarrow> yield2 c k = Some (Ok (b, k1)) \<Longrightarrow> lab2_step E cout k (scheduler_back2 c i k1)"
| yielded: "yield_resume2 c b k = Some (Ok k') \<Longrightarrow> lab2_step E cout k k'"
| block: "c < length (scpus k) \<Longrightarrow> myproc2 c k = Some i \<Longrightarrow> sleep2 c ch lk k = Some (Ok (b, k1)) \<Longrightarrow> lab2_step E cout k (scheduler_back2 c i k1)"
| unblock: "sleep_resume2 c lk b k = Some (Ok k') \<Longrightarrow> lab2_step E cout k k'"
| wakeup: "lab2_step E cout k (wakeup2 ch k)"
| tick: "lab2_step E cout k (wakeup2 TicksC (k\<lparr>sticks := sticks k + 1\<rparr>))"
| other: "lab2_step E cout k (k\<lparr>skmem := s, sfsys := f, slocks := ls\<rparr>)"

abbreviation view :: "'f skernel \<Rightarrow> system" where
  "view k \<equiv> (tasks k, harts k)"

section \<open>What the calls do to the view\<close>

lemma post_userinit2:
  assumes "free_masks k"
  shows "post (userinit2 E k) (\<lambda>k'. task_step (view k) (view k'))"
proof -
  have run: "post (userinit_run2 E i k2) (\<lambda>k'. task_step (view k) (view k'))"
    if "same_tasks k k2" "i < length (sproc k)" "sstate (sproc k ! i) = UNUSED" for k2 i
  proof -
    note f = free_masksD [OF assms that(2,3)]
    have "smask (sproc k2 ! i) = 0" using f that task_of_same [of k2 k i] task_of_eq(1) [of "sproc k2 ! i" 0] nth_tasks [of i k] by (simp add: same_tasks_def)
    then show ?thesis using f that start [of i "tasks k" "harts k"]
      by (auto simp: userinit_run2_def Let_def case_prod_beta' tasks_upd task_of_cases(3) same_tasks_def intro!: post_lift_km_unit)
  qed
  show ?thesis unfolding userinit2_def post_kbind
    by (rule post_mono [OF post_allocproc2 [OF assms]]) (use run in \<open>auto simp: Let_def same_tasks_def split: option.split\<close>)
qed

lemma post_growproc2: "post (growproc2 E c n k) (\<lambda>(r, k'). same_tasks k k')"
  unfolding growproc2_def Let_def by (auto intro!: post_lift_km simp: same_tasks_def split: option.split)

lemma post_info: "post (info cout a i k) (\<lambda>(r, k'). same_tasks k k')"
  by (auto simp: info_def same_tasks_def Let_def split: option.split prod.split)

lemma post_argint: "post (Some (argint n p)) Q \<longleftrightarrow> (n \<le> 5 \<longrightarrow> Q (0, ucast (sregs p ! n)))"
  by (simp add: argint_def argraw_def)

lemma post_argaddr: "post (Some (argaddr n p)) Q \<longleftrightarrow> (n \<le> 5 \<longrightarrow> Q (0, sregs p ! n))"
  by (simp add: argaddr_def argraw_def)

lemma post_sleep_round:
  "post (sleep_round c t n k) (\<lambda>(w, k'). case w of Slept x \<Rightarrow> same_tasks k k' | Napping b \<Rightarrow> \<forall>i. myproc2 c k = Some i \<longrightarrow> stops i k k')"
proof -
  have "post (sleep2 c TicksC TicksL k) (\<lambda>(b, k'). stops i k k')" if "myproc2 c k = Some i" for i using post_sleep2 [OF that] .
  note nap = post_mono [OF this]
  show ?thesis unfolding sleep_round_def by (auto intro!: nap)
qed

section \<open>Refinement\<close>

definition moves :: "'f skernel \<Rightarrow> 'f skernel \<Rightarrow> bool" where
  "moves k k' \<longleftrightarrow> view k' = view k \<or> task_step (view k) (view k')"

lemma moves_same [intro]: "same_tasks k k' \<Longrightarrow> moves k k'"
  by (simp add: moves_def same_tasks_def)

lemma moves_reaps: "reaps k k' \<Longrightarrow> moves k k'"
  using reap [of _ "tasks k" _ "harts k"] by (auto simp: moves_def reaps_def)

lemma on_hart:
  assumes "tasks_ok (view k)" "c < length (scpus k)" "myproc2 c k = Some i"
  obtains m where "i < length (sproc k)" "tasks k ! i = On m"
  using tasks_okD(3) [OF assms(1), of c i] assms(2,3) by (auto simp: nth_harts)

lemma free_masks_view: "tasks_ok (view k) \<Longrightarrow> free_masks k"
  using tasks_okD(1) by (auto simp: free_masks_def)

lemma moves_back:
  assumes "tasks_ok (view k)" "c < length (scpus k)" "myproc2 c k = Some i" "stops i k k1"
  shows "moves k (scheduler_back2 c i k1)"
proof -
  obtain m where m: "i < length (sproc k)" "tasks k ! i = On m" by (rule on_hart [OF assms(1-3)])
  have "smask (sproc k ! i) = m" using m nth_tasks [of i k] task_of_eq(2) [of "sproc k ! i" m] by simp
  then have "view (scheduler_back2 c i k1) = ((tasks k)[i := Off m], (harts k)[c := None])"
    using assms(4) by (simp add: scheduler_back2_def stops_def harts_upd)
  moreover have "task_step (view k) ((tasks k)[i := Off m], (harts k)[c := None])"
    using assms m by (intro leave_hart) (simp_all add: nth_harts)
  ultimately show ?thesis by (simp add: moves_def)
qed

lemma moves_pick:
  assumes "c < length (scpus k)" "myproc2 c k = None" "i < length (sproc k)" "scheduler_pick2 c i k = (b, k')"
  shows "moves k k'"
proof (cases "sstate (sproc k ! i) = RUNNABLE")
  case True
  have "tasks k ! i = Off (smask (sproc k ! i))" using True assms(3) by (simp add: nth_tasks task_of_cases(3))
  from take_hart [of c "harts k", OF _ _ _ this] have "task_step (view k) ((tasks k)[i := On (smask (sproc k ! i))], (harts k)[c := Some i])"
    using assms by (simp add: nth_harts)
  moreover have "view k' = ((tasks k)[i := On (smask (sproc k ! i))], (harts k)[c := Some i])"
    using assms(4) True by (auto simp: scheduler_pick2_def Let_def tasks_upd harts_upd task_of_cases(2))
  ultimately show ?thesis by (simp add: moves_def)
next
  case False
  then show ?thesis using assms(4) by (auto simp: scheduler_pick2_def Let_def)
qed

lemma moves_trace:
  assumes "tasks_ok (view k)" "c < length (scpus k)" "myproc2 c k = Some i"
  shows "post (sys_trace i k) (\<lambda>(r, k'). moves k k')"
proof -
  obtain x where x: "i < length (sproc k)" "tasks k ! i = On x" by (rule on_hart [OF assms])
  then have "sstate (sproc k ! i) = RUNNING" using nth_tasks [of i k] task_of_eq(2) [of "sproc k ! i" x] by simp
  then have "view (trace m i k) = ((tasks k)[i := On m], harts k)" for m by (simp add: trace_def tasks_upd task_of_cases(2))
  moreover have "task_step (view k) ((tasks k)[i := On m], harts k)" for m using x by (intro set_mask) simp_all
  ultimately show ?thesis by (simp add: sys_trace_def post_argint moves_def)
qed

lemma moves_fork:
  assumes "tasks_ok (view k)" "c < length (scpus k)"
  shows "post (sys_fork E c k) (\<lambda>(r, k'). moves k k')"
proof (cases "myproc2 c k")
  case None
  then show ?thesis by (simp add: sys_fork_def fork2_def)
next
  case (Some i)
  obtain m where m: "i < length (sproc k)" "tasks k ! i = On m" by (rule on_hart [OF assms Some])
  show ?thesis unfolding sys_fork_def post_kbind
    by (rule post_mono [OF post_fork2 [OF free_masks_view [OF assms(1)] Some m]]) (use m inherit [of i "tasks k" m _ "harts k"] in \<open>auto simp: moves_def\<close>)
qed

lemma post_sys_wait:
  assumes "tasks_ok (view k)" "c < length (scpus k)"
  shows "post (sys_wait E c k) (\<lambda>(w, k'). case w of Waited q \<Rightarrow> moves k k' | Asleep b \<Rightarrow> \<forall>i. myproc2 c k = Some i \<longrightarrow> stops i k k')"
    "post (wait_resume2 E c addr b k) (\<lambda>(w, k'). case w of Waited q \<Rightarrow> moves k k' | Asleep b \<Rightarrow> \<forall>i. myproc2 c k = Some i \<longrightarrow> stops i k k')"
proof -
  have round: "post (wait_round2 E c a k1) (\<lambda>(w, k'). case w of Waited q \<Rightarrow> moves k k' | Asleep b \<Rightarrow> \<forall>i. myproc2 c k = Some i \<longrightarrow> stops i k k')"
    if s: "same_tasks k k1" and c: "myproc2 c k = Some i" for a k1 i
  proof -
    obtain m where m: "i < length (sproc k)" "tasks k ! i = On m" by (rule on_hart [OF assms c])
    have k1: "myproc2 c k1 = Some i" "c < length (scpus k1)" "i < length (sproc k1)" "tasks k1 ! i = On m"
      using s m c assms(2) myproc2_same [of k1 k c] by (auto simp: same_tasks_def) (metis length_tasks)+
    show ?thesis
      by (rule post_mono [OF post_wait_round2 [OF k1]])
        (use s m c in \<open>auto split: waited.splits intro: stops_same moves_reaps reaps_same same_tasks_trans\<close>)
  qed
  show "post (sys_wait E c k) (\<lambda>(w, k'). case w of Waited q \<Rightarrow> moves k k' | Asleep b \<Rightarrow> \<forall>i. myproc2 c k = Some i \<longrightarrow> stops i k k')"
    unfolding sys_wait_def wait2_def post_with_cur post_kbind post_argaddr using round by auto
  show "post (wait_resume2 E c addr b k) (\<lambda>(w, k'). case w of Waited q \<Rightarrow> moves k k' | Asleep b \<Rightarrow> \<forall>i. myproc2 c k = Some i \<longrightarrow> stops i k k')"
    unfolding wait_resume2_def post_with_cur post_kbind using round by (auto intro: post_mono [OF post_sleep_resume2])
qed

lemma post_sys_exit:
  assumes "tasks_ok (view k)" "c < length (scpus k)" "myproc2 c k = Some i"
  shows "post (sys_exit E c k) (\<lambda>(w, k'). stops i k k')"
proof -
  obtain m where m: "i < length (sproc k)" "tasks k ! i = On m" by (rule on_hart [OF assms])
  show ?thesis unfolding sys_exit_def post_with_cur post_kbind post_argint
    using assms(3) by (auto intro!: post_mono [OF post_exit2 [OF assms(3) m]])
qed

lemma post_sys_kill: "post (sys_kill c k) (\<lambda>(x, k'). same_tasks k k')"
  using kill_loop2_tasks [of k] by (auto simp: sys_kill_def kill2_def post_argint split: prod.split) (metis snd_conv)

lemma post_sys_sbrk: "post (sys_sbrk E c k) (\<lambda>(r, k'). same_tasks k k')"
  by (auto simp: sys_sbrk_def post_argint Let_def intro!: post_mono [OF post_growproc2])

lemma post_sys_sysinfo: "post (sys_sysinfo cout i k) (\<lambda>(r, k'). same_tasks k k')"
  by (auto simp: sys_sysinfo_def post_argaddr intro!: post_mono [OF post_info])

lemma post_forkret2: "post (forkret2 E c k) (same_tasks k)"
  by (auto simp: forkret2_def Let_def same_tasks_def)

lemma post_yield_resume2: "post (yield_resume2 c b k) (same_tasks k)"
  by (simp add: yield_resume2_def sched_resume2_def same_tasks_def)

abbreviation napped :: "nat \<Rightarrow> 'f skernel \<Rightarrow> slept \<times> 'f skernel \<Rightarrow> bool" where
  "napped c k \<equiv> \<lambda>(w, k'). case w of Slept x \<Rightarrow> same_tasks k k' | Napping b \<Rightarrow> \<forall>i. myproc2 c k = Some i \<longrightarrow> stops i k k'"

lemma post_sys_sleep: "post (sys_sleep c k) (napped c k)"
proof -
  have m: "myproc2 c (acquire2 TicksL k) = myproc2 c k" by (simp add: acquire2_def myproc2_def mycpu2_def)
  show ?thesis unfolding sys_sleep_def post_with_cur post_kbind post_argint Let_def
    by (auto intro!: post_mono [OF post_sleep_round] simp: m split: slept.splits)
qed

lemma post_sys_sleep_resume:
  assumes "tasks_ok (view k)" "c < length (scpus k)"
  shows "post (sys_sleep_resume c t n b k) (napped c k)"
proof -
  have "post (sleep_round c t n k1) (napped c k)" if s: "same_tasks k k1" for k1
  proof -
    have "myproc2 c k1 = myproc2 c k" using s assms(2) myproc2_same [of k1 k c] by (simp add: same_tasks_def)
    moreover have "stops i k k'" if "myproc2 c k = Some i" "stops i k1 k'" for i k'
      by (rule on_hart [OF assms that(1)]) (use s that stops_same in blast)
    ultimately show ?thesis
      by (intro post_mono [OF post_sleep_round]) (auto split: slept.splits intro: same_tasks_trans [OF s])
  qed
  then show ?thesis unfolding sys_sleep_resume_def post_kbind by (rule post_mono [OF post_sleep_resume2])
qed

lemma lab2_step_moves: "lab2_step E cout k k' \<Longrightarrow> tasks_ok (view k) \<Longrightarrow> moves k k'"
proof (induction rule: lab2_step.induct)
  case (boot k k')
  from postD [OF post_userinit2 [OF free_masks_view [OF boot.prems]] boot.hyps] show ?case by (simp add: moves_def)
next
  case (pick c k i b k')
  then show ?case by (intro moves_pick)
next
  case (first_run c k k')
  from postD [OF post_forkret2 first_run.hyps] show ?case by blast
next
  case (fork c k r k')
  from postD [OF moves_fork [OF fork.prems fork.hyps(1)] fork.hyps(2)] show ?case by simp
next
  case (sbrk c k r k')
  from postD [OF post_sys_sbrk sbrk.hyps] show ?case by (simp add: moves_same)
next
  case (kill c k x k')
  from postD [OF post_sys_kill kill.hyps] show ?case by (simp add: moves_same)
next
  case (trace c k i r k')
  from postD [OF moves_trace [OF trace.prems trace.hyps(1,2)] trace.hyps(3)] show ?case by simp
next
  case (info i k r k')
  from postD [OF post_sys_sysinfo info.hyps] show ?case by (simp add: moves_same)
next
  case (exit c k i b k1)
  from postD [OF post_sys_exit [OF exit.prems exit.hyps(1,2)] exit.hyps(3)] show ?case by (intro moves_back exit) simp
next
  case (wait c k q k')
  from postD [OF post_sys_wait(1) [OF wait.prems wait.hyps(1)] wait.hyps(2)] show ?case by simp
next
  case (wait_sleep c k i b k1)
  from postD [OF post_sys_wait(1) [OF wait_sleep.prems wait_sleep.hyps(1)] wait_sleep.hyps(3)] show ?case using wait_sleep by (intro moves_back) simp_all
next
  case (wait_again c k addr b q k')
  from postD [OF post_sys_wait(2) [OF wait_again.prems wait_again.hyps(1)] wait_again.hyps(2)] show ?case by simp
next
  case (wait_again_sleep c k i addr b b' k1)
  from postD [OF post_sys_wait(2) [OF wait_again_sleep.prems wait_again_sleep.hyps(1)] wait_again_sleep.hyps(3)] show ?case
    using wait_again_sleep by (intro moves_back) simp_all
next
  case (slept c k x k')
  from postD [OF post_sys_sleep slept.hyps] show ?case by (simp add: moves_same)
next
  case (sleep c k i b k1)
  from postD [OF post_sys_sleep sleep.hyps(3)] show ?case using sleep by (intro moves_back) simp_all
next
  case (woken c k t n b x k')
  from postD [OF post_sys_sleep_resume [OF woken.prems woken.hyps(1)] woken.hyps(2)] show ?case by (simp add: moves_same)
next
  case (sleep_again c k i t n b b' k1)
  from postD [OF post_sys_sleep_resume [OF sleep_again.prems sleep_again.hyps(1)] sleep_again.hyps(3)] show ?case using sleep_again by (intro moves_back) simp_all
next
  case (yield c k i b k1)
  from postD [OF post_yield2 [OF yield.hyps(2)] yield.hyps(3)] show ?case by (intro moves_back yield) simp
next
  case (yielded c b k k')
  from postD [OF post_yield_resume2 yielded.hyps] show ?case by blast
next
  case (block c k i ch lk b k1)
  from postD [OF post_sleep2 [OF block.hyps(2)] block.hyps(3)] show ?case by (intro moves_back block) simp
next
  case (unblock c lk b k k')
  from postD [OF post_sleep_resume2 unblock.hyps] show ?case by blast
next
  case (wakeup k ch)
  then show ?case using wakeup_loop2_tasks by (auto simp: wakeup2_def)
next
  case (tick k)
  then show ?case using wakeup_loop2_tasks [of "k\<lparr>sticks := sticks k + 1\<rparr>"] by (simp add: moves_def wakeup2_def same_tasks_def)
next
  case (other k s f ls)
  then show ?case by (simp add: moves_def tasks_def harts_def)
qed

text \<open>The kernel before \<^verbatim>\<open>userinit\<close>: every entry of the table is zero and no hart runs a process.\<close>

definition zeroed :: "'f skernel \<Rightarrow> bool" where
  "zeroed k \<longleftrightarrow> (\<forall>p \<in> set (sproc k). sstate p = UNUSED \<and> smask p = 0) \<and> (\<forall>u \<in> set (scpus k). scur u = None)"

lemma zeroed_ok: "zeroed k \<Longrightarrow> tasks_ok (view k)"
  by (intro tasks_okI) (auto simp: zeroed_def tasks_def harts_def task_of_cases(1) dest!: nth_mem)


section \<open>The first process traces itself and forks\<close>

definition ex_lab2 :: "unit lab2" where
  "ex_lab2 = \<lparr>l_layout = ex_layout, v_create = (\<lambda>s. (0x3000, s)), v_map = (\<lambda>pt va len pa perm s. Ok (0, s)), v_unmap = (\<lambda>pt va n fr s. Ok s), v_free = (\<lambda>pt len s. Ok s),
     v_init = (\<lambda>pt bs n s. Ok s), v_alloc = (\<lambda>pt a b s. Ok (b, s)), v_dealloc = (\<lambda>pt a b s. Ok (b, s)), v_copy = (\<lambda>pt qt len s. Ok (0, s)),
     v_kmap = (\<lambda>va pa len perm s. Ok s), v_inithart = (\<lambda>s. s), v_copyout = (\<lambda>pt va bs len s. Ok (0, s)), v_copyin = (\<lambda>pt va len s. Ok (0, [])), l_trampoline = 0x1000,
     l_TRAMPOLINE = 0x3FFFFFF000, l_TRAPFRAME = 0x3FFFFFE000, l_KSTACK = (\<lambda>i. 0x3FFFFFD000 - of_nat i * 0x2000), l_forkret = 0x2000, l_filedup = (\<lambda>f s. (f, s)),
     l_fileclose = (\<lambda>f s. s), l_idup = (\<lambda>d s. (d, s)), l_iput = (\<lambda>d s. s), l_begin_op = (\<lambda>s. s), l_end_op = (\<lambda>s. s), l_namei = (\<lambda>p s. (1, s)), l_fsinit = (\<lambda>s. s)\<rparr>"

definition ex_entry :: sproc where
  "ex_entry = \<lparr>sstate = UNUSED, sparent = None, schan = None, skilled = False, sxstate = 0, spid = 0, skstack = 0, ssz = 0, spagetable = 0, strapframe = 0,
     sregs = [], sframe = \<lparr>tepc = 0, tsp = 0, tothers = []\<rparr>, sctx = \<lparr>ra = 0, sp = 0, callee_saved = []\<rparr>, sofile = [0, 0], scwd = 0, sname = [], smask = 0\<rparr>"

definition ex_boot :: "unit skernel" where
  "ex_boot = \<lparr>sproc = [ex_entry, ex_entry], scpus = [\<lparr>scur = None, sintena = False\<rparr>], sinitproc = None, snextpid = 1, sfirst = True,
     skmem = \<lparr>ram = (\<lambda>pa i. 0x80002000), freelist = 0x80001000, kmem_log = []\<rparr>, sfsys = (), sticks = 0, slocks = [], sconsole = []\<rparr>"

definition ex_run :: "(unit skernel \<times> unit skernel \<times> unit skernel \<times> unit skernel) run" where
  "ex_run =
     kbind (userinit2 ex_lab2 ex_boot) (\<lambda>k1.
     case scheduler_pick2 0 0 k1 of (b, k2) \<Rightarrow>
     kbind (sys_trace 0 k2) (\<lambda>(r, k3).
     kbind (sys_fork ex_lab2 0 k3) (\<lambda>(q, k4). Some (Ok (k1, k2, k3, k4)))))"

lemma ex_run_ends:
  "case ex_run of Some (Ok (k1, k2, k3, k4)) \<Rightarrow> map (\<lambda>k. length (scpus k)) [k1, k2, k3] = [1, 1, 1] \<and> length (sproc k1) = 2 \<and>
     map (myproc2 0) [k1, k2, k3] = [None, Some 0, Some 0] \<and> tasks k4 = [On 0x05050505, Off 0x05050505] | _ \<Rightarrow> False"
  by code_simp


end
