(* ===== verification/Lab2_Sleep.thy ===== *)
theory Lab2_Sleep
  imports Lab2_Tasks
begin

text \<open>How long \<^verbatim>\<open>sys_sleep\<close> of lab 2 sleeps: the counter of ticks wraps around, and the argument is compared as an unsigned number.\<close>

lemma ticks_elapsed:
  fixes n t0 :: u32
  assumes "t < 2 ^ 32"
  shows "(t0 + of_nat t) - t0 < n \<longleftrightarrow> t < unat n"
  using assms by (simp add: word_less_nat_alt unat_of_nat)

lemma negative_unat: "sint (n :: u32) < 0 \<Longrightarrow> 2 ^ 31 \<le> unat n"
proof (rule ccontr)
  assume n: "sint n < 0" "\<not> 2 ^ 31 \<le> unat n"
  from n(2) have "int (unat n) < int (2 ^ 31)" unfolding not_le by (rule iffD2 [OF of_nat_less_iff])
  then have "uint n < 2 ^ 31" by simp
  moreover have "- (2 ^ 31) \<le> uint n" by (rule order_trans [OF _ uint_ge_0]) simp
  ultimately have "sint n = uint n" by (simp add: sint_uint signed_take_bit_int_eq_self)
  then show False using n by simp
qed

lemma sleep_round_returns:
  assumes "myproc2 c k = Some i" "sticks k = t0 + of_nat t" "t < 2 ^ 32"
  shows "sleep_round c t0 n k =
    (if unat n \<le> t then Some (Ok (Slept 0, release2 TicksL k))
     else if skilled (sproc k ! i) then Some (Ok (Slept (-1), release2 TicksL k))
     else kbind (sleep2 c TicksC TicksL k) (\<lambda>(b, k1). Some (Ok (Napping b, k1))))"
  using ticks_elapsed [OF assms(3), of t0 n] assms by (simp add: sleep_round_def with_cur_def not_less)

lemma sleep_resume2_ticks:
  assumes "myproc2 c k = Some i" "i < length (sproc k)" "c < length (scpus k)"
  obtains k1 where "sleep_resume2 c TicksL b k = Some (Ok k1)" "sticks k1 = sticks k" "skilled (sproc k1 ! i) = skilled (sproc k ! i)" "myproc2 c k1 = Some i"
  using assms that by (simp add: sleep_resume2_def with_cur_def sched_resume2_def Let_def acquire2_def release2_def upd_sproc_def upd_scpu_def myproc2_def mycpu2_def)

lemma Slept_iff:
  "(\<exists>k'. (if A then Some (Ok (Slept 0, k1)) else if B then Some (Ok (Slept (-1), k1)) else kbind m (\<lambda>(b, k). Some (Ok (Napping b, k)))) = Some (Ok (Slept x, k')))
     \<longleftrightarrow> A \<and> x = 0 \<or> \<not> A \<and> B \<and> x = -1"
  by (auto split: prod.split)

text \<open>
  C39: \<^verbatim>\<open>sys_sleep(n)\<close> resumed \<open>t\<close> ticks after the call returns 0 exactly when \<open>t\<close> is at least \<open>n\<close> read as an unsigned 32-bit number, also when the counter has
  wrapped around in between; it returns -1 exactly when the process was killed before that. The call itself returns 0 at once exactly for \<open>n = 0\<close>, so a negative argument
  makes the process sleep for more than \<open>2\<^sup>31\<close> ticks.
\<close>

theorem sys_sleep_waits:
  assumes "myproc2 c k = Some i" "i < length (sproc k)" "c < length (scpus k)" "sticks k = t0 + of_nat t" "t < 2 ^ 32"
  shows "((\<exists>k'. sys_sleep_resume c t0 n b k = Some (Ok (Slept x, k'))) \<longleftrightarrow> unat n \<le> t \<and> x = 0 \<or> t < unat n \<and> skilled (sproc k ! i) \<and> x = -1) \<and>
    ((\<exists>k'. sys_sleep c k = Some (Ok (Slept 0, k'))) \<longleftrightarrow> (ucast (sregs (sproc k ! i) ! 0) :: u32) = 0) \<and>
    (sint n < 0 \<and> (\<exists>k'. sys_sleep_resume c t0 n b k = Some (Ok (Slept 0, k'))) \<longrightarrow> 2 ^ 31 \<le> t)"
proof -
  obtain k1 where k1: "sleep_resume2 c TicksL b k = Some (Ok k1)" "sticks k1 = sticks k" "skilled (sproc k1 ! i) = skilled (sproc k ! i)" "myproc2 c k1 = Some i"
    by (rule sleep_resume2_ticks [OF assms(1-3)])
  have "sys_sleep_resume c t0 n b k = sleep_round c t0 n k1" by (simp add: sys_sleep_resume_def k1)
  also note sleep_round_returns [OF k1(4) k1(2) [unfolded assms(4)] assms(5)]
  finally have r: "(\<exists>k'. sys_sleep_resume c t0 n b k = Some (Ok (Slept y, k'))) \<longleftrightarrow> unat n \<le> t \<and> y = 0 \<or> \<not> unat n \<le> t \<and> skilled (sproc k ! i) \<and> y = -1" for y
    by (simp only: Slept_iff k1)
  let ?k = "acquire2 TicksL k" and ?a = "ucast (sregs (sproc k ! i) ! 0) :: u32"
  have m: "myproc2 c ?k = Some i" using assms(1) by (simp add: acquire2_def myproc2_def mycpu2_def)
  have "sys_sleep c k = sleep_round c (sticks ?k) ?a ?k" using assms(1) by (simp add: sys_sleep_def with_cur_def argint_def argraw_def Let_def)
  also have "\<dots> = (if unat ?a \<le> 0 then Some (Ok (Slept 0, release2 TicksL ?k)) else if skilled (sproc ?k ! i) then Some (Ok (Slept (-1), release2 TicksL ?k))
      else kbind (sleep2 c TicksC TicksL ?k) (\<lambda>(b, k1). Some (Ok (Napping b, k1))))"
    by (rule sleep_round_returns [OF m]) simp_all
  finally have s: "(\<exists>k'. sys_sleep c k = Some (Ok (Slept 0, k'))) \<longleftrightarrow> ?a = 0" by (simp only: Slept_iff) (simp add: unat_eq_zero)
  have "2 ^ 31 \<le> unat n" if "sint n < 0" using that by (rule negative_unat)
  then show ?thesis using r s by auto
qed

text \<open>A process that asked for 5 ticks when the counter stood at its last value but one wakes up when it shows 3.\<close>

definition ex_sleeper :: "unit skernel" where
  "ex_sleeper = \<lparr>sproc = [\<lparr>sstate = RUNNING, sparent = None, schan = Some TicksC, skilled = False, sxstate = 0, spid = 1, skstack = 0, ssz = 0, spagetable = 0, strapframe = 0,
       sregs = [5], sframe = \<lparr>tepc = 0, tsp = 0, tothers = []\<rparr>, sctx = \<lparr>ra = 0, sp = 0, callee_saved = []\<rparr>, sofile = [], scwd = 0, sname = [], smask = 0\<rparr>],
     scpus = [\<lparr>scur = Some 0, sintena = False\<rparr>], sinitproc = None, snextpid = 2, sfirst = False, skmem = ex_kmem 0, sfsys = (), sticks = 3, slocks = [], sconsole = []\<rparr>"

theorem sys_sleep_waits_witness:
  "(\<exists>k'. sys_sleep_resume 0 0xFFFFFFFE 5 False ex_sleeper = Some (Ok (Slept 0, k'))) \<and> (\<nexists>k'. sys_sleep 0 ex_sleeper = Some (Ok (Slept 0, k')))"
proof -
  have "myproc2 0 ex_sleeper = Some 0" "0 < length (sproc ex_sleeper)" "0 < length (scpus ex_sleeper)" "sticks ex_sleeper = 0xFFFFFFFE + of_nat 5" "(5 :: nat) < 2 ^ 32"
    by (simp_all add: ex_sleeper_def myproc2_def mycpu2_def)
  from sys_sleep_waits [OF this, of 5 False 0] show ?thesis by (simp add: ex_sleeper_def)
qed

end
