(* ===== verification/Csr.thy ===== *)
theory Csr
  imports Riscv
begin

unbundle bit_operations_syntax

text \<open>
  The accessors of control registers in lab 4 \<^verbatim>\<open>kernel/riscv.h\<close>. Their bodies are single instructions, so the processor is an argument: what \<^verbatim>\<open>csrr\<close>, \<^verbatim>\<open>csrw\<close>, \<^verbatim>\<open>mv\<close> and
  \<^verbatim>\<open>sfence.vma\<close> do to its state \<open>'h\<close>. Reading a register does not change it.
\<close>

section \<open>The processor\<close>

datatype csr = Mhartid | Mstatus | Mepc | Sstatus | Sip | Sie | Mie | Sepc | Medeleg | Mideleg | Stvec | Mtvec | Satp | Sscratch | Mscratch | Scause | Stval | Mcounteren | Time

datatype gpr = Sp | Tp | Ra

record 'h hw =
  csrr :: "csr \<Rightarrow> 'h \<Rightarrow> u64"
  csrw :: "csr \<Rightarrow> u64 \<Rightarrow> 'h \<Rightarrow> 'h"
  mv_from :: "gpr \<Rightarrow> 'h \<Rightarrow> u64"
  mv_to :: "gpr \<Rightarrow> u64 \<Rightarrow> 'h \<Rightarrow> 'h"
  sfence :: "'h \<Rightarrow> 'h"

section \<open>Bits\<close>

definition MSTATUS_MPP_MASK :: u64 where
  "MSTATUS_MPP_MASK = push_bit 11 3"

definition MSTATUS_MPP_M :: u64 where
  "MSTATUS_MPP_M = push_bit 11 3"

definition MSTATUS_MPP_S :: u64 where
  "MSTATUS_MPP_S = push_bit 11 1"

definition MSTATUS_MPP_U :: u64 where
  "MSTATUS_MPP_U = push_bit 11 0"

definition MSTATUS_MIE :: u64 where
  "MSTATUS_MIE = push_bit 3 1"

definition SSTATUS_SUM :: u64 where
  "SSTATUS_SUM = push_bit 18 1"

definition SSTATUS_SPP :: u64 where
  "SSTATUS_SPP = push_bit 8 1"

definition SSTATUS_SPIE :: u64 where
  "SSTATUS_SPIE = push_bit 5 1"

definition SSTATUS_UPIE :: u64 where
  "SSTATUS_UPIE = push_bit 4 1"

definition SSTATUS_SIE :: u64 where
  "SSTATUS_SIE = push_bit 1 1"

definition SSTATUS_UIE :: u64 where
  "SSTATUS_UIE = push_bit 0 1"

definition SIE_SEIE :: u64 where
  "SIE_SEIE = push_bit 9 1"

definition SIE_STIE :: u64 where
  "SIE_STIE = push_bit 5 1"

definition SIE_SSIE :: u64 where
  "SIE_SSIE = push_bit 1 1"

definition MIE_MEIE :: u64 where
  "MIE_MEIE = push_bit 11 1"

definition MIE_MTIE :: u64 where
  "MIE_MTIE = push_bit 7 1"

definition MIE_MSIE :: u64 where
  "MIE_MSIE = push_bit 3 1"

section \<open>Accessors\<close>

definition r_mhartid :: "'h hw \<Rightarrow> 'h \<Rightarrow> u64" where
  "r_mhartid H s = csrr H Mhartid s"

definition r_mstatus :: "'h hw \<Rightarrow> 'h \<Rightarrow> u64" where
  "r_mstatus H s = csrr H Mstatus s"

definition r_sstatus :: "'h hw \<Rightarrow> 'h \<Rightarrow> u64" where
  "r_sstatus H s = csrr H Sstatus s"

definition r_sip :: "'h hw \<Rightarrow> 'h \<Rightarrow> u64" where
  "r_sip H s = csrr H Sip s"

definition r_sie :: "'h hw \<Rightarrow> 'h \<Rightarrow> u64" where
  "r_sie H s = csrr H Sie s"

definition r_mie :: "'h hw \<Rightarrow> 'h \<Rightarrow> u64" where
  "r_mie H s = csrr H Mie s"

definition r_sepc :: "'h hw \<Rightarrow> 'h \<Rightarrow> u64" where
  "r_sepc H s = csrr H Sepc s"

definition r_medeleg :: "'h hw \<Rightarrow> 'h \<Rightarrow> u64" where
  "r_medeleg H s = csrr H Medeleg s"

definition r_mideleg :: "'h hw \<Rightarrow> 'h \<Rightarrow> u64" where
  "r_mideleg H s = csrr H Mideleg s"

definition r_stvec :: "'h hw \<Rightarrow> 'h \<Rightarrow> u64" where
  "r_stvec H s = csrr H Stvec s"

definition r_satp :: "'h hw \<Rightarrow> 'h \<Rightarrow> u64" where
  "r_satp H s = csrr H Satp s"

definition r_scause :: "'h hw \<Rightarrow> 'h \<Rightarrow> u64" where
  "r_scause H s = csrr H Scause s"

definition r_stval :: "'h hw \<Rightarrow> 'h \<Rightarrow> u64" where
  "r_stval H s = csrr H Stval s"

definition r_mcounteren :: "'h hw \<Rightarrow> 'h \<Rightarrow> u64" where
  "r_mcounteren H s = csrr H Mcounteren s"

definition r_time :: "'h hw \<Rightarrow> 'h \<Rightarrow> u64" where
  "r_time H s = csrr H Time s"

definition w_mstatus :: "'h hw \<Rightarrow> u64 \<Rightarrow> 'h \<Rightarrow> 'h" where
  "w_mstatus H x s = csrw H Mstatus x s"

definition w_mepc :: "'h hw \<Rightarrow> u64 \<Rightarrow> 'h \<Rightarrow> 'h" where
  "w_mepc H x s = csrw H Mepc x s"

definition w_sstatus :: "'h hw \<Rightarrow> u64 \<Rightarrow> 'h \<Rightarrow> 'h" where
  "w_sstatus H x s = csrw H Sstatus x s"

definition w_sip :: "'h hw \<Rightarrow> u64 \<Rightarrow> 'h \<Rightarrow> 'h" where
  "w_sip H x s = csrw H Sip x s"

definition w_sie :: "'h hw \<Rightarrow> u64 \<Rightarrow> 'h \<Rightarrow> 'h" where
  "w_sie H x s = csrw H Sie x s"

definition w_mie :: "'h hw \<Rightarrow> u64 \<Rightarrow> 'h \<Rightarrow> 'h" where
  "w_mie H x s = csrw H Mie x s"

definition w_sepc :: "'h hw \<Rightarrow> u64 \<Rightarrow> 'h \<Rightarrow> 'h" where
  "w_sepc H x s = csrw H Sepc x s"

definition w_medeleg :: "'h hw \<Rightarrow> u64 \<Rightarrow> 'h \<Rightarrow> 'h" where
  "w_medeleg H x s = csrw H Medeleg x s"

definition w_mideleg :: "'h hw \<Rightarrow> u64 \<Rightarrow> 'h \<Rightarrow> 'h" where
  "w_mideleg H x s = csrw H Mideleg x s"

definition w_stvec :: "'h hw \<Rightarrow> u64 \<Rightarrow> 'h \<Rightarrow> 'h" where
  "w_stvec H x s = csrw H Stvec x s"

definition w_mtvec :: "'h hw \<Rightarrow> u64 \<Rightarrow> 'h \<Rightarrow> 'h" where
  "w_mtvec H x s = csrw H Mtvec x s"

definition w_satp :: "'h hw \<Rightarrow> u64 \<Rightarrow> 'h \<Rightarrow> 'h" where
  "w_satp H x s = csrw H Satp x s"

definition w_sscratch :: "'h hw \<Rightarrow> u64 \<Rightarrow> 'h \<Rightarrow> 'h" where
  "w_sscratch H x s = csrw H Sscratch x s"

definition w_mscratch :: "'h hw \<Rightarrow> u64 \<Rightarrow> 'h \<Rightarrow> 'h" where
  "w_mscratch H x s = csrw H Mscratch x s"

definition w_mcounteren :: "'h hw \<Rightarrow> u64 \<Rightarrow> 'h \<Rightarrow> 'h" where
  "w_mcounteren H x s = csrw H Mcounteren x s"

definition r_sp :: "'h hw \<Rightarrow> 'h \<Rightarrow> u64" where
  "r_sp H s = mv_from H Sp s"

definition r_tp :: "'h hw \<Rightarrow> 'h \<Rightarrow> u64" where
  "r_tp H s = mv_from H Tp s"

definition r_ra :: "'h hw \<Rightarrow> 'h \<Rightarrow> u64" where
  "r_ra H s = mv_from H Ra s"

definition w_tp :: "'h hw \<Rightarrow> u64 \<Rightarrow> 'h \<Rightarrow> 'h" where
  "w_tp H x s = mv_to H Tp x s"

definition sfence_vma :: "'h hw \<Rightarrow> 'h \<Rightarrow> 'h" where
  "sfence_vma H s = sfence H s"

section \<open>Interrupts and access to user memory\<close>

definition intr_on :: "'h hw \<Rightarrow> 'h \<Rightarrow> 'h" where
  "intr_on H s = w_sstatus H (r_sstatus H s OR SSTATUS_SIE) s"

definition intr_off :: "'h hw \<Rightarrow> 'h \<Rightarrow> 'h" where
  "intr_off H s = w_sstatus H (r_sstatus H s AND NOT SSTATUS_SIE) s"

definition intr_get :: "'h hw \<Rightarrow> 'h \<Rightarrow> int" where
  "intr_get H s = (let x = r_sstatus H s in if x AND SSTATUS_SIE \<noteq> 0 then 1 else 0)"

text \<open>The two statements around each copy of user memory in lab 4 \<^verbatim>\<open>kernel/syscall.c\<close> and \<^verbatim>\<open>kernel/proc.c\<close>.\<close>

definition sum_on :: "'h hw \<Rightarrow> 'h \<Rightarrow> 'h" where
  "sum_on H s = w_sstatus H (r_sstatus H s OR SSTATUS_SUM) s"

definition sum_off :: "'h hw \<Rightarrow> 'h \<Rightarrow> 'h" where
  "sum_off H s = w_sstatus H (r_sstatus H s AND NOT SSTATUS_SUM) s"

text \<open>What the code relies on: a word that differs from the contents of \<^verbatim>\<open>sstatus\<close> in \<^verbatim>\<open>SIE\<close> and \<^verbatim>\<open>SUM\<close> at most can be written there.\<close>

definition sstatus_rw :: "'h hw \<Rightarrow> bool" where
  "sstatus_rw H \<longleftrightarrow> (\<forall>x s. (x XOR csrr H Sstatus s) AND NOT (SSTATUS_SIE OR SSTATUS_SUM) = 0 \<longrightarrow> csrr H Sstatus (csrw H Sstatus x s) = x)"

lemma bit_flag_iff: "bit (push_bit m 1 :: u64) n \<longleftrightarrow> n = m \<and> m < 64"
  by (auto simp: push_bit_of_1 bit_exp_iff)

lemma bit_SSTATUS [simp]: "bit SSTATUS_SIE n \<longleftrightarrow> n = 1" "bit SSTATUS_SUM n \<longleftrightarrow> n = 18"
  by (simp_all only: SSTATUS_SIE_def SSTATUS_SUM_def bit_flag_iff) auto

lemma r_sstatus_after:
  assumes "sstatus_rw H"
  shows "r_sstatus H (intr_on H s) = r_sstatus H s OR SSTATUS_SIE" "r_sstatus H (intr_off H s) = r_sstatus H s AND NOT SSTATUS_SIE"
    "r_sstatus H (sum_on H s) = r_sstatus H s OR SSTATUS_SUM" "r_sstatus H (sum_off H s) = r_sstatus H s AND NOT SSTATUS_SUM"
proof -
  have w: "csrr H Sstatus (csrw H Sstatus x s) = x" if "\<And>n. n < 64 \<Longrightarrow> n \<noteq> 1 \<Longrightarrow> n \<noteq> 18 \<Longrightarrow> bit x n = bit (csrr H Sstatus s) n" for x s
  proof -
    have "(x XOR csrr H Sstatus s) AND NOT (SSTATUS_SIE OR SSTATUS_SUM) = 0"
      using that by (auto simp: bit_eq_iff bit_and_iff bit_xor_iff bit_or_iff bit_not_iff)
    then show ?thesis using assms by (simp add: sstatus_rw_def)
  qed
  show "r_sstatus H (intr_on H s) = r_sstatus H s OR SSTATUS_SIE" "r_sstatus H (intr_off H s) = r_sstatus H s AND NOT SSTATUS_SIE"
    "r_sstatus H (sum_on H s) = r_sstatus H s OR SSTATUS_SUM" "r_sstatus H (sum_off H s) = r_sstatus H s AND NOT SSTATUS_SUM"
    unfolding intr_on_def intr_off_def sum_on_def sum_off_def r_sstatus_def w_sstatus_def
    by (rule w; auto simp: bit_or_iff bit_and_iff bit_not_iff)+
qed

lemma intr_get_bit: "intr_get H s = (if bit (r_sstatus H s) 1 then 1 else 0)"
proof -
  have "x AND SSTATUS_SIE = 0 \<longleftrightarrow> \<not> bit x 1" for x :: u64
  proof
    assume "x AND SSTATUS_SIE = 0"
    then have "\<not> bit (x AND SSTATUS_SIE) 1" by simp
    then show "\<not> bit x 1" by (simp add: bit_and_iff)
  next
    assume "\<not> bit x 1"
    then show "x AND SSTATUS_SIE = 0" by (intro bit_word_eqI) (auto simp: bit_and_iff)
  qed
  then show ?thesis by (simp add: intr_get_def)
qed

text \<open>
  On a processor where \<^verbatim>\<open>SIE\<close> and \<^verbatim>\<open>SUM\<close> of \<^verbatim>\<open>sstatus\<close> can be written, \<^verbatim>\<open>intr_get\<close> is 1 after \<^verbatim>\<open>intr_on\<close> and 0 after \<^verbatim>\<open>intr_off\<close>, and neither changes another bit of the
  register; setting and clearing \<^verbatim>\<open>SUM\<close> around a copy of user memory leaves interrupts as they were, and clears \<^verbatim>\<open>SUM\<close> alone.
\<close>

theorem intr_flags:
  assumes "sstatus_rw H"
  shows "intr_get H (intr_on H s) = 1 \<and> intr_get H (intr_off H s) = 0 \<and>
    (\<forall>n. n \<noteq> 1 \<longrightarrow> bit (r_sstatus H (intr_on H s)) n = bit (r_sstatus H s) n \<and> bit (r_sstatus H (intr_off H s)) n = bit (r_sstatus H s) n) \<and>
    intr_get H (sum_on H s) = intr_get H s \<and> bit (r_sstatus H (sum_on H s)) 18 \<and> r_sstatus H (sum_off H (sum_on H s)) = r_sstatus H s AND NOT SSTATUS_SUM"
proof -
  note r = r_sstatus_after [OF assms]
  have "(r_sstatus H s OR SSTATUS_SUM) AND NOT SSTATUS_SUM = r_sstatus H s AND NOT SSTATUS_SUM"
    by (auto simp: bit_eq_iff bit_and_iff bit_or_iff bit_not_iff)
  moreover have "bit (r_sstatus H (intr_off H s)) n = bit (r_sstatus H s) n" if "n \<noteq> 1" for n
    using that bit_imp_le_length [of "r_sstatus H s" n] by (auto simp: r bit_and_iff bit_not_iff)
  ultimately show ?thesis by (simp add: r intr_get_bit bit_or_iff bit_and_iff bit_not_iff)
qed

text \<open>A processor with writable \<^verbatim>\<open>sstatus\<close>, as a function from registers to words; the witness starts with interrupts off and \<^verbatim>\<open>SPIE\<close> set.\<close>

definition ex_hw :: "(csr \<Rightarrow> u64) hw" where
  "ex_hw = \<lparr>csrr = (\<lambda>r s. s r), csrw = (\<lambda>r x s. s(r := x)), mv_from = (\<lambda>g s. 0), mv_to = (\<lambda>g x s. s), sfence = (\<lambda>s. s)\<rparr>"

theorem intr_flags_witness:
  "sstatus_rw ex_hw \<and> intr_get ex_hw (\<lambda>_. 0x20) = 0 \<and> intr_get ex_hw (intr_on ex_hw (\<lambda>_. 0x20)) = 1 \<and> bit (r_sstatus ex_hw (intr_on ex_hw (\<lambda>_. 0x20))) 5"
proof -
  have h: "sstatus_rw ex_hw" by (simp add: sstatus_rw_def ex_hw_def)
  have "bit (r_sstatus ex_hw (intr_on ex_hw (\<lambda>_. 0x20))) 5 = bit (r_sstatus ex_hw (\<lambda>_. 0x20)) 5" "intr_get ex_hw (intr_on ex_hw (\<lambda>_. 0x20)) = 1"
    using intr_flags [OF h, of "\<lambda>_. 0x20"] by simp_all
  then show ?thesis using h by (simp add: intr_get_bit r_sstatus_def ex_hw_def)
qed

end
