(* ===== verification/Primes.thy ===== *)
theory Primes
  imports Prelude
begin

text \<open>
  The sieve of lab 1 (\<^verbatim>\<open>primes.c\<close>). In each round the parent prints the first number, sends its array to a child through a
  pipe, the child sends back what the first number does not divide, and the parent reads it into its array. A pipe is the
  list of the \<^verbatim>\<open>int\<close>s in it; \<^verbatim>\<open>read\<close> from an empty pipe whose write end is closed leaves the variable as it was. The
  constant \<^verbatim>\<open>MAX\<close> is an argument \<open>mx\<close>, so that the theorems hold for every value of it; the program has 35.
\<close>

definition PRIMES_MAX :: int where
  "PRIMES_MAX = 35"

section \<open>The loops over the array\<close>

text \<open>The loop that writes: what it puts into the pipe.\<close>

fun write_nums :: "int \<Rightarrow> int list \<Rightarrow> int list" where
  "write_nums mx [] = []"
| "write_nums mx (x # xs) = x # (if x = mx + 1 then [] else write_nums mx xs)"

text \<open>\<^verbatim>\<open>read\<close> of one \<^verbatim>\<open>int\<close> into \<^verbatim>\<open>num[i]\<close>.\<close>

definition read_num :: "nat \<Rightarrow> int list \<Rightarrow> int list \<Rightarrow> int list" where
  "read_num i pipe num = (case pipe of [] \<Rightarrow> num | x # _ \<Rightarrow> num[i := x])"

text \<open>The parent reads until the end mark.\<close>

function read_nums :: "int \<Rightarrow> nat \<Rightarrow> int list \<Rightarrow> int list \<Rightarrow> int list" where
  "read_nums mx i num pipe =
     (if i < length num then
        let num1 = read_num i pipe num
        in if num1 ! i = mx + 1 then num1 else read_nums mx (i + 1) num1 (tl pipe)
      else num)"
  by pat_completeness auto
termination
  by (relation "measure (\<lambda>(mx, i, num, pipe). length num - i)") (auto simp: read_num_def split: list.splits)

text \<open>The child reads, and keeps what \<^verbatim>\<open>numDivide\<close>, the first number, does not divide; the end mark follows what is kept.\<close>

function child_nums :: "int \<Rightarrow> nat \<Rightarrow> nat \<Rightarrow> int \<Rightarrow> int list \<Rightarrow> int list \<Rightarrow> int list" where
  "child_nums mx i j numDivide num pipe =
     (if i < length num then
        let num1 = read_num i pipe num; x = num1 ! i
        in if x = mx + 1 then num1[j := mx + 1]
           else if i = 0 then child_nums mx (i + 1) j x num1 (tl pipe)
           else if x mod numDivide \<noteq> 0 then child_nums mx (i + 1) (j + 1) numDivide (num1[j := x]) (tl pipe)
           else child_nums mx (i + 1) j numDivide num1 (tl pipe)
      else num)"
  by pat_completeness auto
termination
  by (relation "measure (\<lambda>(mx, i, j, d, num, pipe). length num - i)") (auto simp: read_num_def Let_def split: list.splits)

declare read_nums.simps [simp del] child_nums.simps [simp del]

section \<open>The program\<close>

datatype prime_line = Prime_line int | Needs_no_argument | Pipe_wrong | Fork_wrong

text \<open>What \<^verbatim>\<open>pipe\<close> and \<^verbatim>\<open>fork\<close> return in a round is an argument.\<close>

datatype round_env = Pipe_fails | Fork_fails | Forks

text \<open>One round with a child: the array of the parent after it.\<close>

definition primes_round :: "int \<Rightarrow> int list \<Rightarrow> int list" where
  "primes_round mx num =
     (let down = write_nums mx num;
          up = write_nums mx (child_nums mx 0 0 0 num down)
      in read_nums mx 0 num up)"

text \<open>The output and the exit status; \<open>None\<close> is a run that does not end.\<close>

partial_function (option) primes_loop :: "int \<Rightarrow> (nat \<Rightarrow> round_env) \<Rightarrow> nat \<Rightarrow> int list \<Rightarrow> prime_line list \<Rightarrow> (prime_line list \<times> int) option" where
  "primes_loop mx env n num out =
     (if num ! 0 \<le> mx then
        let out1 = out @ [Prime_line (num ! 0)]
        in case env n of
             Pipe_fails \<Rightarrow> Some (out1 @ [Pipe_wrong], -1)
           | Fork_fails \<Rightarrow> Some (out1 @ [Fork_wrong], -1)
           | Forks \<Rightarrow> primes_loop mx env (n + 1) (primes_round mx num) out1
      else Some (out, 0))"

definition primes_main :: "int \<Rightarrow> (nat \<Rightarrow> round_env) \<Rightarrow> int \<Rightarrow> (prime_line list \<times> int) option" where
  "primes_main mx env argc =
     (if argc \<noteq> 1 then Some ([Needs_no_argument], -1)
      else primes_loop mx env 0 (map (\<lambda>i. int i + 2) [0..<nat mx]) [])"

section \<open>One round filters the array\<close>

text \<open>The array holds \<open>xs\<close>, then the end mark.\<close>

definition holds :: "int \<Rightarrow> int list \<Rightarrow> int list \<Rightarrow> bool" where
  "holds mx num xs \<longleftrightarrow> (\<exists>rest. num = xs @ (mx + 1) # rest) \<and> mx + 1 \<notin> set xs"

lemma write_nums_stop: "mx + 1 \<notin> set xs \<Longrightarrow> write_nums mx (xs @ (mx + 1) # rest) = xs @ [mx + 1]"
  by (induction xs) auto

lemma read_nums_stop:
  assumes "mx + 1 \<notin> set xs" "length pre + length xs < length num"
    "take (length pre) num = pre" "i = length pre"
  shows "\<exists>rest. read_nums mx i num (xs @ [mx + 1]) = pre @ xs @ (mx + 1) # rest \<and> length (pre @ xs @ (mx + 1) # rest) = length num"
  using assms
proof (induction xs arbitrary: pre num i)
  case Nil
  have "num[i := mx + 1] = pre @ (mx + 1) # drop (Suc i) num"
    using Nil by (simp add: upd_conv_take_nth_drop)
  moreover have "read_nums mx i num ([] @ [mx + 1]) = num[i := mx + 1]"
    using Nil by (subst read_nums.simps) (simp add: read_num_def Let_def)
  ultimately show ?case using Nil by (intro exI [of _ "drop (Suc i) num"]) simp
next
  case (Cons x xs)
  have num1: "take (Suc (length pre)) (num[i := x]) = pre @ [x]"
    using Cons.prems by (simp add: take_Suc_conv_app_nth)
  have "\<exists>rest. read_nums mx (Suc i) (num[i := x]) (xs @ [mx + 1]) = (pre @ [x]) @ xs @ (mx + 1) # rest \<and>
      length ((pre @ [x]) @ xs @ (mx + 1) # rest) = length (num[i := x])"
    by (rule Cons.IH) (use Cons.prems num1 in auto)
  moreover have "read_nums mx i num ((x # xs) @ [mx + 1]) = read_nums mx (Suc i) (num[i := x]) (xs @ [mx + 1])"
    using Cons.prems by (subst read_nums.simps) (auto simp: read_num_def)
  ultimately show ?case by simp
qed

text \<open>From the second number on: \<open>pre\<close> has been kept so far, in the first \<open>j \<le> i\<close> places.\<close>

lemma child_nums_filter:
  assumes "mx + 1 \<notin> set xs" "i + length xs < length num" "take (length pre) num = pre" "length pre \<le> i" "0 < i"
  shows "\<exists>rest. child_nums mx i (length pre) d num (xs @ [mx + 1]) = pre @ filter (\<lambda>x. x mod d \<noteq> 0) xs @ (mx + 1) # rest \<and>
    length (pre @ filter (\<lambda>x. x mod d \<noteq> 0) xs @ (mx + 1) # rest) = length num"
  using assms
proof (induction xs arbitrary: pre num i)
  case Nil
  have "num[i := mx + 1, length pre := mx + 1] = pre @ (mx + 1) # drop (Suc (length pre)) (num[i := mx + 1])"
    using Nil by (subst upd_conv_take_nth_drop) auto
  moreover have "child_nums mx i (length pre) d num ([] @ [mx + 1]) = num[i := mx + 1, length pre := mx + 1]"
    using Nil by (subst child_nums.simps) (simp add: read_num_def Let_def)
  ultimately show ?case using Nil by (intro exI [of _ "drop (Suc (length pre)) (num[i := mx + 1])"]) auto
next
  case (Cons x xs)
  have x: "x \<noteq> mx + 1" and i: "i < length num" using Cons.prems by auto
  show ?case
  proof (cases "x mod d = 0")
    case True
    have "child_nums mx i (length pre) d num ((x # xs) @ [mx + 1]) = child_nums mx (Suc i) (length pre) d (num[i := x]) (xs @ [mx + 1])"
      using x i True Cons.prems by (subst child_nums.simps) (simp add: read_num_def Let_def)
    moreover have "take (length pre) (num[i := x]) = pre" using Cons.prems by simp
    ultimately show ?thesis using Cons.IH [of "Suc i" "num[i := x]" pre] Cons.prems True by simp
  next
    case False
    let ?num = "num[i := x, length pre := x]"
    have "child_nums mx i (length pre) d num ((x # xs) @ [mx + 1]) = child_nums mx (Suc i) (length (pre @ [x])) d ?num (xs @ [mx + 1])"
      using x i False Cons.prems by (subst child_nums.simps) (simp add: read_num_def Let_def)
    moreover have "take (length (pre @ [x])) ?num = pre @ [x]" using Cons.prems by (simp add: take_Suc_conv_app_nth)
    ultimately show ?thesis using Cons.IH [of "Suc i" ?num "pre @ [x]"] Cons.prems False by simp
  qed
qed

lemma primes_round_filters:
  assumes "holds mx num (p # xs)"
  shows "holds mx (primes_round mx num) (filter (\<lambda>x. x mod p \<noteq> 0) xs) \<and> length (primes_round mx num) = length num"
proof -
  let ?ys = "filter (\<lambda>x. x mod p \<noteq> 0) xs"
  obtain rest where num: "num = (p # xs) @ (mx + 1) # rest" and new: "mx + 1 \<notin> set (p # xs)" using assms by (auto simp: holds_def)
  have w: "write_nums mx num = p # xs @ [mx + 1]" using write_nums_stop [OF new, of rest] num by simp
  have "num[0 := p] = num" using num by simp
  then have "child_nums mx 0 0 0 num (p # xs @ [mx + 1]) = child_nums mx 1 0 p num (xs @ [mx + 1])"
    using new num by (subst child_nums.simps) (simp add: read_num_def Let_def)
  moreover have "\<exists>rest. child_nums mx 1 0 p num (xs @ [mx + 1]) = ?ys @ (mx + 1) # rest"
    using child_nums_filter [of mx xs 1 num "[]" p] new num by auto
  ultimately obtain rest2 where "child_nums mx 0 0 0 num (p # xs @ [mx + 1]) = ?ys @ (mx + 1) # rest2" by auto
  then have up: "write_nums mx (child_nums mx 0 0 0 num (p # xs @ [mx + 1])) = ?ys @ [mx + 1]"
    using new by (simp add: write_nums_stop)
  have "\<exists>rest. read_nums mx 0 num (?ys @ [mx + 1]) = [] @ ?ys @ (mx + 1) # rest \<and> length ([] @ ?ys @ (mx + 1) # rest) = length num"
    by (rule read_nums_stop) (use new num le_less_trans [OF length_filter_le, of xs "length num"] in auto)
  then show ?thesis using new unfolding primes_round_def w up Let_def holds_def by auto
qed

section \<open>The rounds sieve\<close>

definition is_prime :: "int \<Rightarrow> bool" where
  "is_prime n \<longleftrightarrow> 2 \<le> n \<and> (\<forall>d\<in>{2..<n}. \<not> d dvd n)"

text \<open>The numbers from \<open>m\<close> on with no divisor below \<open>m\<close>.\<close>

definition survivors :: "int \<Rightarrow> int \<Rightarrow> int list" where
  "survivors mx m = filter (\<lambda>n. \<forall>d\<in>{2..<m}. \<not> d dvd n) [m..mx]"

lemma survivors_prime:
  assumes "2 \<le> m" "m \<le> mx" "is_prime m"
  obtains ys where "survivors mx m = m # ys" "filter (\<lambda>x. x mod m \<noteq> 0) ys = survivors mx (m + 1)"
proof
  have "{2..<m + 1} = insert m {2..<m}" using assms(1) by auto
  then show "filter (\<lambda>x. x mod m \<noteq> 0) (filter (\<lambda>n. \<forall>d\<in>{2..<m}. \<not> d dvd n) [m + 1..mx]) = survivors mx (m + 1)"
    by (simp add: survivors_def dvd_eq_mod_eq_0 conj_commute cong: filter_cong)
  show "survivors mx m = m # filter (\<lambda>n. \<forall>d\<in>{2..<m}. \<not> d dvd n) [m + 1..mx]"
    using assms unfolding survivors_def is_prime_def by (subst upto_rec1) auto
qed

lemma survivors_composite:
  assumes "2 \<le> m" "m \<le> mx" "\<not> is_prime m"
  shows "survivors mx m = survivors mx (m + 1)"
proof -
  obtain e where e: "e \<in> {2..<m}" "e dvd m" using assms by (auto simp: is_prime_def)
  have "{2..<m + 1} = insert m {2..<m}" using assms(1) by auto
  moreover have "\<not> m dvd n" if "\<forall>d\<in>{2..<m}. \<not> d dvd n" for n using that e dvd_trans by blast
  ultimately have "(\<forall>d\<in>{2..<m + 1}. \<not> d dvd n) \<longleftrightarrow> (\<forall>d\<in>{2..<m}. \<not> d dvd n)" for n by auto
  then have "survivors mx (m + 1) = filter (\<lambda>n. \<forall>d\<in>{2..<m}. \<not> d dvd n) [m + 1..mx]" by (simp add: survivors_def)
  moreover have "survivors mx m = filter (\<lambda>n. \<forall>d\<in>{2..<m}. \<not> d dvd n) (m # [m + 1..mx])"
    unfolding survivors_def using upto_rec1 [OF assms(2)] by (rule arg_cong)
  moreover have "(\<forall>d\<in>{2..<m}. \<not> d dvd m) = False" using e by blast
  ultimately show ?thesis by (simp only: filter.simps(2) if_False)
qed

lemma primes_loop_sieves:
  assumes "holds mx num (survivors mx m)" "2 \<le> m" "\<And>n. env n = Forks"
  shows "primes_loop mx env n num out = Some (out @ map Prime_line (filter is_prime [m..mx]), 0)"
  using assms(1,2)
proof (induction "nat (mx + 1 - m)" arbitrary: m num n out rule: less_induct)
  case less
  show ?case
  proof (cases "m \<le> mx")
    case False
    then have "num ! 0 = mx + 1" using less.prems by (auto simp: survivors_def holds_def)
    then show ?thesis using False by (subst primes_loop.simps) simp
  next
    case True
    show ?thesis
    proof (cases "is_prime m")
      case False
      then have "holds mx num (survivors mx (m + 1))" using less.prems True by (simp add: survivors_composite)
      then have "primes_loop mx env n num out = Some (out @ map Prime_line (filter is_prime [m + 1..mx]), 0)"
        by (intro less.hyps) (use True less.prems in auto)
      then show ?thesis using False True by (simp add: upto_rec1 [of m mx])
    next
      case prime: True
      obtain ys where ys: "survivors mx m = m # ys" "filter (\<lambda>x. x mod m \<noteq> 0) ys = survivors mx (m + 1)"
        using survivors_prime less.prems True prime by blast
      have "holds mx (primes_round mx num) (survivors mx (m + 1))" using primes_round_filters less.prems ys by metis
      then have "primes_loop mx env (n + 1) (primes_round mx num) (out @ [Prime_line m]) =
          Some ((out @ [Prime_line m]) @ map Prime_line (filter is_prime [m + 1..mx]), 0)"
        by (intro less.hyps) (use True less.prems in auto)
      moreover have "num ! 0 = m" using less.prems ys by (auto simp: holds_def)
      ultimately show ?thesis using True prime assms(3) by (subst primes_loop.simps) (simp add: upto_rec1 [of m mx])
    qed
  qed
qed

lemma first_array: "0 \<le> mx \<Longrightarrow> map (\<lambda>i. int i + 2) [0..<nat mx] = [2..mx + 1]"
proof (rule nth_equalityI)
  show "length (map (\<lambda>i. int i + 2) [0..<nat mx]) = length [2..mx + 1]" if "0 \<le> mx" using that by simp
  show "map (\<lambda>i. int i + 2) [0..<nat mx] ! i = [2..mx + 1] ! i" if "i < length (map (\<lambda>i. int i + 2) [0..<nat mx])" for i
    using that by (simp add: nth_upto)
qed

lemma holds_first: "1 \<le> mx \<Longrightarrow> holds mx (map (\<lambda>i. int i + 2) [0..<nat mx]) (survivors mx 2)"
proof -
  assume "1 \<le> mx"
  then have "[2..mx + 1] = [2..mx] @ [mx + 1]" by (simp add: upto_rec2)
  moreover have "survivors mx 2 = [2..mx]" by (simp add: survivors_def)
  ultimately show ?thesis using \<open>1 \<le> mx\<close> by (auto simp: holds_def first_array)
qed

text \<open>
  C21: when no \<^verbatim>\<open>pipe\<close> and no \<^verbatim>\<open>fork\<close> fails, the program ends with status 0 and has printed exactly the primes up to \<^verbatim>\<open>MAX\<close>, in
  ascending order: the rounds of pipes and children compute what a filter for primes computes.
\<close>

theorem primes_prints_primes:
  assumes "1 \<le> mx" "\<And>n. env n = Forks"
  shows "primes_main mx env 1 = Some (map Prime_line (filter is_prime [2..mx]), 0)"
  using primes_loop_sieves [OF holds_first] assms by (simp add: primes_main_def)

theorem primes_prints_primes_witness:
  "primes_main PRIMES_MAX (\<lambda>_. Forks) 1 = Some (map Prime_line [2, 3, 5, 7, 11, 13, 17, 19, 23, 29, 31], 0)"
proof -
  have "filter is_prime [2..35] = [2, 3, 5, 7, 11, 13, 17, 19, 23, 29, 31]" by code_simp
  then show ?thesis using primes_prints_primes [of PRIMES_MAX "\<lambda>_. Forks"] by (simp add: PRIMES_MAX_def)
qed

end
