(* ===== verification/Xargs.thy ===== *)
theory Xargs
  imports Prelude
begin

text \<open>
  \<^verbatim>\<open>xargs.c\<close> of lab 1: for each line of the standard input a child runs the command with the words of the line as further
  arguments. \<open>None\<close> is a run whose behaviour C does not define: a read or write out of the bounds of an array, or through
  an uninitialised pointer.
\<close>

section \<open>State\<close>

text \<open>
  \<^verbatim>\<open>Argv\<close> holds pointers: to the arguments of the program, to buffers of \<^verbatim>\<open>malloc\<close>, null, or nothing yet. A buffer is the list
  of the characters written to it from its start; \<^verbatim>\<open>q\<close> is the end of the last buffer.
\<close>

datatype arg = Given string | Buf nat | Null | Uninit

definition NUL :: char where
  "NUL = CHR 0x00"

definition NL :: char where
  "NL = CHR 0x0A"

definition SP :: char where
  "SP = CHR 0x20"

lemma special_chars [simp]: "SP \<noteq> NL" "SP \<noteq> NUL" "NL \<noteq> SP" "NUL \<noteq> SP" "NL \<noteq> NUL" "NUL \<noteq> NL"
  by (simp_all add: NUL_def NL_def SP_def)

text \<open>\<^verbatim>\<open>q++; *q = c\<close>.\<close>

definition put_next :: "char \<Rightarrow> string list \<Rightarrow> string list option" where
  "put_next c heap = (if heap = [] then None else Some (butlast heap @ [last heap @ [c]]))"

section \<open>The child\<close>

text \<open>The index of the first character that is no space.\<close>

function find_start :: "string \<Rightarrow> nat \<Rightarrow> nat" where
  "find_start stdin i = (if i < 512 then if stdin ! i \<noteq> SP then i else find_start stdin (i + 1) else 0)"
  by pat_completeness auto
termination by (relation "measure (\<lambda>(s, i). 512 - i)") auto

text \<open>The loop over the line from \<open>i\<close> on, with the buffers and \<^verbatim>\<open>Argv\<close> it leaves.\<close>

function split_line :: "string \<Rightarrow> nat \<Rightarrow> nat \<Rightarrow> nat \<Rightarrow> string list \<Rightarrow> arg list \<Rightarrow> (string list \<times> arg list) option" where
  "split_line stdin start i j heap Argv =
     (if i < 512 then
        if stdin ! i \<noteq> SP \<and> stdin ! i \<noteq> NL \<and> stdin ! i \<noteq> NUL then
          if i = start \<or> stdin ! (i - 1) = SP then
            if j < length Argv then split_line stdin start (i + 1) j (heap @ [[stdin ! i]]) (Argv[j := Buf (length heap)]) else None
          else
            (case put_next (stdin ! i) heap of None \<Rightarrow> None | Some h \<Rightarrow> split_line stdin start (i + 1) j h Argv)
        else if stdin ! i = SP then
          if i + 1 \<ge> 512 then None
          else if stdin ! (i + 1) \<noteq> SP then
            (case put_next NUL heap of None \<Rightarrow> None | Some h \<Rightarrow> split_line stdin start (i + 1) (j + 1) h Argv)
          else split_line stdin start (i + 1) j heap Argv
        else if i = 0 then None
        else if stdin ! (i - 1) \<noteq> SP then
          (case put_next NUL heap of
             None \<Rightarrow> None
           | Some h \<Rightarrow> if j + 1 < length Argv then Some (h, Argv[j + 1 := Null]) else None)
        else if j < length Argv then Some (heap, Argv[j := Null])
        else None
      else Some (heap, Argv))"
  by pat_completeness auto
termination by (relation "measure (\<lambda>(s, st, i, j, h, a). 512 - i)") auto

declare find_start.simps [simp del] split_line.simps [simp del]

text \<open>The strings \<^verbatim>\<open>exec\<close> finds in \<^verbatim>\<open>Argv\<close>, up to the null pointer.\<close>

fun string_of :: "string list \<Rightarrow> arg \<Rightarrow> string option" where
  "string_of heap (Given s) = Some s"
| "string_of heap (Buf h) = (if h < length heap \<and> NUL \<in> set (heap ! h) then Some (takeWhile (\<lambda>c. c \<noteq> NUL) (heap ! h)) else None)"
| "string_of heap _ = None"

fun exec_args :: "string list \<Rightarrow> arg list \<Rightarrow> string list option" where
  "exec_args heap [] = None"
| "exec_args heap (a # as) =
     (if a = Null then Some []
      else
        case string_of heap a of
          None \<Rightarrow> None
        | Some s \<Rightarrow> map_option ((#) s) (exec_args heap as))"

section \<open>The program\<close>

datatype xargs_event = Needs_argument | Ran "string list" | No_fork

text \<open>\<open>base\<close> are \<^verbatim>\<open>argv[1]\<close> to \<^verbatim>\<open>argv[argc - 1]\<close>, copied to the front of \<^verbatim>\<open>Argv\<close>.\<close>

definition first_Argv :: "nat \<Rightarrow> string list \<Rightarrow> arg list" where
  "first_Argv maxarg base = map Given base @ replicate (maxarg - length base) Uninit"

definition xargs_child :: "nat \<Rightarrow> string list \<Rightarrow> string \<Rightarrow> nat \<Rightarrow> string list option" where
  "xargs_child maxarg base stdin start =
     (if length base \<ge> maxarg then None
      else
        case split_line stdin start start (length base) [] (first_Argv maxarg base) of
          None \<Rightarrow> None
        | Some (heap, Argv) \<Rightarrow> exec_args heap Argv)"

text \<open>\<^verbatim>\<open>gets\<close> stores what it read, and a NUL, to the front of the buffer.\<close>

definition store_line :: "string \<Rightarrow> string \<Rightarrow> string" where
  "store_line l stdin = l @ [NUL] @ drop (length l + 1) stdin"

text \<open>\<open>lines\<close> are the results of \<^verbatim>\<open>gets\<close>, empty at the end of the input; \<open>forks\<close> says whether each \<^verbatim>\<open>fork\<close> succeeds.\<close>

fun xargs_loop :: "nat \<Rightarrow> (nat \<Rightarrow> bool) \<Rightarrow> string list \<Rightarrow> nat \<Rightarrow> string list \<Rightarrow> string \<Rightarrow> xargs_event list option" where
  "xargs_loop maxarg forks base n [] stdin = Some []"
| "xargs_loop maxarg forks base n (l # lines) stdin =
     (let stdin1 = store_line l stdin;
          start = find_start stdin1 0
      in if stdin1 ! start = NUL then Some []
         else if forks n then
           (case xargs_child maxarg base stdin1 start of
              None \<Rightarrow> None
            | Some as \<Rightarrow> map_option ((#) (Ran as)) (xargs_loop maxarg forks base (n + 1) lines stdin1))
         else map_option ((#) No_fork) (xargs_loop maxarg forks base (n + 1) lines stdin1))"

definition xargs_main :: "nat \<Rightarrow> (nat \<Rightarrow> bool) \<Rightarrow> string list \<Rightarrow> string list \<Rightarrow> string \<Rightarrow> xargs_event list option" where
  "xargs_main maxarg forks argv lines stdin =
     (if length argv \<le> 1 then Some [Needs_argument]
      else if length argv - 1 > maxarg then None
      else xargs_loop maxarg forks (tl argv) 0 lines stdin)"

section \<open>The words of a line\<close>

function words :: "string \<Rightarrow> string list" where
  "words [] = []"
| "words (c # cs) =
     (if c = SP then words cs else (c # takeWhile (\<lambda>x. x \<noteq> SP) cs) # words (dropWhile (\<lambda>x. x \<noteq> SP) cs))"
  by pat_completeness auto
termination by (relation "measure length") (auto simp: less_Suc_eq_le length_dropWhile_le)

text \<open>The first \<open>j\<close> entries of \<^verbatim>\<open>Argv\<close> are the strings \<open>ws\<close>.\<close>

definition args_are :: "string list \<Rightarrow> arg list \<Rightarrow> string list \<Rightarrow> bool" where
  "args_are heap Argv ws \<longleftrightarrow> length ws \<le> length Argv \<and> (\<forall>k<length ws. string_of heap (Argv ! k) = Some (ws ! k))"

lemma string_of_mono: "string_of heap a = Some s \<Longrightarrow> string_of (heap @ more) a = Some s"
  by (cases a) (auto simp: nth_append split: if_splits)

lemma args_are_mono: "args_are heap Argv ws \<Longrightarrow> args_are (heap @ more) Argv ws"
  by (auto simp: args_are_def intro: string_of_mono)

lemma args_are_update: "args_are heap Argv ws \<Longrightarrow> length ws \<le> j \<Longrightarrow> args_are heap (Argv[j := a]) ws"
  by (auto simp: args_are_def)

lemma args_are_snoc:
  "args_are heap Argv ws \<Longrightarrow> length ws < length Argv \<Longrightarrow> string_of heap (Argv ! length ws) = Some w \<Longrightarrow> args_are heap Argv (ws @ [w])"
  by (auto simp: args_are_def nth_append less_Suc_eq)

lemma exec_args_null:
  assumes "args_are heap Argv ws" "length ws < length Argv" "Argv ! length ws = Null"
  shows "exec_args heap Argv = Some ws"
  using assms
proof (induction ws arbitrary: Argv)
  case Nil
  then show ?case by (cases Argv) auto
next
  case (Cons w ws)
  then obtain a as where A: "Argv = a # as" by (cases Argv) auto
  have s: "string_of heap a = Some w" using Cons.prems(1) A by (auto simp: args_are_def)
  have "args_are heap as ws" using Cons.prems(1) A by (fastforce simp: args_are_def)
  then have "exec_args heap as = Some ws" using Cons A by simp
  then show ?case using s A by (cases a) auto
qed

lemma string_of_closed: "NUL \<notin> set w \<Longrightarrow> string_of (heap @ [w @ [NUL]]) (Buf (length heap)) = Some w"
  by (simp add: takeWhile_append)

text \<open>The loop ends with exactly the strings \<open>r\<close> in \<^verbatim>\<open>Argv\<close>.\<close>

definition gives :: "string \<Rightarrow> nat \<Rightarrow> nat \<Rightarrow> nat \<Rightarrow> string list \<Rightarrow> arg list \<Rightarrow> string list \<Rightarrow> bool" where
  "gives stdin start i j heap Argv r \<longleftrightarrow> (\<exists>h A. split_line stdin start i j heap Argv = Some (h, A) \<and> args_are h A r \<and>
     length r < length A \<and> A ! length r = Null)"

text \<open>The rest of the line from \<open>i\<close> on is \<open>suf\<close>, ended by a newline or NUL.\<close>

definition rest_of_line :: "string \<Rightarrow> nat \<Rightarrow> string \<Rightarrow> bool" where
  "rest_of_line stdin i suf \<longleftrightarrow> (\<exists>pre t rest. stdin = pre @ suf @ t # rest \<and> length pre = i \<and> (t = NL \<or> t = NUL)) \<and>
     NL \<notin> set suf \<and> NUL \<notin> set suf \<and> i + length suf < 512"

lemma rest_of_line_Nil: "rest_of_line stdin i [] \<Longrightarrow> (stdin ! i = NL \<or> stdin ! i = NUL) \<and> i < 512"
  by (auto simp: rest_of_line_def)

lemma rest_of_line_Cons:
  assumes "rest_of_line stdin i (c # suf)"
  shows "stdin ! i = c \<and> c \<noteq> NL \<and> c \<noteq> NUL \<and> i + 1 < 512 \<and> rest_of_line stdin (i + 1) suf"
proof -
  obtain pre t rest where p: "stdin = pre @ (c # suf) @ t # rest" "length pre = i" "t = NL \<or> t = NUL"
    using assms by (auto simp: rest_of_line_def)
  then have "stdin = (pre @ [c]) @ suf @ t # rest \<and> length (pre @ [c]) = i + 1 \<and> (t = NL \<or> t = NUL)" "stdin ! i = c" by auto
  then have "\<exists>pre t rest. stdin = pre @ suf @ t # rest \<and> length pre = i + 1 \<and> (t = NL \<or> t = NUL)" "stdin ! i = c" by blast+
  moreover have "NL \<notin> set (c # suf)" "NUL \<notin> set (c # suf)" "i + length (c # suf) < 512" using assms by (auto simp: rest_of_line_def)
  moreover from this have "c \<noteq> NL" "c \<noteq> NUL" by auto
  ultimately show ?thesis unfolding rest_of_line_def by simp
qed

lemma rest_of_line_next_space: "rest_of_line stdin i suf \<Longrightarrow> stdin ! i = SP \<longleftrightarrow> suf \<noteq> [] \<and> hd suf = SP"
  by (cases suf) (auto dest: rest_of_line_Nil rest_of_line_Cons)

lemma words_skip: "words (SP # suf) = words suf"
  by simp

lemma gives_null:
  "args_are heap Argv r \<Longrightarrow> length r < length Argv \<Longrightarrow> split_line stdin start i j h A = Some (heap, Argv[length r := Null]) \<Longrightarrow>
   gives stdin start i j h A r"
  unfolding gives_def by (simp add: args_are_update)

text \<open>
  In a word: \<open>cur\<close> is what has been copied; the word stays open to the last space after it. Between words: at the first
  character of a word, or at the end after a space.
\<close>

definition in_word :: "string \<Rightarrow> nat \<Rightarrow> nat \<Rightarrow> string \<Rightarrow> string list \<Rightarrow> arg list \<Rightarrow> string list \<Rightarrow> bool" where
  "in_word stdin start i cur hs Argv ws \<longleftrightarrow> start < i \<and> NUL \<notin> set cur \<and> (stdin ! (i - 1) = SP \<longrightarrow> stdin ! i = SP) \<and> args_are hs Argv ws \<and>
     Argv ! length ws = Buf (length hs)"

definition between :: "string \<Rightarrow> nat \<Rightarrow> nat \<Rightarrow> string list \<Rightarrow> arg list \<Rightarrow> string list \<Rightarrow> bool" where
  "between stdin start i hs Argv ws \<longleftrightarrow> (i = start \<or> start < i \<and> stdin ! (i - 1) = SP) \<and> stdin ! i \<noteq> SP \<and> args_are hs Argv ws"

lemma in_word_closed:
  "in_word stdin start i cur hs Argv ws \<Longrightarrow> length ws < length Argv \<Longrightarrow> args_are (hs @ [cur @ [NUL]]) Argv (ws @ [cur])"
  unfolding in_word_def by (intro args_are_snoc) (auto simp: string_of_closed args_are_mono simp del: string_of.simps)

lemma word_at_end:
  assumes "in_word stdin start i cur hs Argv ws" "rest_of_line stdin i []" "length ws + 1 < length Argv"
  shows "gives stdin start i (length ws) (hs @ [cur]) Argv (ws @ [cur])"
proof (rule gives_null)
  show "args_are (hs @ [cur @ [NUL]]) Argv (ws @ [cur])" using in_word_closed assms(1,3) by simp
  have "(stdin ! i = NL \<or> stdin ! i = NUL) \<and> i < 512" using rest_of_line_Nil [OF assms(2)] .
  then show "split_line stdin start i (length ws) (hs @ [cur]) Argv = Some (hs @ [cur @ [NUL]], Argv[length (ws @ [cur]) := Null])"
    using assms(1,3) by (subst split_line.simps) (auto simp: put_next_def in_word_def)
qed (use assms in simp)

lemma between_at_end:
  assumes "between stdin start i hs Argv ws" "rest_of_line stdin i []" "length ws < length Argv" "0 < i" "stdin ! (i - 1) = SP"
  shows "gives stdin start i (length ws) hs Argv ws"
proof (rule gives_null)
  show "args_are hs Argv ws" using assms(1) by (simp add: between_def)
  have "(stdin ! i = NL \<or> stdin ! i = NUL) \<and> i < 512" using rest_of_line_Nil [OF assms(2)] .
  then show "split_line stdin start i (length ws) hs Argv = Some (hs, Argv[length ws := Null])"
    using assms(3-5) by (subst split_line.simps) auto
qed (use assms in simp)

lemma gives_step: "split_line stdin start i j h A = split_line stdin start i' j' h' A' \<Longrightarrow> gives stdin start i' j' h' A' r \<Longrightarrow> gives stdin start i j h A r"
  by (simp add: gives_def)

lemma between_char:
  assumes "between stdin start i hs Argv ws" "rest_of_line stdin i (c # suf)" "length ws < length Argv"
  shows "split_line stdin start i (length ws) hs Argv = split_line stdin start (i + 1) (length ws) (hs @ [[c]]) (Argv[length ws := Buf (length hs)])"
    and "in_word stdin start (i + 1) [c] hs (Argv[length ws := Buf (length hs)]) ws"
proof -
  note c = rest_of_line_Cons [OF assms(2)]
  show "split_line stdin start i (length ws) hs Argv = split_line stdin start (i + 1) (length ws) (hs @ [[c]]) (Argv[length ws := Buf (length hs)])"
    using assms(1,3) c by (subst split_line.simps) (auto simp: between_def)
  show "in_word stdin start (i + 1) [c] hs (Argv[length ws := Buf (length hs)]) ws"
    using assms(1,3) c by (auto simp: between_def in_word_def args_are_update)
qed

lemma word_char:
  assumes "in_word stdin start i cur hs Argv ws" "rest_of_line stdin i (c # suf)" "c \<noteq> SP"
  shows "split_line stdin start i (length ws) (hs @ [cur]) Argv = split_line stdin start (i + 1) (length ws) (hs @ [cur @ [c]]) Argv"
    and "in_word stdin start (i + 1) (cur @ [c]) hs Argv ws"
proof -
  note c = rest_of_line_Cons [OF assms(2)]
  show "split_line stdin start i (length ws) (hs @ [cur]) Argv = split_line stdin start (i + 1) (length ws) (hs @ [cur @ [c]]) Argv"
    using assms(1,3) c by (subst split_line.simps) (auto simp: in_word_def put_next_def)
  show "in_word stdin start (i + 1) (cur @ [c]) hs Argv ws" using assms(1,3) c by (auto simp: in_word_def)
qed

lemma word_space_more:
  assumes "in_word stdin start i cur hs Argv ws" "rest_of_line stdin i (SP # suf)" "stdin ! (i + 1) = SP"
  shows "split_line stdin start i (length ws) (hs @ [cur]) Argv = split_line stdin start (i + 1) (length ws) (hs @ [cur]) Argv"
    and "in_word stdin start (i + 1) cur hs Argv ws"
proof -
  note c = rest_of_line_Cons [OF assms(2)]
  show "split_line stdin start i (length ws) (hs @ [cur]) Argv = split_line stdin start (i + 1) (length ws) (hs @ [cur]) Argv"
    using assms(3) c by (subst split_line.simps) auto
  show "in_word stdin start (i + 1) cur hs Argv ws" using assms(1,3) c by (auto simp: in_word_def)
qed

lemma word_space_last:
  assumes "in_word stdin start i cur hs Argv ws" "rest_of_line stdin i (SP # suf)" "stdin ! (i + 1) \<noteq> SP" "length ws < length Argv"
  shows "split_line stdin start i (length ws) (hs @ [cur]) Argv = split_line stdin start (i + 1) (length (ws @ [cur])) (hs @ [cur @ [NUL]]) Argv"
    and "between stdin start (i + 1) (hs @ [cur @ [NUL]]) Argv (ws @ [cur])"
proof -
  note c = rest_of_line_Cons [OF assms(2)]
  show "split_line stdin start i (length ws) (hs @ [cur]) Argv = split_line stdin start (i + 1) (length (ws @ [cur])) (hs @ [cur @ [NUL]]) Argv"
    using assms(3) c by (subst split_line.simps) (auto simp: put_next_def)
  show "between stdin start (i + 1) (hs @ [cur @ [NUL]]) Argv (ws @ [cur])"
    using in_word_closed [OF assms(1,4)] assms(1,3) c by (auto simp: in_word_def between_def)
qed

lemma split_line_gives:
  assumes "rest_of_line stdin i suf"
  shows "in_word stdin start i cur hs Argv ws \<Longrightarrow> length ws + 1 + length (words (dropWhile (\<lambda>x. x \<noteq> SP) suf)) < length Argv \<Longrightarrow>
       gives stdin start i (length ws) (hs @ [cur]) Argv (ws @ (cur @ takeWhile (\<lambda>x. x \<noteq> SP) suf) # words (dropWhile (\<lambda>x. x \<noteq> SP) suf))"
    and "between stdin start i hs Argv ws \<Longrightarrow> (suf = [] \<Longrightarrow> 0 < i \<and> stdin ! (i - 1) = SP) \<Longrightarrow> length ws + length (words suf) < length Argv \<Longrightarrow>
       gives stdin start i (length ws) hs Argv (ws @ words suf)"
  using assms
proof (induction suf arbitrary: i cur hs Argv ws)
  case Nil
  {
    case 1
    then show ?case using word_at_end by simp
  next
    case 2
    then show ?case using between_at_end by simp
  }
next
  case (Cons c suf)
  {
    case 1
    note r = rest_of_line_Cons [OF 1(3)]
    have len: "length ws < length Argv" using 1(2) by simp
    consider "c \<noteq> SP" | "c = SP" "stdin ! (i + 1) = SP" | "c = SP" "stdin ! (i + 1) \<noteq> SP" by blast
    then show ?case
    proof cases
      case a: 1
      show ?thesis using gives_step [OF word_char(1) Cons.IH(1)] word_char(2) 1 a r by auto
    next
      case a: 2
      obtain suf' where "suf = SP # suf'" using rest_of_line_next_space r a(2) by (metis list.collapse)
      then show ?thesis using gives_step [OF word_space_more(1) Cons.IH(1)] word_space_more(2) 1 a r by fastforce
    next
      case a: 3
      have "gives stdin start (i + 1) (length (ws @ [cur])) (hs @ [cur @ [NUL]]) Argv ((ws @ [cur]) @ words suf)"
        by (rule Cons.IH(2)) (use word_space_last(2) 1 a r len in auto)
      then show ?thesis using gives_step [OF word_space_last(1)] 1 a len by auto
    qed
  next
    case 2
    note r = rest_of_line_Cons [OF 2(4)]
    have c: "c \<noteq> SP" using 2(1) r by (auto simp: between_def)
    have len: "length ws < length Argv" using 2(3) by simp
    let ?A = "Argv[length ws := Buf (length hs)]"
    have "gives stdin start (i + 1) (length ws) (hs @ [[c]]) ?A (ws @ ([c] @ takeWhile (\<lambda>x. x \<noteq> SP) suf) # words (dropWhile (\<lambda>x. x \<noteq> SP) suf))"
      by (rule Cons.IH(1)) (use between_char(2) [OF 2(1,4) len] 2 c r in auto)
    then show ?case using gives_step [OF between_char(1) [OF 2(1,4) len]] c by simp
  }
qed

section \<open>Whole lines\<close>

definition line_body :: "string \<Rightarrow> string" where
  "line_body l = takeWhile (\<lambda>c. c \<noteq> NL) l"

text \<open>
  What \<^verbatim>\<open>gets\<close> returns: fewer than 512 characters, none of them NUL, a newline only at the end; and the line neither starts
  with the newline nor has more words than \<^verbatim>\<open>Argv\<close> has room for.
\<close>

definition good_line :: "nat \<Rightarrow> string list \<Rightarrow> string \<Rightarrow> bool" where
  "good_line maxarg base l \<longleftrightarrow> (l = line_body l \<or> l = line_body l @ [NL]) \<and> NUL \<notin> set l \<and> length l < 512 \<and> l \<noteq> [NL] \<and>
     length base + length (words (line_body l)) < maxarg"

lemma words_dropWhile: "words (dropWhile (\<lambda>c. c = SP) s) = words s"
  by (induction s) auto

lemma words_blank: "words s = [] \<longleftrightarrow> dropWhile (\<lambda>c. c = SP) s = []"
  by (induction s) auto

lemma find_start_skips:
  assumes "stdin = pre @ sps @ c # rest" "set sps \<subseteq> {SP}" "c \<noteq> SP" "length pre + length sps < 512" "i = length pre"
  shows "find_start stdin i = length pre + length sps"
  using assms
proof (induction sps arbitrary: pre i)
  case Nil
  then show ?case by (subst find_start.simps) simp
next
  case (Cons x sps)
  have "find_start stdin (i + 1) = length (pre @ [x]) + length sps" by (rule Cons.IH) (use Cons.prems in auto)
  moreover have "find_start stdin i = find_start stdin (i + 1)" using Cons.prems by (subst find_start.simps) (auto simp: nth_append)
  ultimately show ?case by simp
qed

lemma stored_line:
  fixes stdin :: string
  assumes "good_line maxarg base l"
  defines "stdin1 \<equiv> store_line l stdin" and "b \<equiv> line_body l"
  shows "find_start stdin1 0 = length (takeWhile (\<lambda>c. c = SP) b)"
    and "rest_of_line stdin1 (length (takeWhile (\<lambda>c. c = SP) b)) (dropWhile (\<lambda>c. c = SP) b)"
    and "\<forall>i<length (takeWhile (\<lambda>c. c = SP) b). stdin1 ! i = SP"
    and "stdin1 ! find_start stdin1 0 = NUL \<longleftrightarrow> NL \<notin> set l \<and> words b = []"
proof -
  let ?sps = "takeWhile (\<lambda>c. c = SP) b" and ?s = "dropWhile (\<lambda>c. c = SP) b"
  have NLb: "NL \<notin> set b" by (auto simp: b_def line_body_def dest: set_takeWhileD)
  have lb: "l = b \<or> l = b @ [NL]" and nul: "NUL \<notin> set l" and len: "length l < 512" using assms(1) by (auto simp: good_line_def b_def)
  have nlb: "NUL \<notin> set b" "length b < 512" using lb nul len by auto
  obtain t rest where s1: "stdin1 = b @ t # rest" and t: "t = (if NL \<in> set l then NL else NUL)"
    using lb NLb by (auto simp: stdin1_def store_line_def)
  have sps: "set ?sps \<subseteq> {SP}" by (auto dest: set_takeWhileD)
  have split: "stdin1 = ?sps @ ?s @ t # rest" using s1 by (metis append_assoc takeWhile_dropWhile_id)
  obtain c r where c: "?s @ t # rest = c # r" "c \<noteq> SP" using hd_dropWhile [of "\<lambda>c. c = SP" b] t by (cases ?s) auto
  show f: "find_start stdin1 0 = length ?sps"
    using find_start_skips [of stdin1 "[]" ?sps c r 0] split c sps length_takeWhile_le [of "\<lambda>c. c = SP" b] nlb by simp
  have "length ?sps + length ?s = length b" by (metis length_append takeWhile_dropWhile_id)
  then show "rest_of_line stdin1 (length ?sps) ?s"
    unfolding rest_of_line_def using split t nlb NLb by (auto dest: set_dropWhileD)
  show "\<forall>i<length ?sps. stdin1 ! i = SP"
  proof (intro allI impI)
    fix i assume i: "i < length ?sps"
    then have "stdin1 ! i = ?sps ! i" using split by (metis nth_append)
    then show "stdin1 ! i = SP" using sps i nth_mem by fastforce
  qed
  have "stdin1 ! length ?sps = hd (?s @ t # rest)" using split by (metis c(1) hd_append list.sel(1) nth_append_length)
  then show "stdin1 ! find_start stdin1 0 = NUL \<longleftrightarrow> NL \<notin> set l \<and> words b = []"
    unfolding f words_blank using t nlb(1) set_dropWhileD [of NUL "\<lambda>c. c = SP" b] by (cases ?s) auto
qed

lemma args_are_first: "length base < maxarg \<Longrightarrow> args_are [] (first_Argv maxarg base) base \<and> length (first_Argv maxarg base) = maxarg"
  by (auto simp: args_are_def first_Argv_def nth_append)

lemma xargs_child_runs:
  assumes "good_line maxarg base l" "\<not> (NL \<notin> set l \<and> words (line_body l) = [])"
  shows "xargs_child maxarg base (store_line l stdin) (find_start (store_line l stdin) 0) = Some (base @ words (line_body l))"
proof -
  let ?in = "store_line l stdin" and ?b = "line_body l" and ?A = "first_Argv maxarg base"
  let ?sps = "takeWhile (\<lambda>c. c = SP) ?b" and ?s = "dropWhile (\<lambda>c. c = SP) ?b"
  note L = stored_line [OF assms(1), of stdin]
  have len: "length base + length (words ?b) < maxarg" using assms(1) by (simp add: good_line_def)
  have A: "args_are [] ?A base" "length ?A = maxarg" using args_are_first len by (auto intro: args_are_first)
  have "?in ! length ?sps \<noteq> SP"
    using rest_of_line_next_space [OF L(2)] hd_dropWhile [of "\<lambda>c. c = SP" ?b] by auto
  then have b: "between ?in (length ?sps) (length ?sps) [] ?A base" using A by (simp add: between_def)
  have "0 < length ?sps \<and> ?in ! (length ?sps - 1) = SP" if "?s = []"
  proof -
    have "?b \<noteq> []" using assms that by (auto simp: good_line_def words_blank)
    then have "0 < length ?sps" using that by (metis append_Nil2 length_greater_0_conv takeWhile_dropWhile_id)
    then show ?thesis using L(3) by simp
  qed
  then have "gives ?in (length ?sps) (length ?sps) (length base) [] ?A (base @ words ?s)"
    by (rule split_line_gives(2) [OF L(2) b]) (use len A in \<open>auto simp: words_dropWhile\<close>)
  then show ?thesis unfolding gives_def xargs_child_def L(1) using len by (auto simp: exec_args_null words_dropWhile)
qed

text \<open>On an empty line the child looks at the character before the start of the buffer.\<close>

lemma xargs_empty_line_undefined: "xargs_child maxarg base (store_line [NL] stdin) (find_start (store_line [NL] stdin) 0) = None"
proof -
  have "find_start (store_line [NL] stdin) 0 = 0" by (subst find_start.simps) (simp add: store_line_def)
  moreover have "split_line (store_line [NL] stdin) 0 0 j h A = None" for j h A by (subst split_line.simps) (simp add: store_line_def)
  ultimately show ?thesis by (simp add: xargs_child_def)
qed

text \<open>
  C22: for every sequence of lines of fewer than 512 characters that do not start with the newline and have few enough words, up
  to the first line without newline and words, the program runs the command once per line, each time with its own arguments
  followed by exactly the words of the line; a line whose \<^verbatim>\<open>fork\<close> fails is skipped.
\<close>

theorem xargs_runs_words:
  assumes "\<forall>l\<in>set lines. good_line maxarg base l" "base \<noteq> []" "length base \<le> maxarg"
  shows "xargs_main maxarg forks (prog # base) lines stdin =
    Some (map (\<lambda>(n, l). if forks n then Ran (base @ words (line_body l)) else No_fork)
      (enumerate 0 (takeWhile (\<lambda>l. NL \<in> set l \<or> words (line_body l) \<noteq> []) lines)))"
proof -
  have "xargs_loop maxarg forks base n lines stdin = Some (map (\<lambda>(n, l). if forks n then Ran (base @ words (line_body l)) else No_fork)
      (enumerate n (takeWhile (\<lambda>l. NL \<in> set l \<or> words (line_body l) \<noteq> []) lines)))" for n
    using assms(1)
  proof (induction lines arbitrary: n stdin)
    case (Cons l lines)
    have g: "good_line maxarg base l" using Cons.prems by simp
    show ?case
      using Cons stored_line(4) [OF g, of stdin] xargs_child_runs [OF g, of stdin] by (auto simp: Let_def)
  qed simp
  then show ?thesis using assms(2,3) by (simp add: xargs_main_def)
qed

theorem xargs_runs_words_witness:
  "xargs_main 32 (\<lambda>_. True) [''xargs'', ''echo'', ''hi''] [''a  bc '' @ [NL], ''  d''] (replicate 512 NUL) =
   Some [Ran [''echo'', ''hi'', ''a'', ''bc''], Ran [''echo'', ''hi'', ''d'']]"
proof -
  have "\<forall>l\<in>set [''a  bc '' @ [NL], ''  d'']. good_line 32 [''echo'', ''hi''] l" by code_simp
  from xargs_runs_words [OF this, of "\<lambda>_. True" "''xargs''" "replicate 512 NUL"] show ?thesis
    by (simp add: NL_def SP_def line_body_def)
qed

end
