(* ===== verification/Find.thy ===== *)
theory Find
  imports Prelude
begin

text \<open>
  \<^verbatim>\<open>find.c\<close> of lab 1: prints the paths below a directory whose last component is a given name. Opening a directory, reading its
  entries and \<^verbatim>\<open>stat\<close> are system calls; they are arguments, which may depend on the number of descriptors the program has
  open. The number is part of the state, because \<^verbatim>\<open>find\<close> keeps one open on each level.
\<close>

section \<open>Directory entries and system calls\<close>

text \<open>The 14 bytes of the name need not hold a NUL; \<open>beyond\<close> is what follows the structure in memory.\<close>

record dirent =
  dinum :: nat
  dname :: string

datatype file_type = T_DIR | T_FILE | T_DEVICE

record find_env =
  open_dir :: "nat \<Rightarrow> string \<Rightarrow> dirent list option"
  stat_type :: "nat \<Rightarrow> string \<Rightarrow> file_type option"
  beyond :: string

datatype find_line = Cannot_open string | Too_long | Cannot_stat string | Found string | Wrong_arguments

definition cstr :: "string \<Rightarrow> string" where
  "cstr bs = takeWhile (\<lambda>c. c \<noteq> CHR 0x00) bs"

definition de_name :: "find_env \<Rightarrow> dirent \<Rightarrow> string" where
  "de_name E e = cstr (dname e @ beyond E)"

definition skipped :: "find_env \<Rightarrow> dirent \<Rightarrow> bool" where
  "skipped E e \<longleftrightarrow> dinum e = 0 \<or> de_name E e = ''.'' \<or> de_name E e = ''..''"

text \<open>\<^verbatim>\<open>memmove(p, de.name, DIRSIZ); p[DIRSIZ] = 0\<close>: the string in \<^verbatim>\<open>buf\<close>.\<close>

definition entry_path :: "string \<Rightarrow> dirent \<Rightarrow> string" where
  "entry_path path e = path @ ''/'' @ cstr (take 14 (dname e) @ [CHR 0x00])"

section \<open>The program\<close>

text \<open>The output and the number of open descriptors.\<close>

function find :: "find_env \<Rightarrow> string \<Rightarrow> string \<Rightarrow> nat \<Rightarrow> find_line list \<times> nat" where
  "find E path name fds =
     (case open_dir E fds path of
        None \<Rightarrow> ([Cannot_open path], fds)
      | Some es \<Rightarrow>
          if length path + 1 + 14 + 1 > 512 then ([Too_long], fds + 1)
          else
            let (out, n) = fold (\<lambda>e (out, n).
                  if skipped E e then (out, n)
                  else
                    let buf = entry_path path e in
                    case stat_type E n buf of
                      None \<Rightarrow> (out @ [Cannot_stat buf], n)
                    | Some ty \<Rightarrow>
                        let out1 = out @ (if de_name E e = name then [Found buf] else [])
                        in if ty = T_DIR then let (out2, n2) = find E buf name n in (out1 @ out2, n2) else (out1, n))
                es ([], fds + 1)
            in (out, n - 1))"
  by pat_completeness auto
termination
  by (relation "measure (\<lambda>(E, path, name, fds). 512 - length path)") (auto simp: entry_path_def)

declare find.simps [simp del]

text \<open>\<^verbatim>\<open>main\<close>: the output and the exit status.\<close>

definition find_main :: "find_env \<Rightarrow> string list \<Rightarrow> nat \<Rightarrow> find_line list \<times> int" where
  "find_main E argv fds =
     (if length argv \<noteq> 2 \<and> length argv \<noteq> 3 then ([Wrong_arguments], -1)
      else if length argv = 2 then (fst (find E ''.'' (argv ! 1) fds), 0)
      else (fst (find E (argv ! 1) (argv ! 2) fds), 0))"

section \<open>Trees of files\<close>

datatype node = File_node | Dir_node "(string \<times> node) list"

text \<open>The reference: the paths below \<open>path\<close> that end in \<open>name\<close>, a directory before what is in it.\<close>

fun hits :: "string \<Rightarrow> string \<Rightarrow> node \<Rightarrow> string list" where
  "hits name path File_node = []"
| "hits name path (Dir_node cs) =
     concat (map (\<lambda>(n, t). (if n = name then [path @ ''/'' @ n] else []) @ hits name (path @ ''/'' @ n) t) cs)"

text \<open>
  The system calls show the tree at a path, with \<open>fds\<close> descriptors open: the entries that are in use and are not the dots are
  the children, in order, with names shorter than 14 bytes; the paths are short enough; and \<^verbatim>\<open>stat\<close> tells the types.
\<close>

definition entry_for :: "find_env \<Rightarrow> string \<Rightarrow> dirent \<Rightarrow> bool" where
  "entry_for E n e \<longleftrightarrow> length (dname e) = 14 \<and> CHR 0x00 \<in> set (dname e) \<and> cstr (dname e) = n"

fun serves :: "find_env \<Rightarrow> nat \<Rightarrow> string \<Rightarrow> node \<Rightarrow> bool" where
  "serves E fds path File_node \<longleftrightarrow> True"
| "serves E fds path (Dir_node cs) \<longleftrightarrow> length path + 16 \<le> 512 \<and>
     (case open_dir E fds path of
        None \<Rightarrow> False
      | Some es \<Rightarrow> list_all2 (\<lambda>c e. entry_for E (fst c) e) cs (filter (\<lambda>e. \<not> skipped E e) es)) \<and>
     (\<forall>(n, t)\<in>set cs. (case stat_type E (fds + 1) (path @ ''/'' @ n) of
          None \<Rightarrow> False
        | Some ty \<Rightarrow> (ty = T_DIR \<longleftrightarrow> t \<noteq> File_node)) \<and> serves E (fds + 1) (path @ ''/'' @ n) t)"

section \<open>find prints the hits\<close>

lemma cstr_append: "CHR 0x00 \<in> set bs \<Longrightarrow> cstr (bs @ cs) = cstr bs"
  by (auto simp: cstr_def takeWhile_append1)

lemma entry_for_path: "entry_for E n e \<Longrightarrow> entry_path path e = path @ ''/'' @ n"
  by (auto simp: entry_for_def entry_path_def cstr_append)

lemma entry_for_name: "entry_for E n e \<Longrightarrow> de_name E e = n"
  by (auto simp: entry_for_def de_name_def cstr_append)

text \<open>The loop over the entries; \<open>f\<close> is \<^verbatim>\<open>find\<close> below.\<close>

definition find_entry :: "find_env \<Rightarrow> (string \<Rightarrow> nat \<Rightarrow> find_line list \<times> nat) \<Rightarrow> string \<Rightarrow> string \<Rightarrow> dirent \<Rightarrow> find_line list \<times> nat \<Rightarrow>
    find_line list \<times> nat" where
  "find_entry E f path name e = (\<lambda>(out, n).
     if skipped E e then (out, n)
     else
       let buf = entry_path path e in
       case stat_type E n buf of
         None \<Rightarrow> (out @ [Cannot_stat buf], n)
       | Some ty \<Rightarrow>
           let out1 = out @ (if de_name E e = name then [Found buf] else [])
           in if ty = T_DIR then let (out2, n2) = f buf n in (out1 @ out2, n2) else (out1, n))"

lemma find_unfold:
  "find E path name fds =
     (case open_dir E fds path of
        None \<Rightarrow> ([Cannot_open path], fds)
      | Some es \<Rightarrow>
          if length path + 1 + 14 + 1 > 512 then ([Too_long], fds + 1)
          else let (out, n) = fold (find_entry E (\<lambda>p. find E p name) path name) es ([], fds + 1) in (out, n - 1))"
  unfolding find_entry_def by (subst find.simps) simp

lemma fold_filter_skipped:
  "fold (find_entry E f path name) es s = fold (find_entry E f path name) (filter (\<lambda>e. \<not> skipped E e) es) s"
  by (induction es arbitrary: s) (auto simp: find_entry_def)

lemma fold_entries:
  assumes "list_all2 (\<lambda>c e. entry_for E (fst c) e) cs es" "\<forall>e\<in>set es. \<not> skipped E e"
    "\<forall>(n, t)\<in>set cs. (case stat_type E m (path @ ''/'' @ n) of None \<Rightarrow> False | Some ty \<Rightarrow> (ty = T_DIR \<longleftrightarrow> t \<noteq> File_node))"
    "\<forall>(n, t)\<in>set cs. t \<noteq> File_node \<longrightarrow> f (path @ ''/'' @ n) m = (map Found (hits name (path @ ''/'' @ n) t), m)"
  shows "fold (find_entry E f path name) es (out, m) = (out @ map Found (hits name path (Dir_node cs)), m)"
  using assms
proof (induction cs es arbitrary: out rule: list_all2_induct)
  case (Cons c cs e es)
  obtain n t where c: "c = (n, t)" by fastforce
  have e: "entry_path path e = path @ ''/'' @ n" "de_name E e = n" using Cons.hyps c entry_for_path entry_for_name by auto
  obtain ty where ty: "stat_type E m (path @ ''/'' @ n) = Some ty" "ty = T_DIR \<longleftrightarrow> t \<noteq> File_node"
    using Cons.prems(2) c by (auto split: option.splits)
  have "find_entry E f path name e (out, m) = (out @ map Found ((if n = name then [path @ ''/'' @ n] else []) @ hits name (path @ ''/'' @ n) t), m)"
    using Cons.prems(1,3) c e ty by (auto simp: find_entry_def Let_def)
  then show ?case using Cons.IH Cons.prems c by auto
qed simp

text \<open>
  C23: \<^verbatim>\<open>find\<close> on a tree of files that the system calls show prints exactly the paths of the tree that end in the name, each
  directory before its contents, and closes every descriptor it opened.
\<close>

theorem find_prints_hits:
  assumes "serves E fds path t" "t \<noteq> File_node"
  shows "find E path name fds = (map Found (hits name path t), fds)"
  using assms
proof (induction t arbitrary: path fds)
  case (Dir_node cs)
  obtain es where es: "open_dir E fds path = Some es" "list_all2 (\<lambda>c e. entry_for E (fst c) e) cs (filter (\<lambda>e. \<not> skipped E e) es)"
    using Dir_node.prems by (auto split: option.splits)
  have "\<forall>(n, t)\<in>set cs. t \<noteq> File_node \<longrightarrow> find E (path @ ''/'' @ n) name (fds + 1) = (map Found (hits name (path @ ''/'' @ n) t), fds + 1)"
    using Dir_node by fastforce
  then have "fold (find_entry E (\<lambda>p. find E p name) path name) (filter (\<lambda>e. \<not> skipped E e) es) ([], fds + 1) =
      ([] @ map Found (hits name path (Dir_node cs)), fds + 1)"
    by (intro fold_entries) (use es Dir_node.prems in auto)
  then show ?case using es(1) Dir_node.prems by (simp add: find_unfold [of E path] fold_filter_skipped [of _ _ _ _ es])
qed simp

text \<open>A directory with a file and a directory that holds a file of the same name.\<close>

definition ex_entry :: "nat \<Rightarrow> string \<Rightarrow> dirent" where
  "ex_entry i n = \<lparr>dinum = i, dname = n @ replicate (14 - length n) (CHR 0x00)\<rparr>"

definition ex_find_env :: find_env where
  "ex_find_env = \<lparr>open_dir = (\<lambda>n p. if p = ''.'' then Some [ex_entry 1 ''.'', ex_entry 1 ''..'', ex_entry 4 ''b'', ex_entry 0 ''old'', ex_entry 5 ''d'']
       else if p = ''./d'' then Some [ex_entry 5 ''.'', ex_entry 1 ''..'', ex_entry 6 ''b''] else None),
     stat_type = (\<lambda>n p. Some (if p = ''./d'' then T_DIR else T_FILE)), beyond = []\<rparr>"

theorem find_prints_hits_witness: "find ex_find_env ''.'' ''b'' 3 = ([Found ''./b'', Found ''./d/b''], 3)"
proof -
  have "serves ex_find_env 3 ''.'' (Dir_node [(''b'', File_node), (''d'', Dir_node [(''b'', File_node)])])" by code_simp
  from find_prints_hits [OF this] show ?thesis by simp
qed

end
