(* ===== verification/Pingpong.thy ===== *)
theory Pingpong
  imports Prelude
begin

text \<open>
  \<^verbatim>\<open>pingpong.c\<close> of lab 1: a parent and a child exchange four bytes over two pipes. The two processes run interleaved; a system
  call is one step, which the kernel delays while \<^verbatim>\<open>read\<close> finds an empty pipe that can still be written, or while \<^verbatim>\<open>wait\<close> finds
  the child running. A pipe is the list of the bytes in it.
\<close>

section \<open>The two processes\<close>

datatype pend = P2C_r | P2C_w | C2P_r | C2P_w

datatype call = Close pend | Read pend | Write pend string | Print | Wait | Exit

datatype who = Parent | Child

text \<open>The calls of the two branches after \<^verbatim>\<open>fork\<close>.\<close>

definition child_code :: "call list" where
  "child_code = [Close P2C_w, Close C2P_r, Read P2C_r, Print, Write C2P_w ''pong'', Close P2C_r, Close C2P_w, Exit]"

definition parent_code :: "call list" where
  "parent_code = [Close P2C_r, Close C2P_w, Write P2C_w ''ping'', Read C2P_r, Print, Close P2C_w, Close C2P_r, Wait, Exit]"

text \<open>Each process has its code ahead, its open ends and its memory from \<^verbatim>\<open>buffer\<close> on, which is not initialised.\<close>

record actor =
  code :: "call list"
  ends :: "pend list"
  buffer :: string

record pingpong =
  actor_of :: "who \<Rightarrow> actor"
  p2c :: string
  c2p :: string
  printed :: "(who \<times> string) list"

section \<open>System calls\<close>

definition is_p2c :: "pend \<Rightarrow> bool" where
  "is_p2c e \<longleftrightarrow> e = P2C_r \<or> e = P2C_w"

definition pipe_of :: "pend \<Rightarrow> pingpong \<Rightarrow> string" where
  "pipe_of e s = (if is_p2c e then p2c s else c2p s)"

definition set_pipe :: "pend \<Rightarrow> string \<Rightarrow> pingpong \<Rightarrow> pingpong" where
  "set_pipe e bs s = (if is_p2c e then s\<lparr>p2c := bs\<rparr> else s\<lparr>c2p := bs\<rparr>)"

definition open_somewhere :: "pend \<Rightarrow> pingpong \<Rightarrow> bool" where
  "open_somewhere e s \<longleftrightarrow> e \<in> set (ends (actor_of s Parent)) \<or> e \<in> set (ends (actor_of s Child))"

definition upd_actor :: "who \<Rightarrow> (actor \<Rightarrow> actor) \<Rightarrow> pingpong \<Rightarrow> pingpong" where
  "upd_actor w f s = s\<lparr>actor_of := (actor_of s)(w := f (actor_of s w))\<rparr>"

definition write_end :: "pend \<Rightarrow> pend" where
  "write_end e = (if is_p2c e then P2C_w else C2P_w)"

definition read_end :: "pend \<Rightarrow> pend" where
  "read_end e = (if is_p2c e then P2C_r else C2P_r)"

definition printed_string :: "string \<Rightarrow> string" where
  "printed_string bs = takeWhile (\<lambda>c. c \<noteq> CHR 0x00) bs"

text \<open>\<open>None\<close> where the process has to wait. \<^verbatim>\<open>write\<close> to a pipe without readers returns -1, which the program ignores.\<close>

fun do_call :: "who \<Rightarrow> call \<Rightarrow> pingpong \<Rightarrow> pingpong option" where
  "do_call w (Close e) s = Some (upd_actor w (\<lambda>a. a\<lparr>ends := filter (\<lambda>x. x \<noteq> e) (ends a)\<rparr>) s)"
| "do_call w (Read e) s =
     (let bs = take 4 (pipe_of e s) in
      if bs = [] \<and> open_somewhere (write_end e) s then None
      else Some (set_pipe e (drop 4 (pipe_of e s)) (upd_actor w (\<lambda>a. a\<lparr>buffer := bs @ drop (length bs) (buffer a)\<rparr>) s)))"
| "do_call w (Write e bs) s =
     (if \<not> open_somewhere (read_end e) s then Some s
      else if length (pipe_of e s) + length bs > 512 then None
      else Some (set_pipe e (pipe_of e s @ bs) s))"
| "do_call w Print s = Some (s\<lparr>printed := printed s @ [(w, printed_string (buffer (actor_of s w)))]\<rparr>)"
| "do_call w Wait s = (if code (actor_of s Child) = [] then Some s else None)"
| "do_call w Exit s = Some (upd_actor w (\<lambda>a. a\<lparr>ends := []\<rparr>) s)"

definition pp_step :: "who \<Rightarrow> pingpong \<Rightarrow> pingpong option" where
  "pp_step w s =
     (case code (actor_of s w) of
        [] \<Rightarrow> None
      | c # cs \<Rightarrow> map_option (upd_actor w (\<lambda>a. a\<lparr>code := cs\<rparr>)) (do_call w c s))"

section \<open>The program\<close>

datatype pp_line = Needs_no_argument | Pipe_wrong | Fork_wrong

text \<open>\<open>b\<close> is the memory from \<^verbatim>\<open>buffer\<close> on at the \<^verbatim>\<open>fork\<close>, of which the child has a copy.\<close>

definition pp_start :: "string \<Rightarrow> pingpong" where
  "pp_start b = \<lparr>actor_of = (\<lambda>w. \<lparr>code = (if w = Parent then parent_code else child_code), ends = [P2C_r, P2C_w, C2P_r, C2P_w], buffer = b\<rparr>),
     p2c = [], c2p = [], printed = []\<rparr>"

definition pingpong_main :: "int \<Rightarrow> bool \<Rightarrow> bool \<Rightarrow> bool \<Rightarrow> string \<Rightarrow> pp_line + pingpong" where
  "pingpong_main argc pipe1_ok pipe2_ok fork_ok b =
     (if argc \<noteq> 1 then Inl Needs_no_argument
      else if \<not> pipe1_ok \<or> \<not> pipe2_ok then Inl Pipe_wrong
      else if \<not> fork_ok then Inl Fork_wrong
      else Inr (pp_start b))"

text \<open>A schedule says which process may take the next step; nothing happens when it has to wait.\<close>

primrec pp_trace :: "(nat \<Rightarrow> who) \<Rightarrow> pingpong \<Rightarrow> nat \<Rightarrow> pingpong" where
  "pp_trace f s 0 = s"
| "pp_trace f s (Suc n) = (case pp_step (f n) (pp_trace f s n) of None \<Rightarrow> pp_trace f s n | Some s' \<Rightarrow> s')"

section \<open>Where the two processes can be\<close>

text \<open>The state after \<open>i\<close> calls of the parent and \<open>j\<close> of the child.\<close>

definition parent_ends :: "nat \<Rightarrow> pend list" where
  "parent_ends i = (if i < 1 then [P2C_r] else []) @ (if i < 6 then [P2C_w] else []) @ (if i < 7 then [C2P_r] else []) @ (if i < 2 then [C2P_w] else [])"

definition child_ends :: "nat \<Rightarrow> pend list" where
  "child_ends j = (if j < 6 then [P2C_r] else []) @ (if j < 1 then [P2C_w] else []) @ (if j < 2 then [C2P_r] else []) @ (if j < 7 then [C2P_w] else [])"

definition pp_at :: "string \<Rightarrow> nat \<Rightarrow> nat \<Rightarrow> pingpong" where
  "pp_at b i j = \<lparr>actor_of = (\<lambda>w. if w = Parent
       then \<lparr>code = drop i parent_code, ends = parent_ends i, buffer = (if 4 \<le> i then ''pong'' @ drop 4 b else b)\<rparr>
       else \<lparr>code = drop j child_code, ends = child_ends j, buffer = (if 3 \<le> j then ''ping'' @ drop 4 b else b)\<rparr>),
     p2c = (if 3 \<le> i \<and> j < 3 then ''ping'' else []), c2p = (if 5 \<le> j \<and> i < 4 then ''pong'' else []),
     printed = (if 4 \<le> j then [(Child, ''ping'' @ printed_string (drop 4 b))] else []) @ (if 5 \<le> i then [(Parent, ''pong'' @ printed_string (drop 4 b))] else [])\<rparr>"

definition pp_valid :: "nat \<Rightarrow> nat \<Rightarrow> bool" where
  "pp_valid i j \<longleftrightarrow> i \<le> 9 \<and> j \<le> 8 \<and> (3 \<le> j \<longrightarrow> 3 \<le> i) \<and> (4 \<le> i \<longrightarrow> 5 \<le> j) \<and> (8 \<le> i \<longrightarrow> j = 8)"

definition parent_runs :: "nat \<Rightarrow> nat \<Rightarrow> bool" where
  "parent_runs i j \<longleftrightarrow> i < 9 \<and> (i = 3 \<longrightarrow> 5 \<le> j) \<and> (i = 7 \<longrightarrow> j = 8)"

definition child_runs :: "nat \<Rightarrow> nat \<Rightarrow> bool" where
  "child_runs i j \<longleftrightarrow> j < 8 \<and> (j = 2 \<longrightarrow> 3 \<le> i)"

lemmas pp_defs = pp_step_def pp_at_def parent_code_def child_code_def upd_actor_def open_somewhere_def pipe_of_def set_pipe_def is_p2c_def
  write_end_def read_end_def parent_ends_def child_ends_def printed_string_def fun_eq_iff

lemma not_Child: "w \<noteq> Child \<longleftrightarrow> w = Parent"
  by (cases w) auto

lemma drop_four: "drop (Suc (Suc (Suc (Suc 0)))) b = drop 4 b"
  by (simp add: numeral_eq_Suc)

lemma step_parent:
  assumes "pp_valid i j"
  shows "pp_step Parent (pp_at b i j) = (if parent_runs i j then Some (pp_at b (Suc i) j) else None)"
proof -
  have "i = 0 \<or> i = 1 \<or> i = 2 \<or> i = 3 \<or> i = 4 \<or> i = 5 \<or> i = 6 \<or> i = 7 \<or> i = 8 \<or> i = 9" using assms by (auto simp: pp_valid_def)
  then show ?thesis using assms
    by (elim disjE) (simp_all add: pp_defs pp_valid_def parent_runs_def drop_four)
qed

lemma step_child:
  assumes "pp_valid i j"
  shows "pp_step Child (pp_at b i j) = (if child_runs i j then Some (pp_at b i (Suc j)) else None)"
proof -
  have "j = 0 \<or> j = 1 \<or> j = 2 \<or> j = 3 \<or> j = 4 \<or> j = 5 \<or> j = 6 \<or> j = 7 \<or> j = 8" using assms by (auto simp: pp_valid_def)
  then show ?thesis using assms
    by (elim disjE) (simp_all add: pp_defs pp_valid_def child_runs_def drop_four not_Child)
qed


lemma valid_after:
  "pp_valid i j \<Longrightarrow> parent_runs i j \<Longrightarrow> pp_valid (Suc i) j"
  "pp_valid i j \<Longrightarrow> child_runs i j \<Longrightarrow> pp_valid i (Suc j)"
  unfolding pp_valid_def parent_runs_def child_runs_def by linarith+

text \<open>No deadlock: before the end one of the two can run.\<close>

lemma someone_runs: "pp_valid i j \<Longrightarrow> i + j < 17 \<Longrightarrow> parent_runs i j \<or> child_runs i j"
  unfolding pp_valid_def parent_runs_def child_runs_def by linarith

definition runs :: "who \<Rightarrow> nat \<Rightarrow> nat \<Rightarrow> bool" where
  "runs w i j = (if w = Parent then parent_runs i j else child_runs i j)"

section \<open>Every fair schedule ends\<close>

definition fair :: "(nat \<Rightarrow> who) \<Rightarrow> bool" where
  "fair f \<longleftrightarrow> (\<forall>w n. \<exists>m\<ge>n. f m = w)"

lemma trace_step:
  assumes "pp_trace f s n = pp_at b i j" "pp_valid i j"
  shows "\<exists>i' j'. pp_trace f s (Suc n) = pp_at b i' j' \<and> pp_valid i' j' \<and>
    (if runs (f n) i j then i' + j' = Suc (i + j) else i' = i \<and> j' = j)"
proof (cases "f n")
  case Parent
  then show ?thesis using assms step_parent [OF assms(2), of b] valid_after(1) [OF assms(2)]
    by (cases "parent_runs i j") (auto simp: runs_def intro: exI [of _ "Suc i"])
next
  case Child
  then show ?thesis using assms step_child [OF assms(2), of b] valid_after(2) [OF assms(2)]
    by (cases "child_runs i j") (auto simp: runs_def intro: exI [of _ i] exI [of _ "Suc j"])
qed

text \<open>The state either changes up to step \<open>n + d\<close>, or it is still the same.\<close>

lemma trace_waits:
  assumes "pp_trace f s n = pp_at b i j" "pp_valid i j"
  shows "(\<exists>m i' j'. pp_trace f s m = pp_at b i' j' \<and> pp_valid i' j' \<and> i + j < i' + j') \<or> pp_trace f s (n + d) = pp_at b i j"
proof (induction d)
  case (Suc d)
  then show ?case
  proof
    assume "pp_trace f s (n + d) = pp_at b i j"
    then obtain i' j' where "pp_trace f s (Suc (n + d)) = pp_at b i' j'" "pp_valid i' j'"
        "if runs (f (n + d)) i j then i' + j' = Suc (i + j) else i' = i \<and> j' = j" using trace_step assms(2) by blast
    then show ?case by (cases "runs (f (n + d)) i j") (metis add_Suc_right lessI)+
  qed blast
qed (use assms in simp)

lemma trace_progress:
  assumes "fair f" "pp_trace f s n = pp_at b i j" "pp_valid i j" "i + j < 17"
  shows "\<exists>m i' j'. pp_trace f s m = pp_at b i' j' \<and> pp_valid i' j' \<and> i + j < i' + j'"
proof -
  obtain w where w: "runs w i j" using someone_runs assms(3,4) unfolding runs_def by (metis who.distinct(1))
  obtain m where m: "m \<ge> n" "f m = w" using assms(1) by (auto simp: fair_def)
  consider "\<exists>m i' j'. pp_trace f s m = pp_at b i' j' \<and> pp_valid i' j' \<and> i + j < i' + j'" | "pp_trace f s m = pp_at b i j"
    using trace_waits [OF assms(2,3), of "m - n"] m(1) by auto
  then show ?thesis
  proof cases
    case 2
    then show ?thesis using trace_step [OF 2 assms(3)] w m(2) by (metis lessI)
  qed
qed

lemma trace_ends:
  assumes "fair f" "pp_trace f s n = pp_at b i j" "pp_valid i j"
  shows "\<exists>m. pp_trace f s m = pp_at b 9 8"
  using assms(2,3)
proof (induction "17 - (i + j)" arbitrary: n i j rule: less_induct)
  case less
  show ?case
  proof (cases "i + j < 17")
    case True
    then obtain m i' j' where "pp_trace f s m = pp_at b i' j'" "pp_valid i' j'" "i + j < i' + j'"
      using trace_progress assms(1) less.prems by blast
    then show ?thesis using less.hyps [of i' j' m] True by simp
  next
    case False
    then have "i = 9" "j = 8" using less.prems(2) by (auto simp: pp_valid_def)
    then show ?thesis using less.prems(1) by blast
  qed
qed

lemma trace_stays: "pp_trace f s m = pp_at b 9 8 \<Longrightarrow> m \<le> n \<Longrightarrow> pp_trace f s n = pp_at b 9 8"
proof (induction n)
  case (Suc n)
  show ?case
  proof (cases "m \<le> n")
    case True
    have "pp_step w (pp_at b 9 8) = None" for w
      using step_parent [of 9 8 b] step_child [of 9 8 b] by (cases w) (auto simp: pp_valid_def parent_runs_def child_runs_def)
    then show ?thesis using Suc True by simp
  next
    case False
    then show ?thesis using Suc by (metis le_SucE)
  qed
qed simp

lemma pp_start_at: "pp_start b = pp_at b 0 0"
  by (simp add: pp_start_def pp_at_def parent_ends_def child_ends_def fun_eq_iff)

text \<open>
  C20: under every schedule that lets each process run again and again, both processes come to their \<^verbatim>\<open>exit\<close>, with all ends of the
  pipes closed; the child has printed first, after \<^verbatim>\<open>ping\<close>, and the parent second, after \<^verbatim>\<open>pong\<close>; what follows the four letters up
  to a NUL in the buffer that was not initialised is printed with them.
\<close>

theorem pingpong_ends:
  assumes "fair f"
  shows "\<exists>s N. pingpong_main 1 True True True b = Inr s \<and> (\<forall>n\<ge>N. \<exists>s'. pp_trace f s n = s' \<and>
    code (actor_of s' Parent) = [] \<and> code (actor_of s' Child) = [] \<and> ends (actor_of s' Parent) = [] \<and> ends (actor_of s' Child) = [] \<and>
    printed s' = [(Child, ''ping'' @ printed_string (drop 4 b)), (Parent, ''pong'' @ printed_string (drop 4 b))])"
proof -
  have v: "pp_valid 0 0" by (simp add: pp_valid_def)
  have "pp_trace f (pp_start b) 0 = pp_at b 0 0" by (simp add: pp_start_at)
  then obtain N where N: "pp_trace f (pp_start b) N = pp_at b 9 8" using trace_ends [OF assms _ v] by blast
  have "pp_trace f (pp_start b) n = pp_at b 9 8" if "N \<le> n" for n using trace_stays [OF N that] .
  then show ?thesis
    by (intro exI [of _ "pp_start b"] exI [of _ N]) (simp add: pingpong_main_def pp_at_def parent_code_def child_code_def parent_ends_def child_ends_def)
qed

text \<open>The processes in turn, and a buffer that happens to hold zeros.\<close>

theorem pingpong_ends_witness:
  "\<exists>N. \<forall>n\<ge>N. printed (pp_trace (\<lambda>n. if even n then Parent else Child) (pp_start (replicate 128 (CHR 0x00))) n) =
    [(Child, ''ping''), (Parent, ''pong'')]"
proof -
  have "fair (\<lambda>n. if even n then Parent else Child)"
    unfolding fair_def
  proof (intro allI)
    fix w :: who and n :: nat
    show "\<exists>m\<ge>n. (if even m then Parent else Child) = w"
      by (cases w) (auto intro: exI [of _ "2 * n"] exI [of _ "2 * n + 1"])
  qed
  from pingpong_ends [OF this, of "replicate 128 (CHR 0x00)"]
  obtain s N where "pp_start (replicate 128 (CHR 0x00)) = s" "\<forall>n\<ge>N. printed (pp_trace (\<lambda>n. if even n then Parent else Child) s n) =
      [(Child, ''ping'' @ printed_string (drop 4 (replicate 128 (CHR 0x00)))), (Parent, ''pong'' @ printed_string (drop 4 (replicate 128 (CHR 0x00))))]"
    unfolding pingpong_main_def by auto
  moreover have "printed_string (replicate (Suc k) (CHR 0x00)) = []" for k by (simp add: printed_string_def)
  ultimately show ?thesis by (auto simp: printed_string_def)
qed

end
