(* ===== verification/Spec2Isabelle.thy ===== *)
theory Spec2Isabelle
  imports Kalloc_Single Kalloc_Percpu Vm_Props Newfs_Props Newfs_Files Bcache_Threads Pipe_Props Exec_Props Syscall_Sum Sysfile_Props Syscall_Props
    Lab2_Props Lab2_Sleep Csr Primes Xargs Find Pingpong
begin

text \<open>
  Verification of five operating-system labs: user programs for xv6 (lab 1), system calls, tracing and \<^verbatim>\<open>sysinfo\<close> (lab 2), a page
  allocator and a buffer cache with finer locks (lab 3), per-process kernel page tables (lab 4), and newfs, a file system on a block
  device under FUSE (lab 5). A path \<^verbatim>\<open>lab N kernel/f.c\<close> below is the file \<^verbatim>\<open>kernel/f.c\<close> of the directory of that lab under \<^verbatim>\<open>src/\<close>. The
  labs are separate programs; what is said of one lab's file does not carry over to another lab's file of the same name.

  \<^bold>\<open>Conventions.\<close> Machine integers are words of their width (\<open>u64\<close>, \<open>u32\<close>, \<open>u8\<close>); pointers to pages, inodes and files are \<open>u64\<close>. Physical
  memory is a function from pages and 64-bit cells to \<open>u64\<close> (\<^verbatim>\<open>Riscv\<close>). State is passed explicitly. \<open>res\<close> has \<open>Ok\<close> and \<open>Panic\<close>, so each panic is a
  value; \<open>run\<close> adds \<open>None\<close> for a run that does not end. Code outside the repository (\<^verbatim>\<open>fs.c\<close>, \<^verbatim>\<open>file.c\<close>, \<^verbatim>\<open>log.c\<close>, the disk driver, the block device
  library, \<^verbatim>\<open>memlayout.h\<close>, lab 4's \<^verbatim>\<open>kalloc\<close>) is an argument, and what is relied on is a named hypothesis (\<open>ddriver_ok\<close>, \<open>pipealloc_ok\<close>) or a
  locale assumption. Spin locks are recorded as a log of calls, checked by \<open>lock_run\<close> of \<^verbatim>\<open>Prelude\<close>.

  \<^bold>\<open>Pages and page tables.\<close>
  \<^item> \<^verbatim>\<open>Prelude\<close>, \<^verbatim>\<open>Riscv\<close>: shared lemmas; the macros of lab 4 \<^verbatim>\<open>kernel/riscv.h\<close> for pages, page-table entries and \<^verbatim>\<open>satp\<close>.
  \<^item> \<^verbatim>\<open>Page_Alloc\<close>: the contract of a page allocator as a locale and \<^verbatim>\<open>freerange\<close>. \<^verbatim>\<open>Kalloc_Single\<close> (lab 2 \<^verbatim>\<open>kernel/kalloc.c\<close>) and \<^verbatim>\<open>Kalloc_Percpu\<close> (lab 3
    \<^verbatim>\<open>kernel/kalloc.c\<close>) interpret it. Shown: \<^verbatim>\<open>kinit\<close> ends with exactly the whole pages free; \<^verbatim>\<open>kalloc\<close> takes a free page or returns 0; with the
    critical sections of several CPUs interleaved in any way no page is handed out twice.
  \<^item> \<^verbatim>\<open>Vm_Walk\<close>, \<^verbatim>\<open>Vm_User\<close>, \<^verbatim>\<open>Vm_Space\<close>, \<^verbatim>\<open>Vm_Free\<close>, \<^verbatim>\<open>Vm_Copy\<close>, \<^verbatim>\<open>Vm_Kernel\<close>, \<^verbatim>\<open>Vm_Props\<close>: every function of lab 4 \<^verbatim>\<open>kernel/vm.c\<close>. The invariant is that
    the page-table pages form a tree without sharing; the functions are described by the translation the tree gives. Shown: mapping, growing and copying address spaces do the whole
    job or undo it; freeing gives back each page once; \<^verbatim>\<open>copyout\<close> then \<^verbatim>\<open>copyin\<close> is the identity; what the failing \<^verbatim>\<open>kvmcopy\<close> leaves behind.

  \<^bold>\<open>Processes and system calls.\<close>
  \<^item> \<^verbatim>\<open>Proc\<close>, \<^verbatim>\<open>Proc_Inv\<close>, \<^verbatim>\<open>Proc_Steps\<close>, \<^verbatim>\<open>Proc_Keep\<close>, \<^verbatim>\<open>Proc_Props\<close>: every function of lab 4 \<^verbatim>\<open>kernel/proc.c\<close>. A function that switches context is split there
    (\<open>sleep\<close> and \<open>sleep_resume\<close>), and \<open>kstep\<close> is a step of a hart. Shown for every reachable state: pids are unique, parents are alive, each running
    process is on one hart, and a hart has the kernel page table of the process it runs; and what \<^verbatim>\<open>exit\<close>, \<^verbatim>\<open>wait\<close> and \<^verbatim>\<open>kill\<close> do.
  \<^item> \<^verbatim>\<open>Exec\<close>, \<^verbatim>\<open>Exec_Props\<close>: lab 4 \<^verbatim>\<open>kernel/exec.c\<close>. Shown: the call replaces the image or leaves the process alone, but for one error path.
  \<^item> \<^verbatim>\<open>Pipe\<close>, \<^verbatim>\<open>Pipe_Props\<close>: lab 4 \<^verbatim>\<open>kernel/pipe.c\<close>. The ring buffer with wrapping 32-bit counters refines a queue of bytes.
  \<^item> \<^verbatim>\<open>Syscall\<close>, \<^verbatim>\<open>Syscall_Props\<close>: lab 2 \<^verbatim>\<open>kernel/syscall.c\<close>, and of lab 2 \<^verbatim>\<open>kernel/proc.c\<close> and \<^verbatim>\<open>kernel/sysproc.c\<close> what tracing and \<^verbatim>\<open>sysinfo\<close> need. Shown: when a
    call is traced, and that the counts of \<^verbatim>\<open>sysinfo\<close> are right and do not wrap around.
  \<^item> \<^verbatim>\<open>Lab2_Proc\<close>: the rest of lab 2 \<^verbatim>\<open>kernel/proc.c\<close> and \<^verbatim>\<open>kernel/sysproc.c\<close>, split at context switches as in \<^verbatim>\<open>Proc\<close>; names that \<^verbatim>\<open>Proc\<close> has too end in 2. \<^verbatim>\<open>Lab2_Tasks\<close>: what each
    function does to an abstract view, an entry of the process table being free, off or on a processor with a trace mask. \<^verbatim>\<open>Lab2_Props\<close>: \<open>lab2_step\<close>, all interleavings of
    harts, calls and interrupts from the boot, refines \<open>task_step\<close>; so masks are inherited, changed by \<^verbatim>\<open>trace\<close> only and cleared with the entry. \<^verbatim>\<open>Lab2_Sleep\<close>: how long
    \<^verbatim>\<open>sys_sleep\<close> sleeps when the tick counter wraps around or the argument is negative.
  \<^item> \<^verbatim>\<open>Syscall_Sum\<close>: lab 4 \<^verbatim>\<open>kernel/syscall.c\<close>. Shown: the kernel can reach user memory only while arguments are copied.
  \<^item> \<^verbatim>\<open>Call_Table\<close>: the contract of a table of handlers as a locale. \<^verbatim>\<open>Sysfile\<close>, \<^verbatim>\<open>Sysfile_Props\<close>: lab 2 \<^verbatim>\<open>kernel/sysfile.c\<close>. Calls that take or give back transactions, locks and references are recorded as events and audited
    by an account; shown: every sequence of calls leaves it balanced, and a call that fails leaves descriptors and directory alone.
  \<^item> \<^verbatim>\<open>Csr\<close>: the accessors of control registers in lab 4 \<^verbatim>\<open>kernel/riscv.h\<close>, with the instructions they consist of as an argument. Shown: interrupts and the access to user memory are
    switched without touching other bits of \<^verbatim>\<open>sstatus\<close>, on a processor where these two bits can be written (\<open>sstatus_rw\<close>).
  \<^item> \<^verbatim>\<open>First_Fit\<close>: the contract of an allocator of the lowest free number as a locale, interpreted on the descriptors and on the bitmaps of newfs.

  \<^bold>\<open>Disk.\<close>
  \<^item> \<^verbatim>\<open>Bcache\<close>, \<^verbatim>\<open>Bcache_Lists\<close>, \<^verbatim>\<open>Bcache_Props\<close>, \<^verbatim>\<open>Bcache_Threads\<close>: lab 3 \<^verbatim>\<open>kernel/bio.c\<close>. The pointer structure refines lists per bucket; with interleaved critical sections
    no two buffers hold one block.
  \<^item> \<^verbatim>\<open>Newfs_Disk\<close>, \<^verbatim>\<open>Newfs_State\<close>, \<^verbatim>\<open>Newfs_Ops\<close>, \<^verbatim>\<open>Newfs_Bitmap\<close>, \<^verbatim>\<open>Newfs_Sync\<close>, \<^verbatim>\<open>Newfs_Props\<close>, \<^verbatim>\<open>Newfs_Files\<close>: lab 5 \<^verbatim>\<open>newfs/src/newfs.c\<close> and \<^verbatim>\<open>include/types.h\<close>. The device
    is an argument; structures are encoded to bytes. Shown: the driver reads what it wrote at any alignment, allocation takes the lowest free bit, writing out the
    tree writes exactly it, unmounting and mounting again keeps it, and files and directories are found again; how many inodes
    have room on the disk.

  \<^bold>\<open>User programs\<close> (lab 1): \<^verbatim>\<open>Primes\<close>, \<^verbatim>\<open>Xargs\<close>, \<^verbatim>\<open>Find\<close>, \<^verbatim>\<open>Pingpong\<close>, one theory each. Shown: the sieve of processes prints the primes; the character loop
    of \<^verbatim>\<open>xargs\<close> splits into words; \<^verbatim>\<open>find\<close> prints what a traversal of the tree finds; under every fair schedule \<^verbatim>\<open>pingpong\<close> ends.

  \<^bold>\<open>Loops.\<close> Loops with a bound in the code are structural recursions or functions with a measure; loops over pointer structures or wrapping counters, which may
  not end, are \<open>partial_function (option)\<close>, and that they return is part of the theorem about them. No fuel is used.

  \<^bold>\<open>Not modelled.\<close> \<^verbatim>\<open>defs.h\<close>, \<^verbatim>\<open>syscall.h\<close>, \<^verbatim>\<open>newfs.h\<close> and \<^verbatim>\<open>ddriver.h\<close>, which only declare; the arrays of handlers in the two \<^verbatim>\<open>syscall.c\<close>, which are arguments of the
  dispatchers, because a handler that switches has no value to return at that point; the endless loop of \<^verbatim>\<open>scheduler\<close> and \<^verbatim>\<open>wfi\<close> around the modelled pass; \<^verbatim>\<open>main\<close> and the tables for FUSE of
  \<^verbatim>\<open>newfs.c\<close>, which pass options and functions to the FUSE library; generated build files.
\<close>

end
